(* ===== verification/Prelude.thy ===== *)
theory Prelude
  imports Main "HOL-Library.Word"
begin

text \<open>
  The shared vocabulary of the development.

  \<^item> Big-endian integers in a byte string, as Python's \<^verbatim>\<open>struct\<close> reads and writes them
    (\<^verbatim>\<open>>H\<close>, \<^verbatim>\<open>>I\<close>, \<^verbatim>\<open>>i\<close>), with the round trip of the signed form.
  \<^item> A database table is a list of rows in insertion order; \<^verbatim>\<open>UPDATE ... WHERE\<close>,
    \<^verbatim>\<open>DELETE ... WHERE\<close> and \<^verbatim>\<open>SELECT ... WHERE\<close> are the three operations below.
  \<^item> Python's text and JSON values: strings are lists of code points below 256, so
    \<^verbatim>\<open>strip\<close>, \<^verbatim>\<open>lower\<close>, \<^verbatim>\<open>startswith\<close>, \<^verbatim>\<open>partition\<close>, \<^verbatim>\<open>split\<close> and \<^verbatim>\<open>str(int)\<close> are
    functions on \<open>string\<close>; a dict is an association list in insertion order.
  \<^item> The collections \<open>table_simps\<close> (rewriting of table operations) and
    \<open>frame_simps\<close> (fields an operation leaves alone) that the component proofs use.
\<close>

named_theorems table_simps
named_theorems frame_simps

section \<open>Bytes\<close>

type_synonym byte = "8 word"
type_synonym bytes = "8 word list"

definition unpack_u16 :: "bytes \<Rightarrow> nat \<Rightarrow> nat" where
  "unpack_u16 b i = unat (b ! i) * 256 + unat (b ! (i + 1))"

definition unpack_u32 :: "bytes \<Rightarrow> nat \<Rightarrow> nat" where
  "unpack_u32 b i = unpack_u16 b i * 65536 + unpack_u16 b (i + 2)"

definition unpack_i32 :: "bytes \<Rightarrow> nat \<Rightarrow> int" where
  "unpack_i32 b i =
     (let u = int (unpack_u32 b i) in if u < 2147483648 then u else u - 4294967296)"

definition unpack_i32s :: "nat \<Rightarrow> bytes \<Rightarrow> nat \<Rightarrow> int list" where
  "unpack_i32s count b i = map (\<lambda>k. unpack_i32 b (i + 4 * k)) [0..<count]"

definition pack_u16 :: "nat \<Rightarrow> bytes" where
  "pack_u16 n = [word_of_nat (n div 256), word_of_nat n]"

definition pack_i32 :: "int \<Rightarrow> bytes" where
  "pack_i32 c = [word_of_int (c div 16777216), word_of_int (c div 65536),
                 word_of_int (c div 256), word_of_int c]"

definition pack_i32s :: "int list \<Rightarrow> bytes" where
  "pack_i32s cs = concat (map pack_i32 cs)"

lemma length_pack_u16 [simp]: "length (pack_u16 n) = 2"
  by (simp add: pack_u16_def)

lemma length_pack_i32 [simp]: "length (pack_i32 c) = 4"
  by (simp add: pack_i32_def)

lemma length_pack_i32s [simp]: "length (pack_i32s cs) = 4 * length cs"
  by (induction cs) (simp_all add: pack_i32s_def)

lemma unat_byte_less: "unat (b :: byte) < 256"
  using unsigned_less [of b] by simp

lemma unpack_u16_bound: "unpack_u16 b i < 65536"
  using unat_byte_less [of "b ! i"] unat_byte_less [of "b ! (i + 1)"]
  by (simp add: unpack_u16_def)

lemma unpack_u32_bound: "unpack_u32 b i < 4294967296"
  using unpack_u16_bound [of b i] unpack_u16_bound [of b "i + 2"]
  by (simp add: unpack_u32_def)

lemma unpack_i32_range: "- 2147483648 \<le> unpack_i32 b i \<and> unpack_i32 b i < 2147483648"
  using unpack_u32_bound [of b i] by (auto simp: unpack_i32_def Let_def)

text \<open>Reading at an offset the first part of a byte string covers ignores what follows.\<close>

lemma unpack_u16_append: "i + 1 < length b \<Longrightarrow> unpack_u16 (b @ d) i = unpack_u16 b i"
  by (simp add: unpack_u16_def nth_append)

lemma unpack_u32_append: "i + 3 < length b \<Longrightarrow> unpack_u32 (b @ d) i = unpack_u32 b i"
  by (simp add: unpack_u32_def unpack_u16_append)

lemma unpack_i32s_append:
  "i + 4 * n \<le> length b \<Longrightarrow> unpack_i32s n (b @ d) i = unpack_i32s n b i"
  by (auto simp: unpack_i32s_def unpack_i32_def unpack_u32_append)

lemma unpack_u16_skip: "unpack_u16 (p @ b) (length p + i) = unpack_u16 b i"
proof -
  have "(p @ b) ! (length p + i + 1) = b ! (i + 1)"
    by (metis add.assoc nth_append_length_plus)
  then show ?thesis
    by (simp add: unpack_u16_def)
qed

lemma unpack_i32_skip: "unpack_i32 (p @ b) (length p + i) = unpack_i32 b i"
  using unpack_u16_skip [of p b i] unpack_u16_skip [of p b "i + 2"]
  by (simp add: unpack_i32_def unpack_u32_def add.assoc)

lemma unpack_u16_pack:
  assumes "n < 65536"
  shows "unpack_u16 (pack_u16 n @ d) 0 = n"
proof -
  have "unat (word_of_nat (n div 256) :: byte) = n div 256"
    using assms by (simp add: unat_of_nat)
  moreover have "unat (word_of_nat n :: byte) = n mod 256"
    by (simp add: unat_of_nat)
  ultimately show ?thesis
    by (simp add: unpack_u16_def pack_u16_def)
qed

lemma uint_word_of_int_byte: "uint (word_of_int c :: byte) = c mod 256"
  by (simp add: unsigned_of_int take_bit_int_def)

lemma byte_digits:
  fixes c :: int
  shows "c div 16777216 mod 256 * 16777216 + c div 65536 mod 256 * 65536
    + (c div 256 mod 256 * 256 + c mod 256) = c mod 4294967296"
proof -
  have "c mod (256 * 256) = 256 * (c div 256 mod 256) + c mod 256"
    by (rule zmod_zmult2_eq) simp
  moreover have "c mod (65536 * 256) = 65536 * (c div 65536 mod 256) + c mod 65536"
    by (rule zmod_zmult2_eq) simp
  moreover have "c mod (16777216 * 256) = 16777216 * (c div 16777216 mod 256) + c mod 16777216"
    by (rule zmod_zmult2_eq) simp
  ultimately show ?thesis by simp
qed

lemma unpack_u32_pack_i32: "int (unpack_u32 (pack_i32 c @ d) 0) = c mod 4294967296"
proof -
  have "int (unpack_u32 (pack_i32 c @ d) 0) =
    c div 16777216 mod 256 * 16777216 + c div 65536 mod 256 * 65536
      + (c div 256 mod 256 * 256 + c mod 256)"
    by (simp add: unpack_u32_def unpack_u16_def pack_i32_def uint_word_of_int_byte numeral_2_eq_2)
  then show ?thesis by (simp only: byte_digits)
qed

lemma unpack_i32_pack:
  assumes "- 2147483648 \<le> c" "c < 2147483648"
  shows "unpack_i32 (pack_i32 c @ d) 0 = c"
proof (cases "0 \<le> c")
  case True
  then have "c mod 4294967296 = c" using assms by simp
  then show ?thesis
    using assms by (simp add: unpack_i32_def Let_def unpack_u32_pack_i32)
next
  case False
  have "c mod 4294967296 = (c + 4294967296) mod 4294967296" by simp
  also have "\<dots> = c + 4294967296"
    using False assms by (intro mod_pos_pos_trivial) auto
  finally show ?thesis
    using assms by (simp add: unpack_i32_def Let_def unpack_u32_pack_i32)
qed

lemma unpack_i32s_Suc:
  "unpack_i32s (Suc n) b i = unpack_i32 b i # unpack_i32s n b (i + 4)"
  by (simp add: unpack_i32s_def upt_conv_Cons map_Suc_upt [symmetric] comp_def algebra_simps
      del: upt_Suc)

lemma unpack_i32s_pack:
  assumes "\<forall>c \<in> set cs. - 2147483648 \<le> c \<and> c < 2147483648"
  shows "unpack_i32s (length cs) (p @ pack_i32s cs @ d) (length p) = cs"
  using assms
proof (induction cs arbitrary: p)
  case Nil
  then show ?case by (simp add: unpack_i32s_def)
next
  case (Cons c cs)
  have "unpack_i32 (p @ pack_i32s (c # cs) @ d) (length p) = c"
    using Cons.prems unpack_i32_pack [of c] unpack_i32_skip [of p _ 0]
    by (simp add: pack_i32s_def)
  moreover have "unpack_i32s (length cs) ((p @ pack_i32 c) @ pack_i32s cs @ d)
      (length (p @ pack_i32 c)) = cs"
    using Cons.prems by (intro Cons.IH) simp
  ultimately show ?case
    by (simp add: unpack_i32s_Suc pack_i32s_def)
qed

section \<open>Tables\<close>

text \<open>\<^verbatim>\<open>UPDATE t SET f WHERE P\<close>, \<^verbatim>\<open>DELETE FROM t WHERE P\<close>, and the first row of
  \<^verbatim>\<open>SELECT * FROM t WHERE P\<close>.\<close>

definition update_where :: "('r \<Rightarrow> bool) \<Rightarrow> ('r \<Rightarrow> 'r) \<Rightarrow> 'r list \<Rightarrow> 'r list" where
  "update_where P f rows = map (\<lambda>r. if P r then f r else r) rows"

definition delete_where :: "('r \<Rightarrow> bool) \<Rightarrow> 'r list \<Rightarrow> 'r list" where
  "delete_where P rows = filter (\<lambda>r. \<not> P r) rows"

definition count_where :: "('r \<Rightarrow> bool) \<Rightarrow> 'r list \<Rightarrow> nat" where
  "count_where P rows = length (filter P rows)"

lemma set_delete_where [simp]: "set (delete_where P rows) = {r \<in> set rows. \<not> P r}"
  by (auto simp: delete_where_def)

lemma set_update_where: "set (update_where P f rows) = {if P r then f r else r |r. r \<in> set rows}"
  by (auto simp: update_where_def)

lemma length_update_where [simp]: "length (update_where P f rows) = length rows"
  by (simp add: update_where_def)

lemma map_update_where:
  "(\<And>r. P r \<Longrightarrow> k (f r) = k r) \<Longrightarrow> map k (update_where P f rows) = map k rows"
  by (simp add: update_where_def)

lemma update_where_none: "\<forall>r \<in> set rows. \<not> P r \<Longrightarrow> update_where P f rows = rows"
  by (simp add: update_where_def map_idI)

lemma count_where_0_iff: "count_where P rows = 0 \<longleftrightarrow> (\<forall>r \<in> set rows. \<not> P r)"
  by (simp add: count_where_def filter_empty_conv)

text \<open>Rows keyed by a column that a table holds at most once.\<close>

definition find_row :: "('r \<Rightarrow> bool) \<Rightarrow> 'r list \<Rightarrow> 'r option" where
  "find_row P rows = find P rows"

lemma find_row_SomeD: "find_row P rows = Some r \<Longrightarrow> r \<in> set rows \<and> P r"
  by (auto simp: find_row_def find_Some_iff)

lemma find_row_None_iff: "find_row P rows = None \<longleftrightarrow> (\<forall>r \<in> set rows. \<not> P r)"
  by (auto simp: find_row_def find_None_iff)

lemma find_row_append:
  "find_row P (xs @ ys) = (case find_row P xs of None \<Rightarrow> find_row P ys | Some x \<Rightarrow> Some x)"
  by (induction xs) (auto simp: find_row_def)

lemma find_row_unique:
  assumes "distinct (map k rows)" "r \<in> set rows"
  shows "find_row (\<lambda>x. k x = k r) rows = Some r"
  using assms by (induction rows) (auto simp: find_row_def)

lemma distinct_map_filter_rows: "distinct (map k rows) \<Longrightarrow> distinct (map k (filter P rows))"
  by (induction rows) auto

lemma distinct_map_delete_where: "distinct (map k rows) \<Longrightarrow> distinct (map k (delete_where P rows))"
  by (simp add: delete_where_def distinct_map_filter_rows)

section \<open>Python values\<close>

text \<open>\<^verbatim>\<open>dict.fromkeys\<close>: the keys in order of their first occurrence.\<close>

definition dict_fromkeys :: "'a list \<Rightarrow> 'a list" where
  "dict_fromkeys xs = rev (remdups (rev xs))"

lemma set_dict_fromkeys [simp]: "set (dict_fromkeys xs) = set xs"
  by (simp add: dict_fromkeys_def)

lemma distinct_dict_fromkeys [simp]: "distinct (dict_fromkeys xs)"
  by (simp add: dict_fromkeys_def)

text \<open>A dict comprehension: a later pair with the same key wins.\<close>

definition dict_of :: "('k \<times> 'v) list \<Rightarrow> 'k \<Rightarrow> 'v option" where
  "dict_of kvs = map_of (rev kvs)"

lemma dict_of_SomeD: "dict_of kvs k = Some v \<Longrightarrow> (k, v) \<in> set kvs"
  unfolding dict_of_def by (drule map_of_SomeD) simp

lemma dict_of_None_iff: "dict_of kvs k = None \<longleftrightarrow> k \<notin> fst ` set kvs"
  by (simp add: dict_of_def map_of_eq_None_iff)

lemma dict_of_distinct:
  "distinct (map fst kvs) \<Longrightarrow> (k, v) \<in> set kvs \<Longrightarrow> dict_of kvs k = Some v"
  unfolding dict_of_def by (rule map_of_is_SomeI) (simp_all add: rev_map [symmetric])

lemma assoc_eqI:
  assumes "map fst m' = map fst m" "distinct (map fst m)" "set m \<subseteq> set m'"
  shows "m' = m"
proof (rule nth_equalityI)
  show len: "length m' = length m" using assms(1) by (metis length_map)
  fix i assume i: "i < length m'"
  then have "m ! i \<in> set m'" using assms(3) len by auto
  then obtain j where j: "j < length m'" "m' ! j = m ! i" by (auto simp: in_set_conv_nth)
  have "fst (m' ! k) = fst (m ! k)" if "k < length m'" for k
    using assms(1) that len by (metis nth_map)
  then have "map fst m ! j = map fst m ! i" using i j len by (metis nth_map)
  then have "j = i" using nth_eq_iff_index_eq [OF assms(2), of j i] i j len by simp
  then show "m' ! i = m ! i" using j by simp
qed

text \<open>Text. Code points 9-13, 28-32, 133 and 160 are white space; 65-90 and the accented
  capitals 192-222 (not the multiplication sign) have a lower case 32 further on.\<close>

definition py_space :: "char \<Rightarrow> bool" where
  "py_space c = (let n = (of_char c :: nat) in
     9 \<le> n \<and> n \<le> 13 \<or> 28 \<le> n \<and> n \<le> 32 \<or> n = 133 \<or> n = 160)"

definition strip :: "string \<Rightarrow> string" where
  "strip s = rev (dropWhile py_space (rev (dropWhile py_space s)))"

definition lower_char :: "char \<Rightarrow> char" where
  "lower_char c = (let n = (of_char c :: nat) in
     if 65 \<le> n \<and> n \<le> 90 \<or> 192 \<le> n \<and> n \<le> 222 \<and> n \<noteq> 215 then char_of (n + 32) else c)"

definition lower :: "string \<Rightarrow> string" where
  "lower s = map lower_char s"

fun startswith :: "string \<Rightarrow> string \<Rightarrow> bool" where
  "startswith s [] = True"
| "startswith [] (p # ps) = False"
| "startswith (c # cs) (p # ps) = (c = p \<and> startswith cs ps)"

lemma startswith_iff: "startswith s p \<longleftrightarrow> (\<exists>t. s = p @ t)"
  by (induction s p rule: startswith.induct) auto

lemma startswith_append [simp]: "startswith (p @ t) p"
  by (simp add: startswith_iff)

text \<open>\<^verbatim>\<open>needle in haystack\<close> on text.\<close>

fun contains :: "string \<Rightarrow> string \<Rightarrow> bool" where
  "contains [] p = (p = [])"
| "contains (c # cs) p = (startswith (c # cs) p \<or> contains cs p)"

lemma contains_iff: "contains s p \<longleftrightarrow> (\<exists>a b. s = a @ p @ b)"
proof (induction s)
  case Nil
  then show ?case by auto
next
  case (Cons c cs)
  show ?case
  proof
    assume "contains (c # cs) p"
    then consider b where "c # cs = p @ b" | a b where "cs = a @ p @ b"
      using Cons.IH by (auto simp: startswith_iff)
    then show "\<exists>a b. c # cs = a @ p @ b"
      by cases (metis append_Nil, metis append_Cons)
  next
    assume "\<exists>a b. c # cs = a @ p @ b"
    then obtain a b where e: "c # cs = a @ p @ b" by blast
    show "contains (c # cs) p"
    proof (cases a)
      case Nil
      then have "startswith (c # cs) p" using e by (simp only: append_Nil startswith_append)
      then show ?thesis by simp
    next
      case (Cons x xs)
      then have "cs = xs @ p @ b" using e by simp
      then show ?thesis using Cons.IH by auto
    qed
  qed
qed

text \<open>\<^verbatim>\<open>s.partition(sep)\<close> for a one-character separator (the parts before and after the first
  one), \<^verbatim>\<open>s.split(sep)\<close>, and \<^verbatim>\<open>str(n)\<close>.\<close>

definition before_sep :: "char \<Rightarrow> string \<Rightarrow> string" where
  "before_sep c s = takeWhile (\<lambda>x. x \<noteq> c) s"

definition after_sep :: "char \<Rightarrow> string \<Rightarrow> string" where
  "after_sep c s = drop 1 (dropWhile (\<lambda>x. x \<noteq> c) s)"

fun split_on :: "char \<Rightarrow> string \<Rightarrow> string list" where
  "split_on c [] = [[]]"
| "split_on c (x # xs) =
     (if x = c then [] # split_on c xs
      else case split_on c xs of [] \<Rightarrow> [[x]] | p # ps \<Rightarrow> (x # p) # ps)"

definition digit_char :: "nat \<Rightarrow> char" where
  "digit_char d = char_of (48 + d)"

fun str_nat :: "nat \<Rightarrow> string" where
  "str_nat n = (if n < 10 then [digit_char n] else str_nat (n div 10) @ [digit_char (n mod 10)])"

declare str_nat.simps [simp del]

definition str_int :: "int \<Rightarrow> string" where
  "str_int i = (if i < 0 then CHR ''-'' # str_nat (nat (- i)) else str_nat (nat i))"

text \<open>JSON and YAML documents, and a database column that holds one as text: null, text that
  does not parse, or a document.\<close>

datatype json = JNull | JBool bool | JInt int | JStr string | JList "json list"
  | JObj "(string \<times> json) list"

datatype json_column = SqlNull | BadText string | Doc json

definition jget :: "string \<Rightarrow> json \<Rightarrow> json option" where
  "jget k j = (case j of JObj kvs \<Rightarrow> map_of kvs k | _ \<Rightarrow> None)"

text \<open>Python's truth of a document value.\<close>

fun truthy :: "json \<Rightarrow> bool" where
  "truthy JNull = False" | "truthy (JBool b) = b" | "truthy (JInt i) = (i \<noteq> 0)"
| "truthy (JStr s) = (s \<noteq> [])" | "truthy (JList js) = (js \<noteq> [])" | "truthy (JObj kvs) = (kvs \<noteq> [])"

text \<open>\<^verbatim>\<open>d[k] = v\<close>: in place when the key is there, else at the end.\<close>

fun dict_set :: "string \<Rightarrow> 'v \<Rightarrow> (string \<times> 'v) list \<Rightarrow> (string \<times> 'v) list" where
  "dict_set k v [] = [(k, v)]"
| "dict_set k v (kv # kvs) = (if fst kv = k then (k, v) # kvs else kv # dict_set k v kvs)"

lemma map_of_dict_set [simp]: "map_of (dict_set k v kvs) = (map_of kvs)(k \<mapsto> v)"
  by (induction kvs) (auto simp: fun_eq_iff)

text \<open>\<^verbatim>\<open>{**a, **b}\<close>.\<close>

definition dict_merge :: "(string \<times> 'v) list \<Rightarrow> (string \<times> 'v) list \<Rightarrow> (string \<times> 'v) list" where
  "dict_merge a b = foldl (\<lambda>d (k, v). dict_set k v d) a b"

lemma map_of_dict_merge: "map_of (dict_merge a b) k = (case dict_of b k of None \<Rightarrow> map_of a k | r \<Rightarrow> r)"
proof -
  have "map_of (foldl (\<lambda>d (k, v). dict_set k v d) a b) = map_of a ++ dict_of b" for b
    by (induction b rule: rev_induct) (auto simp: dict_of_def fun_eq_iff map_add_def)
  then show ?thesis by (simp add: dict_merge_def map_add_def)
qed

end
