(* ===== verification/Rfb_Filter.thy ===== *)
theory Rfb_Filter
  imports Prelude
begin

text \<open>
  The view-only console filter, \<^verbatim>\<open>control-plane/api/app/console_relay/rfb_filter.py\<close>.

  \<open>view_filter\<close> is the object's state, field by field. A method that may raise
  \<^verbatim>\<open>Violation\<close> returns the pair of its outcome (\<open>Inl\<close> the violation, \<open>Inr\<close> the value)
  and the object's state at that point, because the mutations made before a raise stay.
  The two \<^verbatim>\<open>while True\<close> loops are functions whose termination is proved: the server loop
  moves \<open>sstate\<close> strictly up, the client loop consumes bytes or starts a skip.

  The second half relates the filter to the protocol (RFC 6143, the client side): a reference
  framing \<open>hv_next\<close> of the byte stream the hypervisor receives, which knows nothing of
  the filter, and the theorems that the forwarded stream is framed by it exactly as the
  filter framed it.
\<close>

section \<open>Constants and state\<close>

definition CLOSE_POLICY :: int where "CLOSE_POLICY = 1008"
definition CLOSE_TOO_BIG :: int where "CLOSE_TOO_BIG = 1009"

definition VERSIONS :: "bytes list" where
  "VERSIONS = [[82, 70, 66, 32, 48, 48, 51, 46, 48, 48, 55, 10],
               [82, 70, 66, 32, 48, 48, 51, 46, 48, 48, 56, 10]]"

definition SECURITY_NONE :: byte where "SECURITY_NONE = 1"
definition SECURITY_VNC :: byte where "SECURITY_VNC = 2"
definition VNC_AUTH_RESPONSE :: nat where "VNC_AUTH_RESPONSE = 16"

definition SET_PIXEL_FORMAT :: byte where "SET_PIXEL_FORMAT = 0"
definition SET_ENCODINGS :: byte where "SET_ENCODINGS = 2"
definition FRAMEBUFFER_UPDATE_REQUEST :: byte where "FRAMEBUFFER_UPDATE_REQUEST = 3"
definition KEY_EVENT :: byte where "KEY_EVENT = 4"
definition POINTER_EVENT :: byte where "POINTER_EVENT = 5"
definition CLIENT_CUT_TEXT :: byte where "CLIENT_CUT_TEXT = 6"

definition FORWARD_LEN :: "byte \<Rightarrow> nat option" where
  "FORWARD_LEN = [SET_PIXEL_FORMAT \<mapsto> 20, FRAMEBUFFER_UPDATE_REQUEST \<mapsto> 10]"

definition DROP_LEN :: "byte \<Rightarrow> nat option" where
  "DROP_LEN = [KEY_EVENT \<mapsto> 8, POINTER_EVENT \<mapsto> 6]"

definition MAX_ENCODINGS :: nat where "MAX_ENCODINGS = 1024"
definition MAX_CUT_TEXT :: nat where "MAX_CUT_TEXT = 1024 * 1024"
definition MAX_FRAMED :: nat where "MAX_FRAMED = 4 + 4 * MAX_ENCODINGS"
definition MAX_NAME :: nat where "MAX_NAME = 4096"
definition MAX_SERVER_BUF :: nat where "MAX_SERVER_BUF = 24 + MAX_NAME + 64"

definition STRIPPED :: "int list" where
  "STRIPPED = [-258, -259, -305, -308, -309, -310, -312, -313, -1063131698]"

definition STRIPPED_RANGES :: "(int \<times> int) list" where
  "STRIPPED_RANGES = [(0x574D5600, 0x574D56FF)]"

definition stripped :: "int \<Rightarrow> bool" where
  "stripped code \<longleftrightarrow> code \<in> set STRIPPED \<or> (\<exists>(lo, hi) \<in> set STRIPPED_RANGES. lo \<le> code \<and> code \<le> hi)"

text \<open>The constants of the wire format, for \<open>simp\<close>.\<close>

lemmas rfb_consts =
  SECURITY_NONE_def SECURITY_VNC_def VNC_AUTH_RESPONSE_def SET_PIXEL_FORMAT_def SET_ENCODINGS_def
  FRAMEBUFFER_UPDATE_REQUEST_def KEY_EVENT_def POINTER_EVENT_def CLIENT_CUT_TEXT_def
  FORWARD_LEN_def DROP_LEN_def MAX_ENCODINGS_def MAX_CUT_TEXT_def MAX_FRAMED_def MAX_NAME_def
  MAX_SERVER_BUF_def

datatype cl_state = CL_VERSION | CL_SECURITY | CL_AUTH | CL_INIT | CL_MESSAGES

datatype sv_state = SV_VERSION | SV_VERSION_WAIT | SV_LIST | SV_CHOICE_WAIT | SV_CHALLENGE
  | SV_RESULT | SV_INIT_WAIT | SV_INIT | SV_DONE

text \<open>The server states are \<^verbatim>\<open>range(9)\<close> in the code, which compares them with \<open>\<ge>\<close>.\<close>

primrec sv_rank :: "sv_state \<Rightarrow> nat" where
  "sv_rank SV_VERSION = 0"
| "sv_rank SV_VERSION_WAIT = 1"
| "sv_rank SV_LIST = 2"
| "sv_rank SV_CHOICE_WAIT = 3"
| "sv_rank SV_CHALLENGE = 4"
| "sv_rank SV_RESULT = 5"
| "sv_rank SV_INIT_WAIT = 6"
| "sv_rank SV_INIT = 7"
| "sv_rank SV_DONE = 8"

lemma sv_rank_inj: "sv_rank a = sv_rank b \<Longrightarrow> a = b"
  by (cases a; cases b) simp_all

instantiation sv_state :: linorder
begin

definition less_eq_sv_state :: "sv_state \<Rightarrow> sv_state \<Rightarrow> bool" where
  "less_eq_sv_state a b \<longleftrightarrow> sv_rank a \<le> sv_rank b"

definition less_sv_state :: "sv_state \<Rightarrow> sv_state \<Rightarrow> bool" where
  "less_sv_state a b \<longleftrightarrow> sv_rank a < sv_rank b"

instance
  by standard (auto simp: less_eq_sv_state_def less_sv_state_def intro: sv_rank_inj)

end

datatype violation = Violation (vcode: int) (vreason: string)

record view_filter =
  buf :: bytes
  state :: cl_state
  skip :: nat
  dead :: bool
  dropped :: nat
  sbuf :: bytes
  sstate :: sv_state
  sver :: nat
  cver :: nat
  offered :: "byte set option"
  choice :: byte
  challenge_seen :: bool
  security_done :: bool
  serverinit_seen :: bool

definition init_filter :: view_filter where
  "init_filter = \<lparr>buf = [], state = CL_VERSION, skip = 0, dead = False, dropped = 0,
     sbuf = [], sstate = SV_VERSION, sver = 0, cver = 0, offered = None, choice = 0,
     challenge_seen = False, security_done = False, serverinit_seen = False\<rparr>"

definition v_version :: violation where
  "v_version = Violation CLOSE_POLICY ''This console speaks a protocol version that is not supported''"

definition v_refused :: violation where
  "v_refused = Violation CLOSE_POLICY ''The machine refused the console connection''"

definition v_input :: violation where
  "v_input = Violation CLOSE_POLICY ''Input is not allowed on a view-only console''"

text \<open>\<^verbatim>\<open>VERSIONS.index(version) + 7\<close>, for a version that is in the list.\<close>

definition version_minor :: "bytes \<Rightarrow> nat" where
  "version_minor v = (if v = VERSIONS ! 0 then 7 else 8)"

section \<open>The server's side\<close>

text \<open>One pass of the body of \<^verbatim>\<open>_advance_server\<close>: return, go round again, or raise.\<close>

datatype server_step = Stay view_filter | Again view_filter | Refuse violation view_filter

definition server_item :: "view_filter \<Rightarrow> server_step" where
  "server_item f =
    (case sstate f of
       SV_VERSION \<Rightarrow>
         if length (sbuf f) < 12 then Stay f
         else let version = take 12 (sbuf f) in
           if version \<notin> set VERSIONS then Refuse v_version f
           else Again (f\<lparr>sver := version_minor version, sbuf := drop 12 (sbuf f),
                         sstate := SV_VERSION_WAIT\<rparr>)
     | SV_LIST \<Rightarrow>
         (case sbuf f of
            [] \<Rightarrow> Stay f
          | c # _ \<Rightarrow>
              let count = unat c in
              if count = 0 then Refuse v_refused f
              else if length (sbuf f) < 1 + count then Stay f
              else Again (f\<lparr>offered := Some (set (take count (drop 1 (sbuf f)))),
                            sbuf := drop (1 + count) (sbuf f), sstate := SV_CHOICE_WAIT\<rparr>))
     | SV_CHALLENGE \<Rightarrow>
         if length (sbuf f) < VNC_AUTH_RESPONSE then Stay f
         else Again (f\<lparr>sbuf := drop VNC_AUTH_RESPONSE (sbuf f), challenge_seen := True,
                       sstate := SV_RESULT\<rparr>)
     | SV_RESULT \<Rightarrow>
         if length (sbuf f) < 4 then Stay f
         else if take 4 (sbuf f) \<noteq> [0, 0, 0, 0] then Refuse v_refused f
         else Again (f\<lparr>sbuf := drop 4 (sbuf f), security_done := True, sstate := SV_INIT_WAIT\<rparr>)
     | SV_INIT \<Rightarrow>
         if length (sbuf f) < 24 then Stay f
         else let name_len = unpack_u32 (sbuf f) 20 in
           if name_len > MAX_NAME
           then Refuse (Violation CLOSE_TOO_BIG ''The machine's console announced an oversize name'') f
           else if length (sbuf f) < 24 + name_len then Stay f
           else Stay (f\<lparr>serverinit_seen := True, sstate := SV_DONE, sbuf := []\<rparr>)
     | _ \<Rightarrow> Stay f)"

text \<open>Going round again always moves the server's state up: what ends the loop.\<close>

lemma server_item_Again_up: "server_item f = Again g \<Longrightarrow> sstate f < sstate g"
  by (auto simp: server_item_def Let_def less_sv_state_def
      split: sv_state.splits if_splits list.splits)

function advance_server :: "view_filter \<Rightarrow> (violation + unit) \<times> view_filter" where
  "advance_server f =
    (case server_item f of
       Stay g \<Rightarrow> (Inr (), g)
     | Again g \<Rightarrow> advance_server g
     | Refuse v g \<Rightarrow> (Inl v, g))"
  by pat_completeness auto
termination
proof (relation "measure (\<lambda>f. 8 - sv_rank (sstate f))")
  show "wf (measure (\<lambda>f. 8 - sv_rank (sstate f)))" by simp
next
  fix f g :: view_filter
  assume "server_item f = Again g"
  then have "sv_rank (sstate f) < sv_rank (sstate g)"
    using server_item_Again_up by (simp add: less_sv_state_def)
  moreover have "sv_rank (sstate g) \<le> 8" by (cases "sstate g") simp_all
  ultimately show "(g, f) \<in> measure (\<lambda>f. 8 - sv_rank (sstate f))" by simp
qed

declare advance_server.simps [simp del]

definition feed_server :: "view_filter \<Rightarrow> bytes \<Rightarrow> (violation + unit) \<times> view_filter" where
  "feed_server f data =
    (if dead f then (Inl v_input, f)
     else if sstate f = SV_DONE then (Inr (), f)
     else case advance_server (f\<lparr>sbuf := sbuf f @ data\<rparr>) of
            (Inl v, g) \<Rightarrow> (Inl v, g\<lparr>dead := True\<rparr>)
          | (Inr _, g) \<Rightarrow>
              if length (sbuf g) > MAX_SERVER_BUF
              then (Inl (Violation CLOSE_TOO_BIG ''The machine's console sent more than a handshake allows''),
                    g\<lparr>dead := True\<rparr>)
              else (Inr (), g))"

section \<open>The client's side\<close>

definition held :: "view_filter \<Rightarrow> nat" where
  "held f = length (buf f)"

definition handshaken :: "view_filter \<Rightarrow> bool" where
  "handshaken f \<longleftrightarrow> state f = CL_MESSAGES \<and> serverinit_seen f"

definition v_not_ready :: violation where
  "v_not_ready = Violation CLOSE_POLICY ''The console is not ready for that yet''"

text \<open>A unit's outcome: the bytes consumed (0: more are needed) and the list of messages to
  forward, \<^verbatim>\<open>out\<close>, which the code appends to in place.\<close>

type_synonym unit_result = "(violation + nat \<times> bytes list) \<times> view_filter"

definition pass_unit :: "view_filter \<Rightarrow> bytes list \<Rightarrow> nat \<Rightarrow> cl_state \<Rightarrow> (nat \<times> bytes list) \<times> view_filter" where
  "pass_unit f out n next_state =
    ((n, out @ [take n (buf f)]), f\<lparr>buf := drop n (buf f), state := next_state\<rparr>)"

text \<open>\<^verbatim>\<open>n = self._pass(...); self._advance_server(); return n\<close>.\<close>

definition then_advance :: "(nat \<times> bytes list) \<times> view_filter \<Rightarrow> unit_result" where
  "then_advance r =
    (case advance_server (snd r) of
       (Inl v, g) \<Rightarrow> (Inl v, g)
     | (Inr _, g) \<Rightarrow> (Inr (fst r), g))"

definition message :: "view_filter \<Rightarrow> bytes list \<Rightarrow> unit_result" where
  "message f out =
    (case buf f of
       [] \<Rightarrow> (Inr (0, out), f)
     | kind # _ \<Rightarrow>
        (case FORWARD_LEN kind of
           Some n \<Rightarrow>
             if length (buf f) < n then (Inr (0, out), f)
             else (Inr (n, out @ [take n (buf f)]), f\<lparr>buf := drop n (buf f)\<rparr>)
         | None \<Rightarrow>
             if kind = SET_ENCODINGS then
               (if length (buf f) < 4 then (Inr (0, out), f)
                else let count = unpack_u16 (buf f) 2 in
                  if count > MAX_ENCODINGS
                  then (Inl (Violation CLOSE_TOO_BIG ''Too many encodings offered''), f)
                  else let n = 4 + 4 * count in
                    if length (buf f) < n then (Inr (0, out), f)
                    else let codes = filter (\<lambda>c. \<not> stripped c) (unpack_i32s count (buf f) 4) in
                      (Inr (n, out @ [[SET_ENCODINGS, 0] @ pack_u16 (length codes) @ pack_i32s codes]),
                       f\<lparr>buf := drop n (buf f)\<rparr>))
             else (case DROP_LEN kind of
                Some n \<Rightarrow> (Inr (1, out), f\<lparr>skip := n, dropped := dropped f + 1\<rparr>)
              | None \<Rightarrow>
                  if kind = CLIENT_CUT_TEXT then
                    (if length (buf f) < 8 then (Inr (0, out), f)
                     else let len = unpack_u32 (buf f) 4 in
                       if len > MAX_CUT_TEXT
                       then (Inl (Violation CLOSE_TOO_BIG ''Clipboard text is too large''), f)
                       else (Inr (1, out), f\<lparr>skip := 8 + len, dropped := dropped f + 1\<rparr>))
                  else (Inl (Violation CLOSE_POLICY ''That input is not allowed on a view-only console''), f))))"

definition next_unit :: "view_filter \<Rightarrow> bytes list \<Rightarrow> unit_result" where
  "next_unit f out =
    (case buf f of
       [] \<Rightarrow> (Inr (0, out), f)
     | b0 # _ \<Rightarrow>
        (case state f of
           CL_VERSION \<Rightarrow>
             if \<not> sstate f \<ge> SV_VERSION_WAIT then (Inl v_not_ready, f)
             else if length (buf f) < 12 then (Inr (0, out), f)
             else let version = take 12 (buf f) in
               if version \<notin> set VERSIONS then (Inl v_version, f)
               else let f1 = f\<lparr>cver := version_minor version\<rparr> in
                 if cver f1 > sver f1
                 then (Inl (Violation CLOSE_POLICY ''That protocol version is newer than the console's''), f1)
                 else then_advance (pass_unit (f1\<lparr>sstate := SV_LIST\<rparr>) out 12 CL_SECURITY)
         | CL_SECURITY \<Rightarrow>
             (case offered f of
                None \<Rightarrow> (Inl v_not_ready, f)
              | Some types \<Rightarrow>
                  if b0 \<notin> {SECURITY_NONE, SECURITY_VNC} \<or> b0 \<notin> types
                  then (Inl (Violation CLOSE_POLICY ''This console's security type is not supported''), f)
                  else let f1 = f\<lparr>choice := b0\<rparr>;
                           f2 = (if b0 = SECURITY_VNC then f1\<lparr>sstate := SV_CHALLENGE\<rparr>
                                 else if cver f1 \<ge> 8 then f1\<lparr>sstate := SV_RESULT\<rparr>
                                 else f1\<lparr>security_done := True, sstate := SV_INIT_WAIT\<rparr>)
                       in then_advance (pass_unit f2 out 1 (if b0 = SECURITY_VNC then CL_AUTH else CL_INIT)))
         | CL_AUTH \<Rightarrow>
             if \<not> challenge_seen f then (Inl v_not_ready, f)
             else if length (buf f) < VNC_AUTH_RESPONSE then (Inr (0, out), f)
             else (case pass_unit f out VNC_AUTH_RESPONSE CL_INIT of (r, g) \<Rightarrow> (Inr r, g))
         | CL_INIT \<Rightarrow>
             if \<not> security_done f then (Inl v_not_ready, f)
             else then_advance ((1, out @ [[1]]),
                    f\<lparr>buf := drop 1 (buf f), state := CL_MESSAGES, sstate := SV_INIT\<rparr>)
         | CL_MESSAGES \<Rightarrow>
             if \<not> serverinit_seen f then (Inl v_not_ready, f)
             else message f out))"

section \<open>The client's loop\<close>

text \<open>What the server loop leaves alone.\<close>

primrec step_filter :: "server_step \<Rightarrow> view_filter" where
  "step_filter (Stay g) = g"
| "step_filter (Again g) = g"
| "step_filter (Refuse v g) = g"

lemma server_item_frame [frame_simps]:
  shows "buf (step_filter (server_item f)) = buf f"
    and "state (step_filter (server_item f)) = state f"
    and "skip (step_filter (server_item f)) = skip f"
    and "dead (step_filter (server_item f)) = dead f"
    and "dropped (step_filter (server_item f)) = dropped f"
    and "cver (step_filter (server_item f)) = cver f"
    and "choice (step_filter (server_item f)) = choice f"
  by (cases "sstate f"; simp add: server_item_def Let_def split: list.split)+

lemma advance_server_rule:
  assumes adv: "advance_server f = (r, g)" and "P f"
    and item: "\<And>h. P h \<Longrightarrow> P (step_filter (server_item h))"
  shows "P g"
  using adv \<open>P f\<close>
proof (induction f rule: advance_server.induct)
  case (1 f)
  show ?case
  proof (cases "server_item f")
    case (Again h)
    then show ?thesis using "1.IH" "1.prems" item [of f] by (simp add: advance_server.simps [of f])
  qed (use "1.prems" item [of f] in \<open>auto simp: advance_server.simps [of f]\<close>)
qed

lemma advance_server_frame:
  assumes "advance_server f = (r, g)"
  shows "buf g = buf f \<and> state g = state f \<and> skip g = skip f \<and> dead g = dead f
   \<and> dropped g = dropped f \<and> cver g = cver f \<and> choice g = choice f"
  by (rule advance_server_rule [OF assms]) (simp_all add: frame_simps)

text \<open>The measure of the client loop: a byte counts two, a loop not in a skip one more.\<close>

definition loop_measure :: "view_filter \<Rightarrow> nat" where
  "loop_measure f = 2 * length (buf f) + (if skip f = 0 then 1 else 0)"

lemma then_advance_Inr:
  assumes "then_advance ((n, out), f) = (Inr (m, out'), g)"
  shows "m = n \<and> out' = out \<and> buf g = buf f \<and> skip g = skip f \<and> dead g = dead f
    \<and> state g = state f \<and> cver g = cver f \<and> choice g = choice f \<and> dropped g = dropped f"
  using assms by (auto simp: then_advance_def dest!: advance_server_frame split: prod.splits sum.splits)

lemma next_unit_progress:
  assumes "next_unit f out = (Inr (n, out'), g)" "n \<noteq> 0" "skip f = 0"
  shows "loop_measure g < loop_measure f"
  using assms
  by (auto simp: next_unit_def message_def pass_unit_def loop_measure_def Let_def rfb_consts
      dest!: then_advance_Inr
      split: list.splits cl_state.splits if_splits option.splits)

function run_loop :: "view_filter \<Rightarrow> bytes list \<Rightarrow> (violation + bytes list) \<times> view_filter" where
  "run_loop f out =
    (if skip f \<noteq> 0 then
       let n = min (skip f) (length (buf f));
           g = f\<lparr>buf := drop n (buf f), skip := skip f - n\<rparr>
       in if skip g \<noteq> 0 then (Inr out, g) else run_loop g out
     else case next_unit f out of
            (Inl v, g) \<Rightarrow> (Inl v, g)
          | (Inr (take_n, out'), g) \<Rightarrow> if take_n = 0 then (Inr out', g) else run_loop g out')"
  by pat_completeness auto
termination
  by (relation "measure (\<lambda>(f, out). loop_measure f)")
    (auto simp: Let_def dest: next_unit_progress [OF sym], auto simp: loop_measure_def)

declare run_loop.simps [simp del]

text \<open>The loop's four exits and its two ways round, as rewrite rules and as an induction rule.\<close>

lemma run_loop_skipping:
  "length (buf f) < skip f \<Longrightarrow> run_loop f out = (Inr out, f\<lparr>buf := [], skip := skip f - length (buf f)\<rparr>)"
  by (simp add: run_loop.simps [of f] Let_def)

lemma run_loop_skipped:
  "skip f \<noteq> 0 \<Longrightarrow> skip f \<le> length (buf f) \<Longrightarrow>
   run_loop f out = run_loop (f\<lparr>buf := drop (skip f) (buf f), skip := 0\<rparr>) out"
  by (simp add: run_loop.simps [of f] Let_def min_absorb1)

lemma run_loop_refused:
  "skip f = 0 \<Longrightarrow> next_unit f out = (Inl v, g) \<Longrightarrow> run_loop f out = (Inl v, g)"
  by (simp add: run_loop.simps [of f])

lemma run_loop_more:
  "skip f = 0 \<Longrightarrow> next_unit f out = (Inr (0, out'), g) \<Longrightarrow> run_loop f out = (Inr out', g)"
  by (simp add: run_loop.simps [of f])

lemma run_loop_step:
  "skip f = 0 \<Longrightarrow> next_unit f out = (Inr (n, out'), g) \<Longrightarrow> n \<noteq> 0 \<Longrightarrow> run_loop f out = run_loop g out'"
  by (simp add: run_loop.simps [of f])

lemma run_loop_induct [case_names skipping skipped refused more step]:
  assumes "\<And>f out. length (buf f) < skip f \<Longrightarrow> P f out"
    and "\<And>f out. skip f \<noteq> 0 \<Longrightarrow> skip f \<le> length (buf f) \<Longrightarrow>
           P (f\<lparr>buf := drop (skip f) (buf f), skip := 0\<rparr>) out \<Longrightarrow> P f out"
    and "\<And>f out v g. skip f = 0 \<Longrightarrow> next_unit f out = (Inl v, g) \<Longrightarrow> P f out"
    and "\<And>f out out' g. skip f = 0 \<Longrightarrow> next_unit f out = (Inr (0, out'), g) \<Longrightarrow> P f out"
    and "\<And>f out n out' g. skip f = 0 \<Longrightarrow> next_unit f out = (Inr (n, out'), g) \<Longrightarrow> n \<noteq> 0 \<Longrightarrow>
           P g out' \<Longrightarrow> P f out"
  shows "P f out"
proof (induction "loop_measure f" arbitrary: f out rule: less_induct)
  case (less f out)
  show ?case
  proof (cases "skip f = 0")
    case True
    obtain u g where u: "next_unit f out = (u, g)" by fastforce
    show ?thesis
    proof (cases u)
      case (Inr p)
      then obtain n out' where "u = Inr (n, out')" by (cases p) auto
      with u True less.hyps next_unit_progress assms(4,5) show ?thesis by (cases "n = 0") blast+
    qed (use u True assms(3) in blast)
  next
    case False
    show ?thesis
    proof (cases "skip f \<le> length (buf f)")
      case True
      then have "loop_measure (f\<lparr>buf := drop (skip f) (buf f), skip := 0\<rparr>) < loop_measure f"
        using False by (simp add: loop_measure_def)
      with less.hyps assms(2) True False show ?thesis by blast
    qed (use assms(1) in simp)
  qed
qed

definition run :: "view_filter \<Rightarrow> bytes \<Rightarrow> (violation + bytes list) \<times> view_filter" where
  "run f data = run_loop (f\<lparr>buf := buf f @ data\<rparr>) []"

definition feed :: "view_filter \<Rightarrow> bytes \<Rightarrow> (violation + bytes list) \<times> view_filter" where
  "feed f data =
    (if dead f then (Inl v_input, f)
     else case run f data of
            (Inl v, g) \<Rightarrow> (Inl v, g\<lparr>dead := True\<rparr>)
          | (Inr out, g) \<Rightarrow> (Inr out, g))"

section \<open>The stream, not its chunks\<close>

text \<open>More client bytes behind those already held, and the same for one server step.\<close>

definition more_input :: "view_filter \<Rightarrow> bytes \<Rightarrow> view_filter" where
  "more_input f d = f\<lparr>buf := buf f @ d\<rparr>"

lemma more_input_simps [simp]:
  "buf (more_input f d) = buf f @ d" "state (more_input f d) = state f" "skip (more_input f d) = skip f"
  "dead (more_input f d) = dead f" "sstate (more_input f d) = sstate f" "sver (more_input f d) = sver f"
  "offered (more_input f d) = offered f" "challenge_seen (more_input f d) = challenge_seen f"
  "security_done (more_input f d) = security_done f" "serverinit_seen (more_input f d) = serverinit_seen f"
  "cver (more_input f d) = cver f" "dropped (more_input f d) = dropped f" "sbuf (more_input f d) = sbuf f"
  by (simp_all add: more_input_def)

lemma more_input_extend: "more_input (more_input f d) e = more_input f (d @ e)"
  by (simp add: more_input_def)

primrec map_step :: "(view_filter \<Rightarrow> view_filter) \<Rightarrow> server_step \<Rightarrow> server_step" where
  "map_step h (Stay g) = Stay (h g)"
| "map_step h (Again g) = Again (h g)"
| "map_step h (Refuse v g) = Refuse v (h g)"

lemma server_item_buf: "server_item (f\<lparr>buf := b\<rparr>) = map_step (\<lambda>g. g\<lparr>buf := b\<rparr>) (server_item f)"
  by (cases "sstate f") (simp_all add: server_item_def Let_def split: list.split)

lemma advance_server_buf:
  "advance_server (f\<lparr>buf := b\<rparr>) = (let (r, g) = advance_server f in (r, g\<lparr>buf := b\<rparr>))"
proof (induction f rule: advance_server.induct)
  case (1 f)
  then show ?case
    by (cases "server_item f")
      (simp_all add: advance_server.simps [of f] advance_server.simps [of "f\<lparr>buf := b\<rparr>"] server_item_buf)
qed

lemma then_advance_extend:
  "then_advance (r, more_input f d) = (let (x, g) = then_advance (r, f) in (x, more_input g d))"
proof -
  obtain x g where adv: "advance_server f = (x, g)" by fastforce
  then have "buf g = buf f" by (simp add: advance_server_frame)
  with adv show ?thesis
    by (auto simp: then_advance_def more_input_def advance_server_buf split: sum.split)
qed

text \<open>A unit that was complete, or refused, is judged the same whatever follows it; one that
  needs more bytes changes nothing.\<close>

lemma more_input_updates [simp]:
  "(more_input f d)\<lparr>cver := a\<rparr> = more_input (f\<lparr>cver := a\<rparr>) d"
  "(more_input f d)\<lparr>sstate := s\<rparr> = more_input (f\<lparr>sstate := s\<rparr>) d"
  "(more_input f d)\<lparr>choice := c\<rparr> = more_input (f\<lparr>choice := c\<rparr>) d"
  "(more_input f d)\<lparr>security_done := e\<rparr> = more_input (f\<lparr>security_done := e\<rparr>) d"
  "(more_input f d)\<lparr>skip := n\<rparr> = more_input (f\<lparr>skip := n\<rparr>) d"
  "(more_input f d)\<lparr>dropped := n\<rparr> = more_input (f\<lparr>dropped := n\<rparr>) d"
  by (simp_all add: more_input_def)

lemma more_input_drop:
  "n \<le> length (buf f) \<Longrightarrow> (more_input f d)\<lparr>buf := drop n (buf (more_input f d))\<rparr> = more_input (f\<lparr>buf := drop n (buf f)\<rparr>) d"
  by (simp add: more_input_def)

lemma pass_unit_extend:
  "n \<le> length (buf f) \<Longrightarrow>
   then_advance (pass_unit (more_input f d) out n st)
     = (let (x, g) = then_advance (pass_unit f out n st) in (x, more_input g d))"
proof -
  assume n: "n \<le> length (buf f)"
  have "pass_unit (more_input f d) out n st = (fst (pass_unit f out n st), more_input (snd (pass_unit f out n st)) d)"
    using n by (simp add: pass_unit_def more_input_def)
  then show ?thesis
    using then_advance_extend [of "fst (pass_unit f out n st)" "snd (pass_unit f out n st)" d] by simp
qed

lemma message_extend:
  assumes m: "message f out = (r, g)" and r: "\<And>out'. r \<noteq> Inr (0, out')"
  shows "message (more_input f d) out = (r, more_input g d)"
proof -
  obtain kind bs where b: "buf f = kind # bs"
    using m r by (cases "buf f") (auto simp: message_def)
  show ?thesis
  proof (cases "FORWARD_LEN kind")
    case (Some n)
    with m r b show ?thesis
      by (cases n) (auto simp: message_def more_input_def split: if_splits)
  next
    case None
    note fwd = this
    show ?thesis
    proof (cases "kind = SET_ENCODINGS")
      case True
      with m r b fwd show ?thesis
        using unpack_u16_append [of 2 "buf f" d] unpack_i32s_append [of 4 "unpack_u16 (buf f) 2" "buf f" d]
        by (auto simp: message_def more_input_def Let_def drop_Cons' split: if_splits)
    next
      case False
      show ?thesis
      proof (cases "DROP_LEN kind")
        case None
        with m r b fwd False show ?thesis
          using unpack_u32_append [of 4 "buf f" d]
          by (auto simp: message_def more_input_def Let_def split: if_splits)
      qed (use m b fwd False in \<open>auto simp: message_def more_input_def\<close>)
    qed
  qed
qed

lemma message_more: "message f out = (Inr (0, out'), g) \<Longrightarrow> g = f \<and> out' = out"
  by (auto simp: message_def Let_def rfb_consts split: list.splits option.splits if_splits)

lemma then_advance_not_0: "then_advance ((n, out), f) = (Inr (0, out'), g) \<Longrightarrow> n = 0"
  by (auto dest: then_advance_Inr)

lemma next_unit_more: "next_unit f out = (Inr (0, out'), g) \<Longrightarrow> g = f \<and> out' = out"
  by (auto simp: next_unit_def pass_unit_def Let_def rfb_consts
      dest!: then_advance_not_0 dest: message_more
      split: list.splits cl_state.splits if_splits option.splits)

lemma next_unit_extend:
  assumes u: "next_unit f out = (r, g)" and r: "\<And>out'. r \<noteq> Inr (0, out')"
  shows "next_unit (more_input f d) out = (r, more_input g d)"
proof -
  obtain b0 bs where b: "buf f = b0 # bs"
    using u r by (cases "buf f") (auto simp: next_unit_def)
  show ?thesis
  proof (cases "state f")
    case CL_VERSION
    with u r b show ?thesis
      by (auto simp: next_unit_def Let_def not_less pass_unit_extend split: if_splits)
  next
    case CL_SECURITY
    with u b show ?thesis
      by (auto simp: next_unit_def Let_def pass_unit_extend split: if_splits option.splits)
  next
    case CL_AUTH
    with u r b show ?thesis
      by (auto simp: next_unit_def pass_unit_def more_input_def rfb_consts not_less split: if_splits)
  next
    case CL_INIT
    have "(more_input f d)\<lparr>buf := drop 1 (buf (more_input f d)), state := CL_MESSAGES, sstate := SV_INIT\<rparr>
      = more_input (f\<lparr>buf := drop 1 (buf f), state := CL_MESSAGES, sstate := SV_INIT\<rparr>) d"
      using b by (simp add: more_input_def)
    with CL_INIT u b show ?thesis
      by (auto simp: next_unit_def then_advance_extend split: if_splits)
  next
    case CL_MESSAGES
    with u r b message_extend [of f out r g d] show ?thesis
      by (auto simp: next_unit_def split: if_splits)
  qed
qed

text \<open>The messages already collected only ever stay in front.\<close>

definition out_front :: "bytes list \<Rightarrow> unit_result \<Rightarrow> unit_result" where
  "out_front p x = (map_sum id (apsnd ((@) p)) (fst x), snd x)"

lemma message_out: "message f (p @ out) = out_front p (message f out)"
  by (auto simp: message_def Let_def out_front_def split: list.split option.split)

lemma then_advance_out: "then_advance ((n, p @ out), f) = out_front p (then_advance ((n, out), f))"
  by (auto simp: then_advance_def out_front_def split: prod.split sum.split)

lemma then_advance_pass_out:
  "then_advance (pass_unit f (p @ out) n st) = out_front p (then_advance (pass_unit f out n st))"
  using then_advance_out [of n p "out @ [take n (buf f)]"] by (simp add: pass_unit_def)

lemma next_unit_out: "next_unit f (p @ out) = out_front p (next_unit f out)"
proof (cases "buf f")
  case (Cons b0 bs)
  show ?thesis
  proof (cases "state f")
    case CL_VERSION
    with Cons show ?thesis
      by (auto simp: next_unit_def Let_def then_advance_pass_out) (auto simp: out_front_def)
  next
    case CL_SECURITY
    with Cons show ?thesis
      by (auto simp: next_unit_def Let_def then_advance_pass_out split: option.split)
        (auto simp: out_front_def)
  next
    case CL_INIT
    with Cons show ?thesis
      using then_advance_out [of 1 p "out @ [[1]]"]
      by (auto simp: next_unit_def) (auto simp: out_front_def)
  qed (use Cons in \<open>auto simp: next_unit_def message_out pass_unit_def out_front_def\<close>)
qed (simp add: next_unit_def out_front_def)

lemma run_loop_out:
  "run_loop f (p @ out) = (let (r, g) = run_loop f out in (map_sum id ((@) p) r, g))"
proof (induction f out rule: run_loop_induct)
  case (step f out n out' g)
  then have "next_unit f (p @ out) = (Inr (n, p @ out'), g)"
    by (simp add: next_unit_out out_front_def)
  with step show ?case by (simp add: run_loop_step [of f])
qed (auto simp: run_loop_skipping run_loop_skipped run_loop_refused run_loop_more next_unit_out out_front_def
    run_loop.simps [of _ "p @ _"])

text \<open>The loop over some bytes, then over more, is the loop over all of them.\<close>

lemma more_input_buf [simp]: "(more_input f d)\<lparr>buf := x\<rparr> = f\<lparr>buf := x\<rparr>"
  by (simp add: more_input_def)

lemma skip_extend:
  assumes "length (buf f) < skip f"
  shows "run_loop (more_input f d) out =
    run_loop (more_input (f\<lparr>buf := [], skip := skip f - length (buf f)\<rparr>) d) out"
    (is "_ = run_loop (more_input ?h d) out")
proof -
  have n: "min (skip f) (length (buf f) + length d) = length (buf f) + min (skip f - length (buf f)) (length d)"
    using assms by auto
  have "f\<lparr>buf := drop (length (buf f) + m) (buf f @ d), skip := skip f - (length (buf f) + m)\<rparr>
    = ?h\<lparr>buf := drop m d, skip := skip f - length (buf f) - m\<rparr>" for m
    by simp
  with assms n show ?thesis
    by (simp add: run_loop.simps [of "more_input f d"] run_loop.simps [of "more_input ?h d"] Let_def)
qed

lemma run_loop_extend:
  "run_loop (more_input f d) out =
     (case run_loop f out of
        (Inl v, g) \<Rightarrow> (Inl v, more_input g d)
      | (Inr out', g) \<Rightarrow> run_loop (more_input g d) out')"
proof (induction f out rule: run_loop_induct)
  case (skipping f out)
  then show ?case using skip_extend [of f d out] by (simp add: run_loop_skipping)
next
  case (skipped f out)
  have "run_loop (more_input f d) out
    = run_loop (more_input (f\<lparr>buf := drop (skip f) (buf f), skip := 0\<rparr>) d) out"
    using skipped.hyps run_loop_skipped [of "more_input f d" out] by (cases f) (simp add: more_input_def)
  with skipped show ?case by (simp add: run_loop_skipped [of f])
next
  case (refused f out v g)
  then have "next_unit (more_input f d) out = (Inl v, more_input g d)"
    using next_unit_extend [of f out "Inl v" g d] by simp
  with refused show ?case by (simp add: run_loop_refused)
next
  case (more f out out' g)
  then show ?case using next_unit_more [of f out out' g] by (simp add: run_loop_more)
next
  case (step f out n out' g)
  then have "next_unit (more_input f d) out = (Inr (n, out'), more_input g d)"
    using next_unit_extend [of f out "Inr (n, out')" g d] by simp
  with step show ?case by (simp add: run_loop_step [of f] run_loop_step [of "more_input f d"])
qed

lemma run_loop_dead: "dead (snd (run_loop f out)) = dead f"
proof (induction f out rule: run_loop_induct)
  case (step f out n out' g)
  then have "dead g = dead f"
    by (auto simp: next_unit_def pass_unit_def message_def Let_def dest!: then_advance_Inr
        split: list.splits cl_state.splits if_splits option.splits)
  with step show ?case by (simp add: run_loop_step [of f])
next
  case (refused f out v g)
  then have "dead g = dead f"
    by (auto simp: next_unit_def pass_unit_def message_def Let_def then_advance_def dest!: advance_server_frame
        split: list.splits cl_state.splits if_splits option.splits sum.splits prod.splits)
  with refused show ?case by (simp add: run_loop_refused)
next
  case (more f out out' g)
  with next_unit_more [of f out out' g] show ?case by (simp add: run_loop_more)
qed (simp_all add: run_loop_skipping run_loop_skipped)

lemma run_more_input: "run f d = run_loop (more_input f d) []"
  by (simp add: run_def more_input_def)

lemma run_append:
  "run f (d1 @ d2) =
    (case run f d1 of
       (Inl v, g) \<Rightarrow> (Inl v, more_input g d2)
     | (Inr o1, g) \<Rightarrow> (let (r, h) = run g d2 in (map_sum id ((@) o1) r, h)))"
proof (cases "run f d1")
  case (Pair r g)
  have "run f (d1 @ d2) = (case run f d1 of
       (Inl v, g) \<Rightarrow> (Inl v, more_input g d2) | (Inr o1, g) \<Rightarrow> run_loop (more_input g d2) o1)"
    using run_loop_extend [of "more_input f d1" d2 "[]"] by (simp add: run_more_input more_input_extend)
  with Pair show ?thesis
    using run_loop_out [of "more_input g d2" "projr r" "[]"] by (cases r) (simp_all add: run_more_input)
qed

lemma more_input_dead: "(more_input k d)\<lparr>dead := True\<rparr> = more_input (k\<lparr>dead := True\<rparr>) d"
  by (simp add: more_input_def)

lemma run_dead: "run f d = (r, g) \<Longrightarrow> dead g = dead f"
  using run_loop_dead [of "more_input f d" "[]"] by (simp add: run_more_input)

lemma feed_append_lemma:
  "feed f (d1 @ d2) =
    (case feed f d1 of
       (Inl v, g) \<Rightarrow> (Inl v, if dead f then g else more_input g d2)
     | (Inr o1, g) \<Rightarrow>
         (case feed g d2 of (Inl v, h) \<Rightarrow> (Inl v, h) | (Inr o2, h) \<Rightarrow> (Inr (o1 @ o2), h)))"
proof (cases "dead f")
  case False
  obtain r g where r: "run f d1 = (r, g)" by fastforce
  obtain r' h where r': "run g d2 = (r', h)" by fastforce
  show ?thesis
  proof (cases r)
    case (Inl v)
    with r False show ?thesis by (simp add: feed_def run_append more_input_dead)
  next
    case (Inr o1)
    with r False run_dead [OF r] r' show ?thesis
      by (cases r') (simp_all add: feed_def run_append)
  qed
qed (simp add: feed_def)

section \<open>What is held\<close>

text \<open>When the loop stops without a violation it is inside a skip with nothing held, or the
  bytes held are an unfinished unit.\<close>

lemma run_loop_stop:
  "run_loop f out = (Inr out', g) \<Longrightarrow>
   (0 < skip g \<and> buf g = []) \<or> (skip g = 0 \<and> next_unit g out' = (Inr (0, out'), g))"
proof (induction f out rule: run_loop_induct)
  case (more f out o' g')
  with next_unit_more [of f out o' g'] show ?case by (auto simp: run_loop_more)
next
  case (step f out n o' g')
  then show ?case by (simp add: run_loop_step [of f])
qed (auto simp: run_loop_skipping run_loop_skipped run_loop_refused)

lemma next_unit_held:
  assumes "next_unit f out = (Inr (0, out'), g)"
  shows "length (buf f) < MAX_FRAMED"
proof -
  have "length (buf f) < MAX_FRAMED" if "message f out = (Inr (0, out'), g)"
    using that
    by (auto simp: message_def Let_def rfb_consts split: list.splits option.splits if_splits)
  with assms show ?thesis
    by (auto simp: next_unit_def pass_unit_def Let_def rfb_consts dest!: then_advance_not_0
        split: list.splits cl_state.splits if_splits option.splits)
qed

lemma feed_held_lemma: "feed f d = (Inr out, g) \<Longrightarrow> held g < MAX_FRAMED"
  using run_loop_stop [of "f\<lparr>buf := buf f @ d\<rparr>" "[]" out g] next_unit_held [of g out out g]
  by (auto simp: feed_def run_def held_def rfb_consts split: if_splits prod.splits sum.splits)

section \<open>The protocol the hypervisor reads\<close>

text \<open>
  The client side of RFB 3.7/3.8 as RFC 6143 frames it: the length of each message type, and
  the first unit of a byte stream in a given phase. It accepts key and pointer events and cut
  text like any server; nothing here refers to the filter.
\<close>

definition hv_message_len :: "bytes \<Rightarrow> nat option" where
  "hv_message_len b =
    (case b of
       [] \<Rightarrow> None
     | t # _ \<Rightarrow>
         if t = 0 then Some 20
         else if t = 2 then (if length b < 4 then None else Some (4 + 4 * unpack_u16 b 2))
         else if t = 3 then Some 10
         else if t = 4 then Some 8
         else if t = 5 then Some 6
         else if t = 6 then (if length b < 8 then None else Some (8 + unpack_u32 b 4))
         else None)"

definition hv_len :: "cl_state \<Rightarrow> bytes \<Rightarrow> nat option" where
  "hv_len ph b =
    (case ph of CL_VERSION \<Rightarrow> Some 12 | CL_SECURITY \<Rightarrow> Some 1 | CL_AUTH \<Rightarrow> Some 16
     | CL_INIT \<Rightarrow> Some 1 | CL_MESSAGES \<Rightarrow> hv_message_len b)"

definition hv_after :: "cl_state \<Rightarrow> bytes \<Rightarrow> cl_state" where
  "hv_after ph b =
    (case ph of CL_VERSION \<Rightarrow> CL_SECURITY
     | CL_SECURITY \<Rightarrow> if b ! 0 = SECURITY_VNC then CL_AUTH else CL_INIT
     | CL_AUTH \<Rightarrow> CL_INIT | CL_INIT \<Rightarrow> CL_MESSAGES | CL_MESSAGES \<Rightarrow> CL_MESSAGES)"

lemma hv_len_pos: "hv_len ph b = Some n \<Longrightarrow> 0 < n"
  by (auto simp: hv_len_def hv_message_len_def split: cl_state.splits list.splits if_splits)

function hv_frames :: "cl_state \<Rightarrow> bytes \<Rightarrow> bytes list \<times> cl_state \<times> bytes" where
  "hv_frames ph b =
    (case hv_len ph b of
       None \<Rightarrow> ([], ph, b)
     | Some n \<Rightarrow>
         if length b < n then ([], ph, b)
         else (let (us, r) = hv_frames (hv_after ph b) (drop n b) in (take n b # us, r)))"
  by pat_completeness auto
termination
  by (relation "measure (\<lambda>(ph, b). length b)") (auto dest: hv_len_pos)

declare hv_frames.simps [simp del]

text \<open>The units a view-only console may put on the wire, per phase, and the codes a
  \<^verbatim>\<open>SetEncodings\<close> carries.\<close>

definition encoding_codes :: "bytes \<Rightarrow> int list" where
  "encoding_codes u = unpack_i32s (unpack_u16 u 2) u 4"

definition permitted :: "cl_state \<Rightarrow> bytes \<Rightarrow> bool" where
  "permitted ph u =
    (case ph of
       CL_VERSION \<Rightarrow> u \<in> set VERSIONS
     | CL_SECURITY \<Rightarrow> u \<in> {[SECURITY_NONE], [SECURITY_VNC]}
     | CL_AUTH \<Rightarrow> length u = 16
     | CL_INIT \<Rightarrow> u = [1]
     | CL_MESSAGES \<Rightarrow>
         (u \<noteq> [] \<and> u ! 0 = SET_PIXEL_FORMAT \<and> length u = 20)
         \<or> (u \<noteq> [] \<and> u ! 0 = FRAMEBUFFER_UPDATE_REQUEST \<and> length u = 10)
         \<or> (4 \<le> length u \<and> u ! 0 = SET_ENCODINGS \<and> unpack_u16 u 2 \<le> MAX_ENCODINGS
             \<and> length u = 4 + 4 * unpack_u16 u 2 \<and> (\<forall>c \<in> set (encoding_codes u). \<not> stripped c)))"

lemma permitted_framed:
  assumes "permitted ph u"
  shows "hv_len ph (u @ rest) = Some (length u) \<and> hv_after ph (u @ rest) = hv_after ph u \<and> u \<noteq> []"
proof (cases ph)
  case CL_MESSAGES
  have "hv_message_len (u @ rest) = Some (length u)"
    using assms CL_MESSAGES
    by (cases u) (auto simp: permitted_def hv_message_len_def rfb_consts unpack_u16_append [of 2 "_ # _", simplified])
  with assms CL_MESSAGES show ?thesis
    by (auto simp: hv_len_def hv_after_def permitted_def)
qed (use assms in \<open>auto simp: permitted_def hv_len_def hv_after_def VERSIONS_def rfb_consts\<close>)

text \<open>A path of permitted units through the phases.\<close>

fun hv_path :: "cl_state \<Rightarrow> bytes list \<Rightarrow> cl_state \<Rightarrow> bool" where
  "hv_path ph [] ph' \<longleftrightarrow> ph = ph'"
| "hv_path ph (u # us) ph' \<longleftrightarrow> permitted ph u \<and> hv_path (hv_after ph u) us ph'"

lemma hv_path_append: "hv_path ph (us @ vs) ph' \<longleftrightarrow> (\<exists>ph1. hv_path ph us ph1 \<and> hv_path ph1 vs ph')"
  by (induction us arbitrary: ph) auto

lemma hv_path_frames: "hv_path ph us ph' \<Longrightarrow> hv_frames ph (concat us) = (us, ph', [])"
proof (induction us arbitrary: ph)
  case Nil
  then show ?case
    by (auto simp: hv_frames.simps [of ph'] hv_len_def hv_message_len_def split: cl_state.split)
next
  case (Cons u us)
  with permitted_framed [of ph u "concat us"] show ?case
    by (simp add: hv_frames.simps [of ph "u @ concat us"])
qed

lemma hv_path_permitted: "hv_path ph us ph' \<Longrightarrow> u \<in> set us \<Longrightarrow> \<exists>ph1. permitted ph1 u"
  by (induction us arbitrary: ph) auto

text \<open>The rewritten \<^verbatim>\<open>SetEncodings\<close>.\<close>

lemma set_encodings_out:
  assumes "length codes \<le> MAX_ENCODINGS" and "\<forall>c \<in> set codes. - 2147483648 \<le> c \<and> c < 2147483648"
  shows "unpack_u16 ([SET_ENCODINGS, 0] @ pack_u16 (length codes) @ pack_i32s codes) 2 = length codes"
    and "encoding_codes ([SET_ENCODINGS, 0] @ pack_u16 (length codes) @ pack_i32s codes) = codes"
proof -
  let ?u = "[SET_ENCODINGS, 0] @ pack_u16 (length codes) @ pack_i32s codes"
  show n: "unpack_u16 ?u 2 = length codes"
    using assms(1) unpack_u16_skip [of "[SET_ENCODINGS, 0]" "pack_u16 (length codes) @ pack_i32s codes" 0]
      unpack_u16_pack [of "length codes" "pack_i32s codes"] by (simp add: rfb_consts numeral_2_eq_2)
  show "encoding_codes ?u = codes"
    using assms(2) n unpack_i32s_pack [of codes "[SET_ENCODINGS, 0] @ pack_u16 (length codes)" "[]"]
    by (simp add: encoding_codes_def)
qed

lemma message_permitted:
  assumes m: "message f out = (Inr (n, out'), g)" and n: "n \<noteq> 0"
  shows "state g = state f \<and> (out' = out \<or> (\<exists>u. out' = out @ [u] \<and> permitted CL_MESSAGES u))"
proof -
  obtain kind bs where b: "buf f = kind # bs"
    using m n by (cases "buf f") (auto simp: message_def)
  show ?thesis
  proof (cases "FORWARD_LEN kind")
    case (Some k)
    with m n b show ?thesis
      by (auto simp: message_def permitted_def rfb_consts split: if_splits)
  next
    case None
    note fwd = this
    show ?thesis
    proof (cases "kind = SET_ENCODINGS")
      case True
      define codes where "codes = filter (\<lambda>c. \<not> stripped c) (unpack_i32s (unpack_u16 (buf f) 2) (buf f) 4)"
      have len: "length codes \<le> unpack_u16 (buf f) 2"
        using length_filter_le [of "\<lambda>c. \<not> stripped c" "unpack_i32s (unpack_u16 (buf f) 2) (buf f) 4"]
        by (simp add: codes_def unpack_i32s_def)
      have rng: "\<forall>c \<in> set codes. - 2147483648 \<le> c \<and> c < 2147483648"
        by (auto simp: codes_def unpack_i32s_def unpack_i32_range)
      have "unpack_u16 (buf f) 2 \<le> MAX_ENCODINGS" "state g = state f"
        and "out' = out @ [[SET_ENCODINGS, 0] @ pack_u16 (length codes) @ pack_i32s codes]"
        using m n b fwd True by (auto simp: message_def Let_def codes_def split: if_splits)
      moreover have "permitted CL_MESSAGES ([SET_ENCODINGS, 0] @ pack_u16 (length codes) @ pack_i32s codes)"
        using calculation(1) len set_encodings_out [OF _ rng] unfolding permitted_def
        by (auto simp: codes_def)
      ultimately show ?thesis by blast
    next
      case False
      with m n b fwd show ?thesis
        by (auto simp: message_def Let_def split: if_splits option.splits)
    qed
  qed
qed

lemma next_unit_permitted:
  assumes u: "next_unit f out = (Inr (n, out'), g)" and n: "n \<noteq> 0"
  shows "(out' = out \<and> state g = state f)
    \<or> (\<exists>u. out' = out @ [u] \<and> permitted (state f) u \<and> state g = hv_after (state f) u)"
proof -
  obtain b0 bs where b: "buf f = b0 # bs"
    using u n by (cases "buf f") (auto simp: next_unit_def)
  show ?thesis
  proof (cases "state f")
    case CL_MESSAGES
    with u n b message_permitted [of f out n out' g] show ?thesis
      by (auto simp: next_unit_def hv_after_def split: if_splits)
  qed (use u n b in \<open>auto simp: next_unit_def pass_unit_def permitted_def hv_after_def Let_def rfb_consts
      dest!: then_advance_Inr split: if_splits option.splits\<close>)
qed

section \<open>The client never gets ahead of the server\<close>

text \<open>
  The server's half of the handshake, as a script of its byte stream: the version line, the
  security list, a challenge for VNC authentication, a zero security result (3.8 always; 3.7
  only after VNC authentication), then ServerInit. \<open>script\<close> is what the server must have
  sent before its side of the filter can be in a given state.
\<close>

definition challenge_ok :: "byte \<Rightarrow> bytes \<Rightarrow> bool" where
  "challenge_ok ch c \<longleftrightarrow> length c = (if ch = SECURITY_VNC then 16 else 0)"

definition result_ok :: "nat \<Rightarrow> byte \<Rightarrow> bytes \<Rightarrow> bool" where
  "result_ok cv ch r \<longleftrightarrow> r = (if ch = SECURITY_VNC \<or> 8 \<le> cv then [0, 0, 0, 0] else [])"

definition serverinit_ok :: "bytes \<Rightarrow> bool" where
  "serverinit_ok b \<longleftrightarrow> 24 \<le> length b \<and> unpack_u32 b 20 \<le> MAX_NAME \<and> 24 + unpack_u32 b 20 \<le> length b"

definition script :: "sv_state \<Rightarrow> bytes \<Rightarrow> bytes \<Rightarrow> bytes \<Rightarrow> bytes \<Rightarrow> bytes" where
  "script st v types c r =
     (if SV_VERSION_WAIT \<le> st then v else [])
   @ (if SV_CHOICE_WAIT \<le> st then word_of_nat (length types) # types else [])
   @ (if SV_RESULT \<le> st then c else [])
   @ (if SV_INIT_WAIT \<le> st then r else [])"

definition script_ok :: "view_filter \<Rightarrow> bytes \<Rightarrow> bytes \<Rightarrow> bytes \<Rightarrow> bytes \<Rightarrow> bool" where
  "script_ok f v types c r \<longleftrightarrow>
     v \<in> set VERSIONS \<and> types \<noteq> [] \<and> length types < 256 \<and> challenge_ok (choice f) c
     \<and> result_ok (cver f) (choice f) r
     \<and> (SV_VERSION_WAIT \<le> sstate f \<longrightarrow> sver f = version_minor v)
     \<and> (SV_CHOICE_WAIT \<le> sstate f \<longrightarrow> offered f = Some (set types))"

definition heard :: "view_filter \<Rightarrow> bytes \<Rightarrow> bool" where
  "heard f S \<longleftrightarrow>
    (\<exists>v types c r. script_ok f v types c r
       \<and> (if sstate f = SV_DONE then \<exists>b. S = script SV_DONE v types c r @ b \<and> serverinit_ok b
          else S = script (sstate f) v types c r @ sbuf f))"

text \<open>What the flags and the client's state promise about the server's state.\<close>

definition ordered :: "view_filter \<Rightarrow> bool" where
  "ordered f \<longleftrightarrow>
    (offered f \<noteq> None \<longrightarrow> SV_CHOICE_WAIT \<le> sstate f)
    \<and> (challenge_seen f \<longrightarrow> SV_RESULT \<le> sstate f)
    \<and> (security_done f \<longrightarrow> SV_INIT_WAIT \<le> sstate f)
    \<and> (serverinit_seen f \<longleftrightarrow> sstate f = SV_DONE)
    \<and> (sstate f = SV_RESULT \<longrightarrow> choice f = SECURITY_VNC \<or> 8 \<le> cver f)
    \<and> (case state f of
         CL_VERSION \<Rightarrow> sstate f \<le> SV_VERSION_WAIT
       | CL_SECURITY \<Rightarrow> sstate f \<in> {SV_LIST, SV_CHOICE_WAIT}
       | CL_AUTH \<Rightarrow> sstate f \<in> {SV_CHALLENGE, SV_RESULT, SV_INIT_WAIT} \<and> choice f = SECURITY_VNC
       | CL_INIT \<Rightarrow> sstate f \<in> {SV_RESULT, SV_INIT_WAIT}
       | CL_MESSAGES \<Rightarrow> sstate f \<in> {SV_INIT, SV_DONE})"

lemma serverinit_ok_append: "serverinit_ok b \<Longrightarrow> serverinit_ok (b @ d)"
  by (auto simp: serverinit_ok_def unpack_u32_append)

lemmas sv_order = less_eq_sv_state_def less_sv_state_def

lemma heardI:
  "script_ok f v types c r \<Longrightarrow> sstate f \<noteq> SV_DONE \<Longrightarrow> S = script (sstate f) v types c r @ sbuf f \<Longrightarrow> heard f S"
  by (auto simp: heard_def)

lemma heard_doneI:
  "script_ok f v types c r \<Longrightarrow> sstate f = SV_DONE \<Longrightarrow> S = script SV_DONE v types c r @ b \<Longrightarrow> serverinit_ok b
   \<Longrightarrow> heard f S"
  unfolding heard_def by (rule exI [of _ v], rule exI [of _ types], rule exI [of _ c], rule exI [of _ r]) auto

lemma heard_frame [simp]:
  "heard (f\<lparr>buf := b\<rparr>) S = heard f S" "heard (f\<lparr>state := st\<rparr>) S = heard f S"
  "heard (f\<lparr>skip := n\<rparr>) S = heard f S" "heard (f\<lparr>dropped := n\<rparr>) S = heard f S"
  by (simp_all add: heard_def script_ok_def)

lemma split_off: "n \<le> length b \<Longrightarrow> take n b = x \<Longrightarrow> b = x @ drop n b"
  by (metis append_take_drop_id)

text \<open>Each server item taken off the buffer is the next piece of the script.\<close>

lemma server_item_heard:
  assumes h: "heard f S" and o: "ordered f"
  shows "heard (step_filter (server_item f)) S"
proof (cases "sstate f = SV_DONE")
  case True
  with h show ?thesis by (simp add: server_item_def)
next
  case False
  with h obtain v types c r where ok: "script_ok f v types c r"
    and S: "S = script (sstate f) v types c r @ sbuf f" by (auto simp: heard_def)
  show ?thesis
  proof (cases "server_item f")
    case (Again g)
    show ?thesis
    proof (cases "sstate f")
      case SV_VERSION
      with Again have g: "g = f\<lparr>sver := version_minor (take 12 (sbuf f)), sbuf := drop 12 (sbuf f),
          sstate := SV_VERSION_WAIT\<rparr>" "12 \<le> length (sbuf f)" "take 12 (sbuf f) \<in> set VERSIONS"
        by (auto simp: server_item_def Let_def split: if_splits)
      with ok S SV_VERSION have "heard g S"
        by (intro heardI [of g "take 12 (sbuf f)" types c r]) (auto simp: script_ok_def script_def sv_order)
      with Again show ?thesis by simp
    next
      case SV_LIST
      with Again obtain n bs where b: "sbuf f = n # bs" "unat n \<noteq> 0" "unat n \<le> length bs"
        and g: "g = f\<lparr>offered := Some (set (take (unat n) bs)), sbuf := drop (unat n) bs, sstate := SV_CHOICE_WAIT\<rparr>"
        by (auto simp: server_item_def Let_def split: if_splits list.splits)
      with ok S SV_LIST unat_byte_less [of n] have "heard g S"
        by (intro heardI [of g v "take (unat n) bs" c r])
          (auto simp: script_ok_def script_def sv_order min_absorb2)
      with Again show ?thesis by simp
    next
      case SV_CHALLENGE
      have "choice f = SECURITY_VNC"
        using o SV_CHALLENGE by (auto simp: ordered_def sv_order split: cl_state.splits)
      moreover from Again SV_CHALLENGE
      have g: "g = f\<lparr>sbuf := drop 16 (sbuf f), challenge_seen := True, sstate := SV_RESULT\<rparr>" "16 \<le> length (sbuf f)"
        by (auto simp: server_item_def rfb_consts split: if_splits)
      ultimately have "heard g S"
        using ok S SV_CHALLENGE
        by (intro heardI [of g v types "take 16 (sbuf f)" r])
          (auto simp: script_ok_def script_def sv_order challenge_ok_def)
      with Again show ?thesis by simp
    next
      case SV_RESULT
      with Again have g: "g = f\<lparr>sbuf := drop 4 (sbuf f), security_done := True, sstate := SV_INIT_WAIT\<rparr>"
        "4 \<le> length (sbuf f)" "take 4 (sbuf f) = [0, 0, 0, 0]"
        by (auto simp: server_item_def split: if_splits)
      moreover have "r = [0, 0, 0, 0]"
        using o ok SV_RESULT by (auto simp: ordered_def script_ok_def result_ok_def)
      ultimately have "heard g S"
        using ok S SV_RESULT split_off [of 4 "sbuf f"]
        by (intro heardI [of g v types c r]) (auto simp: script_ok_def script_def sv_order)
      with Again show ?thesis by simp
    qed (use Again in \<open>auto simp: server_item_def Let_def split: if_splits\<close>)
  next
    case (Stay g)
    show ?thesis
    proof (cases "g = f")
      case False
      with Stay have "sstate f = SV_INIT" "serverinit_ok (sbuf f)"
        "g = f\<lparr>serverinit_seen := True, sstate := SV_DONE, sbuf := []\<rparr>"
        by (auto simp: server_item_def Let_def serverinit_ok_def split: sv_state.splits if_splits list.splits)
      with ok S Stay show ?thesis
        by (auto simp: heard_def script_ok_def script_def sv_order intro!: exI)
    qed (use h Stay in simp)
  next
    case (Refuse x g)
    then have "g = f" by (auto simp: server_item_def Let_def split: sv_state.splits if_splits list.splits)
    with h Refuse show ?thesis by simp
  qed
qed

lemma server_item_ordered: "ordered f \<Longrightarrow> ordered (step_filter (server_item f))"
  by (cases "sstate f"; cases "state f")
    (auto simp: ordered_def server_item_def Let_def sv_order split: list.split)

definition in_step :: "view_filter \<Rightarrow> bytes \<Rightarrow> bool" where
  "in_step f S \<longleftrightarrow> ordered f \<and> heard f S"

lemma advance_server_in_step: "advance_server f = (r, g) \<Longrightarrow> in_step f S \<Longrightarrow> in_step g S"
  by (rule advance_server_rule [where P = "\<lambda>f. in_step f S"])
    (auto simp: in_step_def server_item_heard server_item_ordered)

lemma then_advance_in_step:
  "then_advance (p, f) = (Inr q, g) \<Longrightarrow> in_step f S \<Longrightarrow> in_step g S"
  by (auto simp: then_advance_def dest: advance_server_in_step split: prod.splits sum.splits)

lemma init_in_step: "in_step init_filter []"
proof -
  have "heard init_filter []"
    by (rule heardI [of _ "VERSIONS ! 0" "[1]" "[]" "[]"])
      (simp_all add: script_ok_def script_def init_filter_def sv_order challenge_ok_def result_ok_def
        rfb_consts VERSIONS_def)
  then show ?thesis by (simp add: in_step_def ordered_def init_filter_def sv_order)
qed

lemma feed_server_in_step:
  assumes "in_step f S" "feed_server f d = (Inr u, g)"
  shows "in_step g (S @ d)"
proof (cases "sstate f = SV_DONE")
  case True
  with assms have "g = f" by (auto simp: feed_server_def split: if_splits)
  moreover obtain v types c r b where "script_ok f v types c r" "S = script SV_DONE v types c r @ b" "serverinit_ok b"
    using assms(1) True by (auto simp: in_step_def heard_def)
  then have "heard f (S @ d)"
    using True serverinit_ok_append [of b d] by (intro heard_doneI [of f v types c r _ "b @ d"]) auto
  ultimately show ?thesis using assms(1) by (simp add: in_step_def)
next
  case False
  obtain v types c r where "script_ok f v types c r" "S = script (sstate f) v types c r @ sbuf f"
    using assms(1) False by (auto simp: in_step_def heard_def)
  then have "heard (f\<lparr>sbuf := sbuf f @ d\<rparr>) (S @ d)"
    using False by (intro heardI [of _ v types c r]) (auto simp: script_ok_def)
  moreover have "ordered (f\<lparr>sbuf := sbuf f @ d\<rparr>)"
    using assms(1) by (cases "state f") (simp_all add: in_step_def ordered_def)
  ultimately have "in_step (f\<lparr>sbuf := sbuf f @ d\<rparr>) (S @ d)" by (simp add: in_step_def)
  with assms(2) False show ?thesis
    by (auto simp: feed_server_def dest: advance_server_in_step split: if_splits prod.splits sum.splits)
qed

text \<open>The client's own steps, one by one.\<close>

lemma version_in_step:
  assumes i: "in_step f S" and st: "state f = CL_VERSION" "SV_VERSION_WAIT \<le> sstate f"
  shows "in_step (f\<lparr>cver := m, sstate := SV_LIST, buf := b, state := CL_SECURITY\<rparr>) S" (is "in_step ?k S")
proof -
  from i st have w: "sstate f = SV_VERSION_WAIT"
    by (cases "sstate f") (auto simp: in_step_def ordered_def sv_order)
  with i obtain v types c r where "script_ok f v types c r" "S = script SV_VERSION_WAIT v types c r @ sbuf f"
    by (auto simp: in_step_def heard_def)
  then have "heard ?k S"
    using w by (intro heardI [of ?k v types c "if choice f = SECURITY_VNC \<or> 8 \<le> m then [0, 0, 0, 0] else []"])
      (auto simp: script_ok_def script_def sv_order result_ok_def)
  moreover have "ordered ?k"
    using i w by (auto simp: in_step_def ordered_def sv_order)
  ultimately show ?thesis by (simp add: in_step_def)
qed

definition chosen :: "view_filter \<Rightarrow> byte \<Rightarrow> view_filter" where
  "chosen f b0 =
     (if b0 = SECURITY_VNC then f\<lparr>choice := b0, sstate := SV_CHALLENGE\<rparr>
      else if cver f \<ge> 8 then f\<lparr>choice := b0, sstate := SV_RESULT\<rparr>
      else f\<lparr>choice := b0, security_done := True, sstate := SV_INIT_WAIT\<rparr>)"

lemma choice_in_step:
  assumes i: "in_step f S" and st: "state f = CL_SECURITY" "offered f \<noteq> None"
  shows "in_step ((chosen f b0)\<lparr>buf := b, state := if b0 = SECURITY_VNC then CL_AUTH else CL_INIT\<rparr>) S"
    (is "in_step ?k S")
proof -
  from i st have w: "sstate f = SV_CHOICE_WAIT"
    by (auto simp: in_step_def ordered_def sv_order)
  with i obtain v types c r where "script_ok f v types c r" "S = script SV_CHOICE_WAIT v types c r @ sbuf f"
    by (auto simp: in_step_def heard_def)
  then have "heard ?k S"
    using w by (intro heardI [of ?k v types "if b0 = SECURITY_VNC then replicate 16 0 else []"
        "if b0 = SECURITY_VNC \<or> 8 \<le> cver f then [0, 0, 0, 0] else []"])
      (auto simp: chosen_def script_ok_def script_def sv_order result_ok_def challenge_ok_def rfb_consts)
  moreover have "ordered ?k"
    using i st w by (auto simp: in_step_def ordered_def sv_order chosen_def rfb_consts)
  ultimately show ?thesis by (simp add: in_step_def)
qed

lemma auth_in_step:
  assumes "in_step f S" "state f = CL_AUTH" "challenge_seen f"
  shows "in_step (f\<lparr>buf := b, state := CL_INIT\<rparr>) S"
  using assms by (auto simp: in_step_def ordered_def sv_order)

lemma init_unit_in_step:
  assumes i: "in_step f S" and st: "state f = CL_INIT" "security_done f"
  shows "in_step (f\<lparr>buf := b, state := CL_MESSAGES, sstate := SV_INIT\<rparr>) S" (is "in_step ?k S")
proof -
  from i st have w: "sstate f = SV_INIT_WAIT"
    by (auto simp: in_step_def ordered_def sv_order)
  with i obtain v types c r where "script_ok f v types c r" "S = script SV_INIT_WAIT v types c r @ sbuf f"
    by (auto simp: in_step_def heard_def)
  then have "heard ?k S"
    using w by (intro heardI [of ?k v types c r]) (auto simp: script_ok_def script_def sv_order)
  moreover have "ordered ?k"
    using i w by (auto simp: in_step_def ordered_def sv_order)
  ultimately show ?thesis by (simp add: in_step_def)
qed

lemma in_step_frame [simp]:
  "in_step (f\<lparr>buf := b\<rparr>) S = in_step f S"
  "in_step (f\<lparr>skip := n\<rparr>) S = in_step f S"
  "in_step (f\<lparr>dropped := n\<rparr>) S = in_step f S"
  by (cases "state f"; simp add: in_step_def ordered_def)+

lemma message_in_step: "message f out = (Inr p, g) \<Longrightarrow> in_step g S = in_step f S"
  by (auto simp: message_def Let_def split: list.splits option.splits if_splits)

lemma next_unit_in_step:
  assumes i: "in_step f S" and u: "next_unit f out = (Inr (n, out'), g)" and n: "n \<noteq> 0"
  shows "in_step g S"
proof -
  obtain b0 bs where b: "buf f = b0 # bs"
    using u n by (cases "buf f") (auto simp: next_unit_def)
  show ?thesis
  proof (cases "state f")
    case CL_VERSION
    with u n b i show ?thesis
      by (auto simp: next_unit_def pass_unit_def Let_def intro: then_advance_in_step version_in_step
          split: if_splits)
  next
    case CL_SECURITY
    then obtain types where off: "offered f = Some types" and
      "then_advance (pass_unit (chosen f b0) out 1 (if b0 = SECURITY_VNC then CL_AUTH else CL_INIT)) = (Inr (n, out'), g)"
      using u n b by (auto simp: next_unit_def Let_def chosen_def split: if_splits option.splits)
    moreover have "buf (chosen f b0) = buf f" by (simp add: chosen_def)
    ultimately show ?thesis
      using choice_in_step [OF i CL_SECURITY, of b0 bs] off b
      by (auto simp: pass_unit_def dest: then_advance_in_step)
  next
    case CL_AUTH
    with u n b i show ?thesis
      by (auto simp: next_unit_def pass_unit_def intro: auth_in_step split: if_splits)
  next
    case CL_INIT
    with u n b i show ?thesis
      by (auto simp: next_unit_def intro: then_advance_in_step init_unit_in_step split: if_splits)
  next
    case CL_MESSAGES
    with u b i show ?thesis
      by (auto simp: next_unit_def dest: message_in_step split: if_splits)
  qed
qed

section \<open>Runs of the filter\<close>

text \<open>
  The relay feeds the filter the browser's messages and the hypervisor's in the order they
  arrive; a violation ends the console. \<open>filter_run\<close> is such a run, \<open>None\<close> once a
  violation ended it; its result is the filter and the units forwarded so far.
\<close>

datatype relay_event = FromClient bytes | FromServer bytes

definition filter_event :: "view_filter \<Rightarrow> relay_event \<Rightarrow> (view_filter \<times> bytes list) option" where
  "filter_event f e =
    (case e of
       FromClient d \<Rightarrow> (case feed f d of (Inl v, g) \<Rightarrow> None | (Inr us, g) \<Rightarrow> Some (g, us))
     | FromServer d \<Rightarrow> (case feed_server f d of (Inl v, g) \<Rightarrow> None | (Inr _, g) \<Rightarrow> Some (g, [])))"

fun filter_run :: "view_filter \<Rightarrow> bytes list \<Rightarrow> relay_event list \<Rightarrow> (view_filter \<times> bytes list) option" where
  "filter_run f out [] = Some (f, out)"
| "filter_run f out (e # es) =
     (case filter_event f e of None \<Rightarrow> None | Some (g, us) \<Rightarrow> filter_run g (out @ us) es)"

primrec server_bytes :: "relay_event list \<Rightarrow> bytes" where
  "server_bytes [] = []"
| "server_bytes (e # es) = (case e of FromClient d \<Rightarrow> [] | FromServer d \<Rightarrow> d) @ server_bytes es"

text \<open>Whether a list of units, starting in phase \<open>ph\<close>, has one that belongs to phase \<open>q\<close>.\<close>

fun sent_in :: "cl_state \<Rightarrow> cl_state \<Rightarrow> bytes list \<Rightarrow> bool" where
  "sent_in q ph [] \<longleftrightarrow> False"
| "sent_in q ph (u # us) \<longleftrightarrow> q = ph \<or> sent_in q (hv_after ph u) us"

lemma sent_in_append: "hv_path ph us ph' \<Longrightarrow> sent_in q ph (us @ vs) \<longleftrightarrow> sent_in q ph us \<or> sent_in q ph' vs"
  by (induction us arbitrary: ph) auto

text \<open>What the server must have said before the client's unit of each phase is forwarded.\<close>

primrec gate :: "cl_state \<Rightarrow> sv_state" where
  "gate CL_VERSION = SV_VERSION_WAIT"
| "gate CL_SECURITY = SV_CHOICE_WAIT"
| "gate CL_AUTH = SV_RESULT"
| "gate CL_INIT = SV_INIT_WAIT"
| "gate CL_MESSAGES = SV_DONE"

lemma server_item_up: "sstate f \<le> sstate (step_filter (server_item f))"
  by (cases "sstate f") (auto simp: server_item_def Let_def sv_order split: list.split)

lemma advance_server_up: "advance_server f = (r, g) \<Longrightarrow> sstate f \<le> sstate g"
  using advance_server_rule [where P = "\<lambda>h. sstate f \<le> sstate h" and f = f] server_item_up order_trans
  by blast

lemma then_advance_up: "then_advance (p, f) = (Inr q, g) \<Longrightarrow> sstate f \<le> sstate g"
  by (auto simp: then_advance_def dest: advance_server_up split: prod.splits sum.splits)

text \<open>A unit moves the server's state up, and is forwarded only past its gate.\<close>

lemma next_unit_gate:
  assumes i: "ordered f" and u: "next_unit f out = (Inr (n, out'), g)" and n: "n \<noteq> 0"
  shows "sstate f \<le> sstate g \<and> gate (state f) \<le> sstate g"
proof -
  obtain b0 bs where b: "buf f = b0 # bs"
    using u n by (cases "buf f") (auto simp: next_unit_def)
  show ?thesis
  proof (cases "state f")
    case CL_MESSAGES
    with u i b show ?thesis
      by (auto simp: next_unit_def message_def Let_def ordered_def sv_order
          split: if_splits list.splits option.splits)
  qed (use i u n b in \<open>auto simp: next_unit_def pass_unit_def Let_def ordered_def sv_order dest!: then_advance_up
      split: if_splits option.splits\<close>)
qed

text \<open>
  The invariant of a run: what was forwarded (\<open>out\<close>) is a path of permitted units to the
  client's state, every forwarded unit's gate is passed, and the filter is in step with the
  server's bytes \<open>S\<close>.
\<close>

definition tracked :: "view_filter \<Rightarrow> bytes list \<Rightarrow> bytes \<Rightarrow> bool" where
  "tracked f out S \<longleftrightarrow>
     in_step f S \<and> hv_path CL_VERSION out (state f)
     \<and> (\<forall>q. sent_in q CL_VERSION out \<longrightarrow> gate q \<le> sstate f)
     \<and> (sent_in CL_AUTH CL_VERSION out \<longrightarrow> choice f = SECURITY_VNC \<and> state f \<in> {CL_INIT, CL_MESSAGES})"

lemma message_choice: "message f out = (Inr p, g) \<Longrightarrow> choice g = choice f \<and> state g = state f"
  by (auto simp: message_def Let_def split: list.splits option.splits if_splits)

lemma next_unit_choice:
  assumes u: "next_unit f out = (Inr (n, out'), g)" and n: "n \<noteq> 0"
    and st: "state f \<in> {CL_AUTH, CL_INIT, CL_MESSAGES}"
  shows "choice g = choice f \<and> state g \<in> {CL_INIT, CL_MESSAGES}"
proof -
  obtain b0 bs where b: "buf f = b0 # bs"
    using u n by (cases "buf f") (auto simp: next_unit_def)
  with u n st show ?thesis
    by (cases "state f")
      (auto simp: next_unit_def pass_unit_def dest!: then_advance_Inr dest: message_choice split: if_splits)
qed

lemma next_unit_tracked:
  assumes t: "tracked f out S" and u: "next_unit f o' = (Inr (n, o''), g)" and n: "n \<noteq> 0"
  shows "\<exists>us. o'' = o' @ us \<and> tracked g (out @ us) S"
proof -
  from t have i: "in_step f S" and path: "hv_path CL_VERSION out (state f)"
    and gates: "\<forall>q. sent_in q CL_VERSION out \<longrightarrow> gate q \<le> sstate f"
    and auth: "sent_in CL_AUTH CL_VERSION out \<longrightarrow> choice f = SECURITY_VNC \<and> state f \<in> {CL_INIT, CL_MESSAGES}"
    by (auto simp: tracked_def)
  have i': "in_step g S" by (rule next_unit_in_step [OF i u n])
  have up: "sstate f \<le> sstate g" "gate (state f) \<le> sstate g"
    using next_unit_gate [OF _ u n] i by (auto simp: in_step_def)
  have gates': "gate q \<le> sstate g" if "sent_in q CL_VERSION out \<or> q = state f" for q
    using that gates up by (auto intro: order_trans)
  have vnc: "choice f = SECURITY_VNC" if "state f = CL_AUTH"
    using i that by (auto simp: in_step_def ordered_def)
  have auth': "choice g = SECURITY_VNC \<and> state g \<in> {CL_INIT, CL_MESSAGES}"
    if "sent_in CL_AUTH CL_VERSION out \<or> state f = CL_AUTH"
    using that auth vnc next_unit_choice [OF u n] by auto
  from next_unit_permitted [OF u n] show ?thesis
  proof
    assume "o'' = o' \<and> state g = state f"
    with i' path gates' auth' have "o'' = o' @ [] \<and> tracked g (out @ []) S"
      by (auto simp: tracked_def)
    then show ?thesis by blast
  next
    assume "\<exists>v. o'' = o' @ [v] \<and> permitted (state f) v \<and> state g = hv_after (state f) v"
    then obtain v where v: "o'' = o' @ [v]" "permitted (state f) v" "state g = hv_after (state f) v" by blast
    then have "hv_path CL_VERSION (out @ [v]) (state g)"
      using path by (auto simp: hv_path_append)
    moreover have "sent_in q CL_VERSION (out @ [v]) \<longleftrightarrow> sent_in q CL_VERSION out \<or> q = state f" for q
      using sent_in_append [OF path, of q "[v]"] by simp
    ultimately have "tracked g (out @ [v]) S"
      using i' gates' auth' by (auto simp: tracked_def)
    with v show ?thesis by blast
  qed
qed

lemma tracked_frame [simp]:
  "tracked (f\<lparr>buf := b\<rparr>) out S = tracked f out S" "tracked (f\<lparr>skip := n\<rparr>) out S = tracked f out S"
  by (simp_all add: tracked_def)

lemma run_loop_tracked:
  "run_loop f o' = (Inr o'', g) \<Longrightarrow> tracked f out S \<Longrightarrow> \<exists>us. o'' = o' @ us \<and> tracked g (out @ us) S"
proof (induction f o' arbitrary: out rule: run_loop_induct)
  case (skipping f o')
  then show ?case by (auto simp: run_loop_skipping)
next
  case (skipped f o')
  then show ?case by (simp add: run_loop_skipped)
next
  case (refused f o' v h)
  then show ?case by (simp add: run_loop_refused)
next
  case (more f o' o1 h)
  with next_unit_more [of f o' o1 h] show ?case by (auto simp: run_loop_more)
next
  case (step f o' n o1 h)
  from next_unit_tracked [OF step.prems(2) step.hyps(2,3)]
  obtain us where us: "o1 = o' @ us" "tracked h (out @ us) S" by blast
  from step.prems(1) have "run_loop h o1 = (Inr o'', g)" by (simp add: run_loop_step [OF step.hyps])
  with step.IH us obtain vs where "o'' = o1 @ vs" "tracked g ((out @ us) @ vs) S" by blast
  with us show ?case by auto
qed

lemma feed_server_up:
  assumes "feed_server f d = (Inr u, g)"
  shows "sstate f \<le> sstate g \<and> choice g = choice f \<and> state g = state f"
proof (cases "sstate f = SV_DONE")
  case False
  obtain r h where adv: "advance_server (f\<lparr>sbuf := sbuf f @ d\<rparr>) = (r, h)" by fastforce
  with assms False have "g = h"
    by (cases r) (auto simp: feed_server_def split: if_splits)
  with advance_server_up [OF adv] advance_server_frame [OF adv] show ?thesis by simp
qed (use assms in \<open>auto simp: feed_server_def split: if_splits\<close>)

lemma filter_event_tracked:
  assumes "tracked f out S" "filter_event f e = Some (g, us)"
  shows "tracked g (out @ us) (S @ server_bytes [e])"
proof (cases e)
  case (FromClient d)
  with assms(2) have "run_loop (f\<lparr>buf := buf f @ d\<rparr>) [] = (Inr us, g)"
    by (auto simp: filter_event_def feed_def run_def split: if_splits prod.splits sum.splits)
  with run_loop_tracked [of "f\<lparr>buf := buf f @ d\<rparr>" "[]" us g out S] assms(1) FromClient show ?thesis by auto
next
  case (FromServer d)
  with assms(2) have fs: "feed_server f d = (Inr (), g)" "us = []"
    by (auto simp: filter_event_def split: prod.splits sum.splits)
  then have "sstate f \<le> sstate g" "choice g = choice f" "state g = state f"
    using feed_server_up [OF fs(1)] by auto
  with assms(1) feed_server_in_step [OF _ fs(1), of S] fs FromServer show ?thesis
    by (auto simp: tracked_def intro: order_trans)
qed

lemma filter_run_tracked:
  "filter_run f out es = Some (g, out') \<Longrightarrow> tracked f out S \<Longrightarrow> tracked g out' (S @ server_bytes es)"
proof (induction es arbitrary: f out S)
  case (Cons e es)
  then obtain h us where h: "filter_event f e = Some (h, us)" "filter_run h (out @ us) es = Some (g, out')"
    by (auto split: option.splits)
  with Cons.IH [OF h(2) filter_event_tracked [OF Cons.prems(2) h(1)]] show ?case by simp
qed simp

lemma init_tracked: "tracked init_filter [] []"
  using init_in_step by (simp add: tracked_def init_filter_def)

lemma script_prefix: "st \<le> st' \<Longrightarrow> \<exists>x. script st' v types c r = script st v types c r @ x"
  by (cases st; cases st') (simp_all add: script_def sv_order)

lemma heard_prefix:
  assumes h: "heard f S" and st: "st \<le> sstate f"
  shows "\<exists>v types c r b. script_ok f v types c r \<and> S = script st v types c r @ b
    \<and> (st = SV_DONE \<longrightarrow> serverinit_ok b)"
proof -
  obtain v types c r b where ok: "script_ok f v types c r" and S: "S = script (sstate f) v types c r @ b"
    and b: "sstate f = SV_DONE \<longrightarrow> serverinit_ok b"
    using h unfolding heard_def by (cases "sstate f = SV_DONE") force+
  obtain x where x: "script (sstate f) v types c r = script st v types c r @ x"
    using script_prefix [OF st] by blast
  have "st = SV_DONE \<longrightarrow> sstate f = SV_DONE" using st by (cases "sstate f") (auto simp: sv_order)
  with x S b have "S = script st v types c r @ (x @ b) \<and> (st = SV_DONE \<longrightarrow> serverinit_ok (x @ b))" by auto
  with ok show ?thesis by blast
qed

text \<open>Both buffers stay bounded.\<close>

lemma server_item_shrinks: "length (sbuf (step_filter (server_item f))) \<le> length (sbuf f)"
  by (cases "sstate f") (auto simp: server_item_def Let_def split: list.split)

lemma advance_server_shrinks: "advance_server f = (r, g) \<Longrightarrow> length (sbuf g) \<le> length (sbuf f)"
  using advance_server_rule [where P = "\<lambda>h. length (sbuf h) \<le> length (sbuf f)" and f = f]
    server_item_shrinks order_trans by blast

lemma then_advance_shrinks: "then_advance (p, f) = (Inr q, g) \<Longrightarrow> length (sbuf g) \<le> length (sbuf f)"
  by (auto simp: then_advance_def dest: advance_server_shrinks split: prod.splits sum.splits)

lemma next_unit_shrinks:
  assumes u: "next_unit f out = (Inr p, g)"
  shows "length (sbuf g) \<le> length (sbuf f)"
proof (cases "buf f")
  case (Cons b0 bs)
  have "sbuf g = sbuf f" if "message f out = (Inr p, g)"
    using that by (auto simp: message_def Let_def split: list.splits option.splits if_splits)
  with u Cons show ?thesis
    by (cases "state f")
      (auto simp: next_unit_def pass_unit_def Let_def dest!: then_advance_shrinks split: if_splits option.splits)
qed (use u in \<open>simp add: next_unit_def\<close>)

lemma run_loop_shrinks: "run_loop f out = (Inr out', g) \<Longrightarrow> length (sbuf g) \<le> length (sbuf f)"
proof (induction f out rule: run_loop_induct)
  case (step f out n o1 h)
  with next_unit_shrinks [OF step.hyps(2)] show ?case by (simp add: run_loop_step [OF step.hyps])
next
  case (more f out o1 h)
  with next_unit_more [of f out o1 h] show ?case by (auto simp: run_loop_more)
qed (auto simp: run_loop_skipping run_loop_skipped run_loop_refused)

definition bounded :: "view_filter \<Rightarrow> bool" where
  "bounded f \<longleftrightarrow> held f < MAX_FRAMED \<and> length (sbuf f) \<le> MAX_SERVER_BUF"

lemma feed_bounded: "bounded f \<Longrightarrow> feed f d = (Inr us, g) \<Longrightarrow> bounded g"
  using feed_held_lemma [of f d us g] run_loop_shrinks [of "f\<lparr>buf := buf f @ d\<rparr>" "[]" us g]
  by (auto simp: bounded_def feed_def run_def split: if_splits prod.splits sum.splits)

lemma feed_server_bounded:
  assumes b: "bounded f" and fs: "feed_server f d = (Inr u, g)"
  shows "bounded g"
proof (cases "sstate f = SV_DONE")
  case True
  with assms show ?thesis by (auto simp: feed_server_def split: if_splits)
next
  case False
  obtain r h where adv: "advance_server (f\<lparr>sbuf := sbuf f @ d\<rparr>) = (r, h)" by fastforce
  with fs False have "g = h" "length (sbuf h) \<le> MAX_SERVER_BUF"
    by (cases r; auto simp: feed_server_def split: if_splits)+
  with b advance_server_frame [OF adv] show ?thesis by (simp add: bounded_def held_def)
qed

lemma filter_run_bounded: "filter_run f out es = Some (g, out') \<Longrightarrow> bounded f \<Longrightarrow> bounded g"
proof (induction es arbitrary: f out)
  case (Cons e es)
  then obtain h us where h: "filter_event f e = Some (h, us)" "filter_run h (out @ us) es = Some (g, out')"
    by (auto split: option.splits)
  then have "bounded h"
    using Cons.prems(2)
    by (auto simp: filter_event_def dest: feed_bounded feed_server_bounded
        split: relay_event.splits prod.splits sum.splits)
  with Cons.IH [OF h(2)] show ?case by simp
qed simp

lemma init_bounded: "bounded init_filter"
  by (simp add: bounded_def init_filter_def held_def rfb_consts)

section \<open>Single messages\<close>

text \<open>A filter past the handshake, with nothing held and nothing being skipped.\<close>

definition idle :: "view_filter \<Rightarrow> bool" where
  "idle f \<longleftrightarrow> handshaken f \<and> buf f = [] \<and> skip f = 0 \<and> \<not> dead f"

lemma idle_stop: "idle f \<Longrightarrow> run_loop f out = (Inr out, f)"
  by (rule run_loop_more) (auto simp: idle_def next_unit_def)

lemma buf_restored: "buf f = [] \<Longrightarrow> f\<lparr>buf := []\<rparr> = f" for f :: view_filter
  by simp

text \<open>A whole input message (key, pointer or cut text), of the length its type fixes.\<close>

definition input_message :: "bytes \<Rightarrow> bool" where
  "input_message u \<longleftrightarrow>
     (length u = 8 \<and> u ! 0 = KEY_EVENT) \<or> (length u = 6 \<and> u ! 0 = POINTER_EVENT)
     \<or> (8 \<le> length u \<and> u ! 0 = CLIENT_CUT_TEXT \<and> unpack_u32 u 4 \<le> MAX_CUT_TEXT
         \<and> length u = 8 + unpack_u32 u 4)"

lemma input_message_step:
  assumes "idle f" "input_message u"
  shows "next_unit (f\<lparr>buf := u\<rparr>) [] = (Inr (1, []), f\<lparr>buf := u, skip := length u, dropped := dropped f + 1\<rparr>)"
  using assms
  by (cases u) (auto simp: idle_def handshaken_def input_message_def next_unit_def message_def rfb_consts Let_def)

lemma input_dropped_lemma:
  assumes i: "idle f" and u: "input_message u"
  shows "feed f u = (Inr [], f\<lparr>dropped := dropped f + 1\<rparr>)"
proof -
  let ?g = "f\<lparr>buf := u, skip := length u, dropped := dropped f + 1\<rparr>"
  have "u \<noteq> []" using u by (auto simp: input_message_def)
  then have "run_loop (f\<lparr>buf := u\<rparr>) [] = run_loop (?g\<lparr>buf := [], skip := 0\<rparr>) []"
    using i run_loop_step [OF _ input_message_step [OF i u]] run_loop_skipped [of ?g "[]"]
    by (simp add: idle_def)
  moreover have "?g\<lparr>buf := [], skip := 0\<rparr> = f\<lparr>dropped := dropped f + 1\<rparr>"
    using i by (cases f) (simp add: idle_def)
  moreover have "idle (f\<lparr>dropped := dropped f + 1\<rparr>)"
    using i by (simp add: idle_def handshaken_def)
  ultimately show ?thesis
    using i by (simp add: feed_def run_def idle_def [of f] idle_stop)
qed

text \<open>A whole \<^verbatim>\<open>SetEncodings\<close> message.\<close>

definition set_encodings_message :: "bytes \<Rightarrow> bool" where
  "set_encodings_message u \<longleftrightarrow>
     4 \<le> length u \<and> u ! 0 = SET_ENCODINGS \<and> unpack_u16 u 2 \<le> MAX_ENCODINGS
     \<and> length u = 4 + 4 * unpack_u16 u 2"

lemma set_encodings_step:
  assumes "idle f" "set_encodings_message u"
  shows "next_unit (f\<lparr>buf := u\<rparr>) [] =
    (let codes = filter (\<lambda>c. \<not> stripped c) (encoding_codes u) in
     (Inr (length u, [[SET_ENCODINGS, 0] @ pack_u16 (length codes) @ pack_i32s codes]), f\<lparr>buf := []\<rparr>))"
  using assms
  by (cases u) (auto simp: idle_def handshaken_def set_encodings_message_def next_unit_def message_def
      encoding_codes_def rfb_consts Let_def)

lemma set_encodings_feed:
  assumes i: "idle f" and u: "set_encodings_message u"
  shows "\<exists>v. feed f u = (Inr [v], f) \<and> permitted CL_MESSAGES v
    \<and> encoding_codes v = filter (\<lambda>c. \<not> stripped c) (encoding_codes u)"
proof -
  define codes where "codes = filter (\<lambda>c. \<not> stripped c) (encoding_codes u)"
  let ?v = "[SET_ENCODINGS, 0] @ pack_u16 (length codes) @ pack_i32s codes"
  have step: "next_unit (f\<lparr>buf := u\<rparr>) [] = (Inr (length u, [?v]), f\<lparr>buf := []\<rparr>)"
    using set_encodings_step [OF i u] by (simp add: Let_def codes_def)
  have u0: "length u \<noteq> 0" using u by (auto simp: set_encodings_message_def)
  have "f\<lparr>buf := []\<rparr> = f" using i by (intro buf_restored) (simp add: idle_def)
  then have "feed f u = (Inr [?v], f)"
    using i step u0 run_loop_step [OF _ step u0] idle_stop [OF i, of "[?v]"]
    by (simp add: feed_def run_def idle_def)
  moreover have "length codes \<le> MAX_ENCODINGS"
    using u length_filter_le [of "\<lambda>c. \<not> stripped c" "encoding_codes u"]
    by (simp add: codes_def set_encodings_message_def encoding_codes_def unpack_i32s_def)
  moreover have "\<forall>c \<in> set codes. - 2147483648 \<le> c \<and> c < 2147483648"
    by (auto simp: codes_def encoding_codes_def unpack_i32s_def unpack_i32_range)
  ultimately have "feed f u = (Inr [?v], f) \<and> permitted CL_MESSAGES ?v \<and> encoding_codes ?v = codes"
    using set_encodings_out [of codes] by (auto simp: permitted_def codes_def)
  then show ?thesis unfolding codes_def by blast
qed

section \<open>Properties\<close>

text \<open>An example console: the 3.8 handshake without authentication, then a key event and an
  update request in one browser message.\<close>

definition example_session :: "relay_event list" where
  "example_session =
    [FromServer (VERSIONS ! 1), FromClient (VERSIONS ! 1), FromServer [1, 1], FromClient [1],
     FromServer [0, 0, 0, 0], FromClient [0], FromServer (replicate 24 0),
     FromClient [4, 1, 0, 0, 0, 0, 0, 65, 3, 0, 0, 0, 0, 0, 0, 0, 0, 0]]"

definition example_filter :: view_filter where
  "example_filter = \<lparr>buf = [], state = CL_MESSAGES, skip = 0, dead = False, dropped = 1, sbuf = [],
     sstate = SV_DONE, sver = 8, cver = 8, offered = Some {1}, choice = 1, challenge_seen = False,
     security_done = True, serverinit_seen = True\<rparr>"

definition example_out :: "bytes list" where
  "example_out = [VERSIONS ! 1, [1], [1], [3, 0, 0, 0, 0, 0, 0, 0, 0, 0]]"

lemma example_session_run: "filter_run init_filter [] example_session = Some (example_filter, example_out)"
  by code_simp

text \<open>C1: Whatever the browser and the hypervisor send, and however the browser cuts its bytes
  into WebSocket messages, the stream forwarded to the hypervisor is a sequence of units a
  view-only console may send (in the order of the protocol's phases: never a key, pointer or
  cut-text message, the shared flag forced, no stripped encoding), and the hypervisor's own
  framing of the concatenated bytes finds exactly those units and nothing left over.\<close>

theorem view_only_stream:
  assumes "filter_run init_filter [] es = Some (f, out)"
  shows "hv_path CL_VERSION out (state f) \<and> hv_frames CL_VERSION (concat out) = (out, state f, [])"
  using filter_run_tracked [OF assms init_tracked] hv_path_frames by (auto simp: tracked_def)

theorem view_only_stream_witness:
  "filter_run init_filter [] example_session = Some (example_filter, example_out)
   \<and> hv_path CL_VERSION example_out CL_MESSAGES
   \<and> hv_frames CL_VERSION (concat example_out) = (example_out, CL_MESSAGES, [])"
  using example_session_run view_only_stream [OF example_session_run] by (simp add: example_filter_def)

text \<open>The client never gets ahead of the server. If a unit of phase \<open>q\<close> was forwarded, the
  hypervisor had already sent everything that opens that phase: its version line, the security
  list, the 16-byte challenge before an authentication response, the zero security result
  before ClientInit, and a complete ServerInit (with a bounded name) before any message.\<close>

theorem client_never_ahead:
  assumes run: "filter_run init_filter [] es = Some (f, out)" and sent: "sent_in q CL_VERSION out"
  shows "\<exists>v types c r b.
    server_bytes es = script (gate q) v types c r @ b \<and> v \<in> set VERSIONS \<and> types \<noteq> []
    \<and> result_ok (cver f) (choice f) r \<and> (q = CL_AUTH \<longrightarrow> length c = 16)
    \<and> (q = CL_MESSAGES \<longrightarrow> serverinit_ok b)"
proof -
  have t: "tracked f out (server_bytes es)"
    using filter_run_tracked [OF run init_tracked] by simp
  then have "heard f (server_bytes es)" "gate q \<le> sstate f"
    and auth: "q = CL_AUTH \<longrightarrow> choice f = SECURITY_VNC"
    using sent by (auto simp: tracked_def in_step_def)
  then obtain v types c r b where ok: "script_ok f v types c r"
    and S: "server_bytes es = script (gate q) v types c r @ b" and b: "gate q = SV_DONE \<longrightarrow> serverinit_ok b"
    using heard_prefix by blast
  from ok auth have "v \<in> set VERSIONS" "types \<noteq> []" "result_ok (cver f) (choice f) r" "q = CL_AUTH \<longrightarrow> length c = 16"
    by (auto simp: script_ok_def challenge_ok_def)
  moreover from b have "q = CL_MESSAGES \<longrightarrow> serverinit_ok b" by auto
  ultimately show ?thesis using S by blast
qed

theorem client_never_ahead_witness:
  "\<exists>v types c r b.
    server_bytes example_session = script SV_DONE v types c r @ b \<and> v \<in> set VERSIONS \<and> types \<noteq> []
    \<and> result_ok 8 1 r \<and> serverinit_ok b"
proof -
  have "sent_in CL_MESSAGES CL_VERSION example_out" by code_simp
  from client_never_ahead [OF example_session_run this] show ?thesis
    by (auto simp: example_filter_def)
qed

text \<open>Framing works on the byte stream, not on WebSocket messages. Feeding two chunks one after
  the other gives the same forwarded units, the same filter state and the same verdict as
  feeding them as one; and a violation in the first chunk is the violation of the whole.\<close>

theorem feed_chunking:
  "feed f (d1 @ d2) =
    (case feed f d1 of
       (Inl v, g) \<Rightarrow> (Inl v, if dead f then g else more_input g d2)
     | (Inr o1, g) \<Rightarrow>
         (case feed g d2 of (Inl v, h) \<Rightarrow> (Inl v, h) | (Inr o2, h) \<Rightarrow> (Inr (o1 @ o2), h)))"
  by (rule feed_append_lemma)

text \<open>C2: Buffering is bounded. In every run at most one unfinished message of less than
  \<^verbatim>\<open>MAX_FRAMED\<close> bytes is held for the client and at most \<^verbatim>\<open>MAX_SERVER_BUF\<close> bytes for the
  server, whatever lengths the messages announce.\<close>

theorem filter_bounded:
  assumes "filter_run init_filter [] es = Some (f, out)"
  shows "held f < MAX_FRAMED \<and> length (sbuf f) \<le> MAX_SERVER_BUF"
  using filter_run_bounded [OF assms init_bounded] by (simp add: bounded_def)

theorem filter_bounded_witness: "held example_filter < 4100 \<and> length (sbuf example_filter) \<le> 4184"
  using filter_bounded [OF example_session_run] by (simp add: rfb_consts)

text \<open>The filter fails closed. After a violation on either side it is dead: every later input,
  from the client or the server, is refused with the policy close code and changes nothing.\<close>

theorem violation_is_final:
  assumes "feed f d = (Inl v, g) \<or> feed_server f d = (Inl v, g)"
  shows "dead g \<and> feed g d' = (Inl v_input, g) \<and> feed_server g d' = (Inl v_input, g)"
proof -
  have "dead g"
    using assms by (auto simp: feed_def feed_server_def split: if_splits prod.splits sum.splits)
  then show ?thesis by (simp add: feed_def feed_server_def)
qed

theorem violation_is_final_witness:
  "\<exists>v g. feed init_filter [82] = (Inl v, g) \<and> feed g [3] = (Inl v_input, g) \<and> feed_server g [3] = (Inl v_input, g)"
proof -
  have "feed init_filter [82] = (Inl v_not_ready, init_filter\<lparr>buf := [82], dead := True\<rparr>)" by code_simp
  from this violation_is_final [OF disjI1 [OF this], of "[3]"] show ?thesis by blast
qed

text \<open>Past the handshake, a whole key, pointer or (bounded) cut-text message is swallowed:
  nothing is forwarded, the stream stays in step, and only the count of dropped messages
  changes.\<close>

theorem input_dropped:
  assumes "idle f" "input_message u"
  shows "feed f u = (Inr [], f\<lparr>dropped := dropped f + 1\<rparr>)"
  by (rule input_dropped_lemma [OF assms])

theorem input_dropped_witness:
  "feed example_filter [6, 0, 0, 0, 0, 0, 0, 2, 104, 105] = (Inr [], example_filter\<lparr>dropped := 2\<rparr>)"
proof -
  have "idle example_filter" "input_message [6, 0, 0, 0, 0, 0, 0, 2, 104, 105]"
    by (simp_all add: idle_def handshaken_def example_filter_def input_message_def unpack_u32_def unpack_u16_def
        rfb_consts)
  from input_dropped [OF this] show ?thesis by (simp add: example_filter_def)
qed

text \<open>A whole \<^verbatim>\<open>SetEncodings\<close> within the bound is forwarded as one well-formed
  \<^verbatim>\<open>SetEncodings\<close> whose codes are the offered ones, in order, without the stripped
  pseudo-encodings (the count rewritten), and the filter's state is otherwise unchanged.\<close>

theorem set_encodings_filtered:
  assumes "idle f" "set_encodings_message u"
  shows "\<exists>v. feed f u = (Inr [v], f) \<and> permitted CL_MESSAGES v
    \<and> encoding_codes v = filter (\<lambda>c. \<not> stripped c) (encoding_codes u)"
  by (rule set_encodings_feed [OF assms])

theorem set_encodings_filtered_witness:
  "\<exists>v. feed example_filter [2, 0, 0, 2, 0, 0, 0, 7, 255, 255, 254, 200] = (Inr [v], example_filter)
     \<and> encoding_codes v = [7]"
proof -
  have "idle example_filter" "set_encodings_message [2, 0, 0, 2, 0, 0, 0, 7, 255, 255, 254, 200]"
    by (simp_all add: idle_def handshaken_def example_filter_def set_encodings_message_def unpack_u16_def rfb_consts)
  moreover have "filter (\<lambda>c. \<not> stripped c) (encoding_codes [2, 0, 0, 2, 0, 0, 0, 7, 255, 255, 254, 200]) = [7]"
    by (simp add: encoding_codes_def unpack_i32s_def unpack_i32_def unpack_u32_def unpack_u16_def
        stripped_def STRIPPED_def STRIPPED_RANGES_def upt_rec)
  ultimately show ?thesis using set_encodings_filtered by force
qed

end
