(* ===== verification/Range_Model.thy ===== *)
theory Range_Model
  imports Prelude
begin

text \<open>
  The rows the range subsystem shares, and the range and exercise state machines.

  \<^item> \<^verbatim>\<open>app/state_machines.py\<close> and the enums of \<^verbatim>\<open>app/models.py\<close>: \<open>range_state\<close>,
    \<open>exercise_state\<close> and \<open>can_transition_to\<close>.
  \<^item> The tables the API and the worker both write (\<^verbatim>\<open>app/*/models.py\<close>; the worker's mirror
    is generated from them): one record per table row, and the database as a record of
    tables in insertion order. Bookkeeping columns no modelled code reads are left out.
  \<^item> The row-level statements the components share: reading one row, and the invariants the
    table constraints give (\<open>db_keys\<close>).

  Identifiers are uuids in their canonical text form. Times are integers in microseconds, the
  resolution of \<^verbatim>\<open>datetime\<close>. A JSON text column is a \<open>json_column\<close>.
\<close>

section \<open>State machines\<close>

datatype range_state = created | provisioning | ready | running | stopping | stopped | starting
  | destroying | destroyed | failed

datatype exercise_state = ex_pending | ex_running | ex_paused | ex_completed | ex_cancelled

fun range_transitions :: "range_state \<Rightarrow> range_state list" where
  "range_transitions created = [provisioning, destroyed]"
| "range_transitions provisioning = [ready, failed]"
| "range_transitions ready = [running, stopping, destroying, failed]"
| "range_transitions running = [stopping, destroying]"
| "range_transitions stopping = [stopped, failed, destroying]"
| "range_transitions stopped = [starting, destroying]"
| "range_transitions starting = [running, failed, destroying]"
| "range_transitions destroying = [destroyed, failed]"
| "range_transitions failed = [provisioning, destroying, destroyed]"
| "range_transitions destroyed = []"

fun exercise_transitions :: "exercise_state \<Rightarrow> exercise_state list" where
  "exercise_transitions ex_pending = [ex_running, ex_cancelled]"
| "exercise_transitions ex_running = [ex_paused, ex_completed, ex_cancelled]"
| "exercise_transitions ex_paused = [ex_running, ex_cancelled]"
| "exercise_transitions ex_completed = []"
| "exercise_transitions ex_cancelled = []"

definition can_transition_to :: "range_state \<Rightarrow> range_state \<Rightarrow> bool" where
  "can_transition_to s target = (target \<in> set (range_transitions s))"

definition ex_can_transition_to :: "exercise_state \<Rightarrow> exercise_state \<Rightarrow> bool" where
  "ex_can_transition_to s target = (target \<in> set (exercise_transitions s))"

text \<open>The enum's members in declaration order: quantifiers over states are computed.\<close>

instantiation range_state :: enum
begin

definition enum_range_state :: "range_state list" where
  "enum_range_state =
     [created, provisioning, ready, running, stopping, stopped, starting, destroying, destroyed, failed]"

definition enum_all_range_state :: "(range_state \<Rightarrow> bool) \<Rightarrow> bool" where
  "enum_all_range_state P = list_all P enum_class.enum"

definition enum_ex_range_state :: "(range_state \<Rightarrow> bool) \<Rightarrow> bool" where
  "enum_ex_range_state P = list_ex P enum_class.enum"

instance
proof
  show "(UNIV :: range_state set) = set enum_class.enum"
    by (auto simp: enum_range_state_def intro: range_state.exhaust)
  show "distinct (enum_class.enum :: range_state list)"
    by (simp add: enum_range_state_def)
  fix P :: "range_state \<Rightarrow> bool"
  show "enum_class.enum_all P = Ball UNIV P"
    using range_state.exhaust by (simp add: enum_all_range_state_def enum_range_state_def) metis
  show "enum_class.enum_ex P = Bex UNIV P"
    using range_state.exhaust by (simp add: enum_ex_range_state_def enum_range_state_def) metis
qed

end

text \<open>The states reachable by any number of permitted moves.\<close>

inductive moves :: "range_state \<Rightarrow> range_state \<Rightarrow> bool" where
  moves_refl: "moves s s"
| moves_step: "moves s t \<Longrightarrow> can_transition_to t u \<Longrightarrow> moves s u"

inductive_cases moves_from: "moves s t"

lemma moves_trans: "moves t u \<Longrightarrow> moves s t \<Longrightarrow> moves s u"
  by (induction rule: moves.induct) (auto intro: moves_step)

lemma moves_one: "can_transition_to s t \<Longrightarrow> moves s t"
  by (rule moves_step [OF moves_refl])

section \<open>Rows\<close>

type_synonym uuid = string
type_synonym time = int

definition seconds :: "int \<Rightarrow> time" where
  "seconds n = n * 1000000"

record range_row =
  rng_id :: uuid
  rng_template :: uuid
  rng_state :: range_state
  rng_tenant :: "uuid option"
  provisioner_output :: json_column
  error_message :: "string option"
  rng_deleted :: bool

record reservation =
  nr_id :: uuid
  nr_tenant :: "uuid option"
  nr_range :: "uuid option"
  nr_domain :: string
  nr_kind :: string
  nr_value :: string
  nr_holder :: string
  nr_updated :: time

datatype op_status = Pending | Dispatched | Held | Succeeded | Failed | Superseded

record operation =
  op_id :: uuid
  op_tenant :: "uuid option"
  op_range :: uuid
  op_action :: string
  generation :: nat
  idempotency_key :: "string option"
  request_hash :: string
  requested_by :: "uuid option"
  window_bypass :: "string option"
  op_status :: op_status
  task_id :: "string option"
  dispatch_attempts :: nat
  op_error :: "string option"
  op_created :: time
  dispatched_at :: "time option"
  finished_at :: "time option"

record lease =
  ls_range :: uuid
  ls_holder :: string
  ls_expires :: time

record snapshot =
  sn_id :: uuid
  sn_range :: uuid
  snapshot_state :: string

record exercise =
  ex_id :: uuid
  ex_range :: uuid
  ex_scenario :: "uuid option"
  ex_state :: exercise_state
  ex_tenant :: "uuid option"
  max_score :: int

record window =
  mw_id :: uuid
  mw_tenant :: "uuid option"
  mw_reason :: string
  starts_at :: time
  ends_at :: time
  mw_scope :: string
  mw_range_ids :: "string list"
  mw_tags :: "string list"

record template_row =
  tm_id :: uuid
  tm_yaml :: string

record lab_session =
  lab_id :: uuid
  lab_range :: "uuid option"
  retired_ranges :: "uuid list"

record audit_row =
  au_tenant :: uuid
  au_action :: string
  au_resource :: uuid

text \<open>Calls into sections that keep their own tables (certification records, range
  credentials, notices): the database records that they were made, and in which order.\<close>

datatype hook = Settled uuid op_status | BuildAccepted uuid | BuildSucceeded uuid
  | OpenedForProvision uuid uuid

record db =
  ranges :: "range_row list"
  network_reservations :: "reservation list"
  range_operations :: "operation list"
  range_leases :: "lease list"
  range_snapshots :: "snapshot list"
  exercises :: "exercise list"
  maintenance_windows :: "window list"
  templates :: "template_row list"
  lab_sessions :: "lab_session list"
  audit_log :: "audit_row list"
  hooks :: "hook list"

definition get_range :: "db \<Rightarrow> uuid \<Rightarrow> range_row option" where
  "get_range d i = find_row (\<lambda>r. rng_id r = i) (ranges d)"

definition put_range :: "uuid \<Rightarrow> (range_row \<Rightarrow> range_row) \<Rightarrow> db \<Rightarrow> db" where
  "put_range i f d = d\<lparr>ranges := update_where (\<lambda>r. rng_id r = i) f (ranges d)\<rparr>"

definition get_op :: "db \<Rightarrow> uuid \<Rightarrow> operation option" where
  "get_op d i = find_row (\<lambda>x. op_id x = i) (range_operations d)"

definition put_op :: "uuid \<Rightarrow> (operation \<Rightarrow> operation) \<Rightarrow> db \<Rightarrow> db" where
  "put_op i f d = d\<lparr>range_operations := update_where (\<lambda>x. op_id x = i) f (range_operations d)\<rparr>"

text \<open>The provider's output, as \<^verbatim>\<open>json.loads(x) if x else {}\<close> reads it; None: the text does
  not parse.\<close>

definition load_output :: "json_column \<Rightarrow> json option" where
  "load_output c = (case c of SqlNull \<Rightarrow> Some (JObj [])
     | BadText s \<Rightarrow> if s = [] then Some (JObj []) else None
     | Doc j \<Rightarrow> Some j)"

text \<open>A database without rows, and a range without history.\<close>

definition empty_db :: db where
  "empty_db = \<lparr>ranges = [], network_reservations = [], range_operations = [], range_leases = [],
     range_snapshots = [], exercises = [], maintenance_windows = [], templates = [], lab_sessions = [],
     audit_log = [], hooks = []\<rparr>"

definition sample_range :: "string \<Rightarrow> range_state \<Rightarrow> range_row" where
  "sample_range i s = \<lparr>rng_id = i, rng_template = ''t'', rng_state = s, rng_tenant = Some ''n'',
     provisioner_output = SqlNull, error_message = None, rng_deleted = False\<rparr>"

section \<open>Keys\<close>

text \<open>The primary keys, and the unique constraints of the reservation, operation and lease
  tables. A null column never conflicts.\<close>

definition uq_value :: "reservation list \<Rightarrow> bool" where
  "uq_value rs = distinct (map (\<lambda>r. (nr_domain r, nr_kind r, nr_value r)) rs)"

definition uq_holder :: "reservation list \<Rightarrow> bool" where
  "uq_holder rs = distinct (map (\<lambda>r. (nr_range r, nr_kind r, nr_holder r))
     (filter (\<lambda>r. nr_range r \<noteq> None) rs))"

definition reservations_ok :: "reservation list \<Rightarrow> bool" where
  "reservations_ok rs = (distinct (map nr_id rs) \<and> uq_value rs \<and> uq_holder rs)"

definition db_keys :: "db \<Rightarrow> bool" where
  "db_keys d = (distinct (map rng_id (ranges d)) \<and> reservations_ok (network_reservations d) \<and>
     distinct (map op_id (range_operations d)) \<and>
     distinct (map (\<lambda>x. (op_range x, generation x)) (range_operations d)) \<and>
     distinct (map ls_range (range_leases d)))"

lemma reservations_ok_filter: "reservations_ok rs \<Longrightarrow> reservations_ok (filter P rs)"
proof -
  have "uq_holder (filter P rs)" if "uq_holder rs"
    using that distinct_map_filter_rows [of "\<lambda>r. (nr_range r, nr_kind r, nr_holder r)"
        "filter (\<lambda>r. nr_range r \<noteq> None) rs" P]
    by (simp add: uq_holder_def filter_filter conj_commute)
  then show "reservations_ok rs \<Longrightarrow> reservations_ok (filter P rs)"
    by (auto simp: reservations_ok_def uq_value_def intro: distinct_map_filter_rows)
qed

lemma reservations_ok_delete: "reservations_ok rs \<Longrightarrow> reservations_ok (delete_where P rs)"
  by (simp add: delete_where_def reservations_ok_filter)

lemma uq_valueD:
  assumes "uq_value rs" "r \<in> set rs" "s \<in> set rs"
    and "nr_domain r = nr_domain s" "nr_kind r = nr_kind s" "nr_value r = nr_value s"
  shows "r = s"
  using assms inj_onD [of "\<lambda>r. (nr_domain r, nr_kind r, nr_value r)" "set rs" r s]
  by (simp add: uq_value_def distinct_map)

lemma uq_holderD:
  assumes "uq_holder rs" "r \<in> set rs" "s \<in> set rs"
    and "nr_range r = nr_range s" "nr_range s \<noteq> None" "nr_kind r = nr_kind s" "nr_holder r = nr_holder s"
  shows "r = s"
  using assms inj_onD [of "\<lambda>r. (nr_range r, nr_kind r, nr_holder r)"
      "set (filter (\<lambda>r. nr_range r \<noteq> None) rs)" r s]
  by (simp add: uq_holder_def distinct_map)

lemma get_range_SomeD: "get_range d i = Some r \<Longrightarrow> r \<in> set (ranges d) \<and> rng_id r = i"
  unfolding get_range_def by (drule find_row_SomeD) simp

lemma get_op_SomeD: "get_op d i = Some r \<Longrightarrow> r \<in> set (range_operations d) \<and> op_id r = i"
  unfolding get_op_def by (drule find_row_SomeD) simp

lemma find_row_update_where:
  assumes "\<And>r. k (f r) = k r"
  shows "find_row (\<lambda>r. k r = i) (update_where (\<lambda>r. k r = i) f rows)
    = map_option f (find_row (\<lambda>r. k r = i) rows)"
  using assms by (induction rows) (auto simp: find_row_def update_where_def)

lemma find_row_update_other:
  assumes "\<And>r. k (f r) = k r" "i \<noteq> j"
  shows "find_row (\<lambda>r. k r = j) (update_where (\<lambda>r. k r = i) f rows) = find_row (\<lambda>r. k r = j) rows"
  using assms by (induction rows) (auto simp: find_row_def update_where_def)

lemma get_put_range:
  "(\<And>r. rng_id (f r) = rng_id r) \<Longrightarrow> get_range (put_range i f d) i = map_option f (get_range d i)"
  by (simp add: get_range_def put_range_def find_row_update_where)

lemma get_put_range_other:
  "(\<And>r. rng_id (f r) = rng_id r) \<Longrightarrow> i \<noteq> j \<Longrightarrow> get_range (put_range i f d) j = get_range d j"
  by (simp add: get_range_def put_range_def find_row_update_other)

lemma get_put_op:
  "(\<And>r. op_id (f r) = op_id r) \<Longrightarrow> get_op (put_op i f d) i = map_option f (get_op d i)"
  by (simp add: get_op_def put_op_def find_row_update_where)

lemma put_range_frame [frame_simps]:
  "network_reservations (put_range i f d) = network_reservations d"
  "range_operations (put_range i f d) = range_operations d"
  "range_leases (put_range i f d) = range_leases d"
  "range_snapshots (put_range i f d) = range_snapshots d"
  "exercises (put_range i f d) = exercises d"
  "maintenance_windows (put_range i f d) = maintenance_windows d"
  "hooks (put_range i f d) = hooks d"
  by (simp_all add: put_range_def)

lemma put_op_frame [frame_simps]:
  "network_reservations (put_op i f d) = network_reservations d"
  "ranges (put_op i f d) = ranges d"
  "range_leases (put_op i f d) = range_leases d"
  "range_snapshots (put_op i f d) = range_snapshots d"
  "exercises (put_op i f d) = exercises d"
  "maintenance_windows (put_op i f d) = maintenance_windows d"
  "hooks (put_op i f d) = hooks d"
  by (simp_all add: put_op_def)

section \<open>The range state machine\<close>

text \<open>The states a task is working in: the API sets them, the worker leaves them.\<close>

definition in_progress_states :: "range_state list" where
  "in_progress_states = [provisioning, destroying, stopping, starting]"

lemma moves_destroyed: "moves destroyed t \<Longrightarrow> t = destroyed"
proof (induction "destroyed :: range_state" t rule: moves.induct)
  case (moves_step t u)
  then show ?case by (simp add: can_transition_to_def)
qed simp

lemma moves_to_destroyed: "moves s destroyed"
proof -
  have f: "moves failed destroyed" and d: "moves destroying destroyed"
    by (simp_all add: moves_one can_transition_to_def)
  have "s \<in> {created, destroyed} \<or> can_transition_to s failed \<or> can_transition_to s destroying"
    by (cases s) (simp_all add: can_transition_to_def)
  then show ?thesis
    using moves_trans [OF f moves_one] moves_trans [OF d moves_one]
    by (auto intro: moves_refl moves_one simp: can_transition_to_def)
qed

text \<open>The range state machine: destroyed is final, it can be reached from every state,
  and from every state a task is working in, the failure state or a destroy can be
  reached in one permitted move, so no range is stranded.\<close>
theorem range_machine_sound:
  "(\<forall>t. moves destroyed t \<longrightarrow> t = destroyed) \<and> moves s destroyed \<and>
   (s \<in> set in_progress_states \<longrightarrow> can_transition_to s failed) \<and>
   (s \<notin> {created, provisioning, destroying, destroyed} \<longrightarrow> can_transition_to s destroying)"
  using moves_destroyed moves_to_destroyed [of s]
  by (cases s) (auto simp: in_progress_states_def can_transition_to_def)

theorem range_machine_sound_witness:
  "moves starting destroyed \<and> can_transition_to starting failed \<and> can_transition_to starting destroying"
  using range_machine_sound [of starting] by (simp add: in_progress_states_def)

end
