(* ===== verification/Network_Inventory.thy ===== *)
theory Network_Inventory
  imports Range_Model
begin

text \<open>
  Network reservations: addresses and VLANs a range holds on shared infrastructure.

  \<^item> The API's side, \<^verbatim>\<open>app/network_inventory/service.py\<close>: \<open>reserve\<close>, \<open>sync\<close>,
    \<open>release_range\<close>.
  \<^item> The worker's side, which may not import it: the reservation statements of
    \<^verbatim>\<open>worker/db_ops.py\<close> and \<open>reserve_values\<close>, \<open>record_external\<close> of
    \<^verbatim>\<open>worker/range_alloc.py\<close>.
  \<^item> The contract both allocators promise, as the locale \<open>allocator\<close>, and its consequences
    for two ranges reserving one after the other on either side
    (\<open>shared_inventory\<close>), interpreted on both.

  An operation returns the database as it is when the operation returns or raises, and its
  result or error. A unique constraint that refuses the flush is \<open>IntegrityError\<close>: the
  transaction can then only be rolled back, so the database is the one it started from. The
  i-th uuid an operation draws is \<open>ids i\<close>. The advisory lock serialises the operations of one
  domain, so each is one step here.
\<close>

datatype alloc_error = UnknownKind | NoDomain | PoolExhausted nat nat | IntegrityError
  | DomainChanged | ReservedNetwork | NoSuchRange | NotProvisioning
  | SettingsInvalid | LiveReadFailed | LeaseLostError | BadNeed

type_synonym 'a outcome = "db \<times> (alloc_error + 'a)"

section \<open>The API's allocator\<close>

definition KINDS :: "string list" where
  "KINDS = [''mac'', ''noise_mgmt_ip'', ''uplink_ip'', ''vlan'']"

definition EXTERNAL :: string where
  "EXTERNAL = ''external:''"

definition in_domain :: "string \<Rightarrow> string \<Rightarrow> reservation \<Rightarrow> bool" where
  "in_domain domain kind r = (nr_domain r = domain \<and> nr_kind r = kind)"

definition holdings :: "reservation list \<Rightarrow> (string \<times> string) list" where
  "holdings rs = map (\<lambda>r. (nr_holder r, nr_value r)) rs"

definition destroyed_ids :: "db \<Rightarrow> uuid list" where
  "destroyed_ids d = map rng_id (filter (\<lambda>r. rng_state r = destroyed) (ranges d))"

text \<open>A destroyed range no longer holds anything, even if nothing released it yet.\<close>

definition free_destroyed :: "string \<Rightarrow> string \<Rightarrow> db \<Rightarrow> db" where
  "free_destroyed domain kind d = d\<lparr>network_reservations := delete_where
     (\<lambda>r. in_domain domain kind r \<and> nr_range r \<in> Some ` set (destroyed_ids d)) (network_reservations d)\<rparr>"

definition taken_values :: "string \<Rightarrow> string \<Rightarrow> db \<Rightarrow> string list" where
  "taken_values domain kind d = map nr_value (filter (in_domain domain kind) (network_reservations d))"

definition new_rows :: "(nat \<Rightarrow> uuid) \<Rightarrow> time \<Rightarrow> uuid option \<Rightarrow> uuid \<Rightarrow> string \<Rightarrow> string \<Rightarrow>
    (string \<times> string) list \<Rightarrow> reservation list" where
  "new_rows ids now tenant rid domain kind new =
     map (\<lambda>(i, h, v). \<lparr>nr_id = ids i, nr_tenant = tenant, nr_range = Some rid, nr_domain = domain,
        nr_kind = kind, nr_value = v, nr_holder = h, nr_updated = now\<rparr>) (zip [0..<length new] new)"

text \<open>The flush of new rows: the unique constraints are the last word.\<close>

definition flush_rows :: "reservation list \<Rightarrow> db \<Rightarrow> db option" where
  "flush_rows rows d =
     (if reservations_ok (network_reservations d @ rows)
      then Some (d\<lparr>network_reservations := network_reservations d @ rows\<rparr>) else None)"

definition answer :: "(string \<Rightarrow> string option) \<Rightarrow> string list \<Rightarrow> (string \<times> string) list" where
  "answer mine holders = map (\<lambda>h. (h, the (mine h))) (dict_fromkeys holders)"

definition reserve :: "(nat \<Rightarrow> uuid) \<Rightarrow> time \<Rightarrow> range_row \<Rightarrow> string \<Rightarrow> string \<Rightarrow> string list \<Rightarrow>
    string list \<Rightarrow> db \<Rightarrow> (string \<times> string) list outcome" where
  "reserve ids now rng domain kind pool holders d =
     (if kind \<notin> set KINDS then (d, Inl UnknownKind)
      else if domain = [] then (d, Inl NoDomain)
      else let mine = dict_of (holdings (filter
                 (\<lambda>r. nr_range r = Some (rng_id rng) \<and> in_domain domain kind r) (network_reservations d)));
               needed = filter (\<lambda>h. mine h = None) (dict_fromkeys holders)
      in if needed = [] then (d, Inr (answer mine holders))
      else let d1 = free_destroyed domain kind d;
               taken = taken_values domain kind d1;
               free = filter (\<lambda>v. v \<notin> set taken) pool
      in if length free < length needed then (d1, Inl (PoolExhausted (length free) (length needed)))
      else let new = zip needed free;
               rows = new_rows ids now (rng_tenant rng) (rng_id rng) domain kind new
      in case flush_rows rows d1 of
           None \<Rightarrow> (d, Inl IntegrityError)
         | Some d2 \<Rightarrow> (d2, Inr (answer (mine ++ map_of new) holders)))"

definition sync :: "(nat \<Rightarrow> uuid) \<Rightarrow> time \<Rightarrow> range_row \<Rightarrow> string \<Rightarrow> string \<Rightarrow> string list \<Rightarrow>
    string list \<Rightarrow> db \<Rightarrow> (string \<times> string) list outcome" where
  "sync ids now rng domain kind pool holders d =
     (let stale = map nr_id (filter (\<lambda>r. nr_range r = Some (rng_id rng) \<and> nr_kind r = kind \<and>
            (nr_domain r \<noteq> domain \<or> nr_holder r \<notin> set holders \<or> nr_value r \<notin> set pool))
            (network_reservations d));
          d1 = d\<lparr>network_reservations :=
            delete_where (\<lambda>r. nr_id r \<in> set stale) (network_reservations d)\<rparr>
      in if holders = [] then (d1, Inr [])
         else reserve ids now rng domain kind pool holders d1)"

definition release_range :: "uuid \<Rightarrow> db \<Rightarrow> db \<times> nat" where
  "release_range rid d =
     (d\<lparr>network_reservations := delete_where (\<lambda>r. nr_range r = Some rid) (network_reservations d)\<rparr>,
      count_where (\<lambda>r. nr_range r = Some rid) (network_reservations d))"

section \<open>The worker's statements\<close>

definition range_reservations :: "db \<Rightarrow> uuid \<Rightarrow> string \<Rightarrow> reservation list" where
  "range_reservations d rid kind =
     filter (\<lambda>r. nr_range r = Some rid \<and> nr_kind r = kind) (network_reservations d)"

definition drop_range_reservations :: "uuid \<Rightarrow> string \<Rightarrow> string list \<Rightarrow> db \<Rightarrow> db" where
  "drop_range_reservations rid kind holders d = d\<lparr>network_reservations := delete_where
     (\<lambda>r. nr_range r = Some rid \<and> nr_kind r = kind \<and> nr_holder r \<in> set holders)
     (network_reservations d)\<rparr>"

definition taken_reservation_values :: "string \<Rightarrow> string \<Rightarrow> db \<Rightarrow> db \<times> string list" where
  "taken_reservation_values domain kind d =
     (let d1 = free_destroyed domain kind d in (d1, taken_values domain kind d1))"

definition insert_reservations :: "(nat \<Rightarrow> uuid) \<Rightarrow> time \<Rightarrow> uuid \<Rightarrow> string \<Rightarrow> string \<Rightarrow>
    (string \<times> string) list \<Rightarrow> db \<Rightarrow> db \<Rightarrow> unit outcome" where
  "insert_reservations ids now rid domain kind values start d =
     (case get_range d rid of None \<Rightarrow> (start, Inl NoSuchRange)
      | Some rng \<Rightarrow>
        (case flush_rows (new_rows ids now (rng_tenant rng) rid domain kind values) d of
           None \<Rightarrow> (start, Inl IntegrityError) | Some d2 \<Rightarrow> (d2, Inr ())))"

definition release_destroyed_range :: "uuid \<Rightarrow> db \<Rightarrow> db \<times> nat" where
  "release_destroyed_range rid d =
     (let P = (\<lambda>r. rid \<in> set (destroyed_ids d) \<and> nr_range r = Some rid) in
      (d\<lparr>network_reservations := delete_where P (network_reservations d)\<rparr>,
       count_where P (network_reservations d)))"

definition range_held_values :: "db \<Rightarrow> string \<Rightarrow> string \<Rightarrow> string list" where
  "range_held_values d domain kind = map nr_value
     (filter (\<lambda>r. in_domain domain kind r \<and> nr_range r \<noteq> None) (network_reservations d))"

definition external_reservations :: "db \<Rightarrow> string \<Rightarrow> string \<Rightarrow> reservation list" where
  "external_reservations d domain kind =
     filter (\<lambda>r. in_domain domain kind r \<and> nr_range r = None) (network_reservations d)"

definition drop_reservation_ids :: "uuid list \<Rightarrow> time option \<Rightarrow> db \<Rightarrow> db" where
  "drop_reservation_ids is seen_before d = d\<lparr>network_reservations := delete_where
     (\<lambda>r. nr_id r \<in> set is \<and> (case seen_before of None \<Rightarrow> True | Some t \<Rightarrow> nr_updated r < t))
     (network_reservations d)\<rparr>"

definition touch_reservation_ids :: "uuid list \<Rightarrow> time \<Rightarrow> db \<Rightarrow> db" where
  "touch_reservation_ids is at d = d\<lparr>network_reservations := update_where
     (\<lambda>r. nr_id r \<in> set is \<and> nr_updated r < at) (\<lambda>r. r\<lparr>nr_updated := at\<rparr>) (network_reservations d)\<rparr>"

definition expire_external :: "string \<Rightarrow> string \<Rightarrow> string \<Rightarrow> time \<Rightarrow> db \<Rightarrow> db" where
  "expire_external domain kind keep_prefix before d = d\<lparr>network_reservations := delete_where
     (\<lambda>r. in_domain domain kind r \<and> nr_range r = None \<and> nr_updated r < before \<and>
        \<not> startswith (nr_holder r) keep_prefix) (network_reservations d)\<rparr>"

definition external_rows :: "(nat \<Rightarrow> uuid) \<Rightarrow> string \<Rightarrow> string \<Rightarrow> (string \<times> string) list \<Rightarrow> time \<Rightarrow>
    reservation list" where
  "external_rows ids domain kind values seen_at =
     map (\<lambda>(i, v, h). \<lparr>nr_id = ids i, nr_tenant = None, nr_range = None, nr_domain = domain,
        nr_kind = kind, nr_value = v, nr_holder = take 255 h, nr_updated = seen_at\<rparr>)
       (zip [0..<length values] values)"

definition insert_external_reservations :: "(nat \<Rightarrow> uuid) \<Rightarrow> string \<Rightarrow> string \<Rightarrow>
    (string \<times> string) list \<Rightarrow> time \<Rightarrow> db \<Rightarrow> db \<Rightarrow> unit outcome" where
  "insert_external_reservations ids domain kind values seen_at start d =
     (case flush_rows (external_rows ids domain kind values seen_at) d of
        None \<Rightarrow> (start, Inl IntegrityError) | Some d2 \<Rightarrow> (d2, Inr ()))"

definition drop_range_values :: "uuid \<Rightarrow> string \<Rightarrow> string \<Rightarrow> string list \<Rightarrow> db \<Rightarrow> db \<times> nat" where
  "drop_range_values rid domain kind values d =
     (let P = (\<lambda>r. nr_range r = Some rid \<and> in_domain domain kind r \<and> nr_value r \<in> set values) in
      (d\<lparr>network_reservations := delete_where P (network_reservations d)\<rparr>,
       count_where P (network_reservations d)))"

section \<open>The worker's allocator\<close>

text \<open>A fresh build first frees the range's holders of the kind that it no longer has.\<close>

definition prune_stale :: "bool \<Rightarrow> uuid \<Rightarrow> string \<Rightarrow> string list \<Rightarrow> db \<Rightarrow> db" where
  "prune_stale prune rid kind holders d =
     (let stale = filter (\<lambda>h. h \<notin> set holders) (map nr_holder (range_reservations d rid kind))
      in if prune \<and> stale \<noteq> [] then drop_range_reservations rid kind stale d else d)"

definition reserve_values :: "(nat \<Rightarrow> uuid) \<Rightarrow> time \<Rightarrow> bool \<Rightarrow> string list \<Rightarrow> uuid \<Rightarrow> string \<Rightarrow>
    string \<Rightarrow> string list \<Rightarrow> string list \<Rightarrow> db \<Rightarrow> (string \<times> string) list outcome" where
  "reserve_values ids now prune excluded rid domain kind pool holders d =
     (if domain = [] then (d, Inl NoDomain)
      else let rows = range_reservations d rid kind;
               elsewhere = filter (\<lambda>x. x \<noteq> domain) (map nr_domain rows)
      in if elsewhere \<noteq> [] then (d, Inl DomainChanged)
      else let d1 = prune_stale prune rid kind holders d;
               kept = (if prune then filter (\<lambda>r. nr_holder r \<in> set holders) rows else rows);
               mine = dict_of (holdings kept);
               reserved = filter (\<lambda>v. v \<in> set excluded) (map nr_value kept)
      in if reserved \<noteq> [] then (d1, Inl ReservedNetwork)
      else let needed = filter (\<lambda>h. mine h = None) (dict_fromkeys holders)
      in if needed = [] then (d1, Inr (answer mine holders))
      else let (d2, taken) = taken_reservation_values domain kind d1;
               free = take (length needed) (filter (\<lambda>v. v \<notin> set taken \<and> v \<notin> set excluded) pool)
      in if length free < length needed then (d2, Inl (PoolExhausted (length free) (length needed)))
      else let new = zip needed free
      in case insert_reservations ids now rid domain kind new d d2 of
           (d3, Inl e) \<Rightarrow> (d3, Inl e)
         | (d3, Inr _) \<Rightarrow> (d3, Inr (answer (mine ++ map_of new) holders)))"

record live_usage =
  lu_domain :: string
  lu_kind :: string
  lu_source :: string
  lu_foreign :: "(string \<times> string) list"
  lu_managed :: "(string \<times> string) list"
  lu_read_at :: "time option"

definition EXTERNAL_TTL :: time where
  "EXTERNAL_TTL = seconds (30 * 86400)"

definition source_prefix :: "string \<Rightarrow> string" where
  "source_prefix source = EXTERNAL @ source @ '':''"

definition add_managed :: "string \<Rightarrow> string list \<Rightarrow> (string \<times> string) list \<Rightarrow> string \<times> string \<Rightarrow>
    (string \<times> string) list" where
  "add_managed prefix held want x = (if fst x \<notin> set held \<and> fst x \<notin> fst ` set want
     then want @ [(fst x, prefix @ snd x @ '' (orphaned TrueNorth port group)'')] else want)"

definition wanted_external :: "live_usage \<Rightarrow> string list \<Rightarrow> (string \<times> string) list" where
  "wanted_external u held =
     (let prefix = source_prefix (lu_source u);
          want = map (\<lambda>x. (fst x, prefix @ snd x)) (lu_foreign u)
      in filter (\<lambda>x. fst x \<notin> set held) (foldl (add_managed prefix held) want (lu_managed u)))"

text \<open>What the read leaves of the source's earlier entries, with the time it saw them.\<close>

definition refresh_external :: "live_usage \<Rightarrow> time \<Rightarrow> (string \<times> string) list \<Rightarrow> db \<Rightarrow> db" where
  "refresh_external u now want d =
     (let domain = lu_domain u; kind = lu_kind u;
          prefix = source_prefix (lu_source u);
          d2 = expire_external domain kind prefix (now - EXTERNAL_TTL) d;
          ours = filter (\<lambda>r. startswith (nr_holder r) prefix) (external_reservations d2 domain kind);
          d3 = (case lu_read_at u of None \<Rightarrow> d2
                | Some t \<Rightarrow> drop_reservation_ids
                    (map nr_id (filter (\<lambda>r. nr_value r \<notin> fst ` set want) ours)) (Some t) d2)
      in touch_reservation_ids (map nr_id (filter (\<lambda>r. nr_value r \<in> fst ` set want) ours))
           (case lu_read_at u of Some t \<Rightarrow> t | None \<Rightarrow> now) d3)"

definition record_external :: "(nat \<Rightarrow> uuid) \<Rightarrow> live_usage \<Rightarrow> time \<Rightarrow> db \<Rightarrow> (string \<times> string) list outcome" where
  "record_external ids u now d =
     (let domain = lu_domain u; kind = lu_kind u;
          (d1, _) = taken_reservation_values domain kind d;
          want = wanted_external u (range_held_values d1 domain kind);
          d4 = refresh_external u now want d1;
          present = map nr_value (external_reservations d4 domain kind)
      in case insert_external_reservations ids domain kind
                (filter (\<lambda>x. fst x \<notin> set present) want)
                (case lu_read_at u of Some t \<Rightarrow> t | None \<Rightarrow> now) d d4 of
           (d5, Inl e) \<Rightarrow> (d5, Inl e)
         | (d5, Inr _) \<Rightarrow> (d5, Inr want))"

section \<open>What the allocators promise\<close>

definition holds :: "db \<Rightarrow> uuid \<Rightarrow> string \<Rightarrow> string \<Rightarrow> string \<Rightarrow> string \<Rightarrow> bool" where
  "holds d rid domain kind h v = (\<exists>r \<in> set (network_reservations d).
     nr_range r = Some rid \<and> in_domain domain kind r \<and> nr_holder r = h \<and> nr_value r = v)"

definition live_range :: "db \<Rightarrow> range_row \<Rightarrow> bool" where
  "live_range d rng = (get_range d (rng_id rng) = Some rng \<and> rng_id rng \<notin> set (destroyed_ids d))"

definition inventory_ok :: "db \<Rightarrow> bool" where
  "inventory_ok d = reservations_ok (network_reservations d)"

lemma holds_value_unique:
  assumes "inventory_ok d" "holds d a domain kind h v" "holds d b domain kind g v"
  shows "a = b \<and> h = g"
proof -
  obtain r s where r: "r \<in> set (network_reservations d)" "nr_range r = Some a" "nr_holder r = h"
    "in_domain domain kind r" "nr_value r = v"
    and s: "s \<in> set (network_reservations d)" "nr_range s = Some b" "nr_holder s = g"
    "in_domain domain kind s" "nr_value s = v"
    using assms by (auto simp: holds_def)
  then have "r = s"
    using assms(1) by (intro uq_valueD) (auto simp: inventory_ok_def reservations_ok_def in_domain_def)
  then show ?thesis using r s by simp
qed

lemma holds_holder_unique:
  assumes "inventory_ok d" "holds d a domain kind h v" "holds d a domain kind h w"
  shows "v = w"
proof -
  obtain r s where "r \<in> set (network_reservations d)" "nr_range r = Some a" "nr_holder r = h"
    "in_domain domain kind r" "nr_value r = v"
    and "s \<in> set (network_reservations d)" "nr_range s = Some a" "nr_holder s = h"
    "in_domain domain kind s" "nr_value s = w"
    using assms by (auto simp: holds_def)
  moreover then have "r = s"
    using assms(1) by (intro uq_holderD) (auto simp: inventory_ok_def reservations_ok_def in_domain_def)
  ultimately show ?thesis by simp
qed

text \<open>The contract: the table's constraints are kept; the answer names every holder once, with a
  value the range then holds in that domain; a holder that has a value keeps it; other live
  ranges' reservations are not touched.\<close>

locale allocator =
  fixes alloc :: "range_row \<Rightarrow> string \<Rightarrow> string \<Rightarrow> string list \<Rightarrow> string list \<Rightarrow> db \<Rightarrow>
    (string \<times> string) list outcome"
  assumes alloc_ok: "inventory_ok d \<Longrightarrow> alloc rng domain kind pool hs d = (d', res) \<Longrightarrow> inventory_ok d'"
    and alloc_ranges: "alloc rng domain kind pool hs d = (d', res) \<Longrightarrow> ranges d' = ranges d"
    and alloc_names: "alloc rng domain kind pool hs d = (d', Inr m) \<Longrightarrow> map fst m = dict_fromkeys hs"
    and alloc_gives: "inventory_ok d \<Longrightarrow> live_range d rng \<Longrightarrow>
      alloc rng domain kind pool hs d = (d', Inr m) \<Longrightarrow> (h, v) \<in> set m \<Longrightarrow>
      holds d' (rng_id rng) domain kind h v"
    and alloc_keeps: "inventory_ok d \<Longrightarrow> live_range d rng \<Longrightarrow>
      alloc rng domain kind pool hs d = (d', Inr m) \<Longrightarrow> holds d (rng_id rng) domain kind h v \<Longrightarrow>
      h \<in> set hs \<Longrightarrow> holds d' (rng_id rng) domain kind h v"
    and alloc_others: "alloc rng domain kind pool hs d = (d', res) \<Longrightarrow> r \<in> set (network_reservations d) \<Longrightarrow>
      nr_range r \<noteq> Some (rng_id rng) \<Longrightarrow> nr_range r \<notin> Some ` set (destroyed_ids d) \<Longrightarrow>
      r \<in> set (network_reservations d')"
begin

lemma others_hold:
  assumes "alloc rng domain kind pool hs d = (d', res)" "a \<noteq> rng_id rng" "a \<notin> set (destroyed_ids d)"
    and "holds d a dom2 kind2 h v"
  shows "holds d' a dom2 kind2 h v"
  using assms(4) alloc_others [OF assms(1)] assms(2,3) by (fastforce simp: holds_def)

text \<open>A value is given only to the range that holds it or when nothing live holds it.\<close>

lemma given_not_taken:
  assumes "inventory_ok d" "live_range d rng" "alloc rng domain kind pool hs d = (d', Inr m)"
    and "(h, v) \<in> set m" "r \<in> set (network_reservations d)" "in_domain domain kind r" "nr_value r = v"
    and "nr_range r \<notin> Some ` set (destroyed_ids d)"
  shows "nr_range r = Some (rng_id rng)"
proof (rule ccontr)
  assume other: "nr_range r \<noteq> Some (rng_id rng)"
  then have r': "r \<in> set (network_reservations d')"
    using alloc_others [OF assms(3,5) _ assms(8)] by simp
  obtain s where s: "s \<in> set (network_reservations d')" "nr_range s = Some (rng_id rng)"
    "in_domain domain kind s" "nr_value s = v"
    using alloc_gives [OF assms(1-4)] by (auto simp: holds_def)
  have "r = s"
    using r' s assms(6,7) alloc_ok [OF assms(1,3)]
    by (intro uq_valueD) (auto simp: inventory_ok_def reservations_ok_def in_domain_def)
  then show False using s other by simp
qed

lemma answer_is_held:
  assumes "inventory_ok d" "live_range d rng" "alloc rng domain kind pool hs d = (d', Inr m)"
  shows "holds d' (rng_id rng) domain kind h v \<and> h \<in> set hs \<longleftrightarrow> (h, v) \<in> set m"
proof
  assume "(h, v) \<in> set m"
  moreover then have "h \<in> set hs"
    using alloc_names [OF assms(3)] by (metis fst_conv in_set_zip list.set_map rev_image_eqI set_dict_fromkeys)
  ultimately show "holds d' (rng_id rng) domain kind h v \<and> h \<in> set hs"
    using alloc_gives [OF assms] by blast
next
  assume h: "holds d' (rng_id rng) domain kind h v \<and> h \<in> set hs"
  then have "h \<in> fst ` set m"
    using alloc_names [OF assms(3)] by (metis list.set_map set_dict_fromkeys)
  then obtain w where w: "(h, w) \<in> set m" by auto
  then have "holds d' (rng_id rng) domain kind h w" by (rule alloc_gives [OF assms])
  then have "v = w"
    using h alloc_ok [OF assms(1,3)] by (auto intro: holds_holder_unique)
  then show "(h, v) \<in> set m" using w by simp
qed

lemma live_after: "alloc rng domain kind pool hs d = (d', r) \<Longrightarrow> live_range d' x = live_range d x"
  by (drule alloc_ranges) (simp add: live_range_def get_range_def destroyed_ids_def)

end

text \<open>Two allocators on one table, whichever side serves which range.\<close>

locale shared_inventory = first: allocator alloc1 + second: allocator alloc2 for alloc1 alloc2
begin

lemma no_collision:
  assumes "inventory_ok d" "live_range d a" "live_range d b" "rng_id a \<noteq> rng_id b"
    and "alloc1 a domain kind pool1 hs1 d = (d', Inr m1)"
    and "alloc2 b domain kind pool2 hs2 d' = (d'', Inr m2)"
  shows "snd ` set m1 \<inter> snd ` set m2 = {}"
proof (rule ccontr)
  assume "snd ` set m1 \<inter> snd ` set m2 \<noteq> {}"
  then obtain h g v where v: "(h, v) \<in> set m1" "(g, v) \<in> set m2" by auto
  have ok': "inventory_ok d'" by (rule first.alloc_ok [OF assms(1,5)])
  have "ranges d' = ranges d" by (rule first.alloc_ranges [OF assms(5)])
  then have live': "live_range d' b" "rng_id a \<notin> set (destroyed_ids d')"
    using assms(2,3) by (simp_all add: live_range_def get_range_def destroyed_ids_def)
  have "holds d' (rng_id a) domain kind h v"
    by (rule first.alloc_gives [OF assms(1,2,5) v(1)])
  then have "holds d'' (rng_id a) domain kind h v"
    using assms(4) live'(2) by (intro second.others_hold [OF assms(6)]) auto
  moreover have "holds d'' (rng_id b) domain kind g v"
    by (rule second.alloc_gives [OF ok' live'(1) assms(6) v(2)])
  moreover have "inventory_ok d''" by (rule second.alloc_ok [OF ok' assms(6)])
  ultimately show False using assms(4) holds_value_unique by blast
qed

lemma same_answer_again:
  assumes "inventory_ok d" "live_range d rng" "alloc1 rng domain kind pool hs d = (d', Inr m)"
    and "alloc2 rng domain kind pool2 hs d' = (d'', Inr m')"
  shows "m' = m"
proof -
  have live': "live_range d' rng" using first.live_after [OF assms(3)] assms(2) by simp
  have ok': "inventory_ok d'" by (rule first.alloc_ok [OF assms(1,3)])
  have "set m \<subseteq> set m'"
  proof
    fix x assume "x \<in> set m"
    then obtain h v where x: "x = (h, v)" "(h, v) \<in> set m" by (metis surj_pair)
    then have h: "holds d' (rng_id rng) domain kind h v" "h \<in> set hs"
      using first.answer_is_held [OF assms(1-3)] by blast+
    then have "holds d'' (rng_id rng) domain kind h v"
      by (intro second.alloc_keeps [OF ok' live' assms(4)])
    then show "x \<in> set m'"
      using second.answer_is_held [OF ok' live' assms(4)] h(2) x by blast
  qed
  then show ?thesis
    using first.alloc_names [OF assms(3)] second.alloc_names [OF assms(4)] by (intro assoc_eqI) simp_all
qed

end

section \<open>Both allocators keep the contract\<close>

lemma new_rows_iff:
  "r \<in> set (new_rows ids now t rid domain kind new) \<Longrightarrow>
   nr_range r = Some rid \<and> in_domain domain kind r \<and> (nr_holder r, nr_value r) \<in> set new"
  by (auto simp: new_rows_def in_domain_def dest: set_zip_rightD)

lemma holdings_new_rows: "holdings (new_rows ids now t rid domain kind new) = new"
  by (rule nth_equalityI) (auto simp: new_rows_def holdings_def split: prod.split)

lemma new_rows_holdings:
  assumes "(h, v) \<in> set new"
  shows "\<exists>r \<in> set (new_rows ids now t rid domain kind new). nr_range r = Some rid \<and>
    in_domain domain kind r \<and> nr_holder r = h \<and> nr_value r = v"
proof -
  have "(h, v) \<in> set (holdings (new_rows ids now t rid domain kind new))"
    using assms by (simp only: holdings_new_rows)
  then show ?thesis
    using new_rows_iff [of _ ids now t rid domain kind new] by (auto simp: holdings_def)
qed

lemma flush_rows_Some:
  "flush_rows rows d = Some d' \<longleftrightarrow>
   d' = d\<lparr>network_reservations := network_reservations d @ rows\<rparr> \<and> inventory_ok d'"
  by (auto simp: flush_rows_def inventory_ok_def)

lemma free_destroyed_frame [frame_simps]:
  "ranges (free_destroyed domain kind d) = ranges d"
  "destroyed_ids (free_destroyed domain kind d) = destroyed_ids d"
  "get_range (free_destroyed domain kind d) i = get_range d i"
  by (simp_all add: free_destroyed_def destroyed_ids_def get_range_def)

lemma free_destroyed_ok: "inventory_ok d \<Longrightarrow> inventory_ok (free_destroyed domain kind d)"
  by (simp add: inventory_ok_def free_destroyed_def reservations_ok_delete)

lemma free_destroyed_holds:
  "holds d a dom2 kind2 h v \<Longrightarrow> a \<notin> set (destroyed_ids d) \<Longrightarrow>
   holds (free_destroyed domain kind d) a dom2 kind2 h v"
  by (fastforce simp: holds_def free_destroyed_def)

lemma free_destroyed_subset:
  "set (network_reservations (free_destroyed domain kind d)) \<subseteq> set (network_reservations d)"
  by (auto simp: free_destroyed_def)

lemma holds_more:
  "holds d a domain kind h v \<Longrightarrow> set (network_reservations d) \<subseteq> set (network_reservations d') \<Longrightarrow>
   holds d' a domain kind h v"
  by (auto simp: holds_def)

lemma answer_fst [simp]: "map fst (answer mine hs) = dict_fromkeys hs"
  by (simp add: answer_def comp_def)

lemma answer_iff: "(h, v) \<in> set (answer mine hs) \<longleftrightarrow> h \<in> set hs \<and> v = the (mine h)"
  by (auto simp: answer_def)

lemma dict_of_holdings:
  assumes "dict_of (holdings (filter P (network_reservations d))) h = Some v"
  shows "\<exists>r \<in> set (network_reservations d). P r \<and> nr_holder r = h \<and> nr_value r = v"
  using dict_of_SomeD [OF assms] by (auto simp: holdings_def)

text \<open>What an answer is made of: a holder either had its value, or is one of the new pairs.\<close>

lemma zip_needed:
  assumes "mine h = None" "h \<in> set hs" "length (filter (\<lambda>h. mine h = None) (dict_fromkeys hs)) \<le> length free"
  shows "\<exists>v. map_of (zip (filter (\<lambda>h. mine h = None) (dict_fromkeys hs)) free) h = Some v"
proof -
  let ?needed = "filter (\<lambda>h. mine h = None) (dict_fromkeys hs)"
  have "set (map fst (zip ?needed free)) = set ?needed"
    using assms(3) by (simp only: map_fst_zip_take min_absorb1 take_all order_refl)
  then have "h \<in> fst ` set (zip ?needed free)" using assms(1,2) by auto
  then show ?thesis by (metis map_of_eq_None_iff option.exhaust)
qed

lemma merged_answer:
  assumes "(h, v) \<in> set (answer (mine ++ map_of (zip needed free)) hs)"
    and "needed = filter (\<lambda>h. mine h = None) (dict_fromkeys hs)" "length needed \<le> length free"
  shows "mine h = Some v \<or> (h, v) \<in> set (zip needed free)"
proof (cases "mine h")
  case None
  then obtain w where "map_of (zip needed free) h = Some w"
    using assms zip_needed [of mine h hs free] by (auto simp: answer_iff)
  then show ?thesis
    using assms(1) by (auto simp: answer_iff map_of_SomeD)
next
  case (Some w)
  then have "map_of (zip needed free) h = None"
    using assms(2) by (auto simp: map_of_eq_None_iff dest: set_zip_leftD)
  then show ?thesis
    using assms(1) Some by (simp add: answer_iff map_add_def)
qed

lemma reserve_cases:
  assumes "reserve ids now rng domain kind pool hs d = (d', res)"
  obtains (refused) e where "d' = d" "res = Inl e"
  | (nothing_new) mine where "mine = dict_of (holdings (filter
        (\<lambda>r. nr_range r = Some (rng_id rng) \<and> in_domain domain kind r) (network_reservations d)))"
      "filter (\<lambda>h. mine h = None) (dict_fromkeys hs) = []" "d' = d" "res = Inr (answer mine hs)"
  | (exhausted) n k where "d' = free_destroyed domain kind d" "res = Inl (PoolExhausted n k)"
  | (reserved) mine needed free where "mine = dict_of (holdings (filter
        (\<lambda>r. nr_range r = Some (rng_id rng) \<and> in_domain domain kind r) (network_reservations d)))"
      "needed = filter (\<lambda>h. mine h = None) (dict_fromkeys hs)"
      "free = filter (\<lambda>v. v \<notin> set (taken_values domain kind (free_destroyed domain kind d))) pool"
      "length needed \<le> length free"
      "flush_rows (new_rows ids now (rng_tenant rng) (rng_id rng) domain kind (zip needed free))
         (free_destroyed domain kind d) = Some d'"
      "res = Inr (answer (mine ++ map_of (zip needed free)) hs)"
proof -
  define mine where "mine = dict_of (holdings (filter
    (\<lambda>r. nr_range r = Some (rng_id rng) \<and> in_domain domain kind r) (network_reservations d)))"
  define needed where "needed = filter (\<lambda>h. mine h = None) (dict_fromkeys hs)"
  define free where
    "free = filter (\<lambda>v. v \<notin> set (taken_values domain kind (free_destroyed domain kind d))) pool"
  note defs = mine_def [symmetric] needed_def [symmetric] free_def [symmetric]
  have e: "(d', res) = (if kind \<notin> set KINDS then (d, Inl UnknownKind)
      else if domain = [] then (d, Inl NoDomain)
      else if needed = [] then (d, Inr (answer mine hs))
      else if length free < length needed
        then (free_destroyed domain kind d, Inl (PoolExhausted (length free) (length needed)))
      else case flush_rows (new_rows ids now (rng_tenant rng) (rng_id rng) domain kind (zip needed free))
          (free_destroyed domain kind d) of
          None \<Rightarrow> (d, Inl IntegrityError)
        | Some d2 \<Rightarrow> (d2, Inr (answer (mine ++ map_of (zip needed free)) hs)))"
    using assms by (simp only: reserve_def Let_def defs)
  then show thesis
    using refused nothing_new [OF mine_def] exhausted
      reserved [OF mine_def needed_def free_def]
    by (simp add: needed_def [symmetric] split: if_splits option.splits)
qed

interpretation api_reserve: allocator "reserve ids now" for ids now
proof
  fix d d' rng domain kind pool hs r
  assume "inventory_ok d" and e: "reserve ids now rng domain kind pool hs d = (d', r)"
  with e show "inventory_ok d'"
    by (cases rule: reserve_cases) (auto simp: free_destroyed_ok flush_rows_Some)
next
  fix d d' rng domain kind pool hs r
  assume "reserve ids now rng domain kind pool hs d = (d', r)"
  then show "ranges d' = ranges d"
    by (rule reserve_cases) (auto simp: flush_rows_Some frame_simps)
next
  fix d d' rng domain kind pool hs m
  assume "reserve ids now rng domain kind pool hs d = (d', Inr m)"
  then show "map fst m = dict_fromkeys hs"
    by (rule reserve_cases) auto
next
  fix d d' rng domain kind pool hs m h v
  assume a: "inventory_ok d" "live_range d rng" "reserve ids now rng domain kind pool hs d = (d', Inr m)"
    "(h, v) \<in> set m"
  show "holds d' (rng_id rng) domain kind h v"
    using a(3)
  proof (cases rule: reserve_cases)
    case (nothing_new mine)
    then have "mine h \<noteq> None" "h \<in> set hs" using a(4) by (auto simp: answer_iff filter_empty_conv)
    then have "mine h = Some v" using nothing_new a(4) by (auto simp: answer_iff)
    then show ?thesis
      using nothing_new dict_of_holdings [of _ d h v] by (auto simp: holds_def)
  next
    case (reserved mine needed free)
    have "(h, v) \<in> set (answer (mine ++ map_of (zip needed free)) hs)"
      using reserved(6) a(4) by simp
    then consider "mine h = Some v" | "(h, v) \<in> set (zip needed free)"
      using merged_answer [OF _ reserved(2,4)] by blast
    then show ?thesis
    proof cases
      case 1
      then have "holds d (rng_id rng) domain kind h v"
        using reserved(1) dict_of_holdings [of _ d h v] by (auto simp: holds_def)
      then have "holds (free_destroyed domain kind d) (rng_id rng) domain kind h v"
        using a(2) by (auto intro: free_destroyed_holds simp: live_range_def)
      then show ?thesis
        by (rule holds_more) (use reserved(5) in \<open>auto simp: flush_rows_Some\<close>)
    next
      case 2
      then show ?thesis
        using reserved(5) new_rows_holdings [OF 2] by (fastforce simp: flush_rows_Some holds_def)
    qed
  qed auto
next
  fix d d' rng domain kind pool hs m h v
  assume a: "inventory_ok d" "live_range d rng" "reserve ids now rng domain kind pool hs d = (d', Inr m)"
    "holds d (rng_id rng) domain kind h v"
  from a(3) show "holds d' (rng_id rng) domain kind h v"
  proof (cases rule: reserve_cases)
    case (reserved mine needed free)
    have "holds (free_destroyed domain kind d) (rng_id rng) domain kind h v"
      using a(2,4) by (auto intro: free_destroyed_holds simp: live_range_def)
    then show ?thesis
      by (rule holds_more) (use reserved(5) in \<open>auto simp: flush_rows_Some\<close>)
  qed (use a(4) in auto)
next
  fix d d' rng domain kind pool hs res r
  assume e: "reserve ids now rng domain kind pool hs d = (d', res)"
    and r: "r \<in> set (network_reservations d)" "nr_range r \<notin> Some ` set (destroyed_ids d)"
  have "r \<in> set (network_reservations (free_destroyed domain kind d))"
    using r by (auto simp: free_destroyed_def)
  from e this r show "r \<in> set (network_reservations d')"
    by (cases rule: reserve_cases) (auto simp: flush_rows_Some)
qed

lemma prune_stale_frame [frame_simps]:
  "ranges (prune_stale prune rid kind hs d) = ranges d"
  "destroyed_ids (prune_stale prune rid kind hs d) = destroyed_ids d"
  "get_range (prune_stale prune rid kind hs d) i = get_range d i"
  by (simp_all add: prune_stale_def drop_range_reservations_def destroyed_ids_def get_range_def Let_def)

lemma prune_stale_ok: "inventory_ok d \<Longrightarrow> inventory_ok (prune_stale prune rid kind hs d)"
  by (simp add: prune_stale_def drop_range_reservations_def inventory_ok_def reservations_ok_delete Let_def)

lemma prune_stale_rows:
  "r \<in> set (network_reservations (prune_stale prune rid kind hs d)) \<longleftrightarrow>
   r \<in> set (network_reservations d) \<and>
   \<not> (prune \<and> nr_range r = Some rid \<and> nr_kind r = kind \<and> nr_holder r \<notin> set hs)"
  by (auto simp: prune_stale_def drop_range_reservations_def range_reservations_def Let_def
      filter_empty_conv image_iff)

lemma insert_reservations_Inr:
  "insert_reservations ids now rid domain kind new start d = (d', Inr u) \<longleftrightarrow>
   (\<exists>rng. get_range d rid = Some rng \<and>
     flush_rows (new_rows ids now (rng_tenant rng) rid domain kind new) d = Some d')"
  by (auto simp: insert_reservations_def split: option.splits)

lemma insert_reservations_Inl:
  "insert_reservations ids now rid domain kind new start d = (d', Inl e) \<Longrightarrow> d' = start"
  by (auto simp: insert_reservations_def split: option.splits)

text \<open>The worker's reads of what the range holds, after pruning.\<close>

definition kept_rows :: "bool \<Rightarrow> uuid \<Rightarrow> string \<Rightarrow> string list \<Rightarrow> db \<Rightarrow> reservation list" where
  "kept_rows prune rid kind hs d =
     (if prune then filter (\<lambda>r. nr_holder r \<in> set hs) (range_reservations d rid kind)
      else range_reservations d rid kind)"

lemma set_kept_rows: "r \<in> set (kept_rows prune rid kind hs d) \<longleftrightarrow>
   r \<in> set (network_reservations (prune_stale prune rid kind hs d)) \<and>
   nr_range r = Some rid \<and> nr_kind r = kind"
  by (auto simp: kept_rows_def range_reservations_def prune_stale_rows)

lemma reserve_values_cases:
  assumes "reserve_values ids now prune excl rid domain kind pool hs d = (d', res)"
  obtains (refused) e where "res = Inl e"
      "d' \<in> {d, prune_stale prune rid kind hs d,
             free_destroyed domain kind (prune_stale prune rid kind hs d)}"
  | (nothing_new) mine where "mine = dict_of (holdings (kept_rows prune rid kind hs d))"
      "\<forall>r \<in> set (range_reservations d rid kind). nr_domain r = domain"
      "filter (\<lambda>h. mine h = None) (dict_fromkeys hs) = []"
      "d' = prune_stale prune rid kind hs d" "res = Inr (answer mine hs)"
  | (reserved) mine needed free rng where "mine = dict_of (holdings (kept_rows prune rid kind hs d))"
      "\<forall>r \<in> set (range_reservations d rid kind). nr_domain r = domain"
      "needed = filter (\<lambda>h. mine h = None) (dict_fromkeys hs)"
      "free = take (length needed) (filter (\<lambda>v. v \<notin> set (taken_values domain kind
          (free_destroyed domain kind (prune_stale prune rid kind hs d))) \<and> v \<notin> set excl) pool)"
      "length needed \<le> length free" "get_range d rid = Some rng"
      "flush_rows (new_rows ids now (rng_tenant rng) rid domain kind (zip needed free))
         (free_destroyed domain kind (prune_stale prune rid kind hs d)) = Some d'"
      "res = Inr (answer (mine ++ map_of (zip needed free)) hs)"
proof -
  define d1 where "d1 = prune_stale prune rid kind hs d"
  define kept where "kept = kept_rows prune rid kind hs d"
  define mine where "mine = dict_of (holdings kept)"
  define needed where "needed = filter (\<lambda>h. mine h = None) (dict_fromkeys hs)"
  define d2 where "d2 = free_destroyed domain kind d1"
  define free where "free = take (length needed)
    (filter (\<lambda>v. v \<notin> set (taken_values domain kind d2) \<and> v \<notin> set excl) pool)"
  note defs = d1_def [symmetric] kept_def [symmetric] mine_def [symmetric]
    needed_def [symmetric] d2_def [symmetric] free_def [symmetric]
  define elsewhere where "elsewhere = filter (\<lambda>x. x \<noteq> domain) (map nr_domain (range_reservations d rid kind))"
  have e: "(d', res) = (if domain = [] then (d, Inl NoDomain)
      else if elsewhere \<noteq> [] then (d, Inl DomainChanged)
      else if filter (\<lambda>v. v \<in> set excl) (map nr_value kept) \<noteq> [] then (d1, Inl ReservedNetwork)
      else if needed = [] then (d1, Inr (answer mine hs))
      else if length free < length needed then (d2, Inl (PoolExhausted (length free) (length needed)))
      else case insert_reservations ids now rid domain kind (zip needed free) d d2 of
          (d3, Inl e) \<Rightarrow> (d3, Inl e)
        | (d3, Inr _) \<Rightarrow> (d3, Inr (answer (mine ++ map_of (zip needed free)) hs)))"
    using assms by (simp only: reserve_values_def taken_reservation_values_def Let_def prod.case
        elsewhere_def defs kept_rows_def [symmetric])
  have el: "elsewhere = [] \<longleftrightarrow> (\<forall>r \<in> set (range_reservations d rid kind). nr_domain r = domain)"
    by (auto simp: elsewhere_def filter_empty_conv)
  consider (err) x where "res = Inl x" "d' \<in> {d, d1, d2}"
    | (none) "elsewhere = []" "needed = []" "d' = d1" "res = Inr (answer mine hs)"
    | (some) rng where "elsewhere = []" "length needed \<le> length free" "get_range d2 rid = Some rng"
      "flush_rows (new_rows ids now (rng_tenant rng) rid domain kind (zip needed free)) d2 = Some d'"
      "res = Inr (answer (mine ++ map_of (zip needed free)) hs)"
  proof (cases "insert_reservations ids now rid domain kind (zip needed free) d d2")
    case (Pair d3 r3)
    show thesis
    proof (cases r3)
      case (Inl x)
      then have "d3 = d" using Pair insert_reservations_Inl by blast
      then show thesis using e Inl Pair err none by (simp split: if_splits)
    next
      case (Inr u)
      then obtain rng where "get_range d2 rid = Some rng"
        "flush_rows (new_rows ids now (rng_tenant rng) rid domain kind (zip needed free)) d2 = Some d3"
        using Pair insert_reservations_Inr by blast
      then show thesis using e Inr Pair err none some by (simp split: if_splits)
    qed
  qed
  then show thesis
  proof cases
    case err
    then show thesis using refused by (simp add: d1_def d2_def)
  next
    case none
    then show thesis
      using nothing_new [of mine] el by (simp add: mine_def kept_def needed_def d1_def)
  next
    case some
    then show thesis
      using reserved [of mine needed free rng] el
      by (simp add: mine_def kept_def needed_def d1_def d2_def free_def frame_simps)
  qed
qed

lemma kept_rows_holds:
  assumes "dict_of (holdings (kept_rows prune rid kind hs d)) h = Some v"
    and "\<forall>r \<in> set (range_reservations d rid kind). nr_domain r = domain"
  shows "holds (prune_stale prune rid kind hs d) rid domain kind h v"
proof -
  obtain r where r: "r \<in> set (kept_rows prune rid kind hs d)" "nr_holder r = h" "nr_value r = v"
    using dict_of_SomeD [OF assms(1)] by (auto simp: holdings_def)
  moreover have "nr_domain r = domain"
    using r(1) assms(2) by (auto simp: kept_rows_def split: if_splits)
  ultimately show ?thesis
    by (auto simp: holds_def in_domain_def set_kept_rows)
qed

lemma prune_stale_holds:
  "holds d a dom2 kind2 h v \<Longrightarrow> a \<noteq> rid \<or> h \<in> set hs \<Longrightarrow> holds (prune_stale prune rid kind hs d) a dom2 kind2 h v"
  by (auto simp: holds_def prune_stale_rows)

interpretation worker_reserve: allocator
  "\<lambda>rng. reserve_values ids now prune excl (rng_id rng)" for ids now prune excl
proof
  fix d d' rng domain kind pool hs r
  assume "inventory_ok d"
    and e: "reserve_values ids now prune excl (rng_id rng) domain kind pool hs d = (d', r)"
  with e show "inventory_ok d'"
    by (cases rule: reserve_values_cases) (auto simp: free_destroyed_ok prune_stale_ok flush_rows_Some)
next
  fix d d' rng domain kind pool hs r
  assume "reserve_values ids now prune excl (rng_id rng) domain kind pool hs d = (d', r)"
  then show "ranges d' = ranges d"
    by (cases rule: reserve_values_cases) (auto simp: flush_rows_Some frame_simps)
next
  fix d d' rng domain kind pool hs m
  assume "reserve_values ids now prune excl (rng_id rng) domain kind pool hs d = (d', Inr m)"
  then show "map fst m = dict_fromkeys hs"
    by (cases rule: reserve_values_cases) auto
next
  fix d d' rng domain kind pool hs m h v
  assume a: "inventory_ok d" "live_range d rng" "(h, v) \<in> set m"
    and e: "reserve_values ids now prune excl (rng_id rng) domain kind pool hs d = (d', Inr m)"
  from e show "holds d' (rng_id rng) domain kind h v"
  proof (cases rule: reserve_values_cases)
    case (nothing_new mine)
    then have "mine h = Some v" using a(3) by (auto simp: answer_iff filter_empty_conv)
    then show ?thesis using nothing_new kept_rows_holds by blast
  next
    case (reserved mine needed free r)
    have "(h, v) \<in> set (answer (mine ++ map_of (zip needed free)) hs)"
      using reserved(8) a(3) by simp
    then consider "mine h = Some v" | "(h, v) \<in> set (zip needed free)"
      using merged_answer [OF _ reserved(3,5)] by blast
    then show ?thesis
    proof cases
      case 1
      then have "holds (free_destroyed domain kind (prune_stale prune (rng_id rng) kind hs d))
          (rng_id rng) domain kind h v"
        using reserved(1,2) kept_rows_holds a(2)
        by (intro free_destroyed_holds) (auto simp: live_range_def frame_simps)
      then show ?thesis
        by (rule holds_more) (use reserved(7) in \<open>auto simp: flush_rows_Some\<close>)
    next
      case 2
      then show ?thesis
        using reserved(7) new_rows_holdings [OF 2] by (fastforce simp: flush_rows_Some holds_def)
    qed
  qed auto
next
  fix d d' rng domain kind pool hs m h v
  assume a: "inventory_ok d" "live_range d rng" "holds d (rng_id rng) domain kind h v" "h \<in> set hs"
    and e: "reserve_values ids now prune excl (rng_id rng) domain kind pool hs d = (d', Inr m)"
  have p: "holds (prune_stale prune (rng_id rng) kind hs d) (rng_id rng) domain kind h v"
    using a(3,4) by (auto intro: prune_stale_holds)
  from e show "holds d' (rng_id rng) domain kind h v"
  proof (cases rule: reserve_values_cases)
    case (reserved mine needed free r)
    have "holds (free_destroyed domain kind (prune_stale prune (rng_id rng) kind hs d))
        (rng_id rng) domain kind h v"
      using p a(2) by (intro free_destroyed_holds) (auto simp: live_range_def frame_simps)
    then show ?thesis
      by (rule holds_more) (use reserved(7) in \<open>auto simp: flush_rows_Some\<close>)
  qed (use p in auto)
next
  fix d d' rng domain kind pool hs res r
  assume e: "reserve_values ids now prune excl (rng_id rng) domain kind pool hs d = (d', res)"
    and r: "r \<in> set (network_reservations d)" "nr_range r \<noteq> Some (rng_id rng)"
      "nr_range r \<notin> Some ` set (destroyed_ids d)"
  have p: "r \<in> set (network_reservations (prune_stale prune (rng_id rng) kind hs d))"
    using r by (simp add: prune_stale_rows)
  then have q: "r \<in> set (network_reservations (free_destroyed domain kind (prune_stale prune (rng_id rng) kind hs d)))"
    using r(3) unfolding free_destroyed_def by (auto simp: frame_simps)
  from e p q r(1) show "r \<in> set (network_reservations d')"
    by (cases rule: reserve_values_cases) (auto simp: flush_rows_Some)
qed

interpretation api_then_worker: shared_inventory "reserve ids1 now1"
  "\<lambda>rng. reserve_values ids2 now2 prune excl (rng_id rng)" for ids1 now1 ids2 now2 prune excl
  by unfold_locales

interpretation worker_then_api: shared_inventory
  "\<lambda>rng. reserve_values ids1 now1 prune excl (rng_id rng)" "reserve ids2 now2" for ids1 now1 prune excl ids2 now2
  by unfold_locales

interpretation api_then_api: shared_inventory "reserve ids1 now1" "reserve ids2 now2" for ids1 now1 ids2 now2
  by unfold_locales

interpretation worker_then_worker: shared_inventory
  "\<lambda>rng. reserve_values ids1 now1 prune1 excl1 (rng_id rng)"
  "\<lambda>rng. reserve_values ids2 now2 prune2 excl2 (rng_id rng)" for ids1 now1 prune1 excl1 ids2 now2 prune2 excl2
  by unfold_locales

section \<open>New reservations\<close>

definition fresh_ids :: "(nat \<Rightarrow> uuid) \<Rightarrow> db \<Rightarrow> bool" where
  "fresh_ids ids d = (inj ids \<and> (\<forall>i. ids i \<notin> nr_id ` set (network_reservations d)))"

lemma map_zip_upt: "map f (map fst (zip [0..<length xs] xs)) = map f [0..<length xs]"
  by simp

lemma new_rows_keys:
  "map nr_id (new_rows ids now t rid domain kind new) = map ids [0..<length new]"
  "map (\<lambda>r. (nr_domain r, nr_kind r, nr_value r)) (new_rows ids now t rid domain kind new)
     = map (\<lambda>x. (domain, kind, snd x)) new"
  "filter (\<lambda>r. nr_range r \<noteq> None) (new_rows ids now t rid domain kind new) = new_rows ids now t rid domain kind new"
  "map (\<lambda>r. (nr_range r, nr_kind r, nr_holder r)) (new_rows ids now t rid domain kind new)
     = map (\<lambda>x. (Some rid, kind, fst x)) new"
  by (auto simp: new_rows_def intro!: nth_equalityI split: prod.split)

lemma new_rows_ok:
  assumes "reservations_ok rs" "inj ids" "\<forall>i. ids i \<notin> nr_id ` set rs"
    and "distinct (map fst new)" "distinct (map snd new)"
    and "\<forall>r \<in> set rs. in_domain domain kind r \<longrightarrow> nr_value r \<notin> snd ` set new"
    and "\<forall>r \<in> set rs. nr_range r = Some rid \<and> nr_kind r = kind \<longrightarrow> nr_holder r \<notin> fst ` set new"
  shows "reservations_ok (rs @ new_rows ids now t rid domain kind new)"
proof -
  have "set (map nr_id rs) \<inter> set (map ids [0..<length new]) = {}"
    using assms(3) by force
  then have "distinct (map nr_id rs @ map ids [0..<length new])"
    using assms(1) inj_on_subset [OF assms(2)] by (simp add: reservations_ok_def distinct_map)
  moreover have "distinct (map (\<lambda>r. (nr_domain r, nr_kind r, nr_value r)) rs @ map (\<lambda>x. (domain, kind, snd x)) new)"
    using assms(1,5,6) by (auto simp: reservations_ok_def uq_value_def distinct_map inj_on_def in_domain_def)
  moreover have "distinct (map (\<lambda>r. (nr_range r, nr_kind r, nr_holder r)) (filter (\<lambda>r. nr_range r \<noteq> None) rs)
      @ map (\<lambda>x. (Some rid, kind, fst x)) new)"
    using assms(1,4,7) by (auto simp: reservations_ok_def uq_holder_def distinct_map inj_on_def)
  ultimately show ?thesis
    by (simp only: reservations_ok_def uq_value_def uq_holder_def map_append filter_append new_rows_keys
        simp_thms)
qed

text \<open>The values of a pool nothing live holds in a domain, in pool order.\<close>

definition free_values :: "string \<Rightarrow> string \<Rightarrow> string list \<Rightarrow> db \<Rightarrow> string list" where
  "free_values domain kind pool d = filter (\<lambda>v. \<not> (\<exists>r \<in> set (network_reservations d).
     in_domain domain kind r \<and> nr_value r = v \<and> nr_range r \<notin> Some ` set (destroyed_ids d))) pool"

definition without_value :: "uuid \<Rightarrow> string \<Rightarrow> string \<Rightarrow> string list \<Rightarrow> db \<Rightarrow> string list" where
  "without_value rid domain kind hs d = filter (\<lambda>h. \<not> (\<exists>v. holds d rid domain kind h v)) (dict_fromkeys hs)"

lemma free_values_code:
  "filter (\<lambda>v. v \<notin> set (taken_values domain kind (free_destroyed domain kind d))) pool
   = free_values domain kind pool d"
  unfolding free_values_def
  by (rule filter_cong) (auto simp: taken_values_def free_destroyed_def)

lemma dict_of_holdings_None:
  "dict_of (holdings (filter (\<lambda>r. nr_range r = Some rid \<and> in_domain domain kind r) (network_reservations d))) h
     = None \<longleftrightarrow> \<not> (\<exists>v. holds d rid domain kind h v)"
  by (auto simp: dict_of_None_iff holdings_def holds_def image_iff)

definition gone_rows_only :: "db \<Rightarrow> db \<Rightarrow> bool" where
  "gone_rows_only d d' = (set (network_reservations d') \<subseteq> set (network_reservations d) \<and>
     (\<forall>r \<in> set (network_reservations d) - set (network_reservations d'). nr_range r \<in> Some ` set (destroyed_ids d)))"

text \<open>The new pairs in an answer: the holders without a value get the first free values, in order.\<close>

lemma answer_new:
  assumes needed: "needed = filter (\<lambda>h. mine h = None) (dict_fromkeys hs)"
    and len: "length needed \<le> length free"
  shows "map (map_of (answer (mine ++ map_of (zip needed free)) hs)) needed = map Some (take (length needed) free)"
proof (rule nth_equalityI)
  show "length (map (map_of (answer (mine ++ map_of (zip needed free)) hs)) needed)
    = length (map Some (take (length needed) free))" using len by simp
  fix i assume "i < length (map (map_of (answer (mine ++ map_of (zip needed free)) hs)) needed)"
  then have i: "i < length needed" by simp
  then have h: "needed ! i \<in> set hs" "mine (needed ! i) = None"
    using nth_mem [OF i] by (auto simp: needed)
  have "distinct needed" by (simp add: needed)
  then have "map_of (zip needed free) (needed ! i) = Some (free ! i)"
    using len i by (intro map_of_is_SomeI)
      (auto simp: map_fst_zip_take in_set_zip intro!: exI [of _ i])
  then have "(needed ! i, free ! i) \<in> set (answer (mine ++ map_of (zip needed free)) hs)"
    using h by (simp add: answer_iff)
  then have "map_of (answer (mine ++ map_of (zip needed free)) hs) (needed ! i) = Some (free ! i)"
    by (intro map_of_is_SomeI) simp_all
  then show "map (map_of (answer (mine ++ map_of (zip needed free)) hs)) needed ! i
    = map Some (take (length needed) free) ! i"
    using i len by simp
qed

text \<open>The flush of a reservation cannot fail: new ids, free values, holders without a value.\<close>

lemma reserve_flushes:
  assumes ok: "inventory_ok d" "fresh_ids ids d" "distinct pool"
    and here: "\<forall>r \<in> set (range_reservations d rid kind). nr_domain r = domain"
    and needed: "needed = without_value rid domain kind hs d" and free: "free = free_values domain kind pool d"
  shows "reservations_ok (network_reservations (free_destroyed domain kind d) @
    new_rows ids now t rid domain kind (zip needed free))"
proof (rule new_rows_ok)
  let ?d1 = "free_destroyed domain kind d"
  have snd_free: "snd ` set (zip needed free) \<subseteq> set free"
    and fst_needed: "fst ` set (zip needed free) \<subseteq> set needed"
    by (auto dest: set_zip_rightD set_zip_leftD)
  show "reservations_ok (network_reservations ?d1)"
    using ok(1) free_destroyed_ok by (simp add: inventory_ok_def)
  show "inj ids" using ok(2) by (simp add: fresh_ids_def)
  show "\<forall>i. ids i \<notin> nr_id ` set (network_reservations ?d1)"
    using ok(2) free_destroyed_subset by (fastforce simp: fresh_ids_def)
  show "distinct (map fst (zip needed free))"
    by (simp add: needed without_value_def map_fst_zip_take)
  show "distinct (map snd (zip needed free))"
    using ok(3) by (simp add: map_snd_zip_take free free_values_def)
  have "set free \<inter> set (taken_values domain kind ?d1) = {}"
    by (auto simp: free simp flip: free_values_code)
  then show "\<forall>r \<in> set (network_reservations ?d1). in_domain domain kind r \<longrightarrow>
      nr_value r \<notin> snd ` set (zip needed free)"
    using snd_free by (auto simp: taken_values_def)
  show "\<forall>r \<in> set (network_reservations ?d1). nr_range r = Some rid \<and> nr_kind r = kind \<longrightarrow>
      nr_holder r \<notin> fst ` set (zip needed free)"
  proof (intro ballI impI notI)
    fix r assume r: "r \<in> set (network_reservations ?d1)" "nr_range r = Some rid \<and> nr_kind r = kind"
      "nr_holder r \<in> fst ` set (zip needed free)"
    then have "r \<in> set (network_reservations d)" using free_destroyed_subset by blast
    moreover then have "nr_domain r = domain" using here r(2) by (simp add: range_reservations_def)
    ultimately have "holds d rid domain kind (nr_holder r) (nr_value r)"
      using r(2) by (auto simp: holds_def in_domain_def)
    moreover have "nr_holder r \<in> set needed" using r(3) fst_needed by blast
    ultimately show False by (auto simp: needed without_value_def)
  qed
qed

lemma reserve_exact:
  assumes ok: "inventory_ok d" "fresh_ids ids d" "distinct pool" "kind \<in> set KINDS" "domain \<noteq> []"
    and here: "\<forall>r \<in> set (range_reservations d (rng_id rng) kind). nr_domain r = domain"
    and needed_def: "needed = without_value (rng_id rng) domain kind hs d"
    and free_def: "free = free_values domain kind pool d"
  shows "if length needed \<le> length free
    then \<exists>d' m. reserve ids now rng domain kind pool hs d = (d', Inr m) \<and>
      map (map_of m) needed = map Some (take (length needed) free)
    else \<exists>d'. reserve ids now rng domain kind pool hs d =
      (d', Inl (PoolExhausted (length free) (length needed))) \<and> gone_rows_only d d'"
proof -
  define mine where "mine = dict_of (holdings (filter
    (\<lambda>r. nr_range r = Some (rng_id rng) \<and> in_domain domain kind r) (network_reservations d)))"
  have needed: "needed = filter (\<lambda>h. mine h = None) (dict_fromkeys hs)"
    by (simp add: needed_def without_value_def mine_def dict_of_holdings_None)
  let ?d1 = "free_destroyed domain kind d"
  let ?rows = "new_rows ids now (rng_tenant rng) (rng_id rng) domain kind (zip needed free)"
  have e: "reserve ids now rng domain kind pool hs d =
      (if needed = [] then (d, Inr (answer mine hs))
       else if length free < length needed then (?d1, Inl (PoolExhausted (length free) (length needed)))
       else case flush_rows ?rows ?d1 of None \<Rightarrow> (d, Inl IntegrityError)
         | Some d2 \<Rightarrow> (d2, Inr (answer (mine ++ map_of (zip needed free)) hs)))"
    using ok(4,5) by (simp only: reserve_def Let_def mine_def [symmetric] needed [symmetric]
        free_values_code free_def [symmetric]) simp
  have "gone_rows_only d ?d1"
    by (auto simp: gone_rows_only_def free_destroyed_def)
  moreover have "flush_rows ?rows ?d1 \<noteq> None"
    using reserve_flushes [OF ok(1-3) here needed_def free_def] by (simp add: flush_rows_def)
  ultimately show ?thesis
    using e answer_new [OF needed, of free] by (cases "needed = []") auto
qed

section \<open>Reconciling a holder set\<close>

definition sync_stale :: "range_row \<Rightarrow> string \<Rightarrow> string \<Rightarrow> string list \<Rightarrow> string list \<Rightarrow> reservation \<Rightarrow> bool" where
  "sync_stale rng domain kind pool holders r = (nr_range r = Some (rng_id rng) \<and> nr_kind r = kind \<and>
     (nr_domain r \<noteq> domain \<or> nr_holder r \<notin> set holders \<or> nr_value r \<notin> set pool))"

lemma delete_by_id:
  assumes "distinct (map k rows)"
  shows "delete_where (\<lambda>r. k r \<in> k ` {s \<in> set rows. P s}) rows = delete_where P rows"
  unfolding delete_where_def
proof (rule filter_cong [OF refl])
  fix r assume "r \<in> set rows"
  then show "(k r \<notin> k ` {s \<in> set rows. P s}) = (\<not> P r)"
    using assms by (auto simp: distinct_map dest: inj_onD)
qed

lemma sync_first:
  assumes "inventory_ok d"
  shows "sync ids now rng domain kind pool holders d =
    (let d1 = d\<lparr>network_reservations := delete_where (sync_stale rng domain kind pool holders) (network_reservations d)\<rparr>
     in if holders = [] then (d1, Inr []) else reserve ids now rng domain kind pool holders d1)"
proof -
  have "delete_where (\<lambda>r. nr_id r \<in> set (map nr_id (filter (sync_stale rng domain kind pool holders)
      (network_reservations d)))) (network_reservations d)
    = delete_where (sync_stale rng domain kind pool holders) (network_reservations d)"
    using assms delete_by_id [of nr_id "network_reservations d" "sync_stale rng domain kind pool holders"]
    by (simp add: inventory_ok_def reservations_ok_def)
  then show ?thesis
    by (simp only: sync_def sync_stale_def [symmetric] Let_def)
qed

lemma reserve_own_rows:
  assumes "reserve ids now rng domain kind pool hs d = (d', Inr m)" "r \<in> set (network_reservations d')"
    and "nr_range r = Some (rng_id rng)" "nr_kind r = kind"
  shows "r \<in> set (network_reservations d) \<or> nr_domain r = domain \<and> nr_holder r \<in> set hs \<and> nr_value r \<in> set pool"
  using assms(1)
proof (cases rule: reserve_cases)
  case (reserved mine needed free)
  then have "r \<in> set (network_reservations (free_destroyed domain kind d)) \<or>
      r \<in> set (new_rows ids now (rng_tenant rng) (rng_id rng) domain kind (zip needed free))"
    using assms(2) by (auto simp: flush_rows_Some)
  then show ?thesis
  proof
    assume "r \<in> set (new_rows ids now (rng_tenant rng) (rng_id rng) domain kind (zip needed free))"
    then show ?thesis
      using new_rows_iff reserved(2,3) by (fastforce simp: in_domain_def dest: set_zip_leftD set_zip_rightD)
  qed (use free_destroyed_subset in blast)
qed (use assms(2) in auto)

lemma sync_exact_lemma:
  assumes ok: "inventory_ok d" and live: "live_range d rng"
    and s: "sync ids now rng domain kind pool hs d = (d', Inr m)"
  shows "holds d' (rng_id rng) dom2 kind h v \<longleftrightarrow> dom2 = domain \<and> (h, v) \<in> set m"
    and "(h, v) \<in> set m \<Longrightarrow> h \<in> set hs \<and> v \<in> set pool"
proof -
  define d1 where "d1 = d\<lparr>network_reservations :=
    delete_where (sync_stale rng domain kind pool hs) (network_reservations d)\<rparr>"
  have ok1: "inventory_ok d1" using ok by (simp add: d1_def inventory_ok_def reservations_ok_delete)
  have live1: "live_range d1 rng" using live by (simp add: d1_def live_range_def get_range_def destroyed_ids_def)
  have e: "(d', Inr m) = (if hs = [] then (d1, Inr []) else reserve ids now rng domain kind pool hs d1)"
    using s sync_first [OF ok] by (simp add: d1_def [symmetric] Let_def)
  have d1_rows: "nr_domain r = domain \<and> nr_holder r \<in> set hs \<and> nr_value r \<in> set pool"
    if "r \<in> set (network_reservations d1)" "nr_range r = Some (rng_id rng)" "nr_kind r = kind" for r
    using that by (auto simp: d1_def sync_stale_def)
  have own: "nr_domain r = domain \<and> nr_holder r \<in> set hs \<and> nr_value r \<in> set pool"
    if "r \<in> set (network_reservations d')" "nr_range r = Some (rng_id rng)" "nr_kind r = kind" for r
    using e that d1_rows [of r] reserve_own_rows [of ids now rng domain kind pool hs d1 d' m r]
    by (auto split: if_splits)
  have held: "holds d' (rng_id rng) domain kind h v \<longleftrightarrow> (h, v) \<in> set m" for h v
  proof (cases "hs = []")
    case True
    then show ?thesis using e own by (auto simp: holds_def in_domain_def)
  next
    case False
    then have r: "reserve ids now rng domain kind pool hs d1 = (d', Inr m)" using e by simp
    have "holds d' (rng_id rng) domain kind h v \<Longrightarrow> h \<in> set hs"
      using own by (auto simp: holds_def in_domain_def)
    then show ?thesis using api_reserve.answer_is_held [OF ok1 live1 r] by blast
  qed
  have dom: "holds d' (rng_id rng) dom2 kind h v \<Longrightarrow> dom2 = domain"
    using own by (auto simp: holds_def in_domain_def)
  show "holds d' (rng_id rng) dom2 kind h v \<longleftrightarrow> dom2 = domain \<and> (h, v) \<in> set m"
    using held dom by blast
  show "(h, v) \<in> set m \<Longrightarrow> h \<in> set hs \<and> v \<in> set pool"
    using held [of h v] own by (auto simp: holds_def in_domain_def)
qed

text \<open>Reserving the shrunk set never trips over a constraint.\<close>

lemma sync_errors_lemma:
  assumes ok: "inventory_ok d" "fresh_ids ids d" "distinct pool" "kind \<in> set KINDS" "domain \<noteq> []"
    and s: "sync ids now rng domain kind pool hs d = (d', Inl e)"
  shows "\<exists>n k. e = PoolExhausted n k \<and> n < k"
proof -
  define d1 where "d1 = d\<lparr>network_reservations :=
    delete_where (sync_stale rng domain kind pool hs) (network_reservations d)\<rparr>"
  have e: "reserve ids now rng domain kind pool hs d1 = (d', Inl e)"
    using s sync_first [OF ok(1)] by (auto simp: d1_def Let_def split: if_splits)
  have "inventory_ok d1" "fresh_ids ids d1"
    using ok(1,2) by (auto simp: d1_def inventory_ok_def reservations_ok_delete fresh_ids_def)
  moreover have "\<forall>r \<in> set (range_reservations d1 (rng_id rng) kind). nr_domain r = domain"
    by (auto simp: d1_def range_reservations_def sync_stale_def)
  ultimately show ?thesis
    using reserve_exact [OF _ _ ok(3-5) _ refl refl, of d1 ids rng hs now] e
    by (auto split: if_splits)
qed

section \<open>Values used outside TrueNorth\<close>

text \<open>Rows that stay in the table, up to the time they were last seen.\<close>

definition still_there :: "reservation \<Rightarrow> db \<Rightarrow> bool" where
  "still_there r d = (\<exists>s \<in> set (network_reservations d). s\<lparr>nr_updated := 0\<rparr> = r\<lparr>nr_updated := 0\<rparr> \<and> nr_updated r \<le> nr_updated s)"

lemma still_there_refl: "r \<in> set (network_reservations d) \<Longrightarrow> still_there r d"
  by (auto simp: still_there_def)

lemma touch_still_there:
  "still_there r d \<Longrightarrow> still_there r (touch_reservation_ids is at d)"
proof -
  assume "still_there r d"
  then obtain s where s: "s \<in> set (network_reservations d)" "s\<lparr>nr_updated := 0\<rparr> = r\<lparr>nr_updated := 0\<rparr>"
    "nr_updated r \<le> nr_updated s"
    by (auto simp: still_there_def)
  let ?s = "if nr_id s \<in> set is \<and> nr_updated s < at then s\<lparr>nr_updated := at\<rparr> else s"
  have "?s \<in> set (network_reservations (touch_reservation_ids is at d))"
    using s(1) by (auto simp: touch_reservation_ids_def update_where_def)
  moreover have "?s\<lparr>nr_updated := 0\<rparr> = r\<lparr>nr_updated := 0\<rparr>" "nr_updated r \<le> nr_updated ?s"
    using s(2,3) by auto
  ultimately show ?thesis by (auto simp: still_there_def)
qed

lemma touch_rows:
  assumes "s \<in> set (network_reservations (touch_reservation_ids is at d))"
  shows "\<exists>r \<in> set (network_reservations d). s\<lparr>nr_updated := 0\<rparr> = r\<lparr>nr_updated := 0\<rparr>"
  using assms by (auto simp: touch_reservation_ids_def set_update_where)

lemma same_row:
  "(s::reservation)\<lparr>nr_updated := 0\<rparr> = r\<lparr>nr_updated := 0\<rparr> \<Longrightarrow> nr_id s = nr_id r \<and> nr_range s = nr_range r \<and>
   nr_domain s = nr_domain r \<and> nr_kind s = nr_kind r \<and> nr_value s = nr_value r \<and> nr_holder s = nr_holder r"
  by (cases s; cases r) simp

lemma touch_keys:
  "map nr_id (network_reservations (touch_reservation_ids is at d)) = map nr_id (network_reservations d)"
  "map (\<lambda>r. (nr_domain r, nr_kind r, nr_value r)) (network_reservations (touch_reservation_ids is at d))
     = map (\<lambda>r. (nr_domain r, nr_kind r, nr_value r)) (network_reservations d)"
  "map (\<lambda>r. (nr_range r, nr_kind r, nr_holder r))
       (filter (\<lambda>r. nr_range r \<noteq> None) (network_reservations (touch_reservation_ids is at d)))
     = map (\<lambda>r. (nr_range r, nr_kind r, nr_holder r)) (filter (\<lambda>r. nr_range r \<noteq> None) (network_reservations d))"
proof -
  have "map (\<lambda>r. (nr_range r, nr_kind r, nr_holder r))
      (filter (\<lambda>r. nr_range r \<noteq> None) (update_where P (\<lambda>r. r\<lparr>nr_updated := at\<rparr>) rs))
    = map (\<lambda>r. (nr_range r, nr_kind r, nr_holder r)) (filter (\<lambda>r. nr_range r \<noteq> None) rs)"
    for P and rs :: "reservation list"
    by (induction rs) (auto simp: update_where_def)
  then show "map (\<lambda>r. (nr_range r, nr_kind r, nr_holder r))
       (filter (\<lambda>r. nr_range r \<noteq> None) (network_reservations (touch_reservation_ids is at d)))
     = map (\<lambda>r. (nr_range r, nr_kind r, nr_holder r)) (filter (\<lambda>r. nr_range r \<noteq> None) (network_reservations d))"
    by (simp add: touch_reservation_ids_def)
qed (simp_all add: touch_reservation_ids_def map_update_where)

lemma touch_ok: "inventory_ok d \<Longrightarrow> inventory_ok (touch_reservation_ids is at d)"
  by (simp only: inventory_ok_def reservations_ok_def uq_value_def uq_holder_def touch_keys)

lemma external_rows_keys:
  "map nr_id (external_rows ids domain kind vs at) = map ids [0..<length vs]"
  "map (\<lambda>r. (nr_domain r, nr_kind r, nr_value r)) (external_rows ids domain kind vs at)
     = map (\<lambda>x. (domain, kind, fst x)) vs"
  "filter (\<lambda>r. nr_range r \<noteq> None) (external_rows ids domain kind vs at) = []"
  by (auto simp: external_rows_def filter_empty_conv intro!: nth_equalityI split: prod.split)

lemma external_rows_ok:
  assumes "reservations_ok rs" "inj ids" "\<forall>i. ids i \<notin> nr_id ` set rs" "distinct (map fst vs)"
    and "\<forall>r \<in> set rs. in_domain domain kind r \<longrightarrow> nr_value r \<notin> fst ` set vs"
  shows "reservations_ok (rs @ external_rows ids domain kind vs at)"
proof -
  have "set (map nr_id rs) \<inter> set (map ids [0..<length vs]) = {}"
    using assms(3) by force
  then have "distinct (map nr_id rs @ map ids [0..<length vs])"
    using assms(1) inj_on_subset [OF assms(2)] by (simp add: reservations_ok_def distinct_map)
  moreover have "distinct (map (\<lambda>r. (nr_domain r, nr_kind r, nr_value r)) rs @ map (\<lambda>x. (domain, kind, fst x)) vs)"
    using assms(1,4,5) by (auto simp: reservations_ok_def uq_value_def distinct_map inj_on_def in_domain_def)
  ultimately show ?thesis
    using assms(1) by (simp only: reservations_ok_def uq_value_def uq_holder_def map_append filter_append
        external_rows_keys simp_thms append_Nil2)
qed

lemma external_rows_values:
  assumes "v \<in> fst ` set vs"
  shows "\<exists>r \<in> set (external_rows ids domain kind vs at). in_domain domain kind r \<and>
    nr_range r = None \<and> nr_value r = v"
proof -
  have "map nr_value (external_rows ids domain kind vs at) = map fst vs"
    by (auto simp: external_rows_def intro!: nth_equalityI split: prod.split)
  then have "v \<in> nr_value ` set (external_rows ids domain kind vs at)"
    using assms by (metis list.set_map)
  then obtain r where r: "r \<in> set (external_rows ids domain kind vs at)" "nr_value r = v" by auto
  then have "in_domain domain kind r \<and> nr_range r = None"
    by (auto simp: external_rows_def in_domain_def)
  then show ?thesis using r by blast
qed

lemma add_managed_distinct:
  "distinct (map fst w) \<Longrightarrow> distinct (map fst (foldl (add_managed prefix held) w ms))"
  by (induction ms arbitrary: w) (auto simp: add_managed_def)

lemma add_managed_keeps: "set w \<subseteq> set (foldl (add_managed prefix held) w ms)"
proof (induction ms arbitrary: w)
  case (Cons x ms)
  have "set w \<subseteq> set (add_managed prefix held w x)" by (auto simp: add_managed_def)
  then show ?case using Cons.IH by auto
qed simp

lemma distinct_wanted:
  assumes "distinct (map fst (lu_foreign u))"
  shows "distinct (map fst (wanted_external u held))"
  unfolding wanted_external_def Let_def
  by (intro distinct_map_filter_rows add_managed_distinct) (use assms in \<open>simp add: comp_def\<close>)

lemma foreign_wanted:
  assumes "v \<in> fst ` set (lu_foreign u)" "v \<notin> set held"
  shows "v \<in> fst ` set (wanted_external u held)"
proof -
  let ?w = "map (\<lambda>x. (fst x, source_prefix (lu_source u) @ snd x)) (lu_foreign u)"
  obtain n where "(v, n) \<in> set ?w" using assms(1) by force
  then have "(v, n) \<in> set (foldl (add_managed (source_prefix (lu_source u)) held) ?w (lu_managed u))"
    using add_managed_keeps by blast
  then show ?thesis using assms(2) by (force simp: wanted_external_def Let_def)
qed

lemma wanted_not_held: "v \<in> fst ` set (wanted_external u held) \<Longrightarrow> v \<notin> set held"
  by (auto simp: wanted_external_def Let_def)

text \<open>The refresh only deletes entries of external users that are stale, and marks others seen.\<close>

lemma refresh_ok: "inventory_ok d \<Longrightarrow> inventory_ok (refresh_external u now want d)"
  unfolding refresh_external_def Let_def
  by (rule touch_ok) (auto simp: expire_external_def drop_reservation_ids_def inventory_ok_def
      reservations_ok_delete split: option.split)

lemma refresh_rows:
  assumes "s \<in> set (network_reservations (refresh_external u now want d))"
  shows "\<exists>r \<in> set (network_reservations d). s\<lparr>nr_updated := 0\<rparr> = r\<lparr>nr_updated := 0\<rparr>"
  using touch_rows [OF assms [unfolded refresh_external_def Let_def]]
  by (auto simp: expire_external_def drop_reservation_ids_def split: option.splits)

lemma refresh_keeps:
  assumes ok: "inventory_ok d" and r: "r \<in> set (network_reservations d)"
    and keep: "nr_range r \<noteq> None \<or> \<not> in_domain (lu_domain u) (lu_kind u) r \<or>
      now - EXTERNAL_TTL \<le> nr_updated r \<and> (\<forall>t. lu_read_at u = Some t \<longrightarrow> t \<le> nr_updated r)"
  shows "still_there r (refresh_external u now want d)"
proof -
  let ?d2 = "expire_external (lu_domain u) (lu_kind u) (source_prefix (lu_source u)) (now - EXTERNAL_TTL) d"
  have d2: "r \<in> set (network_reservations ?d2)"
    using r keep by (auto simp: expire_external_def)
  have ids: "nr_id x \<noteq> nr_id r"
    if x: "x \<in> set (external_reservations ?d2 (lu_domain u) (lu_kind u))"
      and other: "nr_range r \<noteq> None \<or> \<not> in_domain (lu_domain u) (lu_kind u) r" for x
  proof
    assume "nr_id x = nr_id r"
    moreover have "x \<in> set (network_reservations d)" "nr_range x = None" "in_domain (lu_domain u) (lu_kind u) x"
      using x by (auto simp: external_reservations_def expire_external_def)
    ultimately have "x = r"
      using r ok by (auto simp: inventory_ok_def reservations_ok_def distinct_map dest: inj_onD)
    then show False using x other by (auto simp: external_reservations_def)
  qed
  have "r \<in> set (network_reservations (drop_reservation_ids (map nr_id (filter P (filter Q
      (external_reservations ?d2 (lu_domain u) (lu_kind u))))) (Some t) ?d2))"
    if "lu_read_at u = Some t" for t P Q
    using d2 ids keep that by (fastforce simp: drop_reservation_ids_def)
  then show ?thesis
    unfolding refresh_external_def Let_def
    by (intro touch_still_there still_there_refl) (use d2 in \<open>auto split: option.split\<close>)
qed

lemma refresh_frame [frame_simps]:
  "ranges (refresh_external u now want d) = ranges d"
  by (simp add: refresh_external_def Let_def touch_reservation_ids_def drop_reservation_ids_def
      expire_external_def split: option.split)

lemma refresh_not_taken:
  assumes "r \<in> set (network_reservations d4)" "in_domain (lu_domain u) (lu_kind u) r"
    and want: "want = wanted_external u (range_held_values d1 (lu_domain u) (lu_kind u))"
    and d4: "d4 = refresh_external u now want d1"
  shows "nr_value r \<notin> fst ` set (filter (\<lambda>x. fst x \<notin>
    set (map nr_value (external_reservations d4 (lu_domain u) (lu_kind u)))) want)"
proof (cases "nr_range r = None")
  case True
  then show ?thesis using assms(1,2) by (auto simp: external_reservations_def)
next
  case False
  obtain s where s: "s \<in> set (network_reservations d1)" "r\<lparr>nr_updated := 0\<rparr> = s\<lparr>nr_updated := 0\<rparr>"
    using refresh_rows assms(1) unfolding d4 by blast
  have "nr_value r = nr_value s" "nr_range s \<noteq> None" "in_domain (lu_domain u) (lu_kind u) s"
    using same_row [OF s(2)] assms(2) False by (auto simp: in_domain_def)
  then have "nr_value r \<in> set (range_held_values d1 (lu_domain u) (lu_kind u))"
    using s(1) by (auto simp: range_held_values_def)
  then have "nr_value r \<notin> fst ` set want" using wanted_not_held unfolding want by blast
  then show ?thesis by auto
qed

lemma record_external_Inr:
  assumes ok: "inventory_ok d" "fresh_ids ids d" "distinct (map fst (lu_foreign u))"
    and d1_def: "d1 = free_destroyed (lu_domain u) (lu_kind u) d"
    and want_def: "want = wanted_external u (range_held_values d1 (lu_domain u) (lu_kind u))"
    and d4_def: "d4 = refresh_external u now want d1"
  shows "\<exists>rows. record_external ids u now d = (d4\<lparr>network_reservations := network_reservations d4 @ rows\<rparr>, Inr want) \<and>
    inventory_ok (d4\<lparr>network_reservations := network_reservations d4 @ rows\<rparr>) \<and>
    (\<forall>r \<in> set rows. nr_range r = None) \<and>
    (\<forall>v \<in> fst ` set want. \<exists>r \<in> set (network_reservations d4 @ rows).
       in_domain (lu_domain u) (lu_kind u) r \<and> nr_value r = v)"
proof -
  let ?domain = "lu_domain u" and ?kind = "lu_kind u"
  let ?present = "map nr_value (external_reservations d4 ?domain ?kind)"
  let ?vs = "filter (\<lambda>x. fst x \<notin> set ?present) want"
  let ?rows = "external_rows ids ?domain ?kind ?vs (case lu_read_at u of Some t \<Rightarrow> t | None \<Rightarrow> now)"
  have ok4: "inventory_ok d4"
    using ok(1) by (simp add: d4_def d1_def refresh_ok free_destroyed_ok)
  have from_d: "nr_id r \<in> nr_id ` set (network_reservations d)" if "r \<in> set (network_reservations d4)" for r
    using refresh_rows [OF that [unfolded d4_def]] same_row free_destroyed_subset
    unfolding d1_def by (metis image_eqI subsetD)
  have "reservations_ok (network_reservations d4 @ ?rows)"
  proof (rule external_rows_ok)
    show "\<forall>i. ids i \<notin> nr_id ` set (network_reservations d4)"
      using ok(2) from_d unfolding fresh_ids_def by (metis imageE)
    show "distinct (map fst ?vs)"
      using distinct_wanted [OF ok(3)] unfolding want_def by (rule distinct_map_filter_rows)
    show "\<forall>r \<in> set (network_reservations d4). in_domain ?domain ?kind r \<longrightarrow> nr_value r \<notin> fst ` set ?vs"
      using refresh_not_taken [OF _ _ want_def d4_def] by blast
  qed (use ok4 ok(2) in \<open>simp_all add: inventory_ok_def fresh_ids_def\<close>)
  then have f: "flush_rows ?rows d4 = Some (d4\<lparr>network_reservations := network_reservations d4 @ ?rows\<rparr>)"
    by (simp add: flush_rows_def)
  have eq: "record_external ids u now d = (d4\<lparr>network_reservations := network_reservations d4 @ ?rows\<rparr>, Inr want)"
    by (simp only: record_external_def taken_reservation_values_def Let_def prod.case d1_def [symmetric]
        want_def [symmetric] d4_def [symmetric] insert_external_reservations_def f option.case sum.case)
  have vals: "\<exists>r \<in> set (network_reservations d4 @ ?rows). in_domain ?domain ?kind r \<and> nr_value r = v"
    if v: "v \<in> fst ` set want" for v
  proof (cases "v \<in> set ?present")
    case True
    then show ?thesis by (auto simp: external_reservations_def)
  next
    case False
    then have "v \<in> fst ` set ?vs" using v by auto
    then obtain r where "r \<in> set ?rows" "in_domain ?domain ?kind r" "nr_value r = v"
      using external_rows_values [of v ?vs] by blast
    then show ?thesis by (intro bexI [of _ r]) (simp_all only: set_append Un_iff simp_thms)
  qed
  have none: "\<forall>r \<in> set ?rows. nr_range r = None" by (auto simp: external_rows_def)
  have ok5: "inventory_ok (d4\<lparr>network_reservations := network_reservations d4 @ ?rows\<rparr>)"
    using f flush_rows_Some by blast
  show ?thesis by (intro exI [of _ ?rows] conjI eq ok5 none ballI vals)
qed

lemma record_external_protects_lemma:
  assumes ok: "inventory_ok d" "fresh_ids ids d" "distinct (map fst (lu_foreign u))"
    and v: "v \<in> fst ` set (lu_foreign u)" and r: "record_external ids u now d = (d', res)"
  shows "inventory_ok d' \<and> ranges d' = ranges d \<and> (\<exists>want. res = Inr want) \<and>
    (\<exists>x \<in> set (network_reservations d'). in_domain (lu_domain u) (lu_kind u) x \<and> nr_value x = v \<and>
       nr_range x \<notin> Some ` set (destroyed_ids d'))"
proof -
  define d1 where "d1 = free_destroyed (lu_domain u) (lu_kind u) d"
  define held where "held = range_held_values d1 (lu_domain u) (lu_kind u)"
  define want where "want = wanted_external u held"
  define d4 where "d4 = refresh_external u now want d1"
  obtain rows where rows: "record_external ids u now d = (d4\<lparr>network_reservations := network_reservations d4 @ rows\<rparr>, Inr want)"
    "inventory_ok (d4\<lparr>network_reservations := network_reservations d4 @ rows\<rparr>)"
    "\<forall>r \<in> set rows. nr_range r = None"
    "\<forall>v \<in> fst ` set want. \<exists>r \<in> set (network_reservations d4 @ rows). in_domain (lu_domain u) (lu_kind u) r \<and> nr_value r = v"
    using record_external_Inr [OF ok d1_def want_def [unfolded held_def] d4_def] by blast
  have d': "d' = d4\<lparr>network_reservations := network_reservations d4 @ rows\<rparr>" "res = Inr want"
    using rows(1) r by simp_all
  have ranges: "ranges d' = ranges d"
    by (simp add: d' d4_def d1_def frame_simps)
  have live: "nr_range x \<notin> Some ` set (destroyed_ids d')"
    if x: "x \<in> set (network_reservations d')" "in_domain (lu_domain u) (lu_kind u) x" for x
  proof (cases "x \<in> set rows")
    case False
    then obtain s where "s \<in> set (network_reservations d1)" "x\<lparr>nr_updated := 0\<rparr> = s\<lparr>nr_updated := 0\<rparr>"
      using x(1) refresh_rows [of x u now want d1] unfolding d' d4_def by auto
    then have "nr_range x \<notin> Some ` set (destroyed_ids d)"
      using same_row [of x s] x(2) unfolding d1_def free_destroyed_def by (auto simp: in_domain_def)
    then show ?thesis using ranges by (simp add: destroyed_ids_def)
  qed (use rows(3) in auto)
  have "\<exists>x \<in> set (network_reservations d'). in_domain (lu_domain u) (lu_kind u) x \<and> nr_value x = v"
  proof (cases "v \<in> set held")
    case True
    then obtain x where x: "x \<in> set (network_reservations d1)" "in_domain (lu_domain u) (lu_kind u) x"
      "nr_range x \<noteq> None" "nr_value x = v"
      by (auto simp: held_def range_held_values_def)
    then obtain s where "s \<in> set (network_reservations d4)" "s\<lparr>nr_updated := 0\<rparr> = x\<lparr>nr_updated := 0\<rparr>"
      using refresh_keeps [of d1 x u now want] free_destroyed_ok [OF ok(1)]
      unfolding d4_def d1_def by (auto simp: still_there_def)
    then show ?thesis
      using same_row [of s x] x(2,4) unfolding d' by (intro bexI [of _ s]) (simp_all add: in_domain_def)
  next
    case False
    then have "v \<in> fst ` set want" unfolding want_def by (rule foreign_wanted [OF v])
    then show ?thesis using rows(4) unfolding d' by auto
  qed
  then show ?thesis using live ranges rows(2) d' by blast
qed

section \<open>A small inventory\<close>

text \<open>Two ranges being built, a destroyed one that still has a VLAN, and a VLAN in use outside.\<close>

definition sample_row :: "string \<Rightarrow> string option \<Rightarrow> string \<Rightarrow> string \<Rightarrow> time \<Rightarrow> reservation" where
  "sample_row i rid v h at = \<lparr>nr_id = i, nr_tenant = None, nr_range = rid, nr_domain = ''sw'', nr_kind = ''vlan'',
     nr_value = v, nr_holder = h, nr_updated = at\<rparr>"

definition sample_db :: db where
  "sample_db = empty_db\<lparr>
     ranges := [sample_range ''a'' provisioning, sample_range ''b'' provisioning, sample_range ''z'' destroyed],
     network_reservations := [sample_row ''1'' (Some ''z'') ''100'' ''lan'' 5, sample_row ''2'' None ''102'' ''external:vc:PG'' 50]\<rparr>"

definition sample_ids :: "nat \<Rightarrow> uuid" where
  "sample_ids i = CHR ''n'' # replicate i (CHR ''i'')"

definition sample_pool :: "string list" where
  "sample_pool = [''100'', ''101'', ''102'', ''103'']"

definition sample_usage :: live_usage where
  "sample_usage = \<lparr>lu_domain = ''sw'', lu_kind = ''vlan'', lu_source = ''vc'', lu_foreign = [(''101'', ''Backup'')],
     lu_managed = [], lu_read_at = Some 20\<rparr>"

abbreviation "sample_a \<equiv> sample_range ''a'' provisioning"
abbreviation "sample_b \<equiv> sample_range ''b'' provisioning"
abbreviation "sample_reserved \<equiv> reserve sample_ids 60 sample_a ''sw'' ''vlan'' sample_pool [''lan'', ''dmz''] sample_db"
abbreviation "sample_seen \<equiv> record_external sample_ids sample_usage 60 sample_db"
abbreviation "sample_worker_reserved \<equiv>
  reserve_values (\<lambda>i. CHR ''m'' # sample_ids i) 61 True [] ''b'' ''sw'' ''vlan'' sample_pool [''lan'']"

lemma sample_facts:
  "inventory_ok sample_db" "live_range sample_db sample_a" "live_range sample_db sample_b"
  "rng_id sample_a \<noteq> rng_id sample_b" "distinct sample_pool" "''vlan'' \<in> set KINDS"
  by code_simp+

lemma sample_fresh: "fresh_ids sample_ids sample_db"
  by (auto simp: fresh_ids_def sample_ids_def sample_db_def sample_row_def inj_def)

lemma pair_eq: "snd x = r \<Longrightarrow> x = (fst x, r)"
  by (cases x) simp

lemmas sample_reserved_eq = pair_eq [of sample_reserved "Inr [(''lan'', ''100''), (''dmz'', ''101'')]"]

lemma sample_reserved_answer: "snd sample_reserved = Inr [(''lan'', ''100''), (''dmz'', ''101'')]"
  by code_simp

section \<open>Properties\<close>



text \<open>Reserving is idempotent on both sides: a second reservation of the same holders,
  whatever its pool, gets the same answer (a deploy run again, a provision retried).\<close>
theorem reserve_idempotent:
  assumes "inventory_ok d" "live_range d rng"
  shows "(reserve ids now rng domain kind pool holders d = (d', Inr m) \<and>
      reserve ids2 now2 rng domain kind pool2 holders d' = (d'', Inr m2) \<longrightarrow> m2 = m) \<and>
    (reserve_values ids now prune excl (rng_id rng) domain kind pool holders d = (d', Inr m) \<and>
      reserve_values ids2 now2 prune2 excl2 (rng_id rng) domain kind pool2 holders d' = (d'', Inr m2) \<longrightarrow> m2 = m)"
  by (intro conjI impI; elim conjE)
    (erule (1) api_then_api.same_answer_again [OF assms],
     erule (1) worker_then_worker.same_answer_again [OF assms])

theorem reserve_idempotent_witness:
  "\<exists>m. snd (reserve sample_ids 70 sample_a ''sw'' ''vlan'' [] [''lan'', ''dmz''] (fst sample_reserved)) = Inr m \<and>
   snd sample_reserved = Inr m"
proof -
  have m: "snd (reserve sample_ids 70 sample_a ''sw'' ''vlan'' [] [''lan'', ''dmz''] (fst sample_reserved))
      = Inr [(''lan'', ''100''), (''dmz'', ''101'')]"
    by code_simp
  then have "[(''lan'', ''100''), (''dmz'', ''101'')] = [(''lan'', ''100''), (''dmz'', ''101'')]"
    using reserve_idempotent [OF sample_facts(1,2)] sample_reserved_eq [OF sample_reserved_answer] pair_eq [OF m]
    by blast
  then show ?thesis using m sample_reserved_answer by metis
qed

text \<open>The API's allocator succeeds exactly when the pool holds enough free values; the
  holders without a value then get the first free ones in pool order. Otherwise nothing is
  reserved: only reservations of destroyed ranges have gone. No constraint is violated.\<close>
theorem reserve_lowest_free:
  assumes "inventory_ok d" "fresh_ids ids d" "distinct pool" "kind \<in> set KINDS" "domain \<noteq> []"
    and "\<forall>r \<in> set (range_reservations d (rng_id rng) kind). nr_domain r = domain"
    and "needed = without_value (rng_id rng) domain kind holders d"
    and "free = free_values domain kind pool d"
  shows "if length needed \<le> length free
    then \<exists>d' m. reserve ids now rng domain kind pool holders d = (d', Inr m) \<and>
      map (map_of m) needed = map Some (take (length needed) free)
    else \<exists>d'. reserve ids now rng domain kind pool holders d =
      (d', Inl (PoolExhausted (length free) (length needed))) \<and> gone_rows_only d d'"
  by (rule reserve_exact [OF assms])

theorem reserve_lowest_free_witness:
  "\<exists>d' m. reserve sample_ids 60 sample_a ''sw'' ''vlan'' sample_pool [''lan'', ''dmz''] sample_db = (d', Inr m) \<and>
    map (map_of m) [''lan'', ''dmz''] = [Some ''100'', Some ''101'']"
proof -
  have n: "[''lan'', ''dmz''] = without_value (rng_id sample_a) ''sw'' ''vlan'' [''lan'', ''dmz''] sample_db"
    by (simp add: without_value_def holds_def sample_db_def sample_row_def sample_range_def dict_fromkeys_def)
  have f: "[''100'', ''101'', ''103''] = free_values ''sw'' ''vlan'' sample_pool sample_db"
    by code_simp
  have "\<forall>r \<in> set (range_reservations sample_db (rng_id sample_a) ''vlan''). nr_domain r = ''sw''"
    by code_simp
  from reserve_lowest_free [OF sample_facts(1) sample_fresh sample_facts(5,6) _ this n f, of 60]
  show ?thesis by simp
qed

text \<open>After a sync the range holds, of that kind, exactly the listed holders, in that domain,
  with values of the pool; and the only way it fails is a pool that is too small.\<close>
theorem sync_exact:
  assumes "inventory_ok d" "live_range d rng" "fresh_ids ids d" "distinct pool" "kind \<in> set KINDS"
    "domain \<noteq> []" "sync ids now rng domain kind pool holders d = (d', res)"
  shows "case res of
      Inl e \<Rightarrow> \<exists>n k. e = PoolExhausted n k \<and> n < k
    | Inr m \<Rightarrow> \<forall>dom2 h v. (holds d' (rng_id rng) dom2 kind h v \<longleftrightarrow> dom2 = domain \<and> (h, v) \<in> set m) \<and>
        ((h, v) \<in> set m \<longrightarrow> h \<in> set holders \<and> v \<in> set pool)"
proof (cases res)
  case (Inl e)
  then show ?thesis using sync_errors_lemma [OF assms(1,3-6)] assms(7) by simp
next
  case (Inr m)
  then show ?thesis using sync_exact_lemma [OF assms(1,2)] assms(7) by simp
qed

theorem sync_exact_witness:
  "let r = sync sample_ids 60 sample_a ''sw'' ''vlan'' sample_pool [''lan''] sample_db in
   \<forall>h v. holds (fst r) ''a'' ''sw'' ''vlan'' h v \<longleftrightarrow> (h, v) = (''lan'', ''100'')"
proof -
  have a: "snd (sync sample_ids 60 sample_a ''sw'' ''vlan'' sample_pool [''lan''] sample_db) = Inr [(''lan'', ''100'')]"
    by code_simp
  from sync_exact [OF sample_facts(1,2) sample_fresh sample_facts(5,6) _ pair_eq [OF a]]
  show ?thesis by (simp add: sample_range_def)
qed

text \<open>A value a live read saw in use outside TrueNorth is not handed out afterwards: a worker's
  reservation answers it only to a range that already held it.\<close>
theorem external_never_handed_out:
  assumes "inventory_ok d" "fresh_ids ids d" "distinct (map fst (lu_foreign u))"
    and "record_external ids u now d = (d', res)" "live_range d' rng"
    and "reserve_values ids2 now2 prune excl (rng_id rng) (lu_domain u) (lu_kind u) pool holders d' = (d'', Inr m)"
    and "v \<in> fst ` set (lu_foreign u)" "(h, v) \<in> set m"
  shows "\<exists>h'. holds d' (rng_id rng) (lu_domain u) (lu_kind u) h' v"
proof -
  obtain x where x: "inventory_ok d'" "x \<in> set (network_reservations d')"
    "in_domain (lu_domain u) (lu_kind u) x" "nr_value x = v" "nr_range x \<notin> Some ` set (destroyed_ids d')"
    using record_external_protects_lemma [OF assms(1-3,7,4)] by blast
  have "nr_range x = Some (rng_id rng)"
    by (rule worker_reserve.given_not_taken [OF x(1) assms(5,6,8) x(2-5)])
  then show ?thesis using x by (auto simp: holds_def)
qed

theorem external_never_handed_out_witness:
  "\<exists>m. snd (sample_worker_reserved (fst sample_seen)) = Inr m \<and> (\<forall>h. (h, ''101'') \<notin> set m)"
proof -
  have ok: "snd sample_seen = Inr [(''101'', ''external:vc:Backup'')]" "live_range (fst sample_seen) sample_b"
    "distinct (map fst (lu_foreign sample_usage))" "''101'' \<in> fst ` set (lu_foreign sample_usage)"
    "\<not> (\<exists>r \<in> set (network_reservations (fst sample_seen)). nr_range r = Some ''b'')"
    by code_simp+
  have m: "snd (sample_worker_reserved (fst sample_seen)) = Inr [(''lan'', ''100'')]" by code_simp
  have none: "\<not> (\<exists>h'. holds (fst sample_seen) (rng_id sample_b) (lu_domain sample_usage) (lu_kind sample_usage) h' ''101'')"
    using ok(5) by (auto simp: holds_def sample_range_def)
  have w: "reserve_values (\<lambda>i. CHR ''m'' # sample_ids i) 61 True [] (rng_id sample_b) (lu_domain sample_usage)
      (lu_kind sample_usage) sample_pool [''lan''] (fst sample_seen)
      = (fst (sample_worker_reserved (fst sample_seen)), Inr [(''lan'', ''100'')])"
    using pair_eq [OF m] by (simp add: sample_usage_def sample_range_def)
  have "(h, ''101'') \<notin> set [(''lan'', ''100'')]" for h
    using external_never_handed_out [OF sample_facts(1) sample_fresh ok(3) pair_eq [OF ok(1)] ok(2) w ok(4)] none
    by blast
  then show ?thesis using m by blast
qed

text \<open>A slow read never deletes what a newer one saw: an entry last seen at or after the read
  began, and within the time to live, is still there afterwards, with the same value and holder.\<close>
theorem newer_sighting_kept:
  assumes "inventory_ok d" "fresh_ids ids d" "distinct (map fst (lu_foreign u))"
    and "record_external ids u now d = (d', res)" "lu_read_at u = Some t"
    and "r \<in> set (network_reservations d)" "nr_range r = None" "t \<le> nr_updated r" "now - EXTERNAL_TTL \<le> nr_updated r"
  shows "still_there r d'"
proof -
  have "r \<in> set (network_reservations (free_destroyed (lu_domain u) (lu_kind u) d))"
    using assms(6,7) by (auto simp: free_destroyed_def)
  then show ?thesis
    using record_external_Inr [OF assms(1-3) refl refl refl, of now] assms(4)
      refresh_keeps [of "free_destroyed (lu_domain u) (lu_kind u) d" r u now] free_destroyed_ok [OF assms(1)] assms(5,8,9)
    by (fastforce simp: still_there_def)
qed

theorem newer_sighting_kept_witness:
  "still_there (sample_row ''2'' None ''102'' ''external:vc:PG'' 50) (fst sample_seen)"
proof -
  have "snd sample_seen = Inr [(''101'', ''external:vc:Backup'')]" "distinct (map fst (lu_foreign sample_usage))"
    "lu_read_at sample_usage = Some 20"
    "sample_row ''2'' None ''102'' ''external:vc:PG'' 50 \<in> set (network_reservations sample_db)"
    "nr_range (sample_row ''2'' None ''102'' ''external:vc:PG'' 50) = None"
    "20 \<le> nr_updated (sample_row ''2'' None ''102'' ''external:vc:PG'' 50)"
    "60 - EXTERNAL_TTL \<le> nr_updated (sample_row ''2'' None ''102'' ''external:vc:PG'' 50)"
    by code_simp+
  then show ?thesis
    by (intro newer_sighting_kept [OF sample_facts(1) sample_fresh _ pair_eq])
qed

end
