(* ===== verification/Fencing.thy ===== *)
theory Fencing
  imports Range_Model
begin

text \<open>
  Range tasks act only for the request that was recorded, one execution at a time:
  \<^verbatim>\<open>worker/fencing.py\<close>, the range statements of \<^verbatim>\<open>worker/db_ops.py\<close> it guards, and the API's
  side of a lease, \<^verbatim>\<open>fence_lease\<close> of \<^verbatim>\<open>app/range_ops/service.py\<close>.

  \<^item> The lease table operations, the lease object a running task keeps (\<open>exec\<close>) with its
    heartbeat, \<open>claim\<close>, \<open>guarded_range_update\<close> and the task wrapper \<open>fenced\<close>.
  \<^item> The protocol as a step relation \<open>fence_step\<close>: any number of executions claiming,
    renewing, writing, finishing and dying, with the operator abandoning and
    force-releasing, in any interleaving. Each database transaction is one step; the
    row locks of the code make it so.

  \<open>now\<close> is database time. A lease lasts \<open>LEASE\<close> after its renewal
  (\<^verbatim>\<open>RANGE_LEASE_SECONDS\<close>), a parameter.
\<close>

section \<open>Lease rows\<close>

definition ABANDONED :: string where
  "ABANDONED = ''abandoned:''"

definition tombstone :: "string \<Rightarrow> string" where
  "tombstone holder = ABANDONED @ holder"

definition KEPT_LEASE_SECONDS :: time where
  "KEPT_LEASE_SECONDS = seconds 3600"

definition get_lease :: "db \<Rightarrow> uuid \<Rightarrow> lease option" where
  "get_lease d rid = find_row (\<lambda>l. ls_range l = rid) (range_leases d)"

text \<open>The upsert: a new row, or an expired one (a tombstone included) taken over.\<close>

definition claim_lease :: "time \<Rightarrow> time \<Rightarrow> uuid \<Rightarrow> string \<Rightarrow> db \<Rightarrow> db \<times> bool" where
  "claim_lease LEASE now rid holder d =
     (case get_lease d rid of
        None \<Rightarrow> (d\<lparr>range_leases := range_leases d @
                    [\<lparr>ls_range = rid, ls_holder = holder, ls_expires = now + LEASE\<rparr>]\<rparr>, True)
      | Some l \<Rightarrow> if ls_expires l < now
          then (d\<lparr>range_leases := update_where (\<lambda>l. ls_range l = rid)
                   (\<lambda>l. l\<lparr>ls_holder := holder, ls_expires := now + LEASE\<rparr>) (range_leases d)\<rparr>, True)
          else (d, False))"

definition release_lease :: "uuid \<Rightarrow> string \<Rightarrow> db \<Rightarrow> db" where
  "release_lease rid holder d = d\<lparr>range_leases := delete_where
     (\<lambda>l. ls_range l = rid \<and> ls_holder l \<in> {holder, tombstone holder}) (range_leases d)\<rparr>"

definition extend_lease :: "time \<Rightarrow> time \<Rightarrow> uuid \<Rightarrow> string \<Rightarrow> db \<Rightarrow> db \<times> bool" where
  "extend_lease secs now rid holder d =
     (let P = (\<lambda>l. ls_range l = rid \<and> ls_holder l = holder) in
      (d\<lparr>range_leases := update_where P (\<lambda>l. l\<lparr>ls_expires := max (ls_expires l) (now + secs)\<rparr>) (range_leases d)\<rparr>,
       0 < count_where P (range_leases d)))"

definition lease_holder :: "db \<Rightarrow> uuid \<Rightarrow> string option" where
  "lease_holder d rid = map_option ls_holder (get_lease d rid)"

section \<open>The lease a running task holds\<close>

record exec =
  x_range :: uuid
  x_holder :: string
  x_current :: string
  x_abandoned :: bool
  x_lost :: bool

definition new_exec :: "uuid \<Rightarrow> string \<Rightarrow> exec" where
  "new_exec rid holder = \<lparr>x_range = rid, x_holder = holder, x_current = holder,
     x_abandoned = False, x_lost = False\<rparr>"

datatype sight = SHeld | SAbandoned | SLost

definition observe :: "string option \<Rightarrow> exec \<Rightarrow> exec \<times> sight" where
  "observe holder_now e =
     (if holder_now = Some (x_holder e) \<and> \<not> x_abandoned e then (e, SHeld)
      else if holder_now = Some (tombstone (x_holder e))
        then (e\<lparr>x_current := tombstone (x_holder e), x_abandoned := True\<rparr>, SAbandoned)
      else (e\<lparr>x_lost := True\<rparr>, SLost))"

text \<open>One beat of the heartbeat thread; the result says whether the thread goes on.\<close>

definition beat :: "time \<Rightarrow> time \<Rightarrow> db \<Rightarrow> exec \<Rightarrow> db \<times> exec \<times> bool" where
  "beat LEASE now d e =
     (case extend_lease LEASE now (x_range e) (x_current e) d of
        (d1, True) \<Rightarrow> (d1, e, True)
      | (d1, False) \<Rightarrow>
        (case observe (lease_holder d1 (x_range e)) e of
           (e1, SAbandoned) \<Rightarrow> (fst (extend_lease LEASE now (x_range e1) (x_current e1) d1), e1, \<not> x_lost e1)
         | (e1, _) \<Rightarrow> (d1, e1, \<not> x_lost e1)))"

definition refresh :: "db \<Rightarrow> exec \<Rightarrow> exec \<times> sight" where
  "refresh d e = observe (lease_holder d (x_range e)) e"

text \<open>\<open>verify\<close> before a hypervisor call; False is \<^verbatim>\<open>LeaseLost\<close>.\<close>

definition verify :: "db \<Rightarrow> exec \<Rightarrow> exec \<times> bool" where
  "verify d e = (let (e1, s) = observe (lease_holder d (x_range e)) e in (e1, s = SHeld))"

definition ensure_held :: "exec option \<Rightarrow> uuid \<Rightarrow> db \<Rightarrow> exec option \<times> bool" where
  "ensure_held current rid d =
     (case current of None \<Rightarrow> (None, True)
      | Some e \<Rightarrow> if x_range e \<noteq> rid then (Some e, True)
          else let (e1, s) = observe (lease_holder d rid) e in (Some e1, s = SHeld))"

section \<open>Range state writes\<close>

record range_write =
  w_state :: range_state
  w_error :: "string option"
  w_output :: "json option"
  w_only_from :: "range_state list option"
  w_clear_error :: bool

definition nonempty :: "string option \<Rightarrow> bool" where
  "nonempty x = (x \<noteq> None \<and> x \<noteq> Some [])"

definition update_range_state :: "uuid \<Rightarrow> range_write \<Rightarrow> db \<Rightarrow> db \<times> nat" where
  "update_range_state rid w d =
     (let P = (\<lambda>r. rng_id r = rid \<and> (case w_only_from w of None \<Rightarrow> True
               | Some ss \<Rightarrow> ss = [] \<or> rng_state r \<in> set ss));
          f = (\<lambda>r. r\<lparr>rng_state := w_state w,
                error_message := (if nonempty (w_error w) then w_error w
                  else if w_clear_error w then None else error_message r),
                provisioner_output := (case w_output w of None \<Rightarrow> provisioner_output r | Some j \<Rightarrow> Doc j)\<rparr>)
      in (d\<lparr>ranges := update_where P f (ranges d)\<rparr>, count_where P (ranges d)))"

text \<open>None: \<^verbatim>\<open>LeaseLost\<close>. Some n: the number of rows written.\<close>

definition guarded_range_update :: "exec option \<Rightarrow> uuid \<Rightarrow> range_write \<Rightarrow> db \<Rightarrow>
    db \<times> exec option \<times> nat option" where
  "guarded_range_update current rid w d =
     (case current of
        None \<Rightarrow> (let (d1, n) = update_range_state rid w d in (d1, None, Some n))
      | Some e \<Rightarrow>
        if x_range e \<noteq> rid then (let (d1, n) = update_range_state rid w d in (d1, Some e, Some n))
        else (case observe (lease_holder d rid) e of
                (e1, SHeld) \<Rightarrow> (let (d1, n) = update_range_state rid w d in (d1, Some e1, Some n))
              | (e1, SAbandoned) \<Rightarrow> (d, Some e1, Some 0)
              | (e1, SLost) \<Rightarrow> (d, Some e1, None)))"

definition merge_range_output :: "uuid \<Rightarrow> (string \<times> json) list \<Rightarrow> db \<Rightarrow> db" where
  "merge_range_output rid updates d =
     put_range rid (\<lambda>r. r\<lparr>provisioner_output :=
       Doc (JObj (dict_merge (case load_output (provisioner_output r) of Some (JObj kvs) \<Rightarrow> kvs | _ \<Rightarrow> []) updates))\<rparr>) d"

section \<open>Claiming, and the task wrapper\<close>

datatype claimed = Claimed string | LeaseHeld | NotInState

definition in_state :: "uuid \<Rightarrow> range_state \<Rightarrow> db \<Rightarrow> db \<times> bool" where
  "in_state rid s d = (let (d1, n) = update_range_state rid
     \<lparr>w_state = s, w_error = None, w_output = None, w_only_from = Some [s], w_clear_error = False\<rparr> d in (d1, 0 < n))"

text \<open>The lease of a range that does not exist violates the foreign key: a late copy. A
  \<open>state\<close> of None means the lease alone.\<close>

definition claim :: "time \<Rightarrow> time \<Rightarrow> string \<Rightarrow> uuid \<Rightarrow> range_state option \<Rightarrow> string \<Rightarrow> db \<Rightarrow> db \<times> claimed" where
  "claim LEASE now token rid state action d =
     (let holder = action @ '':'' @ token in
      if get_range d rid = None then (d, NotInState)
      else let (d1, leased) = claim_lease LEASE now rid holder d;
               (d2, matches) = (case state of None \<Rightarrow> (d1, True) | Some s \<Rightarrow> in_state rid s d1)
      in if leased \<and> matches then (d2, Claimed holder)
         else let d3 = (if leased then release_lease rid holder d2 else d2)
              in (d3, if matches then LeaseHeld else NotInState))"

definition keep :: "time \<Rightarrow> uuid \<Rightarrow> string \<Rightarrow> db \<Rightarrow> db" where
  "keep now rid holder d = fst (extend_lease KEPT_LEASE_SECONDS now rid holder d)"

datatype body_end = Returned "(string \<times> json) list option" | SoftTimeLimit | Raised | RaisedLeaseLost | RaisedBase

datatype task_end = Skipped | Deferred | Result | SoftLimitRaised | ErrorRaised | FencedOut bool

text \<open>The body of the task (a window's hold, or the task itself) runs with the lease held and
  the heartbeat beside it: what it leaves of the database and of the lease object, and how
  it ends. \<open>FencedOut True\<close> is the result \<^verbatim>\<open>abandoned\<close>, \<open>FencedOut False\<close> \<^verbatim>\<open>lease_lost\<close>.\<close>

definition fenced :: "time \<Rightarrow> time \<Rightarrow> time \<Rightarrow> string \<Rightarrow> string \<Rightarrow> range_state option \<Rightarrow> (db \<Rightarrow> db) \<Rightarrow>
    (exec \<Rightarrow> db \<Rightarrow> db \<times> exec \<times> body_end) \<Rightarrow> uuid \<Rightarrow> db \<Rightarrow> db \<times> task_end" where
  "fenced LEASE now ended token action state on_lost body rid d =
     (case claim LEASE now token rid state action d of
        (d1, NotInState) \<Rightarrow> (d1, Skipped)
      | (d1, LeaseHeld) \<Rightarrow> (d1, Deferred)
      | (d1, Claimed holder) \<Rightarrow>
        (case body (new_exec rid holder) d1 of
           (d2, e, SoftTimeLimit) \<Rightarrow> (keep ended rid (x_current e) d2, SoftLimitRaised)
         | (d2, e, RaisedBase) \<Rightarrow> (release_lease rid (x_holder e) d2, ErrorRaised)
         | (d2, e, Returned leftover) \<Rightarrow>
             (let d3 = (case leftover of Some kvs \<Rightarrow> merge_range_output rid kvs d2 | None \<Rightarrow> d2)
              in (release_lease rid (x_holder e) d3, Result))
         | (d2, e, failure) \<Rightarrow>
             (let fenced_out = (failure = RaisedLeaseLost \<or> x_abandoned e \<or> x_lost e);
                  (e1, s) = (if fenced_out then (e, SHeld) else refresh d2 e)
              in if \<not> (fenced_out \<or> s \<in> {SAbandoned, SLost})
                 then (release_lease rid (x_holder e1) d2, ErrorRaised)
                 else (on_lost (release_lease rid (x_holder e1) d2), FencedOut (x_abandoned e1)))))"

section \<open>The API's fence\<close>

definition has_colon :: "string \<Rightarrow> bool" where
  "has_colon s = (CHR '':'' \<in> set s)"

definition fence_lease :: "time \<Rightarrow> time \<Rightarrow> uuid \<Rightarrow> string \<Rightarrow> bool \<Rightarrow> db \<Rightarrow> db \<times> bool" where
  "fence_lease LEASE now rid action legacy d =
     (let P = (\<lambda>l. ls_range l = rid \<and>
               (startswith (ls_holder l) (action @ '':'') \<or> legacy \<and> \<not> has_colon (ls_holder l))) in
      (d\<lparr>range_leases := update_where P (\<lambda>l. l\<lparr>ls_holder := ABANDONED @ ls_holder l, ls_expires := now + LEASE\<rparr>)
           (range_leases d)\<rparr>,
       0 < count_where P (range_leases d)))"

section \<open>The protocol\<close>

record world =
  w_db :: db
  w_now :: time
  w_execs :: "exec list"
  w_used :: "string list"

definition put_exec :: "exec \<Rightarrow> exec list \<Rightarrow> exec list" where
  "put_exec e es = map (\<lambda>x. if x_holder x = x_holder e then e else x) es"

definition drop_exec :: "exec \<Rightarrow> exec list \<Rightarrow> exec list" where
  "drop_exec e es = filter (\<lambda>x. x_holder x \<noteq> x_holder e) es"

definition drop_lease :: "uuid \<Rightarrow> db \<Rightarrow> db" where
  "drop_lease rid d = d\<lparr>range_leases := delete_where (\<lambda>l. ls_range l = rid) (range_leases d)\<rparr>"

text \<open>One transaction of an execution, of the operator, or of anyone who does not touch leases.
  Tokens are fresh (\<^verbatim>\<open>uuid4\<close>), and no task action is called \<^verbatim>\<open>abandoned\<close>. A worker that died just
  stops taking steps.\<close>

inductive fence_step :: "time \<Rightarrow> world \<Rightarrow> world \<Rightarrow> bool" for LEASE where
  s_tick: "w_now w \<le> t \<Longrightarrow> fence_step LEASE w (w\<lparr>w_now := t\<rparr>)"
| s_claim: "h \<notin> set (w_used w) \<Longrightarrow> \<not> startswith h ABANDONED \<Longrightarrow>
    (\<forall>l \<in> set (range_leases (w_db w)). ls_holder l \<noteq> h) \<Longrightarrow>
    claim_lease LEASE (w_now w) rid h (w_db w) = (d', True) \<Longrightarrow>
    fence_step LEASE w (w\<lparr>w_db := d', w_execs := w_execs w @ [new_exec rid h], w_used := h # w_used w\<rparr>)"
| s_beat: "e \<in> set (w_execs w) \<Longrightarrow> beat LEASE (w_now w) (w_db w) e = (d', e', b) \<Longrightarrow>
    fence_step LEASE w (w\<lparr>w_db := d', w_execs := put_exec e' (w_execs w)\<rparr>)"
| s_write: "e \<in> set (w_execs w) \<Longrightarrow>
    guarded_range_update (Some e) (x_range e) wr (w_db w) = (d', Some e', r) \<Longrightarrow>
    fence_step LEASE w (w\<lparr>w_db := d', w_execs := put_exec e' (w_execs w)\<rparr>)"
| s_verify: "e \<in> set (w_execs w) \<Longrightarrow> verify (w_db w) e = (e', b) \<Longrightarrow>
    fence_step LEASE w (w\<lparr>w_execs := put_exec e' (w_execs w)\<rparr>)"
| s_finish: "e \<in> set (w_execs w) \<Longrightarrow>
    fence_step LEASE w (w\<lparr>w_db := release_lease (x_range e) (x_holder e) (w_db w), w_execs := drop_exec e (w_execs w)\<rparr>)"
| s_keep: "e \<in> set (w_execs w) \<Longrightarrow>
    fence_step LEASE w (w\<lparr>w_db := keep (w_now w) (x_range e) (x_current e) (w_db w), w_execs := drop_exec e (w_execs w)\<rparr>)"
| s_abandon: "fence_lease LEASE (w_now w) rid action legacy (w_db w) = (d', b) \<Longrightarrow>
    fence_step LEASE w (w\<lparr>w_db := d'\<rparr>)"
| s_force: "get_lease (w_db w) rid = Some l \<Longrightarrow> startswith (ls_holder l) ABANDONED \<Longrightarrow>
    fence_step LEASE w (w\<lparr>w_db := drop_lease rid (w_db w)\<rparr>)"
| s_other: "range_leases d' = range_leases (w_db w) \<Longrightarrow> fence_step LEASE w (w\<lparr>w_db := d'\<rparr>)"

inductive fence_steps :: "time \<Rightarrow> world \<Rightarrow> world \<Rightarrow> bool" for LEASE where
  fs_refl: "fence_steps LEASE w w"
| fs_step: "fence_steps LEASE w w' \<Longrightarrow> fence_step LEASE w' w'' \<Longrightarrow> fence_steps LEASE w w''"

definition absent :: "string \<Rightarrow> db \<Rightarrow> bool" where
  "absent h d = (\<forall>l \<in> set (range_leases d). ls_holder l \<noteq> h)"

definition pairs :: "db \<Rightarrow> (uuid \<times> string) set" where
  "pairs d = (\<lambda>l. (ls_range l, ls_holder l)) ` set (range_leases d)"

definition exec_ok :: "db \<Rightarrow> exec \<Rightarrow> bool" where
  "exec_ok d e = (\<not> startswith (x_holder e) ABANDONED \<and>
     x_current e = (if x_abandoned e then tombstone (x_holder e) else x_holder e) \<and>
     (x_abandoned e \<longrightarrow> absent (x_holder e) d) \<and>
     (\<forall>r. (r, x_holder e) \<in> pairs d \<longrightarrow> r = x_range e))"

definition fence_ok :: "world \<Rightarrow> bool" where
  "fence_ok w = (distinct (map ls_range (range_leases (w_db w))) \<and>
     distinct (map x_holder (w_execs w)) \<and> x_holder ` set (w_execs w) \<subseteq> set (w_used w) \<and>
     (\<forall>h \<in> set (w_used w). \<not> startswith h ABANDONED) \<and>
     (\<forall>e \<in> set (w_execs w). exec_ok (w_db w) e))"

text \<open>How each transaction moves the lease table: a row's holder is kept, prefixed, or new.\<close>

lemma tombstone_abandoned [simp]: "startswith (tombstone h) ABANDONED"
  by (simp add: tombstone_def)

lemma get_lease_SomeD: "get_lease d rid = Some l \<Longrightarrow> l \<in> set (range_leases d) \<and> ls_range l = rid"
  unfolding get_lease_def by (drule find_row_SomeD) simp

lemma claim_lease_rows:
  assumes "claim_lease LEASE now rid h d = (d', True)" "l \<in> set (range_leases d')"
  shows "l \<in> set (range_leases d) \<or> ls_range l = rid \<and> ls_holder l = h \<and> ls_expires l = now + LEASE"
  using assms by (auto simp: claim_lease_def update_where_def split: option.splits if_splits)

lemma claim_lease_keys:
  "claim_lease LEASE now rid h d = (d', b) \<Longrightarrow> distinct (map ls_range (range_leases d)) \<Longrightarrow>
   distinct (map ls_range (range_leases d'))"
  by (auto simp: claim_lease_def get_lease_def find_row_None_iff map_update_where split: option.splits if_splits)

lemma extend_lease_rows:
  "set (range_leases (fst (extend_lease secs now rid h d))) =
   (\<lambda>l. if ls_range l = rid \<and> ls_holder l = h then l\<lparr>ls_expires := max (ls_expires l) (now + secs)\<rparr> else l)
     ` set (range_leases d)"
  by (simp add: extend_lease_def Let_def update_where_def)

lemma extend_lease_keys [simp]:
  "map ls_range (range_leases (fst (extend_lease secs now rid h d))) = map ls_range (range_leases d)"
  by (simp add: extend_lease_def Let_def map_update_where)

lemma absent_iff: "absent h d \<longleftrightarrow> h \<notin> set (map ls_holder (range_leases d))"
  by (auto simp: absent_def)

lemma extend_lease_holders [simp]:
  "map ls_holder (range_leases (fst (extend_lease secs now rid h d))) = map ls_holder (range_leases d)"
  by (simp add: extend_lease_def Let_def map_update_where)

lemma extend_lease_absent [simp]: "absent g (fst (extend_lease secs now rid h d)) = absent g d"
  by (simp only: absent_iff extend_lease_holders)

lemma extend_lease_none: "\<not> snd (extend_lease secs now rid h d) \<Longrightarrow> fst (extend_lease secs now rid h d) = d"
  by (cases d) (simp add: extend_lease_def Let_def count_where_0_iff update_where_none)

lemma observe_same [simp]:
  "x_range (fst (observe h e)) = x_range e" "x_holder (fst (observe h e)) = x_holder e"
  by (simp_all add: observe_def)

lemma beat_cases:
  assumes "beat LEASE now d e = (d', e', b)"
  obtains (renewed) "snd (extend_lease LEASE now (x_range e) (x_current e) d)"
      "d' = fst (extend_lease LEASE now (x_range e) (x_current e) d)" "e' = e"
  | (abandoned) "snd (observe (lease_holder d (x_range e)) e) = SAbandoned"
      "e' = fst (observe (lease_holder d (x_range e)) e)"
      "d' = fst (extend_lease LEASE now (x_range e) (x_current e') d)"
  | (other) "d' = d" "e' = fst (observe (lease_holder d (x_range e)) e)"
      "\<not> snd (extend_lease LEASE now (x_range e) (x_current e) d)"
      "snd (observe (lease_holder d (x_range e)) e) \<noteq> SAbandoned"
proof -
  let ?x = "extend_lease LEASE now (x_range e) (x_current e) d"
  let ?o = "observe (lease_holder d (x_range e)) e"
  have "beat LEASE now d e = (if snd ?x then (fst ?x, e, True)
      else (if snd ?o = SAbandoned then fst (extend_lease LEASE now (x_range e) (x_current (fst ?o)) d) else d,
            fst ?o, \<not> x_lost (fst ?o)))"
    using extend_lease_none [of LEASE now "x_range e" "x_current e" d] observe_same [of "lease_holder d (x_range e)" e]
    by (cases ?x; cases ?o; cases "snd ?o") (auto simp: beat_def split: sight.splits)
  then show thesis
    using assms renewed abandoned other by (auto split: if_splits)
qed

lemma release_lease_rows: "set (range_leases (release_lease rid h d)) \<subseteq> set (range_leases d)"
  by (auto simp: release_lease_def)

lemma fence_lease_rows:
  assumes "fence_lease LEASE now rid action legacy d = (d', b)" "l \<in> set (range_leases d')"
  shows "l \<in> set (range_leases d) \<or> startswith (ls_holder l) ABANDONED \<and> ls_range l = rid \<and> ls_expires l = now + LEASE"
  using assms by (auto simp: fence_lease_def Let_def update_where_def)

lemma fence_lease_keys:
  "fence_lease LEASE now rid action legacy d = (d', b) \<Longrightarrow>
   map ls_range (range_leases d') = map ls_range (range_leases d)"
  by (auto simp: fence_lease_def Let_def map_update_where)

lemma update_range_state_leases [frame_simps]: "range_leases (fst (update_range_state rid w d)) = range_leases d"
  by (simp add: update_range_state_def Let_def)

lemma guarded_leases: "guarded_range_update c rid w d = (d', c', r) \<Longrightarrow> range_leases d' = range_leases d"
  using update_range_state_leases [of rid w d]
  by (auto simp: guarded_range_update_def split: option.splits if_splits prod.splits sight.splits)

lemma absent_pairs: "absent h d \<longleftrightarrow> (\<forall>r. (r, h) \<notin> pairs d)"
  by (auto simp: absent_def pairs_def)

lemma extend_lease_pairs [simp]: "pairs (fst (extend_lease secs now rid h d)) = pairs d"
  unfolding pairs_def extend_lease_rows image_image by (rule image_cong) auto

lemma beat_pairs: "beat LEASE now d e = (d', e', b) \<Longrightarrow> pairs d' = pairs d"
  by (erule beat_cases) simp_all

lemma step_pairs:
  assumes "fence_step LEASE w w'" "(r, h) \<in> pairs (w_db w')"
  shows "(r, h) \<in> pairs (w_db w) \<or> startswith h ABANDONED \<or> h \<notin> set (w_used w)"
  using assms(1)
proof cases
  case (s_claim g rid d')
  then show ?thesis
    using assms(2) claim_lease_rows [OF s_claim(5)] by (fastforce simp: pairs_def)
next
  case (s_beat e d' e' b)
  then show ?thesis using assms(2) beat_pairs [OF s_beat(3)] by simp
next
  case (s_abandon rid action legacy d' b)
  then show ?thesis
    using assms(2) fence_lease_rows [OF s_abandon(2)] by (fastforce simp: pairs_def)
next
  case (s_write e wr d' e' r)
  then show ?thesis using assms(2) guarded_leases [OF s_write(3)] by (simp add: pairs_def)
next
  case (s_finish e)
  then show ?thesis using assms(2) release_lease_rows by (fastforce simp: pairs_def)
next
  case (s_force rid l)
  then show ?thesis using assms(2) by (auto simp: pairs_def drop_lease_def)
qed (use assms(2) in \<open>auto simp: keep_def, auto simp: pairs_def\<close>)

text \<open>The holder of a lease is one holder.\<close>

lemma lease_holder_pairs:
  assumes "distinct (map ls_range (range_leases d))"
  shows "(r, h) \<in> pairs d \<longleftrightarrow> lease_holder d r = Some h"
proof
  assume "(r, h) \<in> pairs d"
  then obtain l where "l \<in> set (range_leases d)" "ls_range l = r" "ls_holder l = h"
    by (auto simp: pairs_def)
  then show "lease_holder d r = Some h"
    using find_row_unique [OF assms] by (auto simp: lease_holder_def get_lease_def)
next
  assume "lease_holder d r = Some h"
  then show "(r, h) \<in> pairs d"
    by (auto simp: lease_holder_def pairs_def dest!: get_lease_SomeD)
qed

text \<open>Absence of a holder used before is stable: a fenced execution stays fenced.\<close>

lemma step_absent:
  assumes "fence_step LEASE w w'" "fence_ok w" "h \<in> set (w_used w)" "absent h (w_db w)"
  shows "absent h (w_db w')"
  using assms step_pairs [OF assms(1)] by (fastforce simp: absent_pairs fence_ok_def)

lemma exec_ok_step:
  assumes "fence_step LEASE w w'" "fence_ok w" "x_holder e \<in> set (w_used w)" "exec_ok (w_db w) e"
  shows "exec_ok (w_db w') e"
  using assms step_absent [OF assms(1-3)] step_pairs [OF assms(1)]
  by (fastforce simp: exec_ok_def)

lemma exec_ok_observe:
  assumes "exec_ok d e" "distinct (map ls_range (range_leases d))"
  shows "exec_ok d (fst (observe (lease_holder d (x_range e)) e))"
proof (cases "lease_holder d (x_range e) = Some (tombstone (x_holder e))")
  case True
  have "tombstone (x_holder e) \<noteq> x_holder e"
    using assms(1) tombstone_abandoned [of "x_holder e"] unfolding exec_ok_def by metis
  then have "absent (x_holder e) d"
    using True assms lease_holder_pairs [OF assms(2)] by (auto simp: absent_pairs exec_ok_def)
  then show ?thesis using assms(1) by (simp add: observe_def exec_ok_def)
next
  case False
  then show ?thesis using assms(1) by (simp add: observe_def exec_ok_def)
qed

lemma put_exec_holders:
  "map x_holder (put_exec e es) = map x_holder es"
  by (simp add: put_exec_def)

lemma step_keys:
  assumes "fence_step LEASE w w'" "distinct (map ls_range (range_leases (w_db w)))"
  shows "distinct (map ls_range (range_leases (w_db w')))"
  using assms(1)
proof cases
  case (s_claim g rid d')
  then show ?thesis using assms(2) claim_lease_keys by auto
next
  case (s_beat e d' e' b)
  from s_beat(3) have "map ls_range (range_leases d') = map ls_range (range_leases (w_db w))"
    by (cases rule: beat_cases) simp_all
  then show ?thesis using assms(2) s_beat(1) by simp
next
  case (s_abandon rid action legacy d' b)
  then show ?thesis using assms(2) fence_lease_keys [OF s_abandon(2)] by simp
next
  case (s_write e wr d' e' r)
  then show ?thesis using assms(2) guarded_leases [OF s_write(3)] by simp
qed (use assms(2) in \<open>auto simp: keep_def release_lease_def drop_lease_def distinct_map_delete_where\<close>)

text \<open>The executions after a step: an old one, unchanged or having looked at its lease; or the
  new claim.\<close>

lemma step_execs:
  assumes "fence_step LEASE w w'" "x \<in> set (w_execs w')"
  obtains (old) "x \<in> set (w_execs w)"
  | (looked) e where "e \<in> set (w_execs w)" "x = fst (observe (lease_holder (w_db w) (x_range e)) e)"
  | (claimed) rid h where "x = new_exec rid h" "h \<notin> set (w_used w)" "\<not> startswith h ABANDONED"
      "absent h (w_db w)" "claim_lease LEASE (w_now w) rid h (w_db w) = (w_db w', True)"
  using assms(1)
proof cases
  case (s_claim h rid d')
  then show thesis using assms(2) old claimed by (auto simp: absent_def)
next
  case (s_beat e d' e' b)
  have "e' = e \<or> e' = fst (observe (lease_holder (w_db w) (x_range e)) e)"
    using s_beat(3) by (cases rule: beat_cases) simp_all
  moreover have "x = e' \<or> x \<in> set (w_execs w)"
    using assms(2) s_beat(1) by (auto simp: put_exec_def)
  ultimately show thesis using old looked s_beat(2) by blast
next
  case (s_write e wr d' e' r)
  have "e' = fst (observe (lease_holder (w_db w) (x_range e)) e)"
    using s_write(3) by (auto simp: guarded_range_update_def split: prod.splits sight.splits)
  moreover have "x = e' \<or> x \<in> set (w_execs w)"
    using assms(2) s_write(1) by (auto simp: put_exec_def)
  ultimately show thesis using old looked s_write(2) by blast
next
  case (s_verify e e' b)
  have "e' = fst (observe (lease_holder (w_db w) (x_range e)) e)"
    using s_verify(3) by (auto simp: verify_def split: prod.splits)
  moreover have "x = e' \<or> x \<in> set (w_execs w)"
    using assms(2) s_verify(1) by (auto simp: put_exec_def)
  ultimately show thesis using old looked s_verify(2) by blast
qed (use assms(2) old in \<open>auto simp: drop_exec_def\<close>)

lemma step_holders:
  assumes "fence_step LEASE w w'" "fence_ok w"
  shows "distinct (map x_holder (w_execs w')) \<and> x_holder ` set (w_execs w') \<subseteq> set (w_used w') \<and>
    (\<forall>h \<in> set (w_used w'). \<not> startswith h ABANDONED) \<and> set (w_used w) \<subseteq> set (w_used w')"
proof -
  have ok: "distinct (map x_holder (w_execs w))" "x_holder ` set (w_execs w) \<subseteq> set (w_used w)"
    "\<forall>h \<in> set (w_used w). \<not> startswith h ABANDONED"
    using assms(2) by (auto simp: fence_ok_def)
  have put: "x_holder ` set (put_exec e es) = x_holder ` set es" for e es
    by (metis list.set_map put_exec_holders)
  from assms(1) show ?thesis
  proof cases
    case (s_claim h rid d')
    then show ?thesis using ok by (auto simp: new_exec_def)
  next
    case (s_finish e)
    then show ?thesis using ok by (auto simp: drop_exec_def distinct_map_filter_rows)
  next
    case (s_keep e)
    then show ?thesis using ok by (auto simp: drop_exec_def distinct_map_filter_rows)
  qed (use ok in \<open>simp_all add: put_exec_holders put\<close>)
qed

lemma fence_ok_step:
  assumes "fence_step LEASE w w'" "fence_ok w"
  shows "fence_ok w'"
proof -
  have keys: "distinct (map ls_range (range_leases (w_db w)))"
    and used: "\<And>e. e \<in> set (w_execs w) \<Longrightarrow> x_holder e \<in> set (w_used w)"
    and good: "\<And>e. e \<in> set (w_execs w) \<Longrightarrow> exec_ok (w_db w) e"
    using assms(2) by (auto simp: fence_ok_def)
  have "exec_ok (w_db w') x" if x: "x \<in> set (w_execs w')" for x
    using assms(1) x
  proof (cases rule: step_execs)
    case old
    then show ?thesis using exec_ok_step [OF assms] used good by blast
  next
    case (looked e)
    then show ?thesis
      using exec_ok_step [OF assms, of x] exec_ok_observe [OF good keys] used by simp
  next
    case (claimed rid h)
    have "(r, h) \<in> pairs (w_db w') \<Longrightarrow> r = rid" for r
      using claim_lease_rows [OF claimed(5)] claimed(4) by (auto simp: pairs_def absent_def)
    then show ?thesis using claimed by (simp add: exec_ok_def new_exec_def)
  qed
  then show ?thesis
    using step_holders [OF assms] step_keys [OF assms(1) keys] by (simp add: fence_ok_def)
qed

lemma fence_ok_steps: "fence_steps LEASE w w' \<Longrightarrow> fence_ok w \<Longrightarrow> fence_ok w'"
  by (induction rule: fence_steps.induct) (auto intro: fence_ok_step)

lemma fence_steps_trans: "fence_steps LEASE w' w'' \<Longrightarrow> fence_steps LEASE w w' \<Longrightarrow> fence_steps LEASE w w''"
  by (induction rule: fence_steps.induct) (auto intro: fs_step)

lemma absent_steps:
  "fence_steps LEASE w w' \<Longrightarrow> fence_ok w \<Longrightarrow> h \<in> set (w_used w) \<Longrightarrow> absent h (w_db w) \<Longrightarrow>
   absent h (w_db w') \<and> h \<in> set (w_used w')"
proof (induction rule: fence_steps.induct)
  case (fs_step w w' w'')
  then show ?case
    using step_absent [OF fs_step(2) fence_ok_steps [OF fs_step(1)]] step_holders [OF fs_step(2) fence_ok_steps [OF fs_step(1)]]
    by blast
qed simp

section \<open>Blocking and bounds\<close>

definition blocked :: "uuid \<Rightarrow> time \<Rightarrow> db \<Rightarrow> bool" where
  "blocked rid T d = (\<exists>l \<in> set (range_leases d). ls_range l = rid \<and> T \<le> ls_expires l)"

text \<open>Steps after which the range's lease row still exists: its execution has not ended and
  nobody force-released it.\<close>

inductive fence_steps_on :: "time \<Rightarrow> uuid \<Rightarrow> world \<Rightarrow> world \<Rightarrow> bool" for LEASE rid where
  on_refl: "fence_steps_on LEASE rid w w"
| on_step: "fence_steps_on LEASE rid w w' \<Longrightarrow> fence_step LEASE w' w'' \<Longrightarrow> get_lease (w_db w'') rid \<noteq> None \<Longrightarrow>
    fence_steps_on LEASE rid w w''"

lemma fence_step_now: "fence_step LEASE w w' \<Longrightarrow> w_now w \<le> w_now w'"
  by (cases rule: fence_step.cases) auto

lemma fence_steps_on_steps: "fence_steps_on LEASE rid w w' \<Longrightarrow> fence_steps LEASE w w'"
  by (induction rule: fence_steps_on.induct) (auto intro: fence_steps.intros)

lemma fence_steps_now: "fence_steps LEASE w w' \<Longrightarrow> w_now w \<le> w_now w'"
  by (induction rule: fence_steps.induct) (auto dest: fence_step_now)

lemma get_lease_unique:
  assumes "distinct (map ls_range (range_leases d))" "l \<in> set (range_leases d)" "ls_range l = rid"
  shows "get_lease d rid = Some l"
  using find_row_unique [OF assms(1,2)] assms(3) by (simp add: get_lease_def)

lemma blocked_update:
  assumes "blocked rid T d" "range_leases d' = update_where P f (range_leases d)"
    and "\<And>l. ls_range (f l) = ls_range l" "\<And>l. P l \<Longrightarrow> ls_range l = rid \<Longrightarrow> T \<le> ls_expires l \<Longrightarrow> T \<le> ls_expires (f l)"
  shows "blocked rid T d'"
proof -
  obtain l where l: "l \<in> set (range_leases d)" "ls_range l = rid" "T \<le> ls_expires l"
    using assms(1) by (auto simp: blocked_def)
  let ?l = "if P l then f l else l"
  have "?l \<in> set (range_leases d')" using l(1) assms(2) by (auto simp: update_where_def)
  moreover have "ls_range ?l = rid" "T \<le> ls_expires ?l" using l assms(3,4) by auto
  ultimately show ?thesis unfolding blocked_def by blast
qed

lemma extend_lease_blocked: "blocked rid T d \<Longrightarrow> blocked rid T (fst (extend_lease secs now r h d))"
proof -
  assume b: "blocked rid T d"
  have "range_leases (fst (extend_lease secs now r h d)) = update_where (\<lambda>l. ls_range l = r \<and> ls_holder l = h)
      (\<lambda>l. l\<lparr>ls_expires := max (ls_expires l) (now + secs)\<rparr>) (range_leases d)"
    by (simp add: extend_lease_def Let_def)
  then show ?thesis by (rule blocked_update [OF b]) auto
qed

lemma claim_lease_blocked:
  assumes "claim_lease LEASE now r h d = (d', True)" "blocked rid T d" "T \<le> now + LEASE"
  shows "blocked rid T d'"
proof (cases "get_lease d r")
  case None
  then show ?thesis using assms(1,2) by (auto simp: claim_lease_def blocked_def)
next
  case (Some l)
  then have "range_leases d' = update_where (\<lambda>l. ls_range l = r)
      (\<lambda>l. l\<lparr>ls_holder := h, ls_expires := now + LEASE\<rparr>) (range_leases d)"
    using assms(1) by (auto simp: claim_lease_def split: if_splits)
  then show ?thesis by (rule blocked_update [OF assms(2)]) (use assms(3) in auto)
qed

lemma fence_lease_blocked:
  assumes "fence_lease LEASE now r action legacy d = (d', b)" "blocked rid T d" "T \<le> now + LEASE"
  shows "blocked rid T d'"
proof -
  have "range_leases d' = update_where (\<lambda>l. ls_range l = r \<and> (startswith (ls_holder l) (action @ '':'') \<or>
      legacy \<and> \<not> has_colon (ls_holder l))) (\<lambda>l. l\<lparr>ls_holder := ABANDONED @ ls_holder l, ls_expires := now + LEASE\<rparr>)
      (range_leases d)"
    using assms(1) by (auto simp: fence_lease_def Let_def)
  then show ?thesis by (rule blocked_update [OF assms(2)]) (use assms(3) in auto)
qed

lemma step_blocked:
  assumes "fence_step LEASE w w'" "fence_ok w" "get_lease (w_db w') rid \<noteq> None" "blocked rid T (w_db w)"
    and "T \<le> w_now w + LEASE"
  shows "blocked rid T (w_db w')"
proof -
  obtain l where l: "l \<in> set (range_leases (w_db w))" "ls_range l = rid" "T \<le> ls_expires l"
    using assms(4) by (auto simp: blocked_def)
  have keys: "distinct (map ls_range (range_leases (w_db w)))" using assms(2) by (simp add: fence_ok_def)
  have kept: "blocked rid T (w_db w')" if sub: "set (range_leases (w_db w')) \<subseteq> set (range_leases (w_db w))"
  proof -
    obtain m where m: "m \<in> set (range_leases (w_db w'))" "ls_range m = rid"
      using assms(3) get_lease_SomeD [of "w_db w'" rid] by auto
    then have "m = l"
      using sub l keys get_lease_unique [OF keys] by (metis option.inject subsetD)
    then show ?thesis using m l(3) by (auto simp: blocked_def)
  qed
  from assms(1) show ?thesis
  proof cases
    case (s_claim h r d')
    then show ?thesis using claim_lease_blocked [OF s_claim(5) assms(4,5)] by simp
  next
    case (s_beat e d' e' b)
    from s_beat(3) have "blocked rid T d'"
      by (cases rule: beat_cases) (use assms(4) in \<open>simp_all add: extend_lease_blocked\<close>)
    then show ?thesis using s_beat(1) by simp
  next
    case (s_write e wr d' e' r)
    then show ?thesis using assms(4) guarded_leases [OF s_write(3)] by (simp add: blocked_def)
  next
    case (s_finish e)
    then show ?thesis by (intro kept) (simp add: release_lease_rows)
  next
    case (s_force r m)
    then show ?thesis by (intro kept) (auto simp: drop_lease_def)
  next
    case (s_abandon r action legacy d' b)
    then show ?thesis using fence_lease_blocked [OF s_abandon(2) assms(4,5)] by simp
  qed (use assms(4) in \<open>auto simp: keep_def extend_lease_blocked, auto simp: blocked_def\<close>)
qed

lemma steps_on_blocked:
  "fence_steps_on LEASE rid w w' \<Longrightarrow> fence_ok w \<Longrightarrow> blocked rid T (w_db w) \<Longrightarrow>
   T \<le> w_now w + LEASE \<Longrightarrow> blocked rid T (w_db w')"
proof (induction rule: fence_steps_on.induct)
  case (on_step w w' w'')
  have "fence_steps LEASE w w'" by (rule fence_steps_on_steps [OF on_step(1)])
  then have "fence_ok w'" "w_now w \<le> w_now w'"
    using on_step.prems(1) fence_ok_steps fence_steps_now by blast+
  then show ?case
    using step_blocked [OF on_step(2) _ on_step(3), of T] on_step.IH on_step.prems by simp
qed

lemma blocked_claim:
  assumes "distinct (map ls_range (range_leases d))" "blocked rid T d" "now \<le> T"
  shows "claim_lease LEASE now rid h d = (d, False)"
proof -
  obtain l where "l \<in> set (range_leases d)" "ls_range l = rid" "T \<le> ls_expires l"
    using assms(2) by (auto simp: blocked_def)
  then show ?thesis
    using get_lease_unique [OF assms(1)] assms(3) by (simp add: claim_lease_def)
qed

lemma extend_lease_blocks:
  assumes "(rid, h) \<in> pairs d"
  shows "blocked rid (now + secs) (fst (extend_lease secs now rid h d))"
proof -
  obtain l where l: "l \<in> set (range_leases d)" "ls_range l = rid" "ls_holder l = h"
    using assms by (auto simp: pairs_def)
  have "l\<lparr>ls_expires := max (ls_expires l) (now + secs)\<rparr> \<in> set (range_leases (fst (extend_lease secs now rid h d)))"
    unfolding extend_lease_rows using l by (intro image_eqI [of _ _ l]) simp_all
  then show ?thesis unfolding blocked_def by (rule rev_bexI) (simp add: l(2))
qed

lemma extend_lease_hit: "snd (extend_lease secs now rid h d) \<longleftrightarrow> (rid, h) \<in> pairs d"
  by (auto simp: extend_lease_def Let_def count_where_def pairs_def filter_empty_conv)

lemma beat_blocks:
  assumes "beat LEASE now d e = (d', e', b)" "exec_ok d e" "distinct (map ls_range (range_leases d))"
    and "snd (observe (lease_holder d (x_range e)) e) \<noteq> SLost"
  shows "blocked (x_range e) (now + LEASE) d'"
proof -
  let ?o = "observe (lease_holder d (x_range e)) e"
  have "lease_holder d (x_range e) = Some (x_current (fst ?o))"
    using assms(2,4) by (auto simp: observe_def exec_ok_def split: if_splits)
  then have cur: "(x_range e, x_current (fst ?o)) \<in> pairs d"
    using lease_holder_pairs [OF assms(3)] by blast
  have held: "snd ?o \<noteq> SAbandoned \<Longrightarrow> fst ?o = e"
    using assms(4) by (auto simp: observe_def split: if_splits)
  from assms(1) show ?thesis
  proof (cases rule: beat_cases)
    case renewed
    then show ?thesis using extend_lease_blocks extend_lease_hit by simp
  next
    case abandoned
    then show ?thesis using cur extend_lease_blocks by simp
  next
    case other
    then show ?thesis using cur held extend_lease_hit by simp
  qed
qed

text \<open>No lease reaches further than the longest renewal, so none strands its range.\<close>

definition lease_bounded :: "time \<Rightarrow> world \<Rightarrow> bool" where
  "lease_bounded LEASE w = (\<forall>l \<in> set (range_leases (w_db w)). ls_expires l \<le> w_now w + max LEASE KEPT_LEASE_SECONDS)"

lemma extend_lease_bounded:
  assumes "\<forall>l \<in> set (range_leases d). ls_expires l \<le> T" "now + secs \<le> T"
  shows "\<forall>l \<in> set (range_leases (fst (extend_lease secs now rid h d))). ls_expires l \<le> T"
  unfolding extend_lease_rows using assms by auto

lemma lease_bounded_step:
  assumes "fence_step LEASE w w'" "lease_bounded LEASE w"
  shows "lease_bounded LEASE w'"
  using assms(1)
proof cases
  case (s_tick t)
  then show ?thesis using assms(2) by (fastforce simp: lease_bounded_def)
next
  case (s_claim h rid d')
  then show ?thesis
    using assms(2) claim_lease_rows [OF s_claim(5)] by (fastforce simp: lease_bounded_def)
next
  case (s_beat e d' e' b)
  have "\<forall>l \<in> set (range_leases d'). ls_expires l \<le> w_now w + max LEASE KEPT_LEASE_SECONDS"
    using s_beat(3)
  proof (cases rule: beat_cases)
    case renewed
    show ?thesis
      unfolding renewed(2) by (rule extend_lease_bounded [OF assms(2) [unfolded lease_bounded_def]]) simp
  next
    case abandoned
    show ?thesis
      unfolding abandoned(3) by (rule extend_lease_bounded [OF assms(2) [unfolded lease_bounded_def]]) simp
  qed (use assms(2) in \<open>simp add: lease_bounded_def\<close>)
  then show ?thesis using s_beat(1) by (simp add: lease_bounded_def)
next
  case (s_write e wr d' e' r)
  then show ?thesis using assms(2) guarded_leases [OF s_write(3)] by (simp add: lease_bounded_def)
next
  case (s_finish e)
  then show ?thesis using assms(2) by (auto simp: lease_bounded_def release_lease_def)
next
  case (s_keep e)
  have "\<forall>l \<in> set (range_leases (keep (w_now w) (x_range e) (x_current e) (w_db w))).
      ls_expires l \<le> w_now w + max LEASE KEPT_LEASE_SECONDS"
    unfolding keep_def by (rule extend_lease_bounded [OF assms(2) [unfolded lease_bounded_def]]) simp
  then show ?thesis using s_keep(1) by (simp add: lease_bounded_def)
next
  case (s_abandon rid action legacy d' b)
  then show ?thesis
    using assms(2) fence_lease_rows [OF s_abandon(2)] by (fastforce simp: lease_bounded_def)
next
  case (s_force rid l)
  then show ?thesis using assms(2) by (auto simp: lease_bounded_def drop_lease_def)
qed (use assms(2) in \<open>simp_all add: lease_bounded_def\<close>)

lemma lease_bounded_steps: "fence_steps LEASE w w' \<Longrightarrow> lease_bounded LEASE w \<Longrightarrow> lease_bounded LEASE w'"
  by (induction rule: fence_steps.induct) (auto intro: lease_bounded_step)

lemma verify_held: "snd (verify d e) \<longleftrightarrow> lease_holder d (x_range e) = Some (x_holder e) \<and> \<not> x_abandoned e"
  by (simp add: verify_def observe_def split: prod.split)

lemma not_held_absent:
  assumes "exec_ok d e" "distinct (map ls_range (range_leases d))" "\<not> snd (verify d e)"
  shows "absent (x_holder e) d"
  using assms lease_holder_pairs [OF assms(2)] by (auto simp: verify_held exec_ok_def absent_pairs)

lemma absent_not_held:
  assumes "absent (x_holder e) d"
  shows "\<not> snd (verify d e)" "fst (guarded_range_update (Some e) (x_range e) wr d) = d"
proof -
  have "lease_holder d (x_range e) \<noteq> Some (x_holder e)"
    using assms by (auto simp: lease_holder_def absent_def dest!: get_lease_SomeD)
  then show "\<not> snd (verify d e)" "fst (guarded_range_update (Some e) (x_range e) wr d) = d"
    by (simp_all add: verify_held) (simp add: guarded_range_update_def observe_def)
qed

lemma release_lease_gone: "lease_holder (release_lease rid h d) rid \<notin> {Some h, Some (tombstone h)}"
  by (auto simp: lease_holder_def release_lease_def dest!: get_lease_SomeD)

lemma lease_holder_cong: "range_leases d = range_leases d' \<Longrightarrow> lease_holder d = lease_holder d'"
  by (simp add: lease_holder_def get_lease_def fun_eq_iff)

section \<open>A range abandoned and taken over\<close>

definition sample_lease :: "string \<Rightarrow> time \<Rightarrow> db" where
  "sample_lease h t = empty_db\<lparr>ranges := [sample_range ''r'' provisioning],
     range_leases := [\<lparr>ls_range = ''r'', ls_holder = h, ls_expires = t\<rparr>]\<rparr>"

definition sample_world :: world where
  "sample_world = \<lparr>w_db = sample_lease ''provision:1'' 180, w_now = 0,
     w_execs = [new_exec ''r'' ''provision:1''], w_used = [''provision:1'']\<rparr>"

abbreviation "sample_abandoned \<equiv> sample_world\<lparr>w_db := sample_lease ''abandoned:provision:1'' 180\<rparr>"
abbreviation "sample_later \<equiv> sample_abandoned\<lparr>w_now := 200\<rparr>"
abbreviation "sample_taken \<equiv> sample_later\<lparr>w_db := sample_lease ''destroy:2'' 380,
  w_execs := [new_exec ''r'' ''provision:1'', new_exec ''r'' ''destroy:2''], w_used := [''destroy:2'', ''provision:1'']\<rparr>"

lemma sample_world_ok: "fence_ok sample_world" "fence_ok sample_abandoned" "lease_bounded 180 sample_world"
  by (auto simp: fence_ok_def exec_ok_def sample_world_def sample_lease_def new_exec_def pairs_def absent_def
      ABANDONED_def empty_db_def lease_bounded_def)

lemma sample_steps: "fence_steps 180 sample_abandoned sample_taken"
proof -
  have t: "fence_step 180 sample_abandoned sample_later"
    by (rule s_tick) (simp add: sample_world_def)
  have "claim_lease 180 (w_now sample_later) ''r'' ''destroy:2'' (w_db sample_later)
      = (sample_lease ''destroy:2'' 380, True)"
    by (simp add: claim_lease_def sample_lease_def get_lease_def find_row_def update_where_def empty_db_def)
  then have "fence_step 180 sample_later sample_taken"
    using s_claim [of "''destroy:2''" sample_later 180 "''r''"]
    by (simp add: sample_world_def sample_lease_def ABANDONED_def)
  then show ?thesis using t by (blast intro: fence_steps.intros)
qed

lemma sample_abandon_step: "fence_step 180 sample_world sample_abandoned"
  by (rule s_abandon [where rid = "''r''" and action = "''provision''" and legacy = False])
    (simp add: fence_lease_def sample_world_def sample_lease_def ABANDONED_def update_where_def empty_db_def Let_def)

lemma sample_path: "fence_steps 180 sample_world sample_taken"
  by (rule fence_steps_trans [OF sample_steps fs_step [OF fs_refl sample_abandon_step]])

section \<open>Properties\<close>



text \<open>Fencing is final: once an execution's lease was abandoned, taken over or removed, then
  whatever happens later, it passes no check and its range writes change nothing.\<close>
theorem fenced_is_final:
  assumes "fence_ok w" "e \<in> set (w_execs w)" "\<not> snd (verify (w_db w) e)" "fence_steps LEASE w w'"
    and "e' \<in> set (w_execs w')" "x_holder e' = x_holder e"
  shows "\<not> snd (verify (w_db w') e') \<and> fst (guarded_range_update (Some e') (x_range e') wr (w_db w')) = w_db w'"
proof -
  have "absent (x_holder e) (w_db w)" "x_holder e \<in> set (w_used w)"
    using assms(1-3) not_held_absent by (auto simp: fence_ok_def)
  then have "absent (x_holder e') (w_db w')"
    using absent_steps [OF assms(4,1)] assms(6) by simp
  then show ?thesis using absent_not_held by blast
qed

theorem fenced_is_final_witness:
  "fst (guarded_range_update (Some (new_exec ''r'' ''provision:1'')) ''r''
     \<lparr>w_state = ready, w_error = None, w_output = None, w_only_from = None, w_clear_error = False\<rparr>
     (w_db sample_taken)) = w_db sample_taken"
proof -
  have e: "new_exec ''r'' ''provision:1'' \<in> set (w_execs sample_abandoned)" by (simp add: sample_world_def)
  have n: "\<not> snd (verify (w_db sample_abandoned) (new_exec ''r'' ''provision:1''))"
    by (simp add: verify_held sample_lease_def lease_holder_def get_lease_def find_row_def new_exec_def)
  have e': "new_exec ''r'' ''provision:1'' \<in> set (w_execs sample_taken)" by simp
  have "fst (guarded_range_update (Some (new_exec ''r'' ''provision:1'')) (x_range (new_exec ''r'' ''provision:1''))
     \<lparr>w_state = ready, w_error = None, w_output = None, w_only_from = None, w_clear_error = False\<rparr>
     (w_db sample_taken)) = w_db sample_taken"
    using fenced_is_final [OF sample_world_ok(2) e n sample_steps e' refl] by blast
  then show ?thesis by (simp add: new_exec_def)
qed

text \<open>A renewal by a live execution, of its lease or of the tombstone an abandon made of it,
  keeps every other execution off the range for the whole lease time: no claim succeeds
  as long as the row is not given back or force-released.\<close>
theorem renewed_lease_blocks:
  assumes "fence_ok w" "e \<in> set (w_execs w)" "snd (observe (lease_holder (w_db w) (x_range e)) e) \<noteq> SLost"
    and "beat LEASE (w_now w) (w_db w) e = (d', e', b)"
    and "fence_steps_on LEASE (x_range e) (w\<lparr>w_db := d', w_execs := put_exec e' (w_execs w)\<rparr>) w'"
    and "w_now w' \<le> w_now w + LEASE"
  shows "claim_lease LEASE (w_now w') (x_range e) h (w_db w') = (w_db w', False)"
proof -
  let ?w1 = "w\<lparr>w_db := d', w_execs := put_exec e' (w_execs w)\<rparr>"
  have ok1: "fence_ok ?w1" by (rule fence_ok_step [OF s_beat [OF assms(2,4)] assms(1)])
  have "blocked (x_range e) (w_now w + LEASE) d'"
    using assms(1-3) by (intro beat_blocks [OF assms(4)]) (auto simp: fence_ok_def)
  then have "blocked (x_range e) (w_now w + LEASE) (w_db w')"
    using steps_on_blocked [OF assms(5) ok1] by simp
  moreover have "distinct (map ls_range (range_leases (w_db w')))"
    using fence_ok_steps [OF fence_steps_on_steps [OF assms(5)] ok1] by (simp add: fence_ok_def)
  ultimately show ?thesis using assms(6) by (intro blocked_claim)
qed

theorem renewed_lease_blocks_witness:
  "claim_lease 180 150 ''r'' ''destroy:2'' (sample_lease ''abandoned:provision:1'' 180)
   = (sample_lease ''abandoned:provision:1'' 180, False)"
proof -
  let ?e = "new_exec ''r'' ''provision:1''"
  let ?e' = "?e\<lparr>x_current := ''abandoned:provision:1'', x_abandoned := True\<rparr>"
  let ?w1 = "sample_abandoned\<lparr>w_db := sample_lease ''abandoned:provision:1'' 180,
    w_execs := put_exec ?e' (w_execs sample_abandoned)\<rparr>"
  have e: "?e \<in> set (w_execs sample_abandoned)" by (simp add: sample_world_def)
  have o: "snd (observe (lease_holder (w_db sample_abandoned) (x_range ?e)) ?e) \<noteq> SLost"
    by (simp add: observe_def lease_holder_def get_lease_def find_row_def sample_lease_def new_exec_def
        tombstone_def ABANDONED_def)
  have b: "beat 180 (w_now sample_abandoned) (w_db sample_abandoned) ?e
      = (sample_lease ''abandoned:provision:1'' 180, ?e', True)"
    by (simp add: beat_def extend_lease_def observe_def lease_holder_def get_lease_def find_row_def sample_lease_def
        new_exec_def tombstone_def ABANDONED_def count_where_def update_where_def sample_world_def empty_db_def Let_def)
  have s: "fence_steps_on 180 (x_range ?e) ?w1 (?w1\<lparr>w_now := 150\<rparr>)"
    by (rule on_step [OF on_refl s_tick])
      (simp_all add: sample_world_def sample_lease_def new_exec_def get_lease_def find_row_def)
  have "w_now (?w1\<lparr>w_now := 150\<rparr>) \<le> w_now sample_abandoned + 180" by (simp add: sample_world_def)
  from renewed_lease_blocks [OF sample_world_ok(2) e o b s this, of "''destroy:2''"]
  show ?thesis by (simp add: new_exec_def)
qed

text \<open>C4: No lease strands its range: whatever executions died holding it, once the longest
  renewal time has passed without a renewal the next claim succeeds.\<close>
theorem no_lease_strands:
  assumes "lease_bounded LEASE w" "fence_steps LEASE w w'" "w_now w' + max LEASE KEPT_LEASE_SECONDS < t"
  shows "snd (claim_lease LEASE t rid h (w_db w')) \<and>
    lease_holder (fst (claim_lease LEASE t rid h (w_db w'))) rid = Some h"
proof (cases "get_lease (w_db w') rid")
  case None
  then show ?thesis
    by (simp add: claim_lease_def lease_holder_def get_lease_def find_row_append) (simp add: find_row_def)
next
  case (Some l)
  then have "ls_expires l < t"
    using lease_bounded_steps [OF assms(2,1)] assms(3) get_lease_SomeD [OF Some] by (fastforce simp: lease_bounded_def)
  then show ?thesis
    using Some by (simp add: claim_lease_def lease_holder_def get_lease_def find_row_update_where)
qed

theorem no_lease_strands_witness:
  "snd (claim_lease 180 (seconds 4000) ''r'' ''destroy:3'' (w_db sample_taken))"
proof -
  have "w_now sample_taken + max 180 KEPT_LEASE_SECONDS < seconds 4000"
    by (simp add: KEPT_LEASE_SECONDS_def seconds_def)
  from no_lease_strands [OF sample_world_ok(3) sample_path this, of "''r''" "''destroy:3''"]
  show ?thesis by simp
qed

text \<open>However a fenced task ends, except on the soft time limit, its lease or tombstone is
  gone; after the soft time limit a lease it still has is kept for the full hour, since the
  hypervisor call may still be running.\<close>
theorem fenced_gives_back:
  assumes "\<And>e d. x_holder (fst (snd (body e d))) = x_holder e" "\<And>d. range_leases (on_lost d) = range_leases d"
    and "fenced LEASE now ended token action state on_lost body rid d = (d', r)" "r \<notin> {Skipped, Deferred}"
    and "holder = action @ '':'' @ token"
  shows "if r = SoftLimitRaised
    then \<exists>d1 d2 e. body (new_exec rid holder) d1 = (d2, e, SoftTimeLimit) \<and>
      ((rid, x_current e) \<in> pairs d2 \<longrightarrow> blocked rid (ended + KEPT_LEASE_SECONDS) d')
    else lease_holder d' rid \<notin> {Some holder, Some (tombstone holder)}"
proof -
  obtain d1 where c: "claim LEASE now token rid state action d = (d1, Claimed holder)"
    using assms(3-5)
    by (cases "claim LEASE now token rid state action d"; cases "snd (claim LEASE now token rid state action d)")
      (auto simp: fenced_def claim_def Let_def split: if_splits prod.splits)
  obtain d2 e q where b: "body (new_exec rid holder) d1 = (d2, e, q)" by (metis prod_cases3)
  have h: "x_holder e = holder"
    using assms(1) [of "new_exec rid holder" d1] b by (simp add: new_exec_def)
  show ?thesis
  proof (cases q)
    case SoftTimeLimit
    then show ?thesis
      using assms(3) b c extend_lease_blocks by (fastforce simp: fenced_def keep_def)
  next
    case (Returned leftover)
    then show ?thesis
      using assms(3) b c h release_lease_gone by (auto simp: fenced_def Let_def split: option.splits)
  next
    case RaisedBase
    then show ?thesis using assms(3) b c h release_lease_gone by (auto simp: fenced_def)
  next
    case Raised
    have "x_holder (fst (refresh d2 e)) = holder" by (simp add: refresh_def h)
    then show ?thesis
      using assms(3) b c h Raised release_lease_gone lease_holder_cong [OF assms(2)]
      by (auto simp: fenced_def Let_def split: if_splits prod.splits)
  next
    case RaisedLeaseLost
    then show ?thesis
      using assms(3) b c h release_lease_gone lease_holder_cong [OF assms(2)]
      by (auto simp: fenced_def Let_def split: if_splits prod.splits)
  qed
qed

theorem fenced_gives_back_witness:
  "let r = fenced 180 200 900 ''7'' ''destroy'' None id (\<lambda>e d. (d, e, Raised)) ''r''
     (sample_lease ''abandoned:provision:1'' 180)
   in snd r = ErrorRaised \<and> lease_holder (fst r) ''r'' \<notin> {Some ''destroy:7'', Some ''abandoned:destroy:7''}"
proof -
  let ?r = "fenced 180 200 900 ''7'' ''destroy'' None id (\<lambda>e d. (d, e, Raised)) ''r''
     (sample_lease ''abandoned:provision:1'' 180)"
  have s: "snd ?r = ErrorRaised" by code_simp
  have p: "?r = (fst ?r, ErrorRaised)" using s by (cases ?r) simp
  show ?thesis
    using fenced_gives_back [OF _ _ p, of "''destroy:7''"] s
    by (simp add: tombstone_def ABANDONED_def Let_def)
qed

end
