(* ===== verification/Maintenance_Windows.thy ===== *)
theory Maintenance_Windows
  imports Fencing "HOL-Library.List_Lexorder" "HOL-Library.Char_ord"
begin

text \<open>
  Maintenance windows: periods in which provision, restore and a person's destroy are refused.

  \<^item> \<^verbatim>\<open>app/maintenance_windows/policy.py\<close>: which ranges a window covers (\<open>applies\<close>,
    \<open>template_tags\<close>) and the teardowns that always run.
  \<^item> \<^verbatim>\<open>app/maintenance_windows/service.py\<close>: the lookups (\<open>covering_range\<close>,
    \<open>held_range_ids\<close>, \<open>blocking_new_range\<close>, the scheduler's) and the administration
    (\<open>create\<close>, \<open>update\<close>, \<open>delete\<close>, with the cap on live windows).
  \<^item> \<^verbatim>\<open>worker/maintenance_windows.py\<close>: the worker's own copy (\<open>worker_applies\<close>,
    \<open>worker_covering\<close>) and its check at a task's entry (\<open>decide\<close>, \<open>at_entry\<close>).

  The YAML parser is a parameter \<open>yaml\<close> (None: the text does not parse). \<open>isoformat\<close> prints a time.
  Rows the SQL orders by one column and that tie keep their table order.
\<close>

section \<open>Policy\<close>

definition REFUSED_ACTIONS :: "string list" where
  "REFUSED_ACTIONS = [''provision'', ''restore'', ''destroy'']"

definition BYPASS_KINDS :: "string list" where
  "BYPASS_KINDS = [''emergency'', ''booking_ended'', ''canary'']"

definition HELD_MARKER :: string where
  "HELD_MARKER = ''is held by the worker: a maintenance window''"

definition tag_text :: "json \<Rightarrow> string option" where
  "tag_text j = (case j of JStr s \<Rightarrow> Some s | JInt i \<Rightarrow> Some (str_int i)
     | JBool b \<Rightarrow> Some (if b then ''True'' else ''False'') | _ \<Rightarrow> None)"

definition tags_of :: "json list \<Rightarrow> string list" where
  "tags_of raw = map (\<lambda>t. lower (strip t)) (filter (\<lambda>t. strip t \<noteq> []) (List.map_filter tag_text raw))"

definition template_tags :: "(string \<Rightarrow> json option) \<Rightarrow> string option \<Rightarrow> string list" where
  "template_tags yaml text =
     (case text of None \<Rightarrow> []
      | Some s \<Rightarrow> if s = [] then []
          else (case yaml s of None \<Rightarrow> []
                | Some doc \<Rightarrow> (case jget ''tags'' doc of Some (JList raw) \<Rightarrow> tags_of raw | _ \<Rightarrow> [])))"

definition str_opt :: "string option \<Rightarrow> string" where
  "str_opt x = (case x of None \<Rightarrow> ''None'' | Some s \<Rightarrow> s)"

definition applies :: "uuid option \<Rightarrow> string \<Rightarrow> string list \<Rightarrow> string list \<Rightarrow> uuid option \<Rightarrow> uuid option \<Rightarrow>
    string list \<Rightarrow> bool" where
  "applies window_tenant scope range_ids tags range_id range_tenant rtags =
     (if window_tenant \<noteq> None \<and> str_opt window_tenant \<noteq> str_opt range_tenant then False
      else if scope = ''all'' then True
      else if range_id = None then False
      else if scope = ''ranges'' then str_opt range_id \<in> set range_ids
      else if scope = ''tags'' then
        set (map (\<lambda>t. lower (strip t)) tags) \<inter> set (map lower rtags) \<noteq> {}
      else False)"

section \<open>Which windows cover a range\<close>

definition in_effect :: "window \<Rightarrow> time \<Rightarrow> bool" where
  "in_effect w at = (starts_at w \<le> at \<and> at < ends_at w)"

definition candidates :: "db \<Rightarrow> uuid option \<Rightarrow> time \<Rightarrow> time \<Rightarrow> window list" where
  "candidates d tenant start end =
     sort_key (\<lambda>w. - ends_at w)
       (filter (\<lambda>w. (mw_tenant w = None \<or> tenant \<noteq> None \<and> mw_tenant w = tenant) \<and>
                     starts_at w < end \<and> start < ends_at w) (maintenance_windows d))"

definition range_tags :: "(string \<Rightarrow> json option) \<Rightarrow> db \<Rightarrow> uuid option \<Rightarrow> string list" where
  "range_tags yaml d template_id =
     template_tags yaml (case template_id of None \<Rightarrow> None
       | Some i \<Rightarrow> map_option tm_yaml (find_row (\<lambda>t. tm_id t = i) (templates d)))"

definition window_applies :: "uuid option \<Rightarrow> uuid option \<Rightarrow> string list \<Rightarrow> window \<Rightarrow> bool" where
  "window_applies tenant range_id tags w =
     applies (mw_tenant w) (mw_scope w) (mw_range_ids w) (mw_tags w) range_id tenant
       (if mw_scope w = ''tags'' then tags else [])"

definition covering :: "window list \<Rightarrow> uuid option \<Rightarrow> uuid option \<Rightarrow> string list \<Rightarrow> window list" where
  "covering ws tenant range_id tags = filter (window_applies tenant range_id tags) ws"

definition covering_range :: "(string \<Rightarrow> json option) \<Rightarrow> db \<Rightarrow> range_row \<Rightarrow> time \<Rightarrow> window list" where
  "covering_range yaml d rng at =
     covering (filter (\<lambda>w. in_effect w at) (candidates d (rng_tenant rng) at (at + 1)))
       (rng_tenant rng) (Some (rng_id rng)) (range_tags yaml d (Some (rng_template rng)))"

definition held_range_ids :: "(string \<Rightarrow> json option) \<Rightarrow> db \<Rightarrow> range_row list \<Rightarrow> time \<Rightarrow> uuid list" where
  "held_range_ids yaml d rngs at =
     (let tenants = List.map_filter rng_tenant rngs;
          live = filter (\<lambda>w. in_effect w at)
            (filter (\<lambda>w. (case mw_tenant w of None \<Rightarrow> True | Some t \<Rightarrow> t \<in> set tenants) \<and>
               starts_at w < at + 1 \<and> at < ends_at w) (maintenance_windows d));
          rows = (if list_ex (\<lambda>w. mw_scope w = ''tags'') live
            then filter (\<lambda>t. tm_id t \<in> set (map rng_template rngs)) (templates d) else []);
          tags = (\<lambda>r. case find_row (\<lambda>t. tm_id t = rng_template r) rows of None \<Rightarrow> []
            | Some t \<Rightarrow> template_tags yaml (Some (tm_yaml t)))
      in if rngs = [] \<or> live = [] then []
         else map rng_id (filter (\<lambda>r. covering live (rng_tenant r) (Some (rng_id r)) (tags r) \<noteq> []) rngs))"

definition blocking_new_range :: "db \<Rightarrow> uuid \<Rightarrow> time \<Rightarrow> window option" where
  "blocking_new_range d tenant at =
     (case covering (filter (\<lambda>w. in_effect w at) (candidates d (Some tenant) at (at + 1))) (Some tenant) None [] of
        [] \<Rightarrow> None | w # _ \<Rightarrow> Some w)"

text \<open>The 409 of an operation inside a window: the latest-ending window, and \<^verbatim>\<open>Retry-After\<close>.\<close>

definition refuse_inside :: "(string \<Rightarrow> json option) \<Rightarrow> db \<Rightarrow> range_row \<Rightarrow> time \<Rightarrow> (window \<times> int) option" where
  "refuse_inside yaml d rng now =
     (case covering_range yaml d rng now of [] \<Rightarrow> None
      | w # _ \<Rightarrow> Some (w, max ((ends_at w - now) div 1000000) 1))"

section \<open>For the scheduler\<close>

definition booking_template :: "db \<Rightarrow> uuid option \<Rightarrow> uuid option \<Rightarrow> uuid option" where
  "booking_template d range_id template_id =
     (case range_id of None \<Rightarrow> template_id
      | Some i \<Rightarrow> (case get_range d i of None \<Rightarrow> template_id | Some r \<Rightarrow> Some (rng_template r)))"

definition booking_hit :: "(string \<Rightarrow> json option) \<Rightarrow> db \<Rightarrow> uuid \<Rightarrow> uuid option \<Rightarrow> uuid option \<Rightarrow> time \<Rightarrow> time \<Rightarrow>
    window list" where
  "booking_hit yaml d tenant range_id template_id start end =
     covering (candidates d (Some tenant) start end) (Some tenant) range_id
       (range_tags yaml d (booking_template d range_id template_id))"

definition booking_warnings :: "(string \<Rightarrow> json option) \<Rightarrow> db \<Rightarrow> uuid \<Rightarrow> uuid option \<Rightarrow> uuid option \<Rightarrow> time \<Rightarrow> time \<Rightarrow>
    window list" where
  "booking_warnings yaml d tenant range_id template_id build_from end =
     sort_key starts_at (booking_hit yaml d tenant range_id template_id build_from end)"

definition booking_spans :: "(string \<Rightarrow> json option) \<Rightarrow> db \<Rightarrow> uuid \<Rightarrow> uuid option \<Rightarrow> uuid option \<Rightarrow> time \<Rightarrow> time \<Rightarrow>
    (time \<times> time) list" where
  "booking_spans yaml d tenant range_id template_id start end =
     map (\<lambda>w. (starts_at w, ends_at w)) (booking_hit yaml d tenant range_id template_id start end)"

definition provision_blocked :: "(string \<Rightarrow> json option) \<Rightarrow> db \<Rightarrow> uuid \<Rightarrow> uuid option \<Rightarrow> time \<Rightarrow> window option" where
  "provision_blocked yaml d tenant range_id at =
     (case (case range_id of None \<Rightarrow> None | Some i \<Rightarrow> get_range d i) of
        None \<Rightarrow> blocking_new_range d tenant at
      | Some rng \<Rightarrow> (case covering_range yaml d rng at of [] \<Rightarrow> None | w # _ \<Rightarrow> Some w))"

section \<open>Administration\<close>

record caller =
  c_user :: uuid
  c_tenant :: uuid
  c_range_admin :: bool
  c_platform :: bool

record window_in =
  b_platform_wide :: bool
  b_reason :: string
  b_starts :: time
  b_ends :: time
  b_scope :: string
  b_range_ids :: "uuid list"
  b_tags :: "string list"

datatype window_error = NotFound | Forbidden | EndsInPast | PlatformWideFixed | TooMany | RangeNotFound uuid

definition MAX_LIVE_WINDOWS :: nat where
  "MAX_LIVE_WINDOWS = 50"

definition can_edit :: "caller \<Rightarrow> window \<Rightarrow> bool" where
  "can_edit user w = (c_range_admin user \<and>
     (case mw_tenant w of None \<Rightarrow> c_platform user | Some t \<Rightarrow> t = c_tenant user))"

definition visible :: "db \<Rightarrow> caller \<Rightarrow> window list" where
  "visible d user = filter (\<lambda>w. mw_tenant w = Some (c_tenant user) \<or> mw_tenant w = None) (maintenance_windows d)"

definition get_editable :: "db \<Rightarrow> caller \<Rightarrow> uuid \<Rightarrow> window_error + window" where
  "get_editable d user i =
     (case find_row (\<lambda>w. mw_id w = i) (visible d user) of None \<Rightarrow> Inl NotFound
      | Some w \<Rightarrow> if can_edit user w then Inr w else Inl Forbidden)"

definition resolve_ranges :: "db \<Rightarrow> caller \<Rightarrow> uuid list \<Rightarrow> bool \<Rightarrow> window_error + string list" where
  "resolve_ranges d user is platform_wide =
     (let wanted = dict_fromkeys is;
          found = map rng_id (filter (\<lambda>r. rng_id r \<in> set wanted \<and>
            (platform_wide \<or> rng_tenant r = Some (c_tenant user))) (ranges d))
      in case filter (\<lambda>i. i \<notin> set found) wanted of
           [] \<Rightarrow> Inr wanted | i # _ \<Rightarrow> Inl (RangeNotFound i))"

definition apply_body :: "db \<Rightarrow> caller \<Rightarrow> window_in \<Rightarrow> time \<Rightarrow> window \<Rightarrow> window_error + window" where
  "apply_body d user body now w =
     (if b_ends body \<le> now then Inl EndsInPast
      else case resolve_ranges d user (b_range_ids body) (mw_tenant w = None) of
        Inl e \<Rightarrow> Inl e
      | Inr ids \<Rightarrow> Inr (w\<lparr>mw_reason := strip (b_reason body), starts_at := b_starts body, ends_at := b_ends body,
          mw_scope := b_scope body, mw_range_ids := ids,
          mw_tags := sort (remdups (map (\<lambda>t. lower (strip t)) (filter (\<lambda>t. strip t \<noteq> []) (b_tags body))))\<rparr>))"

definition live_windows :: "db \<Rightarrow> uuid option \<Rightarrow> time \<Rightarrow> nat" where
  "live_windows d owner now = count_where (\<lambda>w. mw_tenant w = owner \<and> now < ends_at w) (maintenance_windows d)"

definition check_cap :: "db \<Rightarrow> uuid option \<Rightarrow> time \<Rightarrow> bool" where
  "check_cap d owner now = (live_windows d owner now < MAX_LIVE_WINDOWS)"

definition audit :: "caller \<Rightarrow> string \<Rightarrow> uuid \<Rightarrow> db \<Rightarrow> db" where
  "audit user action i d = d\<lparr>audit_log := audit_log d @ [\<lparr>au_tenant = c_tenant user, au_action = action, au_resource = i\<rparr>]\<rparr>"

definition create_window :: "uuid \<Rightarrow> caller \<Rightarrow> window_in \<Rightarrow> time \<Rightarrow> db \<Rightarrow> db \<times> (window_error + window)" where
  "create_window new_id user body now d =
     (let owner = (if b_platform_wide body then None else Some (c_tenant user)) in
      if b_platform_wide body \<and> \<not> c_platform user then (d, Inl Forbidden)
      else if \<not> check_cap d owner now then (d, Inl TooMany)
      else case apply_body d user body now \<lparr>mw_id = new_id, mw_tenant = owner, mw_reason = [], starts_at = 0,
              ends_at = 0, mw_scope = [], mw_range_ids = [], mw_tags = []\<rparr> of
        Inl e \<Rightarrow> (d, Inl e)
      | Inr w \<Rightarrow> (audit user ''create'' new_id (d\<lparr>maintenance_windows := maintenance_windows d @ [w]\<rparr>), Inr w))"

definition update_window :: "caller \<Rightarrow> window \<Rightarrow> window_in \<Rightarrow> time \<Rightarrow> db \<Rightarrow> db \<times> (window_error + window)" where
  "update_window user w body now d =
     (if b_platform_wide body \<noteq> (mw_tenant w = None) then (d, Inl PlatformWideFixed)
      else if ends_at w \<le> now \<and> \<not> check_cap d (mw_tenant w) now then (d, Inl TooMany)
      else case apply_body d user body now w of
        Inl e \<Rightarrow> (d, Inl e)
      | Inr w' \<Rightarrow> (audit user ''update'' (mw_id w) (d\<lparr>maintenance_windows :=
            update_where (\<lambda>x. mw_id x = mw_id w) (\<lambda>_. w') (maintenance_windows d)\<rparr>), Inr w'))"

definition delete_window :: "caller \<Rightarrow> window \<Rightarrow> db \<Rightarrow> db" where
  "delete_window user w d =
     (audit user ''delete'' (mw_id w) d)\<lparr>maintenance_windows :=
        delete_where (\<lambda>x. mw_id x = mw_id w) (maintenance_windows d)\<rparr>"

section \<open>The worker's re-check\<close>

definition GATED :: "string list" where
  "GATED = [''provision'', ''destroy'', ''restore'']"

definition WHAT :: "string \<Rightarrow> string" where
  "WHAT action = (if action = ''provision'' then ''Provisioning'' else if action = ''destroy'' then ''Destroying''
     else if action = ''restore'' then ''Restoring a snapshot'' else action)"

definition worker_template_tags :: "(string \<Rightarrow> json option) \<Rightarrow> string option \<Rightarrow> string list" where
  "worker_template_tags yaml text =
     (if text = None \<or> text = Some [] then []
      else case yaml (the text) of
        Some (JObj kvs) \<Rightarrow> (case map_of kvs ''tags'' of Some (JList raw) \<Rightarrow> tags_of raw | _ \<Rightarrow> [])
      | _ \<Rightarrow> [])"

definition worker_applies :: "uuid option \<Rightarrow> string \<Rightarrow> string list \<Rightarrow> string list \<Rightarrow> uuid option \<Rightarrow> uuid option \<Rightarrow>
    string list \<Rightarrow> bool" where
  "worker_applies window_tenant scope range_ids tags range_id range_tenant rtags =
     (if window_tenant \<noteq> None \<and> str_opt window_tenant \<noteq> str_opt range_tenant then False
      else if scope = ''all'' then True
      else if range_id = None then False
      else if scope = ''ranges'' then str_opt range_id \<in> set range_ids
      else if scope = ''tags'' then
        \<not> list_all (\<lambda>t. lower (strip t) \<notin> set (map lower rtags)) tags
      else False)"

text \<open>The worker's loop: the first row in effect that applies. The tags are read once, when the
  first \<^verbatim>\<open>tags\<close> window needs them, and stay read for the windows after it.\<close>

fun worker_scan :: "(unit \<Rightarrow> string list) \<Rightarrow> uuid \<Rightarrow> uuid option \<Rightarrow> time \<Rightarrow> string list option \<Rightarrow> window list \<Rightarrow>
    window option" where
  "worker_scan load rid tenant now tags [] = None"
| "worker_scan load rid tenant now tags (w # ws) =
     (if \<not> (starts_at w \<le> now \<and> now < ends_at w) then worker_scan load rid tenant now tags ws
      else let tags' = (if mw_scope w = ''tags'' \<and> tags = None then Some (load ()) else tags)
           in if worker_applies (mw_tenant w) (mw_scope w) (mw_range_ids w) (mw_tags w) (Some rid) tenant
                 (case tags' of None \<Rightarrow> [] | Some ts \<Rightarrow> ts)
              then Some w else worker_scan load rid tenant now tags' ws)"

definition worker_covering :: "(string \<Rightarrow> json option) \<Rightarrow> db \<Rightarrow> uuid \<Rightarrow> time \<Rightarrow> window option" where
  "worker_covering yaml d rid now =
     (case get_range d rid of None \<Rightarrow> None
      | Some rng \<Rightarrow>
        worker_scan
          (\<lambda>_. worker_template_tags yaml (map_option tm_yaml (find_row (\<lambda>t. tm_id t = rng_template rng) (templates d))))
          rid (rng_tenant rng) now None
          (sort_key (\<lambda>w. - ends_at w) (filter (\<lambda>w.
             (mw_tenant w = None \<or> rng_tenant rng \<noteq> None \<and> mw_tenant w = rng_tenant rng) \<and>
             starts_at w \<le> now \<and> now < ends_at w) (maintenance_windows d))))"

definition IN_FLIGHT :: "op_status list" where
  "IN_FLIGHT = [Pending, Dispatched, Held]"

text \<open>The range's newest operation, by generation.\<close>

definition newest_op :: "db \<Rightarrow> uuid \<Rightarrow> operation option" where
  "newest_op d rid = (case sort_key (\<lambda>x. - int (generation x)) (filter (\<lambda>x. op_range x = rid) (range_operations d)) of
     [] \<Rightarrow> None | x # _ \<Rightarrow> Some x)"

definition worker_operation :: "db \<Rightarrow> uuid \<Rightarrow> string \<Rightarrow> operation option" where
  "worker_operation d rid action =
     (case newest_op d rid of None \<Rightarrow> None
      | Some x \<Rightarrow> if op_action x = action \<and> op_status x \<in> set IN_FLIGHT then Some x else None)"

definition lab_session_of :: "db \<Rightarrow> uuid \<Rightarrow> lab_session option" where
  "lab_session_of d rid = find_row (\<lambda>s. lab_range s = Some rid) (lab_sessions d)"

definition hold_message :: "(time \<Rightarrow> string) \<Rightarrow> window \<Rightarrow> string \<Rightarrow> string" where
  "hold_message isoformat w action = WHAT action @ '' '' @ HELD_MARKER @ '' is in effect until '' @ isoformat (ends_at w) @ '': '' @
     mw_reason w @ ''. Nothing was changed on the hypervisor; it runs after the window.''"

definition decide :: "(string \<Rightarrow> json option) \<Rightarrow> (time \<Rightarrow> string) \<Rightarrow> db \<Rightarrow> string \<Rightarrow> uuid \<Rightarrow> time \<Rightarrow>
    string option \<times> operation option" where
  "decide yaml isoformat d action rid now =
     (if action \<notin> set GATED then (None, None)
      else let x = (if action \<noteq> ''restore'' then worker_operation d rid action else None)
      in case worker_covering yaml d rid now of None \<Rightarrow> (None, x)
       | Some w \<Rightarrow>
         if action = ''destroy'' \<and>
            ((case x of Some y \<Rightarrow> (case window_bypass y of Some b \<Rightarrow> b \<in> set BYPASS_KINDS | None \<Rightarrow> False) | None \<Rightarrow> False) \<or>
             (case x of Some y \<Rightarrow> op_created y < starts_at w | None \<Rightarrow> False) \<or>
             x = None \<and> lab_session_of d rid \<noteq> None)
         then (None, x)
         else (Some (hold_message isoformat w action), x))"

definition hold_operation :: "operation \<Rightarrow> db \<Rightarrow> db" where
  "hold_operation x d = d\<lparr>range_operations := update_where
     (\<lambda>y. op_id y = op_id x \<and> op_status y \<in> {Pending, Dispatched})
     (\<lambda>y. y\<lparr>op_status := Held, dispatched_at := None, op_error := Some ''maintenance_window''\<rparr>) (range_operations d)\<rparr>"

definition snapshot_back_to_ready :: "uuid \<Rightarrow> db \<Rightarrow> db" where
  "snapshot_back_to_ready sid d = d\<lparr>range_snapshots := update_where
     (\<lambda>s. sn_id s = sid \<and> snapshot_state s = ''restoring'') (\<lambda>s. s\<lparr>snapshot_state := ''ready''\<rparr>) (range_snapshots d)\<rparr>"

text \<open>\<open>readable\<close>, \<open>op_readable\<close>: whether the two reads of the windows, and of the operation after
  a failed one, reach the database. The result says whether the task is held; \<open>LeaseLost\<close> is
  None.\<close>

definition at_entry :: "(string \<Rightarrow> json option) \<Rightarrow> (time \<Rightarrow> string) \<Rightarrow> bool \<Rightarrow> bool \<Rightarrow> exec \<Rightarrow> string \<Rightarrow> uuid \<Rightarrow>
    uuid \<Rightarrow> time \<Rightarrow> db \<Rightarrow> db \<times> exec \<times> bool option" where
  "at_entry yaml isoformat readable op_readable e action rid snapshot now d =
     (if action \<notin> set GATED then (d, e, Some False)
      else if \<not> readable \<and> action = ''destroy'' then (d, e, Some False)
      else let (why, x) = (if readable then decide yaml isoformat d action rid now
             else (Some (WHAT action @ '' '' @ HELD_MARKER @ '' could not be checked (windows unreadable).''),
                   if op_readable then worker_operation d rid action else None))
      in case why of None \<Rightarrow> (d, e, Some False)
       | Some text \<Rightarrow>
         if action = ''restore'' then (snapshot_back_to_ready snapshot d, e, Some True)
         else (case x of Some y \<Rightarrow> (hold_operation y d, e, Some True)
           | None \<Rightarrow>
             let (s, f) = (if action = ''provision'' then (created, provisioning) else (destroying, destroying))
             in case guarded_range_update (Some e) rid
                  \<lparr>w_state = s, w_error = Some text, w_output = None, w_only_from = Some [f], w_clear_error = False\<rparr> d of
                (d', e', Some n) \<Rightarrow> (d', the e', Some True)
              | (d', e', None) \<Rightarrow> (d', the e', None)))"

section \<open>The API and the worker agree\<close>

lemma template_tags_agree: "worker_template_tags yaml text = template_tags yaml text"
  by (auto simp: worker_template_tags_def template_tags_def jget_def split: option.split json.split)

lemma applies_agree: "worker_applies wt sc rids tags rid rt rtags = applies wt sc rids tags rid rt rtags"
  unfolding worker_applies_def applies_def by (auto simp: list_all_iff)

lemma applies_tags_only: "sc \<noteq> ''tags'' \<Longrightarrow> applies wt sc rids tags rid rt rtags = applies wt sc rids tags rid rt []"
  by (simp add: applies_def)

lemma worker_scan_filter:
  assumes "tags = None \<or> tags = Some (load ())"
  shows "worker_scan load rid tenant now tags ws =
    (case covering (filter (\<lambda>w. in_effect w now) ws) tenant (Some rid) (load ()) of [] \<Rightarrow> None | w # _ \<Rightarrow> Some w)"
  using assms
proof (induction ws arbitrary: tags)
  case Nil
  then show ?case by (simp add: covering_def)
next
  case (Cons w ws)
  show ?case
  proof (cases "in_effect w now")
    case False
    then show ?thesis using Cons by (auto simp: in_effect_def covering_def)
  next
    case True
    let ?t = "if mw_scope w = ''tags'' \<and> tags = None then Some (load ()) else tags"
    have t: "?t = None \<or> ?t = Some (load ())" using Cons.prems by auto
    have "worker_applies (mw_tenant w) (mw_scope w) (mw_range_ids w) (mw_tags w) (Some rid) tenant
        (case ?t of None \<Rightarrow> [] | Some ts \<Rightarrow> ts) = window_applies tenant (Some rid) (load ()) w"
    proof (cases "mw_scope w = ''tags''")
      case True
      then have "?t = Some (load ())" using Cons.prems by auto
      then show ?thesis using True by (simp only: applies_agree window_applies_def option.case if_True simp_thms)
    next
      case False
      then show ?thesis
        using applies_tags_only [OF False, of "mw_tenant w" "mw_range_ids w" "mw_tags w" "Some rid" tenant]
        by (simp only: applies_agree window_applies_def if_False)
    qed
    then show ?thesis
      using True Cons.IH [OF t]
      by (cases "window_applies tenant (Some rid) (load ()) w")
        (simp_all only: worker_scan.simps in_effect_def covering_def Let_def filter.simps
          simp_thms if_True if_False list.case)
  qed
qed

lemma candidates_now:
  "filter (\<lambda>w. in_effect w at) (candidates d tenant at (at + 1)) =
   sort_key (\<lambda>w. - ends_at w) (filter (\<lambda>w. (mw_tenant w = None \<or> tenant \<noteq> None \<and> mw_tenant w = tenant) \<and>
     in_effect w at) (maintenance_windows d))"
  unfolding candidates_def filter_sort filter_filter
  by (rule arg_cong [of _ _ "sort_key _"], rule filter_cong) (auto simp: in_effect_def)

lemma worker_covering_agrees:
  assumes "get_range d rid = Some rng"
  shows "worker_covering yaml d rid now =
    (case covering_range yaml d rng now of [] \<Rightarrow> None | w # _ \<Rightarrow> Some w)"
proof -
  have id: "rng_id rng = rid" using get_range_SomeD [OF assms] by simp
  have live: "filter (\<lambda>w. in_effect w now) (sort_key (\<lambda>w. - ends_at w) (filter (\<lambda>w.
      (mw_tenant w = None \<or> rng_tenant rng \<noteq> None \<and> mw_tenant w = rng_tenant rng) \<and>
      starts_at w \<le> now \<and> now < ends_at w) (maintenance_windows d)))
    = filter (\<lambda>w. in_effect w now) (candidates d (rng_tenant rng) now (now + 1))"
    unfolding candidates_now filter_sort filter_filter
    by (rule arg_cong [of _ _ "sort_key _"], rule filter_cong) (auto simp: in_effect_def)
  show ?thesis
    by (simp only: worker_covering_def assms option.case worker_scan_filter [OF disjI1 [OF refl]] live
        covering_range_def id template_tags_agree range_tags_def)
qed

text \<open>Only a range's own tenant's windows and the platform's can cover it.\<close>

lemma covering_rangeI:
  "w \<in> set (covering_range yaml d rng at) \<longleftrightarrow>
   w \<in> set (maintenance_windows d) \<and> in_effect w at \<and>
   (mw_tenant w = None \<or> mw_tenant w = rng_tenant rng) \<and>
   window_applies (rng_tenant rng) (Some (rng_id rng)) (range_tags yaml d (Some (rng_template rng))) w"
  unfolding covering_range_def covering_def candidates_now
  by (cases "rng_tenant rng"; cases "mw_tenant w") auto

lemma window_applies_tenant:
  assumes "window_applies tenant rid tags w" "tenant \<noteq> None \<or> mw_tenant w \<noteq> Some ''None''"
  shows "mw_tenant w = None \<or> mw_tenant w = tenant"
  using assms by (auto simp: window_applies_def applies_def str_opt_def split: if_splits option.splits)

lemma held_range_ids_iff:
  assumes "distinct (map tm_id (templates d))" "rng \<in> set rngs" "distinct (map rng_id rngs)"
    and "\<forall>r \<in> set rngs. rng_tenant r \<noteq> None"
  shows "rng_id rng \<in> set (held_range_ids yaml d rngs at) \<longleftrightarrow> covering_range yaml d rng at \<noteq> []"
proof -
  define live where "live = filter (\<lambda>w. in_effect w at)
    (filter (\<lambda>w. (case mw_tenant w of None \<Rightarrow> True | Some t \<Rightarrow> t \<in> set (List.map_filter rng_tenant rngs)) \<and>
       starts_at w < at + 1 \<and> at < ends_at w) (maintenance_windows d))"
  define rows where "rows = (if list_ex (\<lambda>w. mw_scope w = ''tags'') live
    then filter (\<lambda>t. tm_id t \<in> set (map rng_template rngs)) (templates d) else [])"
  define tags where "tags = (\<lambda>r :: range_row. case find_row (\<lambda>t. tm_id t = rng_template r) rows of None \<Rightarrow> []
    | Some t \<Rightarrow> template_tags yaml (Some (tm_yaml t)))"
  have held: "held_range_ids yaml d rngs at = (if rngs = [] \<or> live = [] then []
      else map rng_id (filter (\<lambda>r. covering live (rng_tenant r) (Some (rng_id r)) (tags r) \<noteq> []) rngs))"
    unfolding tags_def rows_def live_def held_range_ids_def Let_def by (rule refl)
  obtain t where t: "rng_tenant rng = Some t" using assms(2,4) by auto
  have live_iff: "w \<in> set live \<longleftrightarrow> w \<in> set (maintenance_windows d) \<and> in_effect w at \<and>
      (mw_tenant w = None \<or> (\<exists>r \<in> set rngs. mw_tenant w = rng_tenant r))" for w
    using assms(4) by (cases "mw_tenant w") (force simp: live_def in_effect_def map_filter_def)+
  have tags_eq: "tags rng = range_tags yaml d (Some (rng_template rng))" if "w \<in> set live" "mw_scope w = ''tags''" for w
  proof -
    have "rows = filter (\<lambda>t. tm_id t \<in> set (map rng_template rngs)) (templates d)"
      using that by (auto simp: rows_def list_ex_iff)
    moreover have "find_row (\<lambda>t. tm_id t = rng_template rng) (filter (\<lambda>t. tm_id t \<in> set (map rng_template rngs)) ts)
        = find_row (\<lambda>t. tm_id t = rng_template rng) ts" for ts :: "template_row list"
      using assms(2) by (induction ts) (auto simp: find_row_def)
    ultimately show ?thesis
      by (simp add: tags_def range_tags_def template_tags_def split: option.split)
  qed
  have app: "window_applies (rng_tenant rng) (Some (rng_id rng)) (tags rng) w =
      window_applies (rng_tenant rng) (Some (rng_id rng)) (range_tags yaml d (Some (rng_template rng))) w"
    if "w \<in> set live" for w
    using tags_eq [OF that] by (auto simp: window_applies_def)
  have ten: "window_applies (rng_tenant rng) rid ts w \<Longrightarrow> mw_tenant w = None \<or> mw_tenant w = rng_tenant rng" for w rid ts
    using window_applies_tenant t by auto
  have "rng_id rng \<in> set (held_range_ids yaml d rngs at) \<longleftrightarrow> covering live (rng_tenant rng) (Some (rng_id rng)) (tags rng) \<noteq> []"
    using assms(2,3) unfolding held by (auto simp: covering_def distinct_map dest: inj_onD)
  also have "\<dots> \<longleftrightarrow> (\<exists>w. w \<in> set (covering_range yaml d rng at))"
    unfolding covering_def covering_rangeI filter_empty_conv using app ten live_iff assms(2) by blast
  finally show ?thesis by (cases "covering_range yaml d rng at") auto
qed

section \<open>Tenancy and the cap\<close>

lemma resolve_ranges_own:
  assumes "resolve_ranges d user is False = Inr ids" "i \<in> set ids"
  shows "\<exists>r \<in> set (ranges d). rng_id r = i \<and> rng_tenant r = Some (c_tenant user)"
  using assms by (auto simp: resolve_ranges_def Let_def filter_empty_conv split: list.splits)
    (drule (1) bspec, auto)

lemma apply_body_Inr:
  "apply_body d user body now w = Inr w' \<Longrightarrow>
   mw_id w' = mw_id w \<and> mw_tenant w' = mw_tenant w \<and> ends_at w' = b_ends body \<and> now < ends_at w' \<and>
   resolve_ranges d user (b_range_ids body) (mw_tenant w = None) = Inr (mw_range_ids w')"
  by (auto simp: apply_body_def split: if_splits sum.splits)

lemma create_window_Inr:
  assumes "create_window new_id user body now d = (d', Inr w)"
  shows "maintenance_windows d' = maintenance_windows d @ [w]"
    and "mw_tenant w = (if b_platform_wide body then None else Some (c_tenant user))"
    and "live_windows d (mw_tenant w) now < MAX_LIVE_WINDOWS" "b_platform_wide body \<longrightarrow> c_platform user"
    and "resolve_ranges d user (b_range_ids body) (mw_tenant w = None) = Inr (mw_range_ids w)"
  using assms by (auto simp: create_window_def Let_def check_cap_def audit_def dest!: apply_body_Inr
      split: if_splits sum.splits)

lemma count_append: "count_where P (xs @ ys) = count_where P xs + count_where P ys"
  by (simp add: count_where_def)

text \<open>An update in place replaces one row: it was counted, or the cap was checked.\<close>

lemma count_update_one:
  assumes "distinct (map k rows)" "r \<in> set rows" "k r' = k r"
  shows "count_where P (update_where (\<lambda>x. k x = k r) (\<lambda>_. r') rows) + (if P r then 1 else 0)
    = count_where P rows + (if P r' then 1 else 0)"
  using assms
proof (induction rows)
  case (Cons x rows)
  show ?case
  proof (cases "x = r")
    case True
    have "update_where (\<lambda>x. k x = k r) (\<lambda>_. r') rows = rows"
      using Cons.prems True by (intro update_where_none) (metis distinct.simps(2) image_eqI list.map(2) list.set_map)
    then show ?thesis using True by (simp add: update_where_def count_where_def)
  next
    case False
    then have "r \<in> set rows" "k x \<noteq> k r" using Cons.prems by (auto simp: image_iff)
    then show ?thesis using Cons by (simp add: update_where_def count_where_def)
  qed
qed simp

lemma update_window_cap:
  assumes "update_window user w body now d = (d', Inr w')" "w \<in> set (maintenance_windows d)"
    and "distinct (map mw_id (maintenance_windows d))" "\<forall>t. live_windows d t now \<le> MAX_LIVE_WINDOWS"
  shows "live_windows d' t now \<le> MAX_LIVE_WINDOWS"
proof -
  have a: "apply_body d user body now w = Inr w'" "now < ends_at w \<or> live_windows d (mw_tenant w) now < MAX_LIVE_WINDOWS"
    "maintenance_windows d' = update_where (\<lambda>x. mw_id x = mw_id w) (\<lambda>_. w') (maintenance_windows d)"
    using assms(1) by (auto simp: update_window_def check_cap_def audit_def split: if_splits sum.splits)
  have "mw_id w' = mw_id w" "mw_tenant w' = mw_tenant w" using apply_body_Inr [OF a(1)] by auto
  then show ?thesis
    using count_update_one [OF assms(3,2), of w' "\<lambda>w. mw_tenant w = t \<and> now < ends_at w"] a(2,3) assms(4)
    by (cases "mw_tenant w = t"; cases "now < ends_at w"; cases "now < ends_at w'")
      (auto simp: live_windows_def dest: spec [of _ t])
qed

section \<open>What the entry check does\<close>

lemma update_range_state_other:
  "rng_id r \<noteq> rid \<Longrightarrow> r \<in> set (ranges (fst (update_range_state rid w d))) \<longleftrightarrow> r \<in> set (ranges d)"
  by (auto simp: update_range_state_def Let_def update_where_def image_iff)

lemma update_range_state_states:
  assumes "r' \<in> set (ranges (fst (update_range_state rid w d)))" "w_only_from w = Some [f]"
  shows "r' \<in> set (ranges d) \<or> (\<exists>r \<in> set (ranges d). rng_id r = rng_id r' \<and> rng_state r = f \<and> rng_state r' = w_state w)"
  using assms by (auto simp: update_range_state_def Let_def update_where_def split: if_splits)

lemma guarded_states:
  assumes "guarded_range_update (Some e) rid w d = (d', e', n)" "w_only_from w = Some [f]" "r' \<in> set (ranges d')"
  shows "r' \<in> set (ranges d) \<or> (\<exists>r \<in> set (ranges d). rng_id r = rng_id r' \<and> rng_state r = f \<and> rng_state r' = w_state w)"
  using assms update_range_state_states [OF _ assms(2), of r' rid d]
  by (auto simp: guarded_range_update_def split: if_splits prod.splits sight.splits)

lemma guarded_ops: "guarded_range_update c rid w d = (d', c', n) \<Longrightarrow> range_operations d' = range_operations d"
  by (auto simp: guarded_range_update_def update_range_state_def Let_def split: option.splits if_splits prod.splits sight.splits)

lemma hold_operation_ops:
  assumes "y' \<in> set (range_operations (hold_operation x d))"
  shows "y' \<in> set (range_operations d) \<or> op_status y' = Held \<and>
    (\<exists>y \<in> set (range_operations d). op_id y = op_id y' \<and> op_status y \<in> {Pending, Dispatched})"
  using assms by (auto simp: hold_operation_def update_where_def split: if_splits)

text \<open>What the check leaves: the database as it is, a snapshot given back, the operation held, or
  the range's own state written while the task holds the lease.\<close>

lemma at_entry_cases:
  assumes "at_entry yaml isoformat readable op_readable e action rid snap now d = (d', e', r)"
  obtains (runs) "r = Some False" "d' = d" "e' = e"
  | (restore) "r = Some True" "d' = snapshot_back_to_ready snap d" "e' = e"
  | (held) y where "r = Some True" "d' = hold_operation y d" "e' = e"
  | (lab) w n c where "w_only_from w = Some [provisioning]" "w_state w = created" "r \<noteq> Some False"
      "guarded_range_update (Some e) rid w d = (d', c, n)"
  | (unidentified) w n c where "w_only_from w = Some [destroying]" "w_state w = destroying" "r \<noteq> Some False"
      "guarded_range_update (Some e) rid w d = (d', c, n)"
proof -
  define wx where "wx = (if readable then decide yaml isoformat d action rid now
    else (Some (WHAT action @ '' '' @ HELD_MARKER @ '' could not be checked (windows unreadable).''),
          if op_readable then worker_operation d rid action else None))"
  obtain why x where wx: "wx = (why, x)" by (cases wx)
  note e = assms [unfolded at_entry_def wx_def [symmetric] wx Let_def prod.case]
  show thesis
  proof (cases "action \<notin> set GATED \<or> \<not> readable \<and> action = ''destroy'' \<or> why = None")
    case True
    then show thesis using e runs by (auto split: if_splits)
  next
    case gated: False
    then obtain msg where why: "why = Some msg" by auto
    show thesis
    proof (cases "action = ''restore''")
      case True
      then show thesis using e why gated restore by auto
    next
      case nr: False
      show thesis
      proof (cases x)
        case (Some y)
        then show thesis using e why gated nr held by auto
      next
        case None
        show thesis
        proof (cases "action = ''provision''")
          case True
          then show thesis using e why gated None
            by (auto intro: lab [rotated 3] split: prod.splits option.splits)
        next
          case False
          then show thesis using e why gated None nr
            by (auto intro: unidentified [rotated 3] split: prod.splits option.splits)
        qed
      qed
    qed
  qed
qed

lemma worker_operation_newest:
  "newest_op d rid = Some x \<Longrightarrow> op_action x = action \<Longrightarrow> op_status x \<in> set IN_FLIGHT \<Longrightarrow>
   worker_operation d rid action = Some x"
  by (simp add: worker_operation_def)

section \<open>A window over one tenant\<close>

definition sample_window :: "string \<Rightarrow> string option \<Rightarrow> string \<Rightarrow> string list \<Rightarrow> string list \<Rightarrow> time \<Rightarrow> window" where
  "sample_window i tenant scope rids tags e = \<lparr>mw_id = i, mw_tenant = tenant, mw_reason = ''patching'', starts_at = 100,
     ends_at = e, mw_scope = scope, mw_range_ids = rids, mw_tags = tags\<rparr>"

definition sample_windows :: db where
  "sample_windows = empty_db\<lparr>ranges := [sample_range ''r'' destroying],
     maintenance_windows := [sample_window ''w1'' (Some ''n'') ''tags'' [] [''SOC ''] 300,
       sample_window ''w2'' (Some ''other'') ''all'' [] [] 900, sample_window ''w3'' None ''ranges'' [''r''] [] 200],
     templates := [\<lparr>tm_id = ''t'', tm_yaml = ''tags: [soc]''\<rparr>]\<rparr>"

definition sample_yaml :: "string \<Rightarrow> json option" where
  "sample_yaml s = (if s = ''tags: [soc]'' then Some (JObj [(''tags'', JList [JStr ''Soc''])]) else None)"

definition sample_op :: "string \<Rightarrow> string option \<Rightarrow> op_status \<Rightarrow> operation" where
  "sample_op action bypass s = \<lparr>op_id = ''o'', op_tenant = Some ''n'', op_range = ''r'', op_action = action,
     generation = 3, idempotency_key = None, request_hash = [], requested_by = None, window_bypass = bypass,
     op_status = s, task_id = None, dispatch_attempts = 0, op_error = None, op_created = 120,
     dispatched_at = None, finished_at = None\<rparr>"

definition sample_body :: window_in where
  "sample_body = \<lparr>b_platform_wide = False, b_reason = '' patching '', b_starts = 100, b_ends = 400,
     b_scope = ''ranges'', b_range_ids = [''r''], b_tags = []\<rparr>"

definition sample_caller :: caller where
  "sample_caller = \<lparr>c_user = ''u'', c_tenant = ''n'', c_range_admin = True, c_platform = False\<rparr>"

section \<open>Properties\<close>

text \<open>C6: The API and the worker, which may not share code, decide alike: the worker's window for
  a range is the first of the API's covering windows (the latest-ending), and the batch lookup of
  the re-send loop names exactly the ranges that have one.\<close>
theorem windows_agree:
  assumes "get_range d rid = Some rng" "distinct (map tm_id (templates d))" "rng \<in> set rngs"
    "distinct (map rng_id rngs)" "\<forall>r \<in> set rngs. rng_tenant r \<noteq> None"
  shows "worker_covering yaml d rid at = (case covering_range yaml d rng at of [] \<Rightarrow> None | w # _ \<Rightarrow> Some w) \<and>
    (rid \<in> set (held_range_ids yaml d rngs at) \<longleftrightarrow> worker_covering yaml d rid at \<noteq> None)"
  using worker_covering_agrees [OF assms(1)] held_range_ids_iff [OF assms(2-5)] get_range_SomeD [OF assms(1)]
  by (auto split: list.split)

theorem windows_agree_witness:
  "worker_covering sample_yaml sample_windows ''r'' 150 = Some (sample_window ''w1'' (Some ''n'') ''tags'' [] [''SOC ''] 300) \<and>
   ''r'' \<in> set (held_range_ids sample_yaml sample_windows [sample_range ''r'' destroying] 150)"
proof -
  have "get_range sample_windows ''r'' = Some (sample_range ''r'' destroying)"
    "distinct (map tm_id (templates sample_windows))" "distinct (map rng_id [sample_range ''r'' destroying])"
    "\<forall>r \<in> set [sample_range ''r'' destroying]. rng_tenant r \<noteq> None"
    by code_simp+
  moreover have "covering_range sample_yaml sample_windows (sample_range ''r'' destroying) 150 =
      [sample_window ''w1'' (Some ''n'') ''tags'' [] [''SOC ''] 300, sample_window ''w3'' None ''ranges'' [''r''] [] 200]"
    by code_simp
  ultimately show ?thesis
    using windows_agree [of sample_windows "''r''" "sample_range ''r'' destroying" "[sample_range ''r'' destroying]" sample_yaml 150]
    by simp
qed

text \<open>A tenant's windows stay its own: every window that covers a tenant's range is
  platform-wide or that tenant's, and one a tenant administrator creates names only ranges of the
  tenant; a platform-wide one needs a platform administrator.\<close>
theorem windows_stay_in_tenant:
  assumes "create_window new_id user body now d = (d', Inr w)"
  shows "(mw_tenant w = None \<longrightarrow> c_platform user) \<and>
    (mw_tenant w \<noteq> None \<longrightarrow> mw_tenant w = Some (c_tenant user) \<and>
       (\<forall>i \<in> set (mw_range_ids w). \<exists>r \<in> set (ranges d). rng_id r = i \<and> rng_tenant r = Some (c_tenant user))) \<and>
    (\<forall>rng at v. v \<in> set (covering_range yaml d' rng at) \<longrightarrow> mw_tenant v = None \<or> mw_tenant v = rng_tenant rng)"
proof -
  note c = create_window_Inr [OF assms]
  have "\<exists>r \<in> set (ranges d). rng_id r = i \<and> rng_tenant r = Some (c_tenant user)"
    if "mw_tenant w \<noteq> None" "i \<in> set (mw_range_ids w)" for i
    using c(5) that by (intro resolve_ranges_own [of _ _ "b_range_ids body"]) auto
  then show ?thesis using c(2,4) by (auto simp: covering_rangeI split: if_splits)
qed

theorem windows_stay_in_tenant_witness:
  "\<exists>w. snd (create_window ''w4'' sample_caller sample_body 120 sample_windows) = Inr w \<and>
     mw_tenant w = Some ''n'' \<and> mw_range_ids w = [''r'']"
proof -
  let ?r = "create_window ''w4'' sample_caller sample_body 120 sample_windows"
  let ?w = "sample_window ''w4'' (Some ''n'') ''ranges'' [''r''] [] 400"
  have r: "snd ?r = Inr ?w" by code_simp
  then have "?r = (fst ?r, Inr ?w)" by (metis prod.collapse)
  from windows_stay_in_tenant [OF this, of sample_yaml]
  show ?thesis using r by (auto simp: sample_window_def sample_caller_def)
qed

text \<open>No owner ever holds more than the cap of windows that have not ended: creating one, or
  changing one (an ended window brought back counts again), keeps the bound.\<close>
theorem window_cap_kept:
  assumes "\<forall>t. live_windows d t now \<le> MAX_LIVE_WINDOWS" "distinct (map mw_id (maintenance_windows d))"
    and "create_window new_id user body now d = (d', Inr w) \<or>
      update_window user v body now d = (d', Inr w) \<and> v \<in> set (maintenance_windows d)"
  shows "live_windows d' t now \<le> MAX_LIVE_WINDOWS"
  using assms(3)
proof
  assume "create_window new_id user body now d = (d', Inr w)"
  note c = create_window_Inr [OF this]
  show ?thesis
    using c(1,3) assms(1) by (cases "mw_tenant w = t") (auto simp: live_windows_def count_append, auto simp: count_where_def)
next
  assume "update_window user v body now d = (d', Inr w) \<and> v \<in> set (maintenance_windows d)"
  then show ?thesis using update_window_cap [OF _ _ assms(2,1)] by blast
qed

theorem window_cap_kept_witness:
  "live_windows (fst (create_window ''w4'' sample_caller sample_body 120 sample_windows)) (Some ''n'') 120 \<le> MAX_LIVE_WINDOWS"
proof -
  have l: "live_windows sample_windows t 120 \<le> MAX_LIVE_WINDOWS" for t
  proof -
    have "live_windows sample_windows t 120 \<le> length (maintenance_windows sample_windows)"
      by (simp add: live_windows_def count_where_def)
    then show ?thesis by (simp add: sample_windows_def MAX_LIVE_WINDOWS_def)
  qed
  have i: "distinct (map mw_id (maintenance_windows sample_windows))" by code_simp
  have "snd (create_window ''w4'' sample_caller sample_body 120 sample_windows)
      = Inr (sample_window ''w4'' (Some ''n'') ''ranges'' [''r''] [] 400)"
    by code_simp
  then have "create_window ''w4'' sample_caller sample_body 120 sample_windows
      = (fst (create_window ''w4'' sample_caller sample_body 120 sample_windows),
         Inr (sample_window ''w4'' (Some ''n'') ''ranges'' [''r''] [] 400))"
    by (metis prod.collapse)
  then show ?thesis using window_cap_kept [OF allI [OF l] i disjI1] by blast
qed

text \<open>A window never leaves a range failed and never loses work: whatever the entry check
  does, a range changes state only from provisioning back to created (a lab's build, sent again),
  an operation only from pending or dispatched to held (sent again after the window); and when the
  task runs, nothing changed.\<close>
theorem window_never_fails_a_range:
  assumes "at_entry yaml isoformat readable op_readable e action rid snap now d = (d', e', r)"
  shows "(\<forall>y \<in> set (ranges d'). y \<in> set (ranges d) \<or>
      (\<exists>x \<in> set (ranges d). rng_id x = rng_id y \<and>
         (rng_state x, rng_state y) \<in> {(provisioning, created), (destroying, destroying)})) \<and>
    (\<forall>y \<in> set (range_operations d'). y \<in> set (range_operations d) \<or> op_status y = Held \<and>
      (\<exists>x \<in> set (range_operations d). op_id x = op_id y \<and> op_status x \<in> {Pending, Dispatched})) \<and>
    (r = Some False \<longrightarrow> d' = d)"
  using assms
proof (cases rule: at_entry_cases)
  case restore
  then show ?thesis by (simp add: snapshot_back_to_ready_def)
next
  case (held y)
  then show ?thesis using hold_operation_ops [of _ y d] by (auto simp: hold_operation_def)
next
  case (lab w n c)
  then show ?thesis using guarded_states [OF lab(4,1)] guarded_ops [OF lab(4)] by auto
next
  case (unidentified w n c)
  then show ?thesis using guarded_states [OF unidentified(4,1)] guarded_ops [OF unidentified(4)] by auto
qed simp

theorem window_never_fails_a_range_witness:
  "let r = at_entry sample_yaml str_int True True (new_exec ''r'' ''destroy:1'') ''destroy'' ''r'' [] 150
     (sample_windows\<lparr>range_operations := [sample_op ''destroy'' None Dispatched]\<rparr>)
   in snd (snd r) = Some True \<and> map op_status (range_operations (fst r)) = [Held] \<and>
      failed \<notin> rng_state ` set (ranges (fst r))"
proof -
  let ?d = "sample_windows\<lparr>range_operations := [sample_op ''destroy'' None Dispatched]\<rparr>"
  let ?r = "at_entry sample_yaml str_int True True (new_exec ''r'' ''destroy:1'') ''destroy'' ''r'' [] 150 ?d"
  have "?r = (fst ?r, fst (snd ?r), snd (snd ?r))" by simp
  note w = window_never_fails_a_range [OF this]
  have "snd (snd ?r) = Some True" "map op_status (range_operations (fst ?r)) = [Held]" by code_simp+
  moreover have "failed \<notin> rng_state ` set (ranges (fst ?r))"
    using w by (auto simp: sample_windows_def sample_range_def)
  ultimately show ?thesis by (simp add: Let_def)
qed

text \<open>A teardown that must always run is never held: a destroy whose newest operation carries
  a bypass runs, window or not; so does a destroy when the windows cannot be read.\<close>
theorem bypass_always_runs:
  assumes "newest_op d rid = Some x" "op_action x = ''destroy''" "op_status x \<in> set IN_FLIGHT"
    and "window_bypass x = Some b" "b \<in> set BYPASS_KINDS"
  shows "at_entry yaml isoformat readable op_readable e ''destroy'' rid snap now d = (d, e, Some False)"
proof (cases readable)
  case False
  then show ?thesis by (simp add: at_entry_def)
next
  case True
  have "decide yaml isoformat d ''destroy'' rid now = (None, Some x)"
    using worker_operation_newest [OF assms(1-3)] assms(4,5)
    by (simp add: decide_def Let_def GATED_def split: option.split)
  then show ?thesis using True by (simp add: at_entry_def)
qed

theorem bypass_always_runs_witness:
  "at_entry sample_yaml str_int True True (new_exec ''r'' ''destroy:1'') ''destroy'' ''r'' [] 150
     (sample_windows\<lparr>range_operations := [sample_op ''destroy'' (Some ''booking_ended'') Dispatched]\<rparr>)
   = (sample_windows\<lparr>range_operations := [sample_op ''destroy'' (Some ''booking_ended'') Dispatched]\<rparr>,
      new_exec ''r'' ''destroy:1'', Some False)"
proof -
  have "newest_op (sample_windows\<lparr>range_operations := [sample_op ''destroy'' (Some ''booking_ended'') Dispatched]\<rparr>) ''r''
      = Some (sample_op ''destroy'' (Some ''booking_ended'') Dispatched)"
    "op_action (sample_op ''destroy'' (Some ''booking_ended'') Dispatched) = ''destroy''"
    "op_status (sample_op ''destroy'' (Some ''booking_ended'') Dispatched) \<in> set IN_FLIGHT"
    "window_bypass (sample_op ''destroy'' (Some ''booking_ended'') Dispatched) = Some ''booking_ended''"
    "''booking_ended'' \<in> set BYPASS_KINDS"
    by code_simp+
  then show ?thesis by (rule bypass_always_runs)
qed

end
