(* ===== verification/Range_Ops.thy ===== *)
theory Range_Ops
  imports Network_Inventory Maintenance_Windows
begin

text \<open>
  Range operations: accept, send, reconcile, abandon. \<^verbatim>\<open>app/range_ops/service.py\<close> (the whole
  service but the re-send loop's timer), \<^verbatim>\<open>app/range_ops/lease_status.py\<close>, \<^verbatim>\<open>app/range_abandon.py\<close>
  and the scheduler's entry points of \<^verbatim>\<open>app/range_lifecycle.py\<close>.

  An operation of the API returns the database as it is when it returns or raises. A handler
  that raises is rolled back by its caller; the scheduler's callers are not, so the
  state at the raise matters. The environment \<open>env\<close> carries the clocks (the API process's
  and the database's), the settings, the uuids drawn, the request digest and what the
  template needs on the noise management network. Rows of one range are touched under its
  row lock, so each operation is one step.
\<close>

section \<open>Actions and settings\<close>

record noise_plan =
  np_domain :: string
  np_pool :: "string list"
  np_nodes :: "string list"

record env =
  e_now :: time
  e_dbnow :: time
  e_lease :: time
  e_beat :: time
  e_stale :: time
  e_yaml :: "string \<Rightarrow> json option"
  e_digest :: "string \<Rightarrow> string"
  e_ids :: "nat \<Rightarrow> uuid"
  e_op_id :: uuid
  e_noise :: "range_row \<Rightarrow> noise_plan"

record action_spec =
  a_in_progress :: range_state
  a_success :: range_state

definition ACTIONS :: "string \<Rightarrow> action_spec option" where
  "ACTIONS a =
     (if a = ''provision'' then Some \<lparr>a_in_progress = provisioning, a_success = ready\<rparr>
      else if a = ''destroy'' then Some \<lparr>a_in_progress = destroying, a_success = destroyed\<rparr>
      else if a = ''stop'' then Some \<lparr>a_in_progress = stopping, a_success = stopped\<rparr>
      else if a = ''start'' then Some \<lparr>a_in_progress = starting, a_success = running\<rparr>
      else None)"

definition outcomes :: "string \<Rightarrow> range_state \<Rightarrow> op_status option" where
  "outcomes a s = (case ACTIONS a of None \<Rightarrow> None
     | Some spec \<Rightarrow> if s = a_success spec then Some Succeeded else if s = failed then Some Failed else None)"

datatype ops_error = NoRange | UnknownAction | BadBypass | KeyReused | InWindow window int | BadState range_state
  | NoVms | SnapshotBusy | ExerciseRunning | HasVms nat | WorkerActing string | OpInFlight uuid
  | NoPool alloc_error | AlreadySettled op_status | NoLease | NotProven | KeyConflict | RecordsVms nat | LabRange

type_synonym 'a reply = "db \<times> (ops_error + 'a)"

definition in_flight :: "operation \<Rightarrow> bool" where
  "in_flight x = (op_status x \<in> set IN_FLIGHT)"

definition range_in_flight :: "db \<Rightarrow> uuid \<Rightarrow> operation list" where
  "range_in_flight d rid = filter (\<lambda>x. op_range x = rid \<and> in_flight x) (range_operations d)"

definition locked_range :: "db \<Rightarrow> uuid \<Rightarrow> caller \<Rightarrow> range_row option" where
  "locked_range d rid user = find_row (\<lambda>r. rng_id r = rid \<and> rng_tenant r = Some (c_tenant user)) (ranges d)"

definition recorded_vms :: "range_row \<Rightarrow> nat" where
  "recorded_vms rng = (case load_output (provisioner_output rng) of None \<Rightarrow> 0
     | Some j \<Rightarrow> (case jget ''vms'' j of Some (JList vms) \<Rightarrow> length vms | _ \<Rightarrow> 0))"

definition worker_acting :: "env \<Rightarrow> db \<Rightarrow> uuid \<Rightarrow> string option" where
  "worker_acting v d rid = map_option ls_holder (find_row (\<lambda>l. ls_range l = rid \<and> e_dbnow v < ls_expires l) (range_leases d))"

section \<open>Reconciling with the observed state\<close>

text \<open>One dispatched operation settled from the range's state. The calls into certification and
  range credentials are recorded in order; they run in savepoints of their own.\<close>

definition settle :: "env \<Rightarrow> range_row \<Rightarrow> operation \<Rightarrow> db \<Rightarrow> db" where
  "settle v rng x d =
     (case outcomes (op_action x) (rng_state rng) of
        None \<Rightarrow>
          (case dispatched_at x of
             Some sent \<Rightarrow> if e_stale v < e_now v - sent \<and> op_error x = None
               then put_op (op_id x) (\<lambda>y. y\<lparr>op_error := Some ''no_outcome''\<rparr>) d else d
           | None \<Rightarrow> d)
      | Some outcome \<Rightarrow>
          (let d1 = put_op (op_id x) (\<lambda>y. y\<lparr>op_status := outcome, finished_at := Some (e_now v),
                 op_error := (if outcome = Failed then Some ''range_failed'' else op_error y)\<rparr>) d;
               d2 = d1\<lparr>hooks := hooks d1 @ [Settled (op_id x) outcome]\<rparr>;
               d3 = (if op_action x = ''destroy'' \<and> outcome = Succeeded then fst (release_range (rng_id rng) d2) else d2)
           in if op_action x = ''provision'' \<and> outcome = Succeeded
              then d3\<lparr>hooks := hooks d3 @ [BuildSucceeded (rng_id rng)]\<rparr> else d3))"

definition dispatched_ops :: "db \<Rightarrow> uuid \<Rightarrow> operation list" where
  "dispatched_ops d rid = filter (\<lambda>x. op_range x = rid \<and> op_status x = Dispatched) (range_operations d)"

definition reconcile :: "env \<Rightarrow> range_row \<Rightarrow> db \<Rightarrow> db" where
  "reconcile v rng d = foldl (\<lambda>d x. settle v rng x d) d (dispatched_ops d (rng_id rng))"

definition refuse_while_in_flight :: "env \<Rightarrow> range_row \<Rightarrow> db \<Rightarrow> unit reply" where
  "refuse_while_in_flight v rng d =
     (let d1 = reconcile v rng d in
      case range_in_flight d1 (rng_id rng) of [] \<Rightarrow> (d1, Inr ()) | x # _ \<Rightarrow> (d1, Inl (OpInFlight (op_id x))))"

definition parked :: "env \<Rightarrow> db \<Rightarrow> range_row \<Rightarrow> bool" where
  "parked v d rng =
     (if rng_state rng \<notin> {provisioning, destroying} \<or> worker_acting v d (rng_id rng) \<noteq> None then False
      else let xs = range_in_flight d (rng_id rng) in
        if rng_state rng = provisioning
        then xs \<noteq> [] \<and> list_all (\<lambda>x. op_action x = ''provision'' \<and> op_status x \<in> {Held, Pending}) xs
        else xs = [] \<and> contains (case error_message rng of None \<Rightarrow> [] | Some s \<Rightarrow> s) HELD_MARKER)"

section \<open>Accepting\<close>

definition snapshot_busy :: "db \<Rightarrow> uuid \<Rightarrow> bool" where
  "snapshot_busy d rid = list_ex (\<lambda>s. sn_range s = rid \<and> snapshot_state s \<in> {''creating'', ''restoring''}) (range_snapshots d)"

definition supersede :: "env \<Rightarrow> uuid \<Rightarrow> db \<Rightarrow> db" where
  "supersede v rid d = d\<lparr>range_operations := update_where (\<lambda>x. op_range x = rid \<and> in_flight x)
     (\<lambda>x. x\<lparr>op_status := Superseded, finished_at := Some (e_now v), op_error := Some ''superseded''\<rparr>) (range_operations d)\<rparr>"

definition check :: "env \<Rightarrow> range_row \<Rightarrow> string \<Rightarrow> action_spec \<Rightarrow> db \<Rightarrow> unit reply" where
  "check v rng action spec d0 =
     (let d = reconcile v rng d0; rid = rng_id rng; vms = recorded_vms rng in
      if \<not> can_transition_to (rng_state rng) (a_in_progress spec) \<and> \<not> (action = ''destroy'' \<and> parked v d rng)
        then (d, Inl (BadState (rng_state rng)))
      else if action \<in> {''stop'', ''start''} \<and> vms = 0 then (d, Inl NoVms)
      else if action \<in> {''stop'', ''start''} \<and> snapshot_busy d rid then (d, Inl SnapshotBusy)
      else if action = ''stop'' \<and> list_ex (\<lambda>x. ex_range x = rid \<and> ex_state x = ex_running) (exercises d)
        then (d, Inl ExerciseRunning)
      else if action = ''provision'' \<and> vms > 0 then (d, Inl (HasVms vms))
      else if action \<noteq> ''destroy'' \<and> worker_acting v d rid \<noteq> None
        then (d, Inl (WorkerActing (the (worker_acting v d rid))))
      else if action = ''destroy'' then (supersede v rid d, Inr ())
      else case range_in_flight d rid of [] \<Rightarrow> (d, Inr ()) | x # _ \<Rightarrow> (d, Inl (OpInFlight (op_id x))))"

text \<open>\<^verbatim>\<open>app/noise/mgmt.py\<close>: the agents' management addresses, held from acceptance on.\<close>

definition noise_reserve :: "env \<Rightarrow> range_row \<Rightarrow> db \<Rightarrow> (string \<times> string) list outcome" where
  "noise_reserve v rng d =
     (let p = e_noise v rng in
      sync (e_ids v) (e_now v) rng (np_domain p) ''noise_mgmt_ip'' (if np_nodes p \<noteq> [] then np_pool p else []) (np_nodes p) d)"

definition noise_reserved :: "db \<Rightarrow> uuid \<Rightarrow> (string \<times> string) list" where
  "noise_reserved d rid = holdings (range_reservations d rid ''noise_mgmt_ip'')"

definition next_generation :: "db \<Rightarrow> uuid \<Rightarrow> nat" where
  "next_generation d rid =
     foldl max 0 (map generation (filter (\<lambda>x. op_range x = rid) (range_operations d))) + 1"

definition key_taken :: "db \<Rightarrow> uuid \<Rightarrow> string option \<Rightarrow> bool" where
  "key_taken d rid key = (key \<noteq> None \<and> list_ex (\<lambda>x. op_range x = rid \<and> idempotency_key x = key) (range_operations d))"

text \<open>\<^verbatim>\<open>uuid.UUID(text)\<close>: 32 hexadecimal digits, dashes aside; the scheduler's id is not one.\<close>

definition hex_char :: "char \<Rightarrow> bool" where
  "hex_char c = (c \<in> set ''0123456789abcdefABCDEF'')"

definition user_uuid :: "string \<Rightarrow> uuid option" where
  "user_uuid s = (let h = filter (\<lambda>c. c \<noteq> CHR ''-'') s in if length h = 32 \<and> list_all hex_char h then Some s else None)"

definition new_op :: "env \<Rightarrow> range_row \<Rightarrow> caller \<Rightarrow> string \<Rightarrow> string option \<Rightarrow> string option \<Rightarrow> nat \<Rightarrow> operation" where
  "new_op v rng user action key bypass gen = \<lparr>op_id = e_op_id v, op_tenant = rng_tenant rng, op_range = rng_id rng,
     op_action = action, generation = gen, idempotency_key = key, request_hash = e_digest v action,
     requested_by = user_uuid (c_user user), window_bypass = bypass, op_status = Pending, task_id = None,
     dispatch_attempts = 0, op_error = None, op_created = e_dbnow v, dispatched_at = None, finished_at = None\<rparr>"

text \<open>The writes of an acceptance that passed every check: the operation and the range's new
  state, in one flush. \<open>start\<close> is the database the transaction began with.\<close>

definition record_accepted :: "env \<Rightarrow> range_row \<Rightarrow> caller \<Rightarrow> string \<Rightarrow> action_spec \<Rightarrow> string option \<Rightarrow>
    string option \<Rightarrow> db \<Rightarrow> db \<Rightarrow> (operation \<times> bool) reply" where
  "record_accepted v rng user action spec key bypass start d =
     (let x = new_op v rng user action key bypass (next_generation d (rng_id rng)) in
      if key_taken d (rng_id rng) key then (start, Inl KeyConflict)
      else let d1 = put_range (rng_id rng) (\<lambda>r. r\<lparr>rng_state := a_in_progress spec, error_message := None\<rparr>)
                      (d\<lparr>range_operations := range_operations d @ [x]\<rparr>)
           in (if action = ''provision'' then d1\<lparr>hooks := hooks d1 @ [OpenedForProvision (rng_id rng) (op_id x)]\<rparr> else d1,
               Inr (x, True)))"

text \<open>From the state check on: what an acceptance does once no replay and no window stopped it.\<close>

definition proceed :: "env \<Rightarrow> range_row \<Rightarrow> caller \<Rightarrow> string \<Rightarrow> action_spec \<Rightarrow> string option \<Rightarrow>
    string option \<Rightarrow> db \<Rightarrow> (operation \<times> bool) reply" where
  "proceed v rng user action spec key bypass d =
     (case check v rng action spec d of
        (d1, Inl e) \<Rightarrow> (d1, Inl e)
      | (d1, Inr _) \<Rightarrow>
        if action = ''provision'' then
          (case noise_reserve v rng d1 of
             (d2, Inl e) \<Rightarrow> (d2, Inl (NoPool e))
           | (d2, Inr _) \<Rightarrow>
             record_accepted v rng user action spec key bypass d
               (d2\<lparr>hooks := hooks d2 @ [BuildAccepted (rng_id rng)]\<rparr>))
        else record_accepted v rng user action spec key bypass d d1)"

definition replayed :: "db \<Rightarrow> range_row \<Rightarrow> string option \<Rightarrow> operation option" where
  "replayed d rng key = (if key = None \<or> key = Some [] then None
     else find_row (\<lambda>x. op_range x = rng_id rng \<and> idempotency_key x = key) (range_operations d))"

definition bad_bypass :: "string \<Rightarrow> string option \<Rightarrow> bool" where
  "bad_bypass action bypass = (bypass \<noteq> None \<and> (action \<noteq> ''destroy'' \<or> the bypass \<notin> set BYPASS_KINDS))"

definition window_refusal :: "env \<Rightarrow> db \<Rightarrow> range_row \<Rightarrow> string \<Rightarrow> string option \<Rightarrow> (window \<times> int) option" where
  "window_refusal v d rng action bypass = (if action \<in> set REFUSED_ACTIONS \<and> bypass = None
     then refuse_inside (e_yaml v) d rng (e_now v) else None)"

definition accept :: "env \<Rightarrow> uuid \<Rightarrow> caller \<Rightarrow> string \<Rightarrow> string option \<Rightarrow> string option \<Rightarrow> db \<Rightarrow>
    (operation \<times> bool) reply" where
  "accept v rid user action key bypass d =
     (if bad_bypass action bypass then (d, Inl BadBypass)
      else case ACTIONS action of None \<Rightarrow> (d, Inl UnknownAction)
      | Some spec \<Rightarrow>
      (case locked_range d rid user of None \<Rightarrow> (d, Inl NoRange)
       | Some rng \<Rightarrow>
         (case replayed d rng key of
            Some x \<Rightarrow> if request_hash x \<noteq> e_digest v action then (d, Inl KeyReused) else (d, Inr (x, False))
          | None \<Rightarrow>
            (case window_refusal v d rng action bypass of
               Some (w, wait) \<Rightarrow> (d, Inl (InWindow w wait))
             | None \<Rightarrow> proceed v rng user action spec key bypass d))))"

section \<open>Sending\<close>

text \<open>\<open>sent\<close> is what the broker answers: a task id, or None when it is down. The broker's copy of
  the task may reach a worker before the status is written, so \<open>between\<close> is what others
  committed during the send (the operation's row is locked, so not its status by a sender).\<close>

definition dispatch :: "env \<Rightarrow> string option \<Rightarrow> (db \<Rightarrow> db) \<Rightarrow> uuid \<Rightarrow> db \<Rightarrow> db \<times> bool" where
  "dispatch v sent between oid d =
     (case find_row (\<lambda>x. op_id x = oid \<and> op_status x \<in> {Pending, Held}) (range_operations d) of
        None \<Rightarrow> (d, False)
      | Some x \<Rightarrow>
        (let d1 = between d in
         (d1\<lparr>range_operations := update_where (\<lambda>y. op_id y = oid \<and> op_status y = op_status x)
            (\<lambda>y. (case sent of
                Some t \<Rightarrow> y\<lparr>dispatch_attempts := dispatch_attempts y + 1, op_status := Dispatched, task_id := Some t,
                  dispatched_at := Some (e_now v), op_error := None\<rparr>
              | None \<Rightarrow> y\<lparr>dispatch_attempts := dispatch_attempts y + 1, op_error := Some ''broker_unavailable''\<rparr>))
            (range_operations d1)\<rparr>, sent \<noteq> None)))"

definition task_args :: "db \<Rightarrow> operation \<Rightarrow> string \<times> (string \<times> string) list option" where
  "task_args d x = (op_range x, if op_action x = ''provision'' \<and> noise_reserved d (op_range x) \<noteq> []
     then Some (noise_reserved d (op_range x)) else None)"

section \<open>Teardowns that take over\<close>

definition newest_destroy :: "db \<Rightarrow> uuid \<Rightarrow> operation option" where
  "newest_destroy d rid = (case sort_key (\<lambda>x. - int (generation x))
       (filter (\<lambda>x. op_action x = ''destroy'') (range_in_flight d rid)) of [] \<Rightarrow> None | x # _ \<Rightarrow> Some x)"

definition run_destroy_with_bypass :: "uuid \<Rightarrow> string \<Rightarrow> bool \<Rightarrow> db \<Rightarrow> operation option reply" where
  "run_destroy_with_bypass rid bypass force d =
     (if bypass \<notin> set BYPASS_KINDS then (d, Inl BadBypass)
      else case newest_destroy d rid of None \<Rightarrow> (d, Inr None)
       | Some x \<Rightarrow>
         (let f = (\<lambda>y. y\<lparr>window_bypass := (if \<not> nonempty (window_bypass y) \<or> force then Some bypass else window_bypass y),
                op_status := (if op_status y = Held then Pending else op_status y),
                op_error := (if op_status y = Held then Some ''bypass'' else op_error y)\<rparr>)
          in (put_op (op_id x) f d, Inr (Some (f x)))))"

section \<open>Abandoning\<close>

text \<open>The caller's operation object, as the session sees it after the reconciliation.\<close>

definition current_op :: "db \<Rightarrow> operation \<Rightarrow> operation" where
  "current_op d x = (case get_op d (op_id x) of Some y \<Rightarrow> y | None \<Rightarrow> x)"

definition abandon :: "env \<Rightarrow> range_row \<Rightarrow> operation \<Rightarrow> db \<Rightarrow> bool reply" where
  "abandon v rng x0 d0 =
     (let d = reconcile v rng d0; x = current_op d x0; oid = op_id x in
        if \<not> in_flight x then (d, Inl (AlreadySettled (op_status x)))
        else let only_op = (filter (\<lambda>y. op_id y \<noteq> oid) (range_in_flight d (rng_id rng)) = []);
                 (d1, released) = fence_lease (e_lease v) (e_dbnow v) (rng_id rng) (op_action x) only_op d;
                 d2 = put_op oid (\<lambda>y. y\<lparr>op_status := Failed, finished_at := Some (e_now v), op_error := Some ''abandoned''\<rparr>) d1
             in (if (case ACTIONS (op_action x) of Some spec \<Rightarrow> rng_state rng = a_in_progress spec | None \<Rightarrow> False)
                 then put_range (rng_id rng) (\<lambda>r. r\<lparr>rng_state := failed,
                   error_message := Some (op_action x @ '' abandoned by an operator'')\<rparr>) d2 else d2,
                 Inr released))"

section \<open>Force-releasing a tombstone\<close>

datatype lease_kind = LNone | LTask | LTombstone

record lease_status =
  st_kind :: lease_kind
  st_blocking :: bool
  st_abandoned_at :: "time option"
  st_allowed :: bool

definition tombstone_action :: "string \<Rightarrow> string option" where
  "tombstone_action holder = (let rest = drop (length ABANDONED) holder in
     if has_colon rest then Some (before_sep (CHR '':'') rest) else None)"

text \<open>The newest of the last 20 failed operations of the tombstone's action that was abandoned
  (descending order puts null times first).\<close>

definition abandoned_operation :: "db \<Rightarrow> uuid \<Rightarrow> string \<Rightarrow> operation option" where
  "abandoned_operation d rid holder =
     (let q = filter (\<lambda>x. op_range x = rid \<and> op_status x = Failed \<and>
            (case tombstone_action holder of None \<Rightarrow> True | Some a \<Rightarrow> a = [] \<or> op_action x = a)) (range_operations d);
          q20 = take 20 (filter (\<lambda>x. finished_at x = None) q @
            sort_key (\<lambda>x. - the (finished_at x)) (filter (\<lambda>x. finished_at x \<noteq> None) q))
      in find_row (\<lambda>x. op_error x = Some ''abandoned'' \<and> finished_at x \<noteq> None) q20)"

definition assess :: "env \<Rightarrow> range_row \<Rightarrow> db \<Rightarrow> db \<times> lease_status \<times> lease option" where
  "assess v rng d0 =
     (let d = reconcile v rng d0; rid = rng_id rng; now = e_now v in
      case get_lease d rid of
        None \<Rightarrow> (d, \<lparr>st_kind = LNone, st_blocking = False, st_abandoned_at = None, st_allowed = False\<rparr>, None)
      | Some l \<Rightarrow>
        (let expired = ls_expires l \<le> now;
             out = (\<lambda>k at ok. (d, \<lparr>st_kind = k, st_blocking = \<not> expired, st_abandoned_at = at, st_allowed = ok\<rparr>, Some l))
         in if \<not> startswith (ls_holder l) ABANDONED then out LTask None False
            else if range_in_flight d rid \<noteq> [] then out LTombstone None False
            else if snapshot_busy d rid then out LTombstone None False
            else case abandoned_operation d rid (ls_holder l) of
              None \<Rightarrow> out LTombstone None False
            | Some x \<Rightarrow>
              (let at = the (finished_at x); written = at + e_lease v in
               if written + e_beat v div 2 < ls_expires l then out LTombstone (Some at) False
               else if expired then out LTombstone (Some at) True
               else if now < at + 2 * e_beat v then out LTombstone (Some at) False
               else out LTombstone (Some at) True)))"

definition force_release_tombstone :: "env \<Rightarrow> range_row \<Rightarrow> db \<Rightarrow> (string \<times> bool) reply" where
  "force_release_tombstone v rng d =
     (let (d1, st, l) = assess v rng d in
      case l of None \<Rightarrow> (d1, Inl NoLease)
      | Some row \<Rightarrow>
        if \<not> st_allowed st then (d1, Inl NotProven)
        else (drop_lease (rng_id rng) d1, Inr (ls_holder row, ls_expires row \<le> e_now v)))"

section \<open>Writing a range off\<close>

definition recorded_dicts :: "string \<Rightarrow> json_column \<Rightarrow> (string \<times> json) list list" where
  "recorded_dicts key c = (case load_output c of Some (JObj kvs) \<Rightarrow>
       (case map_of kvs key of Some (JList js) \<Rightarrow> List.map_filter (\<lambda>j. case j of JObj x \<Rightarrow> Some x | _ \<Rightarrow> None) js | _ \<Rightarrow> [])
     | _ \<Rightarrow> [])"

definition jnull :: "json option \<Rightarrow> json" where
  "jnull x = (case x of None \<Rightarrow> JNull | Some j \<Rightarrow> j)"

definition write_off_record :: "(time \<Rightarrow> string) \<Rightarrow> time \<Rightarrow> caller \<Rightarrow> string \<Rightarrow> bool \<Rightarrow> json_column \<Rightarrow> json" where
  "write_off_record isoformat now user reason force c =
     JObj [(''by'', JStr (c_user user)), (''at'', JStr (isoformat now)), (''reason'', JStr reason),
       (''vms'', JList (map (\<lambda>x. JObj [(''name'', jnull (map_of x ''name'')), (''vm_id'', jnull (map_of x ''vm_id''))])
          (recorded_dicts ''vms'' c))),
       (''networks'', JList (filter truthy (map (\<lambda>x. jnull (map_of x ''portgroup'')) (recorded_dicts ''networks'' c)))),
       (''force_release_resources'', JBool force)]"

text \<open>\<^verbatim>\<open>range_abandon.abandon\<close>: a platform administrator records a range destroyed without a
  hypervisor call.\<close>

definition write_off :: "(time \<Rightarrow> string) \<Rightarrow> time \<Rightarrow> uuid \<Rightarrow> caller \<Rightarrow> string \<Rightarrow> bool \<Rightarrow> db \<Rightarrow> unit reply" where
  "write_off isoformat now rid user reason force d =
     (case get_range d rid of None \<Rightarrow> (d, Inl NoRange)
      | Some rng \<Rightarrow>
        if rng_state rng \<noteq> failed then (d, Inl (BadState (rng_state rng)))
        else let c = provisioner_output rng;
                 out = (case load_output c of Some (JObj kvs) \<Rightarrow> kvs | _ \<Rightarrow> []);
                 vms = recorded_dicts ''vms'' c
             in if vms \<noteq> [] \<and> \<not> force then (d, Inl (RecordsVms (length vms)))
                else (audit user ''abandon_range'' rid (put_range rid (\<lambda>r. r\<lparr>rng_state := destroyed,
                   provisioner_output := Doc (JObj (dict_set ''abandoned''
                     (write_off_record isoformat now user reason force c) out))\<rparr>) d), Inr ()))"

section \<open>Rewriting operation rows\<close>

text \<open>Every statement on the operations table rewrites rows in place: it keeps a row's identity,
  range and generation, and never takes a settled operation back into flight.\<close>

locale op_rewrite =
  fixes f :: "operation \<Rightarrow> operation" and P :: "operation \<Rightarrow> bool"
  assumes keeps_id: "op_id (f x) = op_id x"
    and keeps_range: "op_range (f x) = op_range x"
    and keeps_generation: "generation (f x) = generation x"
    and no_revival: "P x \<Longrightarrow> in_flight (f x) \<Longrightarrow> in_flight x"
begin

lemma rewrite_ids: "map op_id (update_where P f xs) = map op_id xs"
  by (simp add: map_update_where keeps_id)

lemma rewrite_keys: "map (\<lambda>x. (op_range x, generation x)) (update_where P f xs) = map (\<lambda>x. (op_range x, generation x)) xs"
  by (simp add: map_update_where keeps_range keeps_generation)

lemma rewrite_in_flight:
  "length (filter (\<lambda>x. op_range x = rid \<and> in_flight x) (update_where P f xs))
   \<le> length (filter (\<lambda>x. op_range x = rid \<and> in_flight x) xs)"
  by (induction xs) (auto simp: update_where_def keeps_range dest: no_revival)

end

definition ops_ok :: "operation list \<Rightarrow> bool" where
  "ops_ok xs = (distinct (map op_id xs) \<and> distinct (map (\<lambda>x. (op_range x, generation x)) xs) \<and>
     (\<forall>rid. length (filter (\<lambda>x. op_range x = rid \<and> in_flight x) xs) \<le> 1))"

context op_rewrite
begin

lemma rewrite_ok: "ops_ok xs \<Longrightarrow> ops_ok (update_where P f xs)"
  using rewrite_in_flight le_trans unfolding ops_ok_def rewrite_ids rewrite_keys by blast

end

text \<open>The statements: flagging, superseding, holding, handing to a bypass, abandoning; settling and
  sending under their conditions.\<close>

interpretation flagged: op_rewrite "\<lambda>y. y\<lparr>op_error := e\<rparr>" P for e P
  by unfold_locales (simp_all add: in_flight_def)

interpretation superseded: op_rewrite
  "\<lambda>x. x\<lparr>op_status := Superseded, finished_at := t, op_error := e\<rparr>" P for t e P
  by unfold_locales (simp_all add: in_flight_def IN_FLIGHT_def)

interpretation given_up: op_rewrite
  "\<lambda>x. x\<lparr>op_status := Failed, finished_at := t, op_error := e\<rparr>" P for t e P
  by unfold_locales (simp_all add: in_flight_def IN_FLIGHT_def)

interpretation held_back: op_rewrite
  "\<lambda>y. y\<lparr>op_status := Held, dispatched_at := None, op_error := e\<rparr>"
  "\<lambda>y. op_id y = i \<and> op_status y \<in> {Pending, Dispatched}" for e i
  by unfold_locales (auto simp: in_flight_def IN_FLIGHT_def)

interpretation bypassed: op_rewrite
  "\<lambda>y. y\<lparr>window_bypass := b y, op_status := (if op_status y = Held then Pending else op_status y), op_error := e y\<rparr>" P
  for b e P
  by unfold_locales (auto simp: in_flight_def IN_FLIGHT_def split: if_splits)

lemma settled_rewrite:
  "s \<notin> set IN_FLIGHT \<Longrightarrow> op_rewrite (\<lambda>y. y\<lparr>op_status := s, finished_at := t, op_error := e y\<rparr>) P"
  by unfold_locales (simp_all add: in_flight_def)

lemma sent_rewrite:
  "s \<in> {Pending, Held} \<Longrightarrow> op_rewrite
     (\<lambda>y. (case sent of
         Some t \<Rightarrow> y\<lparr>dispatch_attempts := dispatch_attempts y + 1, op_status := Dispatched, task_id := Some t,
           dispatched_at := at, op_error := None\<rparr>
       | None \<Rightarrow> y\<lparr>dispatch_attempts := dispatch_attempts y + 1, op_error := Some ''broker_unavailable''\<rparr>))
     (\<lambda>y. op_id y = oid \<and> op_status y = s)"
  by unfold_locales (auto simp: in_flight_def IN_FLIGHT_def split: option.split)

lemma outcomes_settled: "outcomes a s = Some out \<Longrightarrow> out \<in> {Succeeded, Failed} \<and> out \<notin> set IN_FLIGHT"
  by (auto simp: outcomes_def IN_FLIGHT_def split: option.splits if_splits)

lemma settle_ops:
  "range_operations (settle v rng x d) =
   (case outcomes (op_action x) (rng_state rng) of
      None \<Rightarrow> (if (\<exists>sent. dispatched_at x = Some sent \<and> e_stale v < e_now v - sent) \<and> op_error x = None
        then update_where (\<lambda>y. op_id y = op_id x) (\<lambda>y. y\<lparr>op_error := Some ''no_outcome''\<rparr>) (range_operations d)
        else range_operations d)
    | Some out \<Rightarrow> update_where (\<lambda>y. op_id y = op_id x)
        (\<lambda>y. y\<lparr>op_status := out, finished_at := Some (e_now v),
           op_error := (if out = Failed then Some ''range_failed'' else op_error y)\<rparr>) (range_operations d))"
  by (auto simp: settle_def put_op_def release_range_def Let_def split: option.split)

lemma settle_ok: "ops_ok (range_operations d) \<Longrightarrow> ops_ok (range_operations (settle v rng x d))"
  unfolding settle_ops
  using flagged.rewrite_ok op_rewrite.rewrite_ok [OF settled_rewrite] outcomes_settled
  by (auto split: option.split)

lemma reconcile_ok: "ops_ok (range_operations d) \<Longrightarrow> ops_ok (range_operations (reconcile v rng d))"
proof -
  have "ops_ok (range_operations (foldl (\<lambda>d x. settle v rng x d) d xs))" if "ops_ok (range_operations d)" for d xs
    using that by (induction xs arbitrary: d) (auto intro: settle_ok)
  then show "ops_ok (range_operations d) \<Longrightarrow> ops_ok (range_operations (reconcile v rng d))"
    by (simp add: reconcile_def)
qed

lemma settle_frame [frame_simps]:
  "ranges (settle v rng x d) = ranges d" "range_leases (settle v rng x d) = range_leases d"
  "range_snapshots (settle v rng x d) = range_snapshots d" "maintenance_windows (settle v rng x d) = maintenance_windows d"
  "exercises (settle v rng x d) = exercises d" "templates (settle v rng x d) = templates d"
  by (auto simp: settle_def put_op_def release_range_def Let_def split: option.split)

lemma reconcile_frame [frame_simps]:
  "ranges (reconcile v rng d) = ranges d" "range_leases (reconcile v rng d) = range_leases d"
  "range_snapshots (reconcile v rng d) = range_snapshots d"
  "maintenance_windows (reconcile v rng d) = maintenance_windows d"
  "exercises (reconcile v rng d) = exercises d" "templates (reconcile v rng d) = templates d"
proof -
  have "ranges (foldl (\<lambda>d x. settle v rng x d) d xs) = ranges d \<and>
    range_leases (foldl (\<lambda>d x. settle v rng x d) d xs) = range_leases d \<and>
    range_snapshots (foldl (\<lambda>d x. settle v rng x d) d xs) = range_snapshots d \<and>
    maintenance_windows (foldl (\<lambda>d x. settle v rng x d) d xs) = maintenance_windows d \<and>
    exercises (foldl (\<lambda>d x. settle v rng x d) d xs) = exercises d \<and>
    templates (foldl (\<lambda>d x. settle v rng x d) d xs) = templates d" for xs
    by (induction xs arbitrary: d) (simp_all add: frame_simps)
  then show "ranges (reconcile v rng d) = ranges d" "range_leases (reconcile v rng d) = range_leases d"
    "range_snapshots (reconcile v rng d) = range_snapshots d"
    "maintenance_windows (reconcile v rng d) = maintenance_windows d"
    "exercises (reconcile v rng d) = exercises d" "templates (reconcile v rng d) = templates d"
    by (simp_all add: reconcile_def)
qed

lemma supersede_ok: "ops_ok (range_operations d) \<Longrightarrow> ops_ok (range_operations (supersede v rid d))"
  by (simp add: supersede_def superseded.rewrite_ok)

lemma supersede_none: "range_in_flight (supersede v rid d) rid = []"
proof -
  have settled: "\<not> in_flight (x\<lparr>op_status := Superseded, finished_at := t, op_error := e\<rparr>)" for x t e
    by (simp add: in_flight_def IN_FLIGHT_def)
  have "filter (\<lambda>x. op_range x = rid \<and> in_flight x) (update_where (\<lambda>x. op_range x = rid \<and> in_flight x)
      (\<lambda>x. x\<lparr>op_status := Superseded, finished_at := Some (e_now v), op_error := Some ''superseded''\<rparr>) xs) = []" for xs
    by (induction xs) (simp_all add: update_where_def settled)
  then show ?thesis by (simp add: range_in_flight_def supersede_def)
qed

lemma check_cases:
  assumes "check v rng action spec d = (d', r)"
  obtains (refused) e where "r = Inl e" "d' = reconcile v rng d"
  | (destroy) "r = Inr ()" "action = ''destroy''" "d' = supersede v (rng_id rng) (reconcile v rng d)"
      "can_transition_to (rng_state rng) (a_in_progress spec) \<or> parked v (reconcile v rng d) rng"
  | (other) "r = Inr ()" "action \<noteq> ''destroy''" "d' = reconcile v rng d" "range_in_flight d' (rng_id rng) = []"
      "can_transition_to (rng_state rng) (a_in_progress spec)" "worker_acting v d' (rng_id rng) = None"
proof -
  define d1 where "d1 = reconcile v rng d"
  define move where "move = can_transition_to (rng_state rng) (a_in_progress spec)"
  define des where "des = (action = ''destroy'')"
  define power where "power = (action \<in> {''stop'', ''start''})"
  define ex where "ex = (action = ''stop'' \<and> list_ex (\<lambda>x. ex_range x = rng_id rng \<and> ex_state x = ex_running) (exercises d1))"
  define prov where "prov = (action = ''provision'')"
  have "(d', r) = (if \<not> move \<and> \<not> (des \<and> parked v d1 rng) then (d1, Inl (BadState (rng_state rng)))
      else if power \<and> recorded_vms rng = 0 then (d1, Inl NoVms)
      else if power \<and> snapshot_busy d1 (rng_id rng) then (d1, Inl SnapshotBusy)
      else if ex then (d1, Inl ExerciseRunning)
      else if prov \<and> recorded_vms rng > 0 then (d1, Inl (HasVms (recorded_vms rng)))
      else if \<not> des \<and> worker_acting v d1 (rng_id rng) \<noteq> None
        then (d1, Inl (WorkerActing (the (worker_acting v d1 (rng_id rng)))))
      else if des then (supersede v (rng_id rng) d1, Inr ())
      else case range_in_flight d1 (rng_id rng) of [] \<Rightarrow> (d1, Inr ()) | x # _ \<Rightarrow> (d1, Inl (OpInFlight (op_id x))))"
    using assms by (simp only: check_def Let_def d1_def move_def des_def power_def ex_def prov_def)
  then show thesis
    using refused destroy other unfolding d1_def [symmetric] des_def [symmetric] move_def [symmetric]
    by (cases "range_in_flight d1 (rng_id rng)") (simp_all split: if_splits)
qed

lemma check_none: "check v rng action spec d = (d', Inr u) \<Longrightarrow> range_in_flight d' (rng_id rng) = []"
  by (erule check_cases) (simp_all add: supersede_none)

lemma check_ok: "check v rng action spec d = (d', r) \<Longrightarrow> ops_ok (range_operations d) \<Longrightarrow> ops_ok (range_operations d')"
  by (erule check_cases) (simp_all add: reconcile_ok supersede_ok)

lemma check_ranges: "check v rng action spec d = (d', r) \<Longrightarrow> ranges d' = ranges d"
  by (erule check_cases) (simp_all add: frame_simps supersede_def)

section \<open>Acceptance\<close>

lemma flush_rows_frame:
  "flush_rows rows d = Some d' \<Longrightarrow> range_operations d' = range_operations d \<and> ranges d' = ranges d \<and>
   range_leases d' = range_leases d"
  by (simp add: flush_rows_Some)

lemma reserve_frame:
  assumes "reserve ids now rng domain kind pool hs d = (d', r)"
  shows "range_operations d' = range_operations d \<and> ranges d' = ranges d \<and> range_leases d' = range_leases d"
  using assms by (cases rule: reserve_cases) (auto simp: free_destroyed_def dest!: flush_rows_frame)

lemma sync_frame:
  assumes "sync ids now rng domain kind pool hs d = (d', r)"
  shows "range_operations d' = range_operations d \<and> ranges d' = ranges d \<and> range_leases d' = range_leases d"
proof -
  obtain rs where e: "(if hs = [] then (d\<lparr>network_reservations := rs\<rparr>, Inr [])
      else reserve ids now rng domain kind pool hs (d\<lparr>network_reservations := rs\<rparr>)) = (d', r)"
    using assms by (auto simp: sync_def Let_def)
  then show ?thesis
    using reserve_frame [of ids now rng domain kind pool hs "d\<lparr>network_reservations := rs\<rparr>" d' r]
    by (auto split: if_splits)
qed

lemma foldl_max_ge: "(x::nat) \<in> set xs \<or> x \<le> m \<Longrightarrow> x \<le> foldl max m xs"
proof (induction xs arbitrary: m)
  case (Cons y ys)
  then have "x \<in> set ys \<or> x \<le> max m y" by auto
  then show ?case using Cons.IH [of "max m y"] by simp
qed simp

lemma next_generation_gt:
  assumes "x \<in> set (range_operations d)" "op_range x = rid"
  shows "generation x < next_generation d rid"
proof -
  define gs where "gs = map generation (filter (\<lambda>x. op_range x = rid) (range_operations d))"
  have "generation x \<in> set gs" using assms by (auto simp: gs_def)
  then have "generation x \<le> foldl max 0 gs" using foldl_max_ge [of "generation x" gs 0] by blast
  then show ?thesis by (simp add: next_generation_def gs_def)
qed

lemma new_op_simps [simp]:
  "op_id (new_op v rng user action key bypass gen) = e_op_id v"
  "op_range (new_op v rng user action key bypass gen) = rng_id rng"
  "generation (new_op v rng user action key bypass gen) = gen"
  "op_status (new_op v rng user action key bypass gen) = Pending"
  "op_action (new_op v rng user action key bypass gen) = action"
  by (simp_all add: new_op_def)

lemma accepted_ok:
  assumes ok: "ops_ok (range_operations d)" and none: "range_in_flight d (rng_id rng) = []"
    and fresh: "e_op_id v \<notin> op_id ` set (range_operations d)"
  shows "ops_ok (range_operations d @ [new_op v rng user action key bypass (next_generation d (rng_id rng))])"
proof -
  have "(rng_id rng, next_generation d (rng_id rng)) \<notin> (\<lambda>x. (op_range x, generation x)) ` set (range_operations d)"
    using next_generation_gt [of _ d "rng_id rng"] by fastforce
  moreover have "length (filter (\<lambda>x. op_range x = rid \<and> in_flight x) (range_operations d @
      [new_op v rng user action key bypass (next_generation d (rng_id rng))])) \<le> 1" for rid
    using ok none by (cases "rid = rng_id rng") (simp_all add: ops_ok_def range_in_flight_def)
  ultimately show ?thesis using ok fresh by (auto simp: ops_ok_def)
qed

text \<open>The ways an acceptance ends.\<close>

lemma noise_reserve_frame:
  "noise_reserve v rng d = (d', r) \<Longrightarrow>
   range_operations d' = range_operations d \<and> ranges d' = ranges d \<and> range_leases d' = range_leases d"
  unfolding noise_reserve_def Let_def by (rule sync_frame)

lemma proceed_cases:
  assumes "proceed v rng user action spec key bypass d = (d', r)"
  obtains (check_refused) e where "r = Inl e" "check v rng action spec d = (d', Inl e)"
  | (pool_refused) e d1 where "r = Inl (NoPool e)" "check v rng action spec d = (d1, Inr ())" "noise_reserve v rng d1 = (d', Inl e)"
  | (recorded) d1 d2 where "check v rng action spec d = (d1, Inr ())" "range_operations d2 = range_operations d1"
      "ranges d2 = ranges d1" "range_leases d2 = range_leases d1"
      "record_accepted v rng user action spec key bypass d d2 = (d', r)"
proof -
  obtain d1 q where c: "check v rng action spec d = (d1, q)" by (cases "check v rng action spec d")
  show thesis
  proof (cases q)
    case (Inl e)
    then show thesis using assms c check_refused [of e] by (simp add: proceed_def)
  next
    case (Inr u)
    note e = assms [unfolded proceed_def c Inr prod.case sum.case]
    obtain d2 w where n: "noise_reserve v rng d1 = (d2, w)" by (cases "noise_reserve v rng d1")
    have f: "range_operations d2 = range_operations d1" "ranges d2 = ranges d1" "range_leases d2 = range_leases d1"
      using noise_reserve_frame [OF n] by simp_all
    show thesis
    proof (cases "action = ''provision''")
      case False
      show thesis using recorded [of d1 d1] c Inr e [unfolded if_not_P [OF False]] by simp
    next
      case True
      note e' = e [unfolded if_P [OF True] n prod.case]
      show thesis
      proof (cases w)
        case (Inl x)
        then show thesis using pool_refused [of x d1] c Inr n \<open>q = Inr u\<close> e' by simp
      next
        case (Inr y)
        then show thesis
          using recorded [of d1 "d2\<lparr>hooks := hooks d2 @ [BuildAccepted (rng_id rng)]\<rparr>"] c \<open>q = Inr u\<close> e' f by simp
      qed
    qed
  qed
qed

lemma replayed_SomeD:
  "replayed d rng key = Some x \<Longrightarrow> x \<in> set (range_operations d) \<and> op_range x = rng_id rng \<and> idempotency_key x = key \<and>
     key \<noteq> None \<and> key \<noteq> Some []"
  by (auto simp: replayed_def dest: find_row_SomeD split: if_splits)

lemma locked_rangeD: "locked_range d rid user = Some rng \<Longrightarrow> rng_id rng = rid \<and> rng \<in> set (ranges d) \<and> rng_tenant rng = Some (c_tenant user)"
  by (auto simp: locked_range_def dest: find_row_SomeD)

lemma accept_cases:
  assumes "accept v rid user action key bypass d = (d', r)"
  obtains (refused) e where "r = Inl e" "d' = d"
  | (replay) x where "r = Inr (x, False)" "d' = d" "x \<in> set (range_operations d)" "idempotency_key x = key" "key \<noteq> None"
      "request_hash x = e_digest v action" "op_range x = rid" "key \<noteq> Some []"
  | (proceed) rng spec where "ACTIONS action = Some spec" "locked_range d rid user = Some rng" "replayed d rng key = None"
      "window_refusal v d rng action bypass = None" "proceed v rng user action spec key bypass d = (d', r)"
proof (cases "bad_bypass action bypass")
  case True
  then show thesis using assms refused [of BadBypass] by (simp add: accept_def)
next
  case False
  note e = assms [unfolded accept_def if_not_P [OF False]]
  show thesis
  proof (cases "ACTIONS action")
    case None
    then show thesis using e refused [of UnknownAction] by simp
  next
    case (Some spec)
    note spec = this
    show thesis
    proof (cases "locked_range d rid user")
      case None
      then show thesis using e spec refused [of NoRange] by simp
    next
      case (Some rng)
      note rng = this
      show thesis
      proof (cases "replayed d rng key")
        case (Some x)
        then show thesis using e spec rng refused replay replayed_SomeD [OF Some] locked_rangeD [OF rng]
          by (auto split: if_splits)
      next
        case None
        then show thesis using e spec rng refused proceed
          by (cases "window_refusal v d rng action bypass") auto
      qed
    qed
  qed
qed

end
