(* ===== verification/Range_Resend.thy ===== *)
theory Range_Resend
  imports Range_Ops "HOL-Library.Product_Lexorder"
begin

text \<open>
  The re-send pass of \<^verbatim>\<open>app/range_ops/service.py\<close>: \<open>released_holds\<close> pages through the held operations
  in (created, id) order until enough of them are outside every window, \<open>redispatch_pending\<close>
  sends the oldest pending operations and then those. The clock is read once per pass.
\<close>

section \<open>The model\<close>

definition HELD_PAGE :: nat where
  "HELD_PAGE = 200"

definition op_order :: "operation \<Rightarrow> time \<times> uuid" where
  "op_order x = (op_created x, op_id x)"

text \<open>One page: held operations after the last one seen, oldest first.\<close>

definition held_page :: "db \<Rightarrow> (time \<times> uuid) option \<Rightarrow> operation list" where
  "held_page d seen = take HELD_PAGE (sort_key op_order (filter (\<lambda>x. op_status x = Held \<and>
     (case seen of None \<Rightarrow> True
      | Some s \<Rightarrow> fst s < op_created x \<or> op_created x = fst s \<and> snd s < op_id x)) (range_operations d)))"

definition page_ranges :: "db \<Rightarrow> operation list \<Rightarrow> range_row list" where
  "page_ranges d page = filter (\<lambda>r. rng_id r \<in> set (map op_range page)) (ranges d)"

definition after_seen :: "(time \<times> uuid) option \<Rightarrow> operation \<Rightarrow> bool" where
  "after_seen seen x = (case seen of None \<Rightarrow> True | Some s \<Rightarrow> s < op_order x)"

lemma held_page_alt:
  "held_page d seen = take HELD_PAGE (sort_key op_order (filter (\<lambda>x. op_status x = Held \<and> after_seen seen x) (range_operations d)))"
  unfolding held_page_def after_seen_def op_order_def
  by (rule arg_cong [where f = "\<lambda>P. take HELD_PAGE (sort_key (\<lambda>x. (op_created x, op_id x)) (filter P (range_operations d)))"])
    (auto simp: fun_eq_iff less_prod_def' split: option.split)

text \<open>The paging loop: \<open>acc\<close> is what it found so far.\<close>

function holds_loop :: "(string \<Rightarrow> json option) \<Rightarrow> time \<Rightarrow> db \<Rightarrow> nat \<Rightarrow> (time \<times> uuid) option \<Rightarrow> operation list \<Rightarrow> operation list" where
  "holds_loop yaml at d limit seen acc =
     (if length acc < limit then
        (let page = held_page d seen in
         if page = [] then acc
         else let still = held_range_ids yaml d (page_ranges d page) at in
           holds_loop yaml at d limit (Some (op_order (last page)))
             (acc @ take (limit - length acc) (filter (\<lambda>x. op_range x \<notin> set still) page)))
      else acc)"
  by pat_completeness auto

text \<open>Each page moves past at least one held operation.\<close>

lemma page_progress:
  assumes "held_page d seen \<noteq> []"
  shows "{x \<in> set (range_operations d). op_status x = Held \<and> after_seen (Some (op_order (last (held_page d seen)))) x}
    \<subset> {x \<in> set (range_operations d). op_status x = Held \<and> after_seen seen x}"
proof -
  let ?l = "last (held_page d seen)"
  have "?l \<in> set (held_page d seen)" using assms by simp
  then have l: "?l \<in> set (range_operations d)" "op_status ?l = Held" "after_seen seen ?l"
    by (auto simp: held_page_alt dest!: in_set_takeD)
  have "after_seen seen x" if "after_seen (Some (op_order ?l)) x" for x
    using that l(3) by (auto simp: after_seen_def split: option.splits)
  moreover have "\<not> after_seen (Some (op_order ?l)) ?l" by (simp add: after_seen_def)
  ultimately show ?thesis using l by blast
qed

termination holds_loop
proof (relation "measure (\<lambda>(yaml, at, d, limit, seen, acc).
    card {x \<in> set (range_operations d). op_status x = Held \<and> after_seen seen x})")
  fix yaml :: "string \<Rightarrow> json option" and at :: time and d :: db and limit :: nat and seen acc page still
  assume "page = held_page d seen" "page \<noteq> []"
  then show "((yaml, at, d, limit, Some (op_order (last page)), acc @ take (limit - length acc)
      (filter (\<lambda>x. op_range x \<notin> set still) page)), yaml, at, d, limit, seen, acc)
    \<in> measure (\<lambda>(yaml, at, d, limit, seen, acc). card {x \<in> set (range_operations d). op_status x = Held \<and> after_seen seen x})"
    using psubset_card_mono [OF _ page_progress [of d seen]] by simp
qed simp

declare holds_loop.simps [simp del]

definition released_holds :: "(string \<Rightarrow> json option) \<Rightarrow> time \<Rightarrow> db \<Rightarrow> nat \<Rightarrow> operation list" where
  "released_holds yaml at d limit = holds_loop yaml at d limit None []"

text \<open>The pass. \<open>sent\<close> is the broker's answer per operation; \<open>limit - len(pending)\<close> is never
  negative.\<close>

definition pending_ops :: "time \<Rightarrow> nat \<Rightarrow> db \<Rightarrow> operation list" where
  "pending_ops cutoff limit d = take limit (sort_key op_created (filter (\<lambda>x. op_status x = Pending \<and> op_created x \<le> cutoff) (range_operations d)))"

fun send_all :: "env \<Rightarrow> (uuid \<Rightarrow> string option) \<Rightarrow> operation list \<Rightarrow> db \<Rightarrow> db \<times> nat" where
  "send_all v sent [] d = (d, 0)"
| "send_all v sent (x # xs) d =
     (let (d1, ok) = dispatch v (sent (op_id x)) (\<lambda>d. d) (op_id x) d; (d2, n) = send_all v sent xs d1
      in (d2, (if ok then 1 else 0) + n))"

definition redispatch_pending :: "env \<Rightarrow> (uuid \<Rightarrow> string option) \<Rightarrow> time \<Rightarrow> nat \<Rightarrow> db \<Rightarrow> db \<times> nat" where
  "redispatch_pending v sent min_age limit d =
     (let pending = pending_ops (e_now v - min_age) limit d;
          released = released_holds (e_yaml v) (e_now v) d (limit - length pending)
      in send_all v sent (pending @ released) d)"

section \<open>What the paging finds\<close>

definition window_free :: "(string \<Rightarrow> json option) \<Rightarrow> time \<Rightarrow> db \<Rightarrow> operation \<Rightarrow> bool" where
  "window_free yaml at d x = (case get_range d (op_range x) of None \<Rightarrow> True | Some r \<Rightarrow> covering_range yaml d r at = [])"

definition held_in_order :: "db \<Rightarrow> (time \<times> uuid) option \<Rightarrow> operation list" where
  "held_in_order d seen = sort_key op_order (filter (\<lambda>x. op_status x = Held \<and> after_seen seen x) (range_operations d))"

text \<open>The keys the database enforces, and every range has a tenant.\<close>

definition keys_ok :: "db \<Rightarrow> bool" where
  "keys_ok d = (distinct (map rng_id (ranges d)) \<and> distinct (map tm_id (templates d)) \<and>
     distinct (map op_id (range_operations d)) \<and> list_all (\<lambda>r. rng_tenant r \<noteq> None) (ranges d))"

lemma page_free:
  assumes "keys_ok d" "x \<in> set page"
  shows "op_range x \<notin> set (held_range_ids yaml d (page_ranges d page) at) \<longleftrightarrow> window_free yaml at d x"
proof -
  have k: "distinct (map tm_id (templates d))" "distinct (map rng_id (page_ranges d page))"
    "\<forall>r \<in> set (page_ranges d page). rng_tenant r \<noteq> None"
    using assms(1) by (auto simp: keys_ok_def page_ranges_def list_all_iff distinct_map_filter)
  show ?thesis
  proof (cases "get_range d (op_range x)")
    case None
    have "set (held_range_ids yaml d rngs at) \<subseteq> rng_id ` set rngs" for rngs
      by (auto simp: held_range_ids_def Let_def)
    moreover have "op_range x \<notin> rng_id ` set (page_ranges d page)"
      using None by (auto simp: get_range_def find_row_None_iff page_ranges_def)
    ultimately show ?thesis using None by (auto simp: window_free_def)
  next
    case (Some r)
    then have r: "r \<in> set (ranges d)" "rng_id r = op_range x" by (auto simp: get_range_def dest: find_row_SomeD)
    then have "r \<in> set (page_ranges d page)" using assms(2) by (auto simp: page_ranges_def)
    from held_range_ids_iff [OF k(1) this k(2,3)] show ?thesis using Some r by (simp add: window_free_def)
  qed
qed

lemma filter_drop_strict:
  fixes f :: "'b \<Rightarrow> 'k :: linorder"
  assumes "sorted_wrt (\<lambda>x y. f x < f y) xs" "take n xs \<noteq> []"
  shows "filter (\<lambda>x. f (last (take n xs)) < f x) xs = drop n xs"
proof -
  obtain ys l where yl: "take n xs = ys @ [l]" using assms(2) by (cases "take n xs" rule: rev_cases) simp_all
  have xs: "xs = ys @ l # drop n xs" using append_take_drop_id [of n xs] yl by simp
  from assms(1) have "sorted_wrt (\<lambda>x y. f x < f y) (ys @ l # drop n xs)" using xs by simp
  then have "filter (\<lambda>x. f l < f x) (ys @ l # drop n xs) = drop n xs"
    by (force simp: sorted_wrt_append filter_empty_conv filter_id_conv)
  then show ?thesis using xs yl by simp
qed

lemma held_strict: "keys_ok d \<Longrightarrow> sorted_wrt (\<lambda>x y. op_order x < op_order y) (held_in_order d seen)"
proof -
  assume "keys_ok d"
  then have "distinct (map op_order (range_operations d))"
    by (simp add: keys_ok_def op_order_def distinct_map inj_on_def)
  then have "distinct (map op_order (held_in_order d seen))"
    by (simp add: held_in_order_def distinct_map inj_on_def)
  moreover have "sorted (map op_order (held_in_order d seen))" by (simp add: held_in_order_def)
  ultimately have "sorted_wrt (<) (map op_order (held_in_order d seen))" by (simp only: strict_sorted_iff simp_thms)
  then show ?thesis by (simp add: sorted_wrt_map)
qed

lemma held_next:
  assumes "keys_ok d" "held_page d seen \<noteq> []"
  shows "held_in_order d (Some (op_order (last (held_page d seen)))) = drop HELD_PAGE (held_in_order d seen)"
proof -
  let ?l = "last (held_page d seen)"
  have p: "held_page d seen = take HELD_PAGE (held_in_order d seen)" by (simp add: held_page_alt held_in_order_def)
  have "?l \<in> set (held_page d seen)" using assms(2) by simp
  then have "after_seen seen ?l" by (auto simp: held_page_alt dest!: in_set_takeD)
  then have "(op_status x = Held \<and> after_seen (Some (op_order ?l)) x) \<longleftrightarrow>
      op_order ?l < op_order x \<and> op_status x = Held \<and> after_seen seen x" for x
    by (auto simp: after_seen_def split: option.splits)
  then have "held_in_order d (Some (op_order ?l)) = filter (\<lambda>x. op_order ?l < op_order x) (held_in_order d seen)"
    by (simp add: held_in_order_def filter_sort conj_commute)
  then show ?thesis using filter_drop_strict [OF held_strict [OF assms(1)]] assms(2) unfolding p by metis
qed

lemma holds_loop_finds:
  assumes "keys_ok d"
  shows "holds_loop yaml at d limit seen acc = acc @ take (limit - length acc) (filter (window_free yaml at d) (held_in_order d seen))"
  using assms
proof (induction yaml at d limit seen acc rule: holds_loop.induct)
  case (1 yaml at d limit seen acc)
  let ?page = "held_page d seen" and ?free = "window_free yaml at d"
  have p: "?page = take HELD_PAGE (held_in_order d seen)" by (simp add: held_page_alt held_in_order_def)
  consider "\<not> length acc < limit" | "length acc < limit" "?page = []" | "length acc < limit" "?page \<noteq> []" by blast
  then show ?case
  proof cases
    case 1
    then show ?thesis by (subst holds_loop.simps) simp
  next
    case 2
    then have "held_in_order d seen = []" using p by (simp add: HELD_PAGE_def)
    then show ?thesis using 2 by (subst holds_loop.simps) simp
  next
    case 3
    have f: "filter (\<lambda>x. op_range x \<notin> set (held_range_ids yaml d (page_ranges d ?page) at)) ?page = filter ?free ?page"
      using page_free [OF "1.prems"] by (intro filter_cong) simp_all
    have s: "filter ?free (held_in_order d seen) = filter ?free ?page @ filter ?free (drop HELD_PAGE (held_in_order d seen))"
      unfolding p filter_append [symmetric] by simp
    show ?thesis
      using "1.IH" [OF 3(1) refl 3(2) refl "1.prems"] 3 unfolding s
      by (subst holds_loop.simps) (simp add: Let_def f held_next [OF "1.prems" 3(2)] min_def)
  qed
qed

text \<open>C17: However many held operations there are, the paging ends and finds exactly the oldest
  \<open>limit\<close> held operations whose range no window covers, in order: one that is still held takes
  no place, whichever page it is on.\<close>

theorem released_holds_exact:
  assumes "keys_ok d"
  shows "released_holds yaml at d limit =
    take limit (filter (window_free yaml at d) (sort_key op_order (filter (\<lambda>x. op_status x = Held) (range_operations d))))"
  using holds_loop_finds [OF assms, of yaml at limit None "[]"]
  by (simp add: released_holds_def held_in_order_def after_seen_def)

definition held_sample :: db where
  "held_sample = empty_db\<lparr>ranges := [sample_range ''r'' provisioning, sample_range ''s'' provisioning, sample_range ''t'' provisioning],
     maintenance_windows := [sample_window ''w'' None ''ranges'' [''s''] [] 900],
     range_operations := map (\<lambda>(i, rid, t, s). \<lparr>op_id = i, op_tenant = Some ''n'', op_range = rid, op_action = ''provision'',
       generation = 1, idempotency_key = None, request_hash = [], requested_by = None, window_bypass = None,
       op_status = s, task_id = None, dispatch_attempts = 1, op_error = None, op_created = t, dispatched_at = None,
       finished_at = None\<rparr>) [(''a'', ''r'', 9, Held), (''b'', ''s'', 3, Held), (''c'', ''t'', 5, Pending)]\<rparr>"

theorem released_holds_exact_witness:
  "map op_id (released_holds (\<lambda>_. None) 150 held_sample 1) = [''a'']"
proof -
  have "keys_ok held_sample" by code_simp
  from released_holds_exact [OF this, of "\<lambda>_. None" 150 1] show ?thesis by (simp only:) code_simp
qed

section \<open>What a pass delivers\<close>

definition delivered :: "env \<Rightarrow> (uuid \<Rightarrow> string option) \<Rightarrow> uuid list \<Rightarrow> operation \<Rightarrow> operation" where
  "delivered v sent is y = (if op_id y \<in> set is then y\<lparr>dispatch_attempts := dispatch_attempts y + 1, op_status := Dispatched,
     task_id := sent (op_id y), dispatched_at := Some (e_now v), op_error := None\<rparr> else y)"

lemma delivered_id [simp]: "op_id (delivered v sent is y) = op_id y"
  by (simp add: delivered_def)

lemma dispatch_delivers:
  assumes "distinct (map op_id (range_operations d))" "x \<in> set (range_operations d)" "op_status x \<in> {Pending, Held}"
    and "sent (op_id x) = Some t"
  shows "range_operations (fst (dispatch v (sent (op_id x)) (\<lambda>d. d) (op_id x) d)) = map (delivered v sent [op_id x]) (range_operations d)"
    and "snd (dispatch v (sent (op_id x)) (\<lambda>d. d) (op_id x) d)"
proof -
  have same: "y = x" if "y \<in> set (range_operations d)" "op_id y = op_id x" for y
    using assms(1,2) that by (auto simp: distinct_map inj_on_def)
  have "find_row (\<lambda>y. op_id y = op_id x \<and> op_status y \<in> {Pending, Held}) (range_operations d) \<noteq> None"
    using assms(2,3) by (auto simp: find_row_None_iff)
  then obtain y where y: "find_row (\<lambda>y. op_id y = op_id x \<and> op_status y \<in> {Pending, Held}) (range_operations d) = Some y" by blast
  then have "y = x" using same by (blast dest: find_row_SomeD)
  with y assms(4) same show "range_operations (fst (dispatch v (sent (op_id x)) (\<lambda>d. d) (op_id x) d))
      = map (delivered v sent [op_id x]) (range_operations d)"
    and "snd (dispatch v (sent (op_id x)) (\<lambda>d. d) (op_id x) d)"
    by (auto simp: dispatch_def Let_def update_where_def delivered_def)
qed

lemma send_all_delivers:
  assumes "distinct (map op_id (range_operations d))" "distinct (map op_id xs)"
    and "\<forall>x \<in> set xs. x \<in> set (range_operations d) \<and> op_status x \<in> {Pending, Held}" "\<forall>i. sent i \<noteq> None"
  shows "range_operations (fst (send_all v sent xs d)) = map (delivered v sent (map op_id xs)) (range_operations d)
    \<and> snd (send_all v sent xs d) = length xs"
  using assms(1-3)
proof (induction xs arbitrary: d)
  case Nil
  then show ?case by (simp add: delivered_def)
next
  case (Cons x xs)
  define d1 where "d1 = fst (dispatch v (sent (op_id x)) (\<lambda>d. d) (op_id x) d)"
  obtain t where t: "sent (op_id x) = Some t" using assms(4) by blast
  have d1: "range_operations d1 = map (delivered v sent [op_id x]) (range_operations d)"
    and ok: "snd (dispatch v (sent (op_id x)) (\<lambda>d. d) (op_id x) d)"
    using dispatch_delivers [where d = d and x = x and sent = sent and v = v and t = t] Cons.prems(1,3) t
    unfolding d1_def by simp_all
  have ids: "distinct (map op_id (range_operations d1))" using Cons.prems(1) by (simp add: d1 comp_def)
  have rows: "\<forall>z \<in> set xs. z \<in> set (range_operations d1) \<and> op_status z \<in> {Pending, Held}"
  proof
    fix z assume z: "z \<in> set xs"
    then have "op_id z \<noteq> op_id x" using Cons.prems(2) by (metis distinct.simps(2) list.simps(9) imageI list.set_map)
    then have "delivered v sent [op_id x] z = z" by (simp add: delivered_def)
    moreover have "z \<in> set (range_operations d)" "op_status z \<in> {Pending, Held}" using Cons.prems(3) z by auto
    ultimately show "z \<in> set (range_operations d1) \<and> op_status z \<in> {Pending, Held}" unfolding d1 by (force simp: image_iff)
  qed
  have step: "send_all v sent (x # xs) d = (fst (send_all v sent xs d1), Suc (snd (send_all v sent xs d1)))"
    using ok by (cases "dispatch v (sent (op_id x)) (\<lambda>d. d) (op_id x) d") (simp add: d1_def split: prod.split)
  have "delivered v sent (map op_id xs) (delivered v sent [op_id x] y) = delivered v sent (map op_id (x # xs)) y" for y
    using Cons.prems(2) by (auto simp: delivered_def)
  then show ?case using Cons.IH [OF ids _ rows] Cons.prems(2) unfolding step by (simp add: d1)
qed

text \<open>C18: With the broker up, one pass sends the oldest pending operations that are past the minimum
  age and then the oldest held ones outside every window, up to the limit: all of them are
  dispatched with the task ids the broker gave, counted, and no other operation is touched.\<close>

theorem resend_delivers:
  assumes "keys_ok d" "\<forall>i. sent i \<noteq> None"
    and "xs = pending_ops (e_now v - min_age) limit d"
    and "ys = take (limit - length xs) (filter (window_free (e_yaml v) (e_now v) d)
      (sort_key op_order (filter (\<lambda>x. op_status x = Held) (range_operations d))))"
  shows "range_operations (fst (redispatch_pending v sent min_age limit d)) =
      map (delivered v sent (map op_id (xs @ ys))) (range_operations d) \<and>
    snd (redispatch_pending v sent min_age limit d) = length (xs @ ys)"
proof -
  have k: "distinct (map op_id (range_operations d))" using assms(1) by (simp add: keys_ok_def)
  have x: "z \<in> set (range_operations d) \<and> op_status z = Pending" if "z \<in> set xs" for z
    using that unfolding assms(3) pending_ops_def by (auto dest!: in_set_takeD)
  have y: "z \<in> set (range_operations d) \<and> op_status z = Held" if "z \<in> set ys" for z
    using that unfolding assms(4) by (auto dest!: in_set_takeD)
  have inj: "inj_on op_id (set (range_operations d))" and d: "distinct (range_operations d)"
    using k by (simp_all add: distinct_map)
  have "distinct xs" "distinct ys" using d by (simp_all add: assms(3,4) pending_ops_def)
  then have "distinct (xs @ ys)" using x y by fastforce
  moreover have "set (xs @ ys) \<subseteq> set (range_operations d)" using x y by auto
  ultimately have "distinct (map op_id (xs @ ys))" using inj unfolding distinct_map by (blast intro: inj_on_subset)
  moreover have "\<forall>z \<in> set (xs @ ys). z \<in> set (range_operations d) \<and> op_status z \<in> {Pending, Held}" using x y by auto
  moreover have "redispatch_pending v sent min_age limit d = send_all v sent (xs @ ys) d"
    using holds_loop_finds [OF assms(1), of "e_yaml v" "e_now v" "limit - length xs" None "[]"]
    by (simp add: redispatch_pending_def Let_def assms(3) [symmetric] assms(4) released_holds_def held_in_order_def after_seen_def)
  ultimately show ?thesis using send_all_delivers [OF k _ _ assms(2)] by simp
qed

definition resend_env :: env where
  "resend_env = \<lparr>e_now = 150, e_dbnow = 150, e_lease = 120, e_beat = 30, e_stale = 3600, e_yaml = (\<lambda>_. None),
     e_digest = (\<lambda>a. a), e_ids = (\<lambda>_. ''n''), e_op_id = [], e_noise = (\<lambda>_. \<lparr>np_domain = [], np_pool = [], np_nodes = []\<rparr>)\<rparr>"

lemma resend_sample:
  "map op_id (pending_ops (e_now resend_env - 15) 50 held_sample @
     take (50 - length (pending_ops (e_now resend_env - 15) 50 held_sample))
       (filter (window_free (e_yaml resend_env) (e_now resend_env) held_sample)
         (sort_key op_order (filter (\<lambda>x. op_status x = Held) (range_operations held_sample))))) = [''c'', ''a'']"
  by code_simp

lemma length_of_map: "map f xs = ys \<Longrightarrow> length xs = length ys"
  by auto

theorem resend_delivers_witness:
  "map op_status (range_operations (fst (redispatch_pending resend_env (\<lambda>i. Some i) 15 50 held_sample))) = [Dispatched, Held, Dispatched]
   \<and> snd (redispatch_pending resend_env (\<lambda>i. Some i) 15 50 held_sample) = length [''c'', ''a'']"
proof -
  have k: "keys_ok held_sample" by code_simp
  have up: "\<forall>i. Some i \<noteq> (None :: string option)" by simp
  note p = resend_delivers [OF k up refl refl, of resend_env 15 50, unfolded resend_sample length_of_map [OF resend_sample]]
  have "map op_status (map (delivered resend_env (\<lambda>i. Some i) [''c'', ''a'']) (range_operations held_sample)) = [Dispatched, Held, Dispatched]"
    by code_simp
  then show ?thesis using p by (simp only: simp_thms)
qed

end
