(* ===== verification/Range_Op_Protocol.thy ===== *)
theory Range_Op_Protocol
  imports Range_Ops
begin

text \<open>
  Properties of the operation protocol of \<^verbatim>\<open>app/range_ops/service.py\<close>: what an acceptance
  leaves behind, one operation in flight per range whatever happens between API processes,
  workers and operators, replays under an Idempotency-Key, settling from the observed
  state, and the evidence a force-release needs.
\<close>

section \<open>What stays of an operation\<close>

text \<open>The columns no statement changes after the insert.\<close>

definition fixed_columns :: "operation \<Rightarrow> uuid \<times> uuid \<times> string \<times> nat \<times> string option \<times> string" where
  "fixed_columns x = (op_id x, op_range x, op_action x, generation x, idempotency_key x, request_hash x)"

lemma settle_columns: "map fixed_columns (range_operations (settle v rng x d)) = map fixed_columns (range_operations d)"
  unfolding settle_ops by (auto simp: map_update_where fixed_columns_def split: option.split)

lemma reconcile_columns:
  "map fixed_columns (range_operations (reconcile v rng d)) = map fixed_columns (range_operations d)"
proof -
  have "map fixed_columns (range_operations (foldl (\<lambda>d x. settle v rng x d) d xs)) = map fixed_columns (range_operations d)" for xs
    by (induction xs arbitrary: d) (simp_all add: settle_columns)
  then show ?thesis by (simp add: reconcile_def)
qed

lemma check_columns:
  "check v rng action spec d = (d', r) \<Longrightarrow> map fixed_columns (range_operations d') = map fixed_columns (range_operations d)"
  by (erule check_cases)
    (simp_all add: reconcile_columns supersede_def map_update_where fixed_columns_def [of "_\<lparr>op_status := _\<rparr>"]
      fixed_columns_def)

lemma columns_ids: "map fixed_columns xs = map fixed_columns ys \<Longrightarrow> map op_id xs = map op_id ys"
  by (drule arg_cong [where f = "map fst"]) (simp add: fixed_columns_def comp_def)

lemma check_ids: "check v rng action spec d = (d', r) \<Longrightarrow> op_id ` set (range_operations d') = op_id ` set (range_operations d)"
  using columns_ids [OF check_columns] by (metis list.set_map)

section \<open>What an acceptance leaves\<close>

lemma record_accepted_cases:
  assumes "record_accepted v rng user action spec key bypass start d = (d', r)"
  obtains (conflict) "r = Inl KeyConflict" "d' = start" "key_taken d (rng_id rng) key"
  | (created) x where "x = new_op v rng user action key bypass (next_generation d (rng_id rng))" "r = Inr (x, True)"
      "range_operations d' = range_operations d @ [x]"
      "ranges d' = update_where (\<lambda>r. rng_id r = rng_id rng) (\<lambda>r. r\<lparr>rng_state := a_in_progress spec, error_message := None\<rparr>) (ranges d)"
      "range_leases d' = range_leases d" "\<not> key_taken d (rng_id rng) key"
proof (cases "key_taken d (rng_id rng) key")
  case True
  then show thesis using assms conflict by (simp add: record_accepted_def)
next
  case False
  define x where "x = new_op v rng user action key bypass (next_generation d (rng_id rng))"
  have "r = Inr (x, True)" "range_operations d' = range_operations d @ [x]"
      "ranges d' = update_where (\<lambda>r. rng_id r = rng_id rng) (\<lambda>r. r\<lparr>rng_state := a_in_progress spec, error_message := None\<rparr>) (ranges d)"
      "range_leases d' = range_leases d"
    using assms False by (auto simp: record_accepted_def Let_def x_def put_range_def)
  then show thesis using created x_def False by blast
qed

lemma accept_created:
  assumes "accept v rid user action key bypass d = (d', Inr (x, True))"
  obtains rng spec d1 where "ACTIONS action = Some spec" "locked_range d rid user = Some rng" "replayed d rng key = None"
    "window_refusal v d rng action bypass = None" "check v rng action spec d = (d1, Inr ())"
    "x = new_op v rng user action key bypass (next_generation d1 rid)" "range_operations d' = range_operations d1 @ [x]"
    "ranges d' = update_where (\<lambda>r. rng_id r = rid) (\<lambda>r. r\<lparr>rng_state := a_in_progress spec, error_message := None\<rparr>) (ranges d)"
    "range_leases d' = range_leases d1" "\<not> key_taken d1 rid key" "rng_id rng = rid"
  using assms
proof (cases rule: accept_cases)
  case (proceed rng spec)
  have id: "rng_id rng = rid" using proceed(2) locked_rangeD by blast
  from proceed(5) show thesis
  proof (cases rule: proceed_cases)
    case (recorded d1 d2)
    have rs: "ranges d2 = ranges d" using check_ranges [OF recorded(1)] recorded(3) by simp
    from recorded(5) show thesis
    proof (cases rule: record_accepted_cases)
      case (created y)
      have "next_generation d2 rid = next_generation d1 rid" "key_taken d2 rid key = key_taken d1 rid key"
        using recorded(2) by (simp_all add: next_generation_def key_taken_def)
      then show thesis using that [of spec rng d1] proceed recorded created id rs by simp
    qed simp
  qed simp_all
qed simp_all

lemma accept_ok:
  assumes "accept v rid user action key bypass d = (d', r)" "ops_ok (range_operations d)"
    "e_op_id v \<notin> op_id ` set (range_operations d)"
  shows "ops_ok (range_operations d')"
  using assms(1)
proof (cases rule: accept_cases)
  case (proceed rng spec)
  from proceed(5) show ?thesis
  proof (cases rule: proceed_cases)
    case (recorded d1 d2)
    have ok: "ops_ok (range_operations d2)" using check_ok [OF recorded(1) assms(2)] recorded(2) by simp
    have none: "range_in_flight d2 (rng_id rng) = []"
      using check_none [OF recorded(1)] recorded(2) by (simp add: range_in_flight_def)
    have fresh: "e_op_id v \<notin> op_id ` set (range_operations d2)"
      using assms(3) recorded(2) check_ids [OF recorded(1)] by simp
    from recorded(5) show ?thesis
      using accepted_ok [OF ok none fresh] assms(2) by (cases rule: record_accepted_cases) simp_all
  next
    case pool_refused
    then show ?thesis using check_ok assms(2) noise_reserve_frame by metis
  qed (use check_ok assms(2) in blast)
qed (use assms(2) in simp_all)

section \<open>One operation in flight\<close>

text \<open>Any transaction on the operations table, from any API process, worker or operator. A
  send holds no lock on what others commit between the broker's answer and the status
  write, so it brackets any number of steps.\<close>

inductive ops_step :: "db \<Rightarrow> db \<Rightarrow> bool" where
  o_accept: "accept v rid user action key bypass d = (d', r) \<Longrightarrow> e_op_id v \<notin> op_id ` set (range_operations d) \<Longrightarrow> ops_step d d'"
| o_send: "ops_step\<^sup>*\<^sup>* d (between d) \<Longrightarrow> ops_step d (fst (dispatch v sent between oid d))"
| o_reconcile: "ops_step d (reconcile v rng d)"
| o_bypass: "run_destroy_with_bypass rid bypass force d = (d', r) \<Longrightarrow> ops_step d d'"
| o_abandon: "abandon v rng x d = (d', r) \<Longrightarrow> ops_step d d'"
| o_force_release: "force_release_tombstone v rng d = (d', r) \<Longrightarrow> ops_step d d'"
| o_hold: "at_entry yaml isoformat readable op_readable e action rid snapshot now d = (d', e', h) \<Longrightarrow> ops_step d d'"
| o_elsewhere: "range_operations d' = range_operations d \<Longrightarrow> ops_step d d'"

lemma put_op_ok: "op_rewrite f (\<lambda>x. op_id x = i) \<Longrightarrow> ops_ok (range_operations d) \<Longrightarrow> ops_ok (range_operations (put_op i f d))"
  by (simp add: put_op_def op_rewrite.rewrite_ok)

lemma bypass_ok:
  assumes "run_destroy_with_bypass rid bypass force d = (d', r)" "ops_ok (range_operations d)"
  shows "ops_ok (range_operations d')"
  using assms put_op_ok [OF bypassed.op_rewrite_axioms]
  by (auto simp: run_destroy_with_bypass_def Let_def split: if_splits option.splits)

lemma abandon_cases:
  assumes "abandon v rng x d = (d', r)"
  obtains (settled) "r = Inl (AlreadySettled (op_status (current_op d' x)))" "d' = reconcile v rng d"
      "\<not> in_flight (current_op d' x)"
  | (given_up) y d1 d2 released where "d1 = reconcile v rng d" "y = current_op d1 x" "in_flight y" "r = Inr released"
      "fence_lease (e_lease v) (e_dbnow v) (rng_id rng) (op_action y)
         (filter (\<lambda>z. op_id z \<noteq> op_id y) (range_in_flight d1 (rng_id rng)) = []) d1 = (d2, released)"
      "range_operations d' = update_where (\<lambda>z. op_id z = op_id y)
        (\<lambda>z. z\<lparr>op_status := Failed, finished_at := Some (e_now v), op_error := Some ''abandoned''\<rparr>) (range_operations d2)"
      "range_leases d' = range_leases d2"
      "ranges d' = (if \<exists>spec. ACTIONS (op_action y) = Some spec \<and> rng_state rng = a_in_progress spec
         then update_where (\<lambda>r. rng_id r = rng_id rng) (\<lambda>r. r\<lparr>rng_state := failed,
           error_message := Some (op_action y @ '' abandoned by an operator'')\<rparr>) (ranges d2) else ranges d2)"
proof -
  define d1 where "d1 = reconcile v rng d"
  define y where "y = current_op d1 x"
  define only where "only = (filter (\<lambda>z. op_id z \<noteq> op_id y) (range_in_flight d1 (rng_id rng)) = [])"
  obtain d2 released where q: "fence_lease (e_lease v) (e_dbnow v) (rng_id rng) (op_action y) only d1 = (d2, released)"
    by (cases "fence_lease (e_lease v) (e_dbnow v) (rng_id rng) (op_action y) only d1")
  note e = assms [unfolded abandon_def Let_def, folded d1_def, folded y_def, folded only_def, unfolded q prod.case]
  show thesis
  proof (cases "in_flight y")
    case False
    have "d1 = d'" "Inl (AlreadySettled (op_status y)) = r" using e [unfolded if_P [OF False]] by simp_all
    then show thesis using settled False unfolding d1_def y_def by blast
  next
    case True
    then have "\<not> \<not> in_flight y" by simp
    note e' = e [unfolded if_not_P [OF this]]
    have "r = Inr released" using e' by simp
    moreover have "range_operations d' = update_where (\<lambda>z. op_id z = op_id y)
        (\<lambda>z. z\<lparr>op_status := Failed, finished_at := Some (e_now v), op_error := Some ''abandoned''\<rparr>) (range_operations d2)"
      "range_leases d' = range_leases d2"
      using e' by (auto simp: put_op_def put_range_def split: if_splits)
    moreover have "ranges d' = (if \<exists>spec. ACTIONS (op_action y) = Some spec \<and> rng_state rng = a_in_progress spec
         then update_where (\<lambda>r. rng_id r = rng_id rng) (\<lambda>r. r\<lparr>rng_state := failed,
           error_message := Some (op_action y @ '' abandoned by an operator'')\<rparr>) (ranges d2) else ranges d2)"
      using e' by (auto simp: put_op_def put_range_def split: if_splits option.splits)
    ultimately show thesis using given_up [OF d1_def y_def True] q by (simp only: only_def)
  qed
qed

lemma fence_lease_ops: "fence_lease l n i a b d = (d', r) \<Longrightarrow> range_operations d' = range_operations d \<and> ranges d' = ranges d"
  by (auto simp: fence_lease_def Let_def)

lemma abandon_ok:
  assumes "abandon v rng x d = (d', r)" "ops_ok (range_operations d)"
  shows "ops_ok (range_operations d')"
  using assms(1)
proof (cases rule: abandon_cases)
  case (given_up y d1 d2 released)
  then show ?thesis using fence_lease_ops [OF given_up(5)] reconcile_ok [OF assms(2)] given_up.rewrite_ok by simp
qed (use reconcile_ok assms(2) in simp)

lemma at_entry_ops:
  assumes "at_entry yaml isoformat readable op_readable e action rid snapshot now d = (d', e', h)"
  shows "range_operations d' = range_operations d \<or> (\<exists>y. range_operations d' = range_operations (hold_operation y d))"
  using assms
proof (cases rule: at_entry_cases)
  case restore
  then show ?thesis by (simp add: snapshot_back_to_ready_def)
qed (auto dest: guarded_ops)

lemma assess_db: "fst (assess v rng d) = reconcile v rng d"
  by (simp add: assess_def Let_def split: option.split)

lemma force_release_ops:
  "force_release_tombstone v rng d = (d', r) \<Longrightarrow> range_operations d' = range_operations (reconcile v rng d)"
  using assess_db [of v rng d]
  by (auto simp: force_release_tombstone_def drop_lease_def split: prod.splits option.splits if_splits)

lemma dispatch_ok:
  assumes "ops_ok (range_operations (between d))" "ops_ok (range_operations d)"
  shows "ops_ok (range_operations (fst (dispatch v sent between oid d)))"
proof (cases "find_row (\<lambda>x. op_id x = oid \<and> op_status x \<in> {Pending, Held}) (range_operations d)")
  case (Some x)
  then have "op_status x \<in> {Pending, Held}" by (blast dest: find_row_SomeD)
  from op_rewrite.rewrite_ok [OF sent_rewrite [OF this] assms(1)] Some show ?thesis
    by (simp add: dispatch_def Let_def)
qed (use assms(2) in \<open>simp add: dispatch_def\<close>)

lemma ops_step_ok: "ops_step d d' \<Longrightarrow> ops_ok (range_operations d) \<longrightarrow> ops_ok (range_operations d')"
proof (induction rule: ops_step.induct)
  case (o_send d between v sent oid)
  then have "ops_ok (range_operations d) \<longrightarrow> ops_ok (range_operations (between d))"
    by (induction rule: rtranclp_induct) simp_all
  then show ?case using dispatch_ok by blast
next
  case (o_hold yaml isoformat readable op_readable e action rid snapshot now d d' e' h)
  then show ?case using at_entry_ops [OF o_hold(1)] held_back.rewrite_ok by (auto simp: hold_operation_def)
next
  case (o_force_release v rng d d' r)
  then show ?case using reconcile_ok force_release_ops by simp
qed (auto intro: accept_ok reconcile_ok bypass_ok abandon_ok)

lemma ops_steps_ok: "ops_step\<^sup>*\<^sup>* d d' \<Longrightarrow> ops_ok (range_operations d) \<Longrightarrow> ops_ok (range_operations d')"
  by (induction rule: rtranclp_induct) (use ops_step_ok in auto)

text \<open>C13: Whatever sequence of acceptances, sends, reconciliations, worker holds, bypasses, abandons
  and force-releases runs, on any ranges and with any commits between a send and its status
  write, at most one operation of a range is in flight, and no two operations of a range
  share a generation.\<close>

theorem one_operation_in_flight:
  assumes "ops_step\<^sup>*\<^sup>* d d'" "ops_ok (range_operations d)"
  shows "length (range_in_flight d' rid) \<le> 1 \<and> distinct (map (\<lambda>x. (op_range x, generation x)) (range_operations d'))"
  using ops_steps_ok [OF assms] by (simp add: ops_ok_def range_in_flight_def)

section \<open>Samples\<close>

definition sample_env :: "time \<Rightarrow> string \<Rightarrow> env" where
  "sample_env t i = \<lparr>e_now = t, e_dbnow = t, e_lease = 120, e_beat = 30, e_stale = 3600, e_yaml = (\<lambda>_. None),
     e_digest = (\<lambda>a. a), e_ids = (\<lambda>_. ''n''), e_op_id = i, e_noise = (\<lambda>_. \<lparr>np_domain = [], np_pool = [], np_nodes = []\<rparr>)\<rparr>"

definition sample_user :: caller where
  "sample_user = \<lparr>c_user = ''u'', c_tenant = ''n'', c_range_admin = True, c_platform = False\<rparr>"

definition sample_ops_db :: db where
  "sample_ops_db = empty_db\<lparr>ranges := [sample_range ''r'' created, sample_range ''s'' ready]\<rparr>"

text \<open>A provision and then a destroy of one range, each accepted under a key.\<close>

definition after_provision :: db where
  "after_provision = fst (accept (sample_env 0 ''o1'') ''r'' sample_user ''provision'' (Some ''k'') None sample_ops_db)"

definition after_destroy :: db where
  "after_destroy = fst (accept (sample_env 9 ''o2'') ''r'' sample_user ''destroy'' None (Some ''emergency'') after_provision)"

lemma after_provision_reply:
  "accept (sample_env 0 ''o1'') ''r'' sample_user ''provision'' (Some ''k'') None sample_ops_db
   = (after_provision, snd (accept (sample_env 0 ''o1'') ''r'' sample_user ''provision'' (Some ''k'') None sample_ops_db))"
  by (simp add: after_provision_def)

definition reply_of :: "ops_error + operation \<times> bool \<Rightarrow> uuid \<times> bool" where
  "reply_of r = (case r of Inl _ \<Rightarrow> ([], False) | Inr (x, b) \<Rightarrow> (op_id x, b))"

lemma reply_created: "reply_of r = (i, True) \<Longrightarrow> \<exists>x. r = Inr (x, True) \<and> op_id x = i"
  by (auto simp: reply_of_def split: sum.splits)

lemma after_destroy_ops:
  "map (\<lambda>x. (op_id x, op_status x)) (range_operations after_destroy) = [(''o1'', Superseded), (''o2'', Pending)]"
  by code_simp

theorem one_operation_in_flight_witness:
  "length (range_in_flight after_destroy ''r'') \<le> 1 \<and>
   distinct (map (\<lambda>x. (op_range x, generation x)) (range_operations after_destroy))"
proof -
  have "ops_step sample_ops_db after_provision"
    by (rule ops_step.o_accept [OF after_provision_reply]) code_simp
  moreover have "ops_step after_provision after_destroy"
    unfolding after_destroy_def by (rule ops_step.o_accept [OF prod.collapse [symmetric]]) code_simp
  ultimately have "ops_step\<^sup>*\<^sup>* sample_ops_db after_destroy" by simp
  moreover have "ops_ok (range_operations sample_ops_db)" by (simp add: sample_ops_db_def empty_db_def ops_ok_def)
  ultimately show ?thesis using one_operation_in_flight by blast
qed

section \<open>An accepted operation\<close>

lemma check_state:
  "check v rng action spec d = (d', Inr u) \<Longrightarrow>
   can_transition_to (rng_state rng) (a_in_progress spec) \<or> action = ''destroy'' \<and> parked v (reconcile v rng d) rng"
  by (erule check_cases) simp_all

lemma window_refusal_None:
  "window_refusal v d rng action bypass = None \<Longrightarrow> action \<in> set REFUSED_ACTIONS \<Longrightarrow> bypass = None \<Longrightarrow>
   covering_range (e_yaml v) d rng (e_now v) = []"
  by (auto simp: window_refusal_def refuse_inside_def split: list.splits)

text \<open>An acceptance that creates an operation leaves it pending as the range's only operation in
  flight, with a generation above every earlier one, and the caller's own range in the
  action's in-progress state without an error; other ranges are untouched. The range could
  make that move (or a destroy found it parked by a window), and no window covered it unless
  the operation bypasses windows.\<close>

theorem accepted_operation:
  assumes "accept v rid user action key bypass d = (d', Inr (x, True))"
  shows "op_status x = Pending \<and> op_action x = action \<and> range_in_flight d' rid = [x] \<and>
     (\<forall>y \<in> set (range_operations d'). op_range y = rid \<longrightarrow> y = x \<or> generation y < generation x) \<and>
     (\<exists>spec rng. ACTIONS action = Some spec \<and> rng \<in> set (ranges d) \<and> rng_id rng = rid \<and> rng_tenant rng = Some (c_tenant user) \<and>
       (can_transition_to (rng_state rng) (a_in_progress spec) \<or> action = ''destroy'' \<and> parked v (reconcile v rng d) rng) \<and>
       (action \<in> set REFUSED_ACTIONS \<and> bypass = None \<longrightarrow> covering_range (e_yaml v) d rng (e_now v) = []) \<and>
       ranges d' = map (\<lambda>r. if rng_id r = rid then r\<lparr>rng_state := a_in_progress spec, error_message := None\<rparr> else r) (ranges d))"
  using assms
proof (rule accept_created)
  fix rng spec d1
  assume a: "ACTIONS action = Some spec" "locked_range d rid user = Some rng" "replayed d rng key = None"
    "window_refusal v d rng action bypass = None" "check v rng action spec d = (d1, Inr ())"
    "x = new_op v rng user action key bypass (next_generation d1 rid)" "range_operations d' = range_operations d1 @ [x]"
    "ranges d' = update_where (\<lambda>r. rng_id r = rid) (\<lambda>r. r\<lparr>rng_state := a_in_progress spec, error_message := None\<rparr>) (ranges d)"
    "rng_id rng = rid"
  have x: "op_status x = Pending" "op_action x = action" "op_range x = rid" "generation x = next_generation d1 rid"
    using a by simp_all
  have "range_in_flight d' rid = [x]"
    using check_none [OF a(5)] a(7,9) x by (simp add: range_in_flight_def in_flight_def IN_FLIGHT_def)
  moreover have "\<forall>y \<in> set (range_operations d'). op_range y = rid \<longrightarrow> y = x \<or> generation y < generation x"
    using a(7) x next_generation_gt by simp
  moreover have "action \<in> set REFUSED_ACTIONS \<and> bypass = None \<longrightarrow> covering_range (e_yaml v) d rng (e_now v) = []"
    using window_refusal_None [OF a(4)] by blast
  ultimately show ?thesis
    using x(1,2) a(1) locked_rangeD [OF a(2)] check_state [OF a(5)] a(8) unfolding update_where_def by blast
qed

theorem accepted_operation_witness:
  "\<exists>x. op_id x = ''o2'' \<and> range_in_flight after_destroy ''r'' = [x] \<and>
   map (\<lambda>r. (rng_id r, rng_state r)) (ranges after_destroy) = [(''r'', destroying), (''s'', ready)]"
proof -
  let ?a = "accept (sample_env 9 ''o2'') ''r'' sample_user ''destroy'' None (Some ''emergency'') after_provision"
  have "reply_of (snd ?a) = (''o2'', True)" by code_simp
  from reply_created [OF this] obtain x where x: "snd ?a = Inr (x, True)" "op_id x = ''o2''" by (elim exE conjE)
  have "?a = (after_destroy, Inr (x, True))" unfolding after_destroy_def x(1) [symmetric] by (rule prod.collapse [symmetric])
  from accepted_operation [OF this] have "range_in_flight after_destroy ''r'' = [x]" by (elim conjE)
  moreover have "map (\<lambda>r. (rng_id r, rng_state r)) (ranges after_destroy) = [(''r'', destroying), (''s'', ready)]"
    by code_simp
  ultimately show ?thesis using x(2) by (intro exI [of _ x] conjI)
qed

section \<open>Replays\<close>

definition grows :: "db \<Rightarrow> db \<Rightarrow> bool" where
  "grows d d' = (\<exists>zs. map fixed_columns (range_operations d') = map fixed_columns (range_operations d) @ zs)"

lemma grows_same: "map fixed_columns (range_operations d') = map fixed_columns (range_operations d) \<Longrightarrow> grows d d'"
  by (simp add: grows_def)

lemma grows_trans: "grows d1 d2 \<Longrightarrow> grows d2 d3 \<Longrightarrow> grows d1 d3"
  by (auto simp: grows_def)

lemma grows_ops:
  "grows d d' \<Longrightarrow> range_operations d1 = range_operations d \<Longrightarrow> range_operations d1' = range_operations d' @ xs \<Longrightarrow> grows d1 d1'"
  by (auto simp: grows_def)

lemma accept_grows:
  assumes "accept v rid user action key bypass d = (d', r)"
  shows "grows d d'"
  using assms
proof (cases rule: accept_cases)
  case (proceed rng spec)
  from proceed(5) show ?thesis
  proof (cases rule: proceed_cases)
    case (recorded d1 d2)
    have g: "grows d d2" using grows_same [OF check_columns [OF recorded(1)]] recorded(2) by (simp add: grows_def)
    from recorded(5) show ?thesis
      by (cases rule: record_accepted_cases) (use g in \<open>auto simp: grows_def\<close>)
  next
    case (pool_refused e d1)
    then show ?thesis using check_columns [OF pool_refused(2)] noise_reserve_frame [OF pool_refused(3)]
      by (simp add: grows_def)
  qed (use check_columns grows_same in blast)
qed (simp_all add: grows_def)

lemma put_columns:
  "(\<And>x. fixed_columns (f x) = fixed_columns x) \<Longrightarrow> map fixed_columns (update_where P f xs) = map fixed_columns xs"
  by (simp add: map_update_where)

lemma given_up_columns: "fixed_columns (z\<lparr>op_status := s, finished_at := f, op_error := e\<rparr>) = fixed_columns z"
  by (simp add: fixed_columns_def)

lemma ops_step_grows: "ops_step d d' \<Longrightarrow> grows d d'"
proof (induction rule: ops_step.induct)
  case (o_send d between v sent oid)
  then have g: "grows d (between d)"
    by (induction rule: rtranclp_induct) (auto simp: grows_same intro: grows_trans)
  have "map fixed_columns (range_operations (fst (dispatch v sent between oid d))) = map fixed_columns (range_operations (between d))
     \<or> fst (dispatch v sent between oid d) = d"
    by (cases "find_row (\<lambda>x. op_id x = oid \<and> op_status x \<in> {Pending, Held}) (range_operations d)")
      (auto simp: dispatch_def Let_def fixed_columns_def intro!: put_columns split: option.split)
  then show ?case using g by (auto simp: grows_def)
next
  case (o_bypass rid bypass force d d' r)
  then show ?case
    by (intro grows_same)
      (auto simp: run_destroy_with_bypass_def Let_def put_op_def fixed_columns_def intro!: put_columns split: if_splits option.splits)
next
  case (o_abandon v rng x d d' r)
  then show ?case
  proof (cases rule: abandon_cases)
    case (given_up y d1 d2 released)
    then show ?thesis using fence_lease_ops [OF given_up(5)]
      by (intro grows_same) (simp add: given_up_columns put_columns reconcile_columns)
  qed (simp add: grows_same reconcile_columns)
next
  case (o_hold yaml isoformat readable op_readable e action rid snapshot now d d' e' h)
  then show ?case using at_entry_ops [OF o_hold(1)]
    by (intro grows_same) (auto simp: hold_operation_def fixed_columns_def intro!: put_columns)
next
  case (o_force_release v rng d d' r)
  then show ?case using force_release_ops by (simp add: grows_same reconcile_columns)
qed (auto intro: accept_grows grows_same reconcile_columns)

lemma ops_steps_grow: "ops_step\<^sup>*\<^sup>* d d' \<Longrightarrow> grows d d'"
  by (induction rule: rtranclp_induct) (auto simp: grows_same intro: grows_trans ops_step_grows)

lemma find_row_Cons: "find_row P (x # xs) = (if P x then Some x else find_row P xs)"
  by (simp add: find_row_def)

lemma find_row_map: "find_row Q (map g xs) = map_option g (find_row (\<lambda>x. Q (g x)) xs)"
  by (induction xs) (auto simp: find_row_def)

lemma find_by_key:
  assumes "map fixed_columns xs = map fixed_columns (pre @ [x]) @ zs"
    and "\<not> list_ex (\<lambda>y. op_range y = op_range x \<and> idempotency_key y = idempotency_key x) pre"
  obtains y where "find_row (\<lambda>y. op_range y = op_range x \<and> idempotency_key y = idempotency_key x) xs = Some y"
    "fixed_columns y = fixed_columns x"
proof -
  define Q where "Q = (\<lambda>c::uuid \<times> uuid \<times> string \<times> nat \<times> string option \<times> string.
    fst (snd c) = op_range x \<and> fst (snd (snd (snd (snd c)))) = idempotency_key x)"
  have Q: "Q (fixed_columns y) \<longleftrightarrow> op_range y = op_range x \<and> idempotency_key y = idempotency_key x" for y
    by (simp add: fixed_columns_def Q_def)
  have "find_row Q (map fixed_columns pre) = None"
    using assms(2) by (simp add: find_row_None_iff Q list_ex_iff)
  then have "find_row Q (map fixed_columns xs) = Some (fixed_columns x)"
    using Q [of x] by (simp add: assms(1) find_row_append find_row_Cons)
  then show thesis using that by (auto simp: find_row_map Q)
qed

lemma created_row:
  assumes "accept v rid user action key bypass d = (d1, Inr (x, True))" "key \<noteq> None" "ops_step\<^sup>*\<^sup>* d1 d2"
  obtains y where "find_row (\<lambda>y. op_range y = rid \<and> idempotency_key y = key) (range_operations d2) = Some y"
    "op_id y = op_id x" "request_hash y = e_digest v action"
  using assms(1)
proof (rule accept_created)
  fix rng spec d0
  assume a: "x = new_op v rng user action key bypass (next_generation d0 rid)" "range_operations d1 = range_operations d0 @ [x]"
    "\<not> key_taken d0 rid key" "rng_id rng = rid"
  have x: "op_range x = rid" "idempotency_key x = key" "request_hash x = e_digest v action"
    using a by (simp_all add: new_op_def)
  obtain zs where "map fixed_columns (range_operations d2) = map fixed_columns (range_operations d0 @ [x]) @ zs"
    using ops_steps_grow [OF assms(3)] a(2) by (auto simp: grows_def)
  moreover have "\<not> list_ex (\<lambda>y. op_range y = op_range x \<and> idempotency_key y = idempotency_key x) (range_operations d0)"
    using a(3) assms(2) x by (simp add: key_taken_def)
  ultimately obtain y where y: "find_row (\<lambda>y. op_range y = op_range x \<and> idempotency_key y = idempotency_key x) (range_operations d2) = Some y"
    "fixed_columns y = fixed_columns x"
    by (rule find_by_key)
  show thesis using that y(1) [unfolded x(1,2)] y(2) x(3) by (simp add: fixed_columns_def)
qed

text \<open>Repeating a request under the Idempotency-Key of an accepted operation, however much later
  and whatever has run since, returns that operation and changes nothing; the same key with
  another request is refused and changes nothing.\<close>

theorem replay_returns_original:
  assumes "accept v rid user action (Some k) bypass d = (d1, Inr (x, True))" "k \<noteq> []" "ops_step\<^sup>*\<^sup>* d1 d2"
    and "locked_range d2 rid user' \<noteq> None" "ACTIONS action' \<noteq> None" "\<not> bad_bypass action' bypass'"
  shows "if e_digest v' action' = e_digest v action
    then \<exists>y. op_id y = op_id x \<and> y \<in> set (range_operations d2) \<and> accept v' rid user' action' (Some k) bypass' d2 = (d2, Inr (y, False))
    else accept v' rid user' action' (Some k) bypass' d2 = (d2, Inl KeyReused)"
proof -
  obtain y where y: "find_row (\<lambda>y. op_range y = rid \<and> idempotency_key y = Some k) (range_operations d2) = Some y"
    "op_id y = op_id x" "request_hash y = e_digest v action"
    using created_row [OF assms(1) _ assms(3)] by blast
  obtain rng spec where r: "locked_range d2 rid user' = Some rng" "ACTIONS action' = Some spec" using assms by blast
  have "replayed d2 rng (Some k) = Some y" using y(1) assms(2) locked_rangeD [OF r(1)] by (simp add: replayed_def)
  then show ?thesis using r assms(6) y find_row_SomeD [OF y(1)] by (simp add: accept_def)
qed

theorem replay_returns_original_witness:
  "(\<exists>y. op_id y = ''o1'' \<and> y \<in> set (range_operations after_destroy) \<and>
     accept (sample_env 20 ''o3'') ''r'' sample_user ''provision'' (Some ''k'') None after_destroy = (after_destroy, Inr (y, False))) \<and>
   accept (sample_env 20 ''o3'') ''r'' sample_user ''destroy'' (Some ''k'') None after_destroy = (after_destroy, Inl KeyReused)"
proof -
  let ?a = "accept (sample_env 0 ''o1'') ''r'' sample_user ''provision'' (Some ''k'') None sample_ops_db"
  have "reply_of (snd ?a) = (''o1'', True)" by code_simp
  from reply_created [OF this] obtain x where x: "snd ?a = Inr (x, True)" "op_id x = ''o1''" by (elim exE conjE)
  have a: "?a = (after_provision, Inr (x, True))" unfolding after_provision_def x(1) [symmetric] by (rule prod.collapse [symmetric])
  have "ops_step after_provision after_destroy"
    unfolding after_destroy_def by (rule ops_step.o_accept [OF prod.collapse [symmetric]]) code_simp
  then have s: "ops_step\<^sup>*\<^sup>* after_provision after_destroy" by (rule r_into_rtranclp)
  have l: "locked_range after_destroy ''r'' sample_user \<noteq> None" by code_simp
  have k: "''k'' \<noteq> []" by simp
  have p: "ACTIONS ''provision'' \<noteq> None" "\<not> bad_bypass ''provision'' None" "ACTIONS ''destroy'' \<noteq> None" "\<not> bad_bypass ''destroy'' None"
    by (simp_all add: ACTIONS_def bad_bypass_def)
  have "e_digest (sample_env 20 ''o3'') ''provision'' = e_digest (sample_env 0 ''o1'') ''provision''"
    "e_digest (sample_env 20 ''o3'') ''destroy'' \<noteq> e_digest (sample_env 0 ''o1'') ''provision''"
    by (simp_all add: sample_env_def)
  then show ?thesis
    using replay_returns_original [OF a k s l p(1,2), of "sample_env 20 ''o3''"]
      replay_returns_original [OF a k s l p(3,4), of "sample_env 20 ''o3''"]
    unfolding x(2) by (simp only: if_True if_False simp_thms)
qed

lemma key_taken_columns:
  assumes "map fixed_columns (range_operations d') = map fixed_columns (range_operations d)"
  shows "key_taken d' rid key = key_taken d rid key"
proof -
  have "(\<lambda>x. (op_range x, idempotency_key x)) = (\<lambda>c. (fst (snd c), fst (snd (snd (snd (snd c)))))) \<circ> fixed_columns"
    by (simp add: fun_eq_iff fixed_columns_def)
  then have "map (\<lambda>x. (op_range x, idempotency_key x)) (range_operations d') = map (\<lambda>x. (op_range x, idempotency_key x)) (range_operations d)"
    using assms by (simp flip: map_map)
  from arg_cong [OF this, of "\<lambda>ps. (rid, key) \<in> set ps"] show ?thesis by (auto simp: key_taken_def list_ex_iff)
qed

text \<open>C16: An empty Idempotency-Key is stored but never looked up: once an operation of a range was
  accepted under one, every later request on that range with an empty key fails, for any
  action, a destroy included (the insert breaks the unique key, or an earlier check refuses).\<close>

theorem empty_key_locks_out:
  assumes "accept v rid user action (Some []) bypass d = (d1, Inr (x, True))" "ops_step\<^sup>*\<^sup>* d1 d2"
  shows "\<exists>e. snd (accept v' rid user' action' (Some []) bypass' d2) = Inl e"
proof -
  obtain y where y: "find_row (\<lambda>y. op_range y = rid \<and> idempotency_key y = Some []) (range_operations d2) = Some y"
    using created_row [OF assms(1) _ assms(2)] by blast
  have taken: "key_taken d2 rid (Some [])" using find_row_SomeD [OF y] by (auto simp: key_taken_def list_ex_iff)
  obtain d3 r where e: "accept v' rid user' action' (Some []) bypass' d2 = (d3, r)"
    by (cases "accept v' rid user' action' (Some []) bypass' d2")
  then show ?thesis
  proof (cases rule: accept_cases)
    case (proceed rng spec)
    from proceed(5) show ?thesis
    proof (cases rule: proceed_cases)
      case (recorded d0 d0')
      have "key_taken d0' (rng_id rng) (Some [])"
        using key_taken_columns [OF check_columns [OF recorded(1)], of rid "Some []"] recorded(2) taken locked_rangeD [OF proceed(2)]
        by (simp add: key_taken_def)
      then show ?thesis using recorded(5) e by (auto simp: record_accepted_def)
    qed (use e in simp_all)
  qed (use e in simp_all)
qed

theorem empty_key_locks_out_witness:
  "\<exists>e. snd (accept (sample_env 20 ''o3'') ''r'' sample_user ''destroy'' (Some []) None
     (fst (accept (sample_env 0 ''o1'') ''r'' sample_user ''provision'' (Some []) None sample_ops_db))) = Inl e"
proof -
  let ?a = "accept (sample_env 0 ''o1'') ''r'' sample_user ''provision'' (Some []) None sample_ops_db"
  have "reply_of (snd ?a) = (''o1'', True)" by code_simp
  from reply_created [OF this] obtain x where x: "snd ?a = Inr (x, True)" by (elim exE conjE)
  have "?a = (fst ?a, Inr (x, True))" unfolding x [symmetric] by (rule prod.collapse [symmetric])
  from empty_key_locks_out [OF this rtranclp.rtrancl_refl] show ?thesis .
qed

section \<open>Settling from the observed state\<close>

text \<open>What a reconciliation makes of one row.\<close>

definition settled_row :: "env \<Rightarrow> range_row \<Rightarrow> operation \<Rightarrow> operation" where
  "settled_row v rng y =
     (if op_range y = rng_id rng \<and> op_status y = Dispatched then
        (case outcomes (op_action y) (rng_state rng) of
           Some out \<Rightarrow> y\<lparr>op_status := out, finished_at := Some (e_now v), op_error := (if out = Failed then Some ''range_failed'' else op_error y)\<rparr>
         | None \<Rightarrow> if (case dispatched_at y of None \<Rightarrow> False | Some sent \<Rightarrow> e_stale v < e_now v - sent) \<and> op_error y = None
             then y\<lparr>op_error := Some ''no_outcome''\<rparr> else y)
      else y)"

lemma update_row:
  assumes "distinct (map op_id (xs @ x # ys))"
  shows "update_where (\<lambda>y. op_id y = op_id x) f (xs @ x # ys) = xs @ f x # ys"
proof -
  have "op_id x \<notin> op_id ` (set xs \<union> set ys)" using assms by auto
  then have "op_id z \<noteq> op_id x" if "z \<in> set xs \<union> set ys" for z using that by (metis imageI)
  then show ?thesis by (auto simp: update_where_def intro!: map_idI)
qed

lemma settle_row:
  assumes "distinct (map op_id (xs @ x # ys))" "range_operations d = xs @ x # ys" "op_range x = rng_id rng" "op_status x = Dispatched"
  shows "range_operations (settle v rng x d) = xs @ settled_row v rng x # ys"
  unfolding settle_ops assms(2) update_row [OF assms(1)] by (auto simp: settled_row_def assms(3,4) split: option.split)

lemma settle_all:
  assumes "distinct (map op_id (xs @ ys))" "range_operations d = xs @ ys"
  shows "range_operations (foldl (\<lambda>d x. settle v rng x d) d (filter (\<lambda>x. op_range x = rng_id rng \<and> op_status x = Dispatched) ys))
    = xs @ map (settled_row v rng) ys"
  using assms
proof (induction ys arbitrary: xs d)
  case (Cons y ys)
  have id: "op_id (settled_row v rng y) = op_id y" by (simp add: settled_row_def split: option.split)
  show ?case
  proof (cases "op_range y = rng_id rng \<and> op_status y = Dispatched")
    case True
    have "range_operations (settle v rng y d) = (xs @ [settled_row v rng y]) @ ys"
      using settle_row [of xs y ys d rng v] Cons.prems True by simp
    from Cons.IH [OF _ this] show ?thesis using True Cons.prems(1) id by simp
  next
    case False
    have "settled_row v rng y = y" unfolding settled_row_def if_not_P [OF False] ..
    then show ?thesis using Cons.IH [of "xs @ [y]" d] Cons.prems False by auto
  qed
qed simp

lemma reconcile_rows:
  "distinct (map op_id (range_operations d)) \<Longrightarrow> range_operations (reconcile v rng d) = map (settled_row v rng) (range_operations d)"
  using settle_all [of "[]" "range_operations d" d v rng] by (simp add: reconcile_def dispatched_ops_def)

lemma settled_row_fixed:
  assumes "settled_row v rng x = x" "op_range x = rng_id rng" "op_status x = Dispatched"
  shows "outcomes (op_action x) (rng_state rng) = None"
    "\<not> ((\<exists>sent. dispatched_at x = Some sent \<and> e_stale v < e_now v - sent) \<and> op_error x = None)"
proof -
  show o: "outcomes (op_action x) (rng_state rng) = None"
  proof (cases "outcomes (op_action x) (rng_state rng)")
    case (Some out)
    then have "op_status (settled_row v rng x) = out" using assms(2,3) by (simp add: settled_row_def)
    then show ?thesis using assms(1,3) outcomes_settled [OF Some] by auto
  qed
  show "\<not> ((\<exists>sent. dispatched_at x = Some sent \<and> e_stale v < e_now v - sent) \<and> op_error x = None)"
  proof
    assume late: "(\<exists>sent. dispatched_at x = Some sent \<and> e_stale v < e_now v - sent) \<and> op_error x = None"
    then have "op_error (settled_row v rng x) = Some ''no_outcome''" using assms(2,3) o by (auto simp: settled_row_def)
    then show False using assms(1) late by simp
  qed
qed

lemma settle_nothing:
  assumes "settled_row v rng x = x" "op_range x = rng_id rng" "op_status x = Dispatched"
  shows "settle v rng x d = d"
  using settled_row_fixed [OF assms] by (auto simp: settle_def split: option.split)

lemma settled_row_twice: "settled_row v rng (settled_row v rng y) = settled_row v rng y"
proof (cases "op_range y = rng_id rng \<and> op_status y = Dispatched")
  case True
  then show ?thesis
    by (cases "outcomes (op_action y) (rng_state rng)") (auto simp: settled_row_def dest: outcomes_settled)
next
  case False
  have "settled_row v rng y = y" unfolding settled_row_def if_not_P [OF False] ..
  then show ?thesis by simp
qed

lemma foldl_fixed: "(\<And>x. x \<in> set xs \<Longrightarrow> f d x = d) \<Longrightarrow> foldl f d xs = d"
  by (induction xs) simp_all

lemma reconcile_twice:
  assumes "distinct (map op_id (range_operations d))"
  shows "reconcile v rng (reconcile v rng d) = reconcile v rng d"
proof -
  have "settled_row v rng x = x" if "x \<in> set (range_operations (reconcile v rng d))" for x
    using that settled_row_twice by (auto simp: reconcile_rows [OF assms])
  then show ?thesis unfolding reconcile_def [of v rng "reconcile v rng d"]
    by (intro foldl_fixed settle_nothing) (simp_all add: dispatched_ops_def)
qed

text \<open>C14: A reconciliation settles exactly the range's dispatched operations, each from the state the
  range is in now: done in the action's success state, failed in \<^verbatim>\<open>failed\<close>, otherwise left in
  flight and flagged once it is overdue. Afterwards no dispatched operation with a known
  outcome is left, and reconciling again changes nothing.\<close>

theorem reconcile_settles:
  assumes "distinct (map op_id (range_operations d))"
  shows "range_operations (reconcile v rng d) = map (settled_row v rng) (range_operations d) \<and>
    reconcile v rng (reconcile v rng d) = reconcile v rng d \<and>
    (\<forall>x \<in> set (dispatched_ops (reconcile v rng d) (rng_id rng)). outcomes (op_action x) (rng_state rng) = None)"
proof -
  have "outcomes (op_action x) (rng_state rng) = None" if "x \<in> set (dispatched_ops (reconcile v rng d) (rng_id rng))" for x
    using that settled_row_fixed(1) settled_row_twice by (fastforce simp: dispatched_ops_def reconcile_rows [OF assms])
  then show ?thesis using reconcile_rows [OF assms] reconcile_twice [OF assms] by blast
qed

text \<open>The provision above sent, and the range built.\<close>

definition after_build :: db where
  "after_build = put_range ''r'' (\<lambda>r. r\<lparr>rng_state := ready\<rparr>) (fst (dispatch (sample_env 1 ''o1'') (Some ''t1'') (\<lambda>d. d) ''o1'' after_provision))"

theorem reconcile_settles_witness:
  "map op_status (range_operations (reconcile (sample_env 5 ''z'') (sample_range ''r'' ready) after_build)) = [Succeeded] \<and>
   reconcile (sample_env 5 ''z'') (sample_range ''r'' ready) (reconcile (sample_env 5 ''z'') (sample_range ''r'' ready) after_build)
   = reconcile (sample_env 5 ''z'') (sample_range ''r'' ready) after_build"
proof -
  have "distinct (map op_id (range_operations after_build))" by code_simp
  note r = reconcile_settles [OF this, of "sample_env 5 ''z''" "sample_range ''r'' ready"]
  have "map op_status (map (settled_row (sample_env 5 ''z'') (sample_range ''r'' ready)) (range_operations after_build)) = [Succeeded]"
    unfolding map_map by code_simp
  then show ?thesis using r by (elim conjE) (simp only: simp_thms)
qed

section \<open>Force-releasing\<close>

lemma assess_allowed:
  assumes "assess v rng d = (d1, st, Some l)" "st_allowed st"
  obtains x at where "d1 = reconcile v rng d" "get_lease d1 (rng_id rng) = Some l" "startswith (ls_holder l) ABANDONED"
    "range_in_flight d1 (rng_id rng) = []" "\<not> snapshot_busy d1 (rng_id rng)"
    "abandoned_operation d1 (rng_id rng) (ls_holder l) = Some x" "finished_at x = Some at"
    "ls_expires l \<le> at + e_lease v + e_beat v div 2" "ls_expires l \<le> e_now v \<or> at + 2 * e_beat v \<le> e_now v"
proof -
  have d1: "d1 = reconcile v rng d" using assess_db [of v rng d] assms(1) by simp
  define dead where "dead = startswith (ls_holder l) ABANDONED"
  define ab where "ab = abandoned_operation d1 (rng_id rng) (ls_holder l)"
  have l: "get_lease d1 (rng_id rng) = Some l"
    using assms(1) unfolding assess_def Let_def d1 [symmetric] by (auto split: option.splits if_splits)
  note e = assms(1) [unfolded assess_def Let_def, folded d1, unfolded l option.case, folded dead_def ab_def]
  have dead: dead "range_in_flight d1 (rng_id rng) = []" "\<not> snapshot_busy d1 (rng_id rng)"
    using e assms(2) by (auto split: if_splits)
  obtain x where x: "ab = Some x" using e assms(2) by (cases ab) (auto split: if_splits)
  have "finished_at x \<noteq> None"
    using x unfolding ab_def abandoned_operation_def Let_def by (blast dest: find_row_SomeD)
  then obtain at where at: "finished_at x = Some at" by blast
  have "ls_expires l \<le> at + e_lease v + e_beat v div 2" "ls_expires l \<le> e_now v \<or> at + 2 * e_beat v \<le> e_now v"
    using e assms(2) by (auto simp: dead x at split: if_splits)
  then show thesis using that d1 l dead x at unfolding dead_def ab_def by blast
qed

lemma abandoned_operationD:
  assumes "abandoned_operation d rid h = Some x"
  shows "x \<in> set (range_operations d) \<and> op_range x = rid \<and> op_status x = Failed \<and> op_error x = Some ''abandoned''"
  using assms unfolding abandoned_operation_def Let_def
  by (auto dest!: find_row_SomeD in_set_takeD)

text \<open>C15: A tombstone is force-released only for a range with nothing in flight and no snapshot
  running, whose abandoned operation is on record, and only when no heartbeat renewed it later
  than half a beat after the abandon: the execution it names showed no life, and the tombstone
  has expired or two beats passed. The release removes that range's lease and no other.\<close>

theorem force_release_sound:
  assumes "force_release_tombstone v rng d = (d', Inr (h, expired))" "distinct (map ls_range (range_leases d))"
  shows "\<exists>l x at. get_lease d (rng_id rng) = Some l \<and> ls_holder l = h \<and> startswith h ABANDONED \<and>
     range_in_flight d' (rng_id rng) = [] \<and> \<not> snapshot_busy d' (rng_id rng) \<and>
     x \<in> set (range_operations d') \<and> op_range x = rng_id rng \<and> op_status x = Failed \<and> op_error x = Some ''abandoned'' \<and>
     finished_at x = Some at \<and> (\<forall>t. blocked (rng_id rng) (t + e_lease v) d \<longrightarrow> t \<le> at + e_beat v div 2) \<and>
     (ls_expires l \<le> e_now v \<or> at + 2 * e_beat v \<le> e_now v) \<and>
     range_leases d' = filter (\<lambda>l. ls_range l \<noteq> rng_id rng) (range_leases d)"
proof -
  obtain d1 st l where a: "assess v rng d = (d1, st, Some l)" "st_allowed st" "d' = drop_lease (rng_id rng) d1" "h = ls_holder l"
    using assms(1) by (auto simp: force_release_tombstone_def split: prod.splits option.splits if_splits)
  from a(1,2) show ?thesis
  proof (rule assess_allowed)
    fix x at
    assume b: "d1 = reconcile v rng d" "get_lease d1 (rng_id rng) = Some l" "startswith (ls_holder l) ABANDONED"
      "range_in_flight d1 (rng_id rng) = []" "\<not> snapshot_busy d1 (rng_id rng)"
      "abandoned_operation d1 (rng_id rng) (ls_holder l) = Some x" "finished_at x = Some at"
      "ls_expires l \<le> at + e_lease v + e_beat v div 2" "ls_expires l \<le> e_now v \<or> at + 2 * e_beat v \<le> e_now v"
    have leases: "range_leases d1 = range_leases d" using b(1) by (simp add: frame_simps)
    then have l: "get_lease d (rng_id rng) = Some l" using b(2) by (simp add: get_lease_def)
    have "m = l" if "m \<in> set (range_leases d)" "ls_range m = rng_id rng" for m
      using l find_row_unique [OF assms(2) that(1)] that(2) by (simp add: get_lease_def)
    then have "\<forall>t. blocked (rng_id rng) (t + e_lease v) d \<longrightarrow> t \<le> at + e_beat v div 2"
      using b(8) by (force simp: blocked_def)
    then show ?thesis
      using l a(3,4) b leases abandoned_operationD [OF b(6)]
      by (intro exI [of _ l] exI [of _ x] exI [of _ at]) (simp add: drop_lease_def range_in_flight_def snapshot_busy_def delete_where_def)
  qed
qed

text \<open>The range's provision abandoned at 100 while its worker held the lease; 70 s later nothing has
  renewed the tombstone.\<close>

definition abandoned_db :: db where
  "abandoned_db = fst (abandon (sample_env 100 ''z'') (sample_range ''r'' provisioning) (hd (range_operations after_provision))
     (after_provision\<lparr>range_leases := [\<lparr>ls_range = ''r'', ls_holder = ''provision:7'', ls_expires = 150\<rparr>]\<rparr>))"

definition release_reply :: "ops_error + string \<times> bool \<Rightarrow> string" where
  "release_reply r = (case r of Inr (h, False) \<Rightarrow> h | _ \<Rightarrow> [])"

lemma release_replyD: "release_reply r = c # cs \<Longrightarrow> r = Inr (c # cs, False)"
  by (auto simp: release_reply_def split: sum.splits bool.splits)

theorem force_release_sound_witness:
  "\<exists>l. get_lease abandoned_db ''r'' = Some l \<and> ls_holder l = ''abandoned:provision:7'' \<and>
     \<not> blocked ''r'' (116 + 120) abandoned_db \<and>
     range_leases (fst (force_release_tombstone (sample_env 170 ''z'') (sample_range ''r'' failed) abandoned_db)) = []"
proof -
  let ?v = "sample_env 170 ''z''" and ?rng = "sample_range ''r'' failed"
  let ?f = "force_release_tombstone ?v ?rng abandoned_db"
  have "release_reply (snd ?f) = ''abandoned:provision:7''" by code_simp
  from release_replyD [OF this] have f: "?f = (fst ?f, Inr (''abandoned:provision:7'', False))" by (simp only: prod_eq_iff fst_conv snd_conv simp_thms)
  have k: "distinct (map ls_range (range_leases abandoned_db))" by code_simp
  have n: "rng_id ?rng = ''r''" "e_lease ?v = 120" by (simp_all add: sample_range_def sample_env_def)
  have h: "map (\<lambda>l. ls_holder l) (range_leases abandoned_db) = [''abandoned:provision:7'']"
    and b: "map (\<lambda>l. ls_expires l) (range_leases abandoned_db) = [220]"
    and e: "filter (\<lambda>l. ls_range l \<noteq> ''r'') (range_leases abandoned_db) = []" by code_simp+
  from force_release_sound [OF f k] b e show ?thesis unfolding n by (auto simp: blocked_def map_eq_Cons_conv)
qed

end
