(* ===== verification/Range_Lifecycle.thy ===== *)
theory Range_Lifecycle
  imports Range_Op_Protocol
begin

text \<open>
  \<^verbatim>\<open>app/range_lifecycle.py\<close>: the builds and teardowns the scheduler starts for bookings, over the
  operations of \<open>Range_Ops\<close>. \<open>before\<close> is the caller's own write in the acceptance transaction,
  \<open>sent\<close> the broker's answer and \<open>between\<close> what others commit while a statement's result is on
  its way.
\<close>

section \<open>The model\<close>

definition UP_STATES :: "range_state list" where
  "UP_STATES = [ready, running, stopped, provisioning]"

definition scheduler_identity :: "range_row \<Rightarrow> caller" where
  "scheduler_identity rng = \<lparr>c_user = ''scheduler'', c_tenant = (case rng_tenant rng of Some t \<Rightarrow> t | None \<Rightarrow> ''None''),
     c_range_admin = True, c_platform = False\<rparr>"

text \<open>Ranges of lab sessions, the rebuilt-away ones included.\<close>

definition lab_range_ids :: "db \<Rightarrow> uuid list \<Rightarrow> uuid list" where
  "lab_range_ids d rids = filter (\<lambda>i. list_ex (\<lambda>s. lab_range s = Some i \<or> i \<in> set (retired_ranges s)) (lab_sessions d)) rids"

definition is_lab_range :: "db \<Rightarrow> uuid \<Rightarrow> bool" where
  "is_lab_range d rid = (rid \<in> set (lab_range_ids d [rid]))"

text \<open>Errors that are not HTTP refusals escape as they are; a refusal and a lab's range are a
  \<^verbatim>\<open>RangeTransitionError\<close>.\<close>

datatype begin_error = Transition ops_error | Escapes ops_error

definition begin_op :: "env \<Rightarrow> string option \<Rightarrow> (db \<Rightarrow> db) \<Rightarrow> range_row \<Rightarrow> string \<Rightarrow> (db \<Rightarrow> db) \<Rightarrow> string option \<Rightarrow> db \<Rightarrow>
    db \<times> (begin_error + string option)" where
  "begin_op v sent between rng action before bypass d =
     (if is_lab_range d (rng_id rng) then (d, Inl (Transition LabRange))
      else case accept v (rng_id rng) (scheduler_identity rng) action None bypass d of
        (d1, Inl e) \<Rightarrow> (d1, Inl (if e \<in> {BadBypass, UnknownAction, KeyConflict} then Escapes e else Transition e))
      | (d1, Inr (x, fresh)) \<Rightarrow>
          (let d2 = before d1;
               d3 = (if fresh then fst (dispatch v sent between (op_id x) d2) else d2)
           in (d3, Inr (task_id (current_op d3 x)))))"

definition begin_provision :: "env \<Rightarrow> string option \<Rightarrow> (db \<Rightarrow> db) \<Rightarrow> range_row \<Rightarrow> (db \<Rightarrow> db) \<Rightarrow> db \<Rightarrow>
    db \<times> (begin_error + string option)" where
  "begin_provision v sent between rng before d = begin_op v sent between rng ''provision'' before None d"

definition begin_destroy :: "env \<Rightarrow> string option \<Rightarrow> (db \<Rightarrow> db) \<Rightarrow> range_row \<Rightarrow> string option \<Rightarrow> db \<Rightarrow>
    db \<times> (begin_error + string option)" where
  "begin_destroy v sent between rng bypass d = begin_op v sent between rng ''destroy'' (\<lambda>d. d) bypass d"

definition create_for_booking :: "uuid \<Rightarrow> uuid \<Rightarrow> uuid \<Rightarrow> db \<Rightarrow> db" where
  "create_for_booking new_id tenant template d = d\<lparr>ranges := ranges d @ [\<lparr>rng_id = new_id, rng_template = template,
     rng_state = created, rng_tenant = Some tenant, provisioner_output = SqlNull, error_message = None, rng_deleted = False\<rparr>]\<rparr>"

datatype booking_note = Gone | Already range_state | CannotProvision range_state | Refused ops_error | Sent | NotSentYet
  | TakenOver string bool | Retired | BuildStarted range_state | StartedMeanwhile

text \<open>\<open>Inl\<close> is an error that escapes.\<close>

type_synonym booking_reply = "db \<times> (ops_error + bool \<times> booking_note)"

definition provision_for_booking :: "env \<Rightarrow> string option \<Rightarrow> (db \<Rightarrow> db) \<Rightarrow> uuid \<Rightarrow> (db \<Rightarrow> db) \<Rightarrow> db \<Rightarrow> booking_reply" where
  "provision_for_booking v sent between rid before d =
     (case get_range d rid of None \<Rightarrow> (d, Inr (False, Gone))
      | Some rng \<Rightarrow>
        if rng_deleted rng then (d, Inr (False, Gone))
        else if rng_state rng \<in> set UP_STATES then (d, Inr (False, Already (rng_state rng)))
        else if \<not> can_transition_to (rng_state rng) provisioning then (d, Inr (False, CannotProvision (rng_state rng)))
        else (case begin_provision v sent between rng before d of
            (d1, Inl (Transition e)) \<Rightarrow> (d1, Inr (False, Refused e))
          | (d1, Inl (Escapes e)) \<Rightarrow> (d1, Inl e)
          | (d1, Inr task) \<Rightarrow> (d1, Inr (True, if nonempty task then Sent else NotSentYet))))"

definition discard_unbuilt :: "(db \<Rightarrow> db) \<Rightarrow> uuid \<Rightarrow> db \<Rightarrow> db \<times> bool \<times> booking_note" where
  "discard_unbuilt between rid d =
     (case get_range d rid of None \<Rightarrow> (d, True, Gone)
      | Some rng \<Rightarrow>
        if rng_deleted rng \<or> rng_state rng = destroyed then (d, True, Gone)
        else if rng_state rng \<noteq> created then (d, False, BuildStarted (rng_state rng))
        else let P = (\<lambda>r. rng_id r = rid \<and> rng_state r = created); d1 = between d;
                 d2 = d1\<lparr>ranges := update_where P (\<lambda>r. r\<lparr>rng_state := destroyed\<rparr>) (ranges d1)\<rparr>
             in if count_where P (ranges d1) = 1 then (d2, True, Retired) else (d2, False, StartedMeanwhile))"

definition destroy_for_booking :: "env \<Rightarrow> string option \<Rightarrow> (db \<Rightarrow> db) \<Rightarrow> uuid \<Rightarrow> string option \<Rightarrow> db \<Rightarrow> booking_reply" where
  "destroy_for_booking v sent between rid bypass d =
     (case get_range d rid of None \<Rightarrow> (d, Inr (True, Gone))
      | Some rng \<Rightarrow>
        if rng_deleted rng then (d, Inr (True, Gone))
        else let taken = (if rng_state rng = destroying \<and> nonempty bypass
               then run_destroy_with_bypass rid (the bypass) False d else (d, Inr None))
        in case taken of
             (d1, Inl e) \<Rightarrow> (d1, Inl e)
           | (d1, Inr (Some x)) \<Rightarrow>
               (if op_status x = Pending
                then let (d2, ok) = dispatch v sent between (op_id x) d1 in (d2, Inr (True, TakenOver (the bypass) ok))
                else (d1, Inr (True, TakenOver (the bypass) True)))
           | (d1, Inr None) \<Rightarrow>
               if rng_state rng \<in> {destroying, destroyed} then (d1, Inr (True, Already (rng_state rng)))
               else (case begin_destroy v sent between rng bypass d1 of
                   (d2, Inl (Transition e)) \<Rightarrow> (d2, Inr (False, Refused e))
                 | (d2, Inl (Escapes e)) \<Rightarrow> (d2, Inl e)
                 | (d2, Inr task) \<Rightarrow> (d2, Inr (True, if nonempty task then Sent else NotSentYet))))"

section \<open>Facts\<close>

lemma get_rangeD: "get_range d rid = Some rng \<Longrightarrow> rng \<in> set (ranges d) \<and> rng_id rng = rid"
  by (auto simp: get_range_def dest: find_row_SomeD)

lemma refused_ranges:
  assumes "accept v rid user action key bypass d = (d', Inl e)"
  shows "ranges d' = ranges d"
  using assms
proof (cases rule: accept_cases)
  case (proceed rng spec)
  from proceed(5) show ?thesis
  proof (cases rule: proceed_cases)
    case check_refused
    then show ?thesis using check_ranges by blast
  next
    case (pool_refused e d1)
    then show ?thesis using check_ranges [OF pool_refused(2)] noise_reserve_frame [OF pool_refused(3)] by simp
  next
    case (recorded d1 d2)
    from recorded(5) show ?thesis by (cases rule: record_accepted_cases) simp_all
  qed
qed simp_all

lemma no_key_created:
  assumes "accept v rid user action None bypass d = (d', Inr (x, b))"
  shows b
  using assms
proof (cases rule: accept_cases)
  case (proceed rng spec)
  from proceed(5) show ?thesis
  proof (cases rule: proceed_cases)
    case (recorded d1 d2)
    from recorded(5) show ?thesis by (cases rule: record_accepted_cases) simp_all
  qed simp_all
qed simp_all

lemma begin_op_cases:
  assumes "begin_op v sent between rng action before bypass d = (d', r)"
  obtains (lab) "r = Inl (Transition LabRange)" "d' = d" "is_lab_range d (rng_id rng)"
  | (refused) e where "accept v (rng_id rng) (scheduler_identity rng) action None bypass d = (d', Inl e)"
      "r = Inl (Transition e) \<or> r = Inl (Escapes e)"
  | (begun) x d1 t where "accept v (rng_id rng) (scheduler_identity rng) action None bypass d = (d1, Inr (x, True))"
      "d' = fst (dispatch v sent between (op_id x) (before d1))" "r = Inr t" "t = task_id (current_op d' x)"
proof (cases "is_lab_range d (rng_id rng)")
  case True
  then show thesis using assms lab by (simp add: begin_op_def)
next
  case False
  obtain d1 q where a: "accept v (rng_id rng) (scheduler_identity rng) action None bypass d = (d1, q)"
    by (cases "accept v (rng_id rng) (scheduler_identity rng) action None bypass d")
  note e = assms [unfolded begin_op_def if_not_P [OF False] a prod.case]
  show thesis
  proof (cases q)
    case (Inl x)
    then show thesis using e a refused [of x] by (simp split: if_splits)
  next
    case (Inr y)
    obtain x b where y: "y = (x, b)" by (cases y)
    have b using no_key_created a Inr y by simp
    then show thesis using e a Inr y begun [of d1 x] by (auto simp: Let_def)
  qed
qed

lemma moved_state:
  "r \<in> set (update_where (\<lambda>r. rng_id r = rid) (\<lambda>r. r\<lparr>rng_state := s, error_message := e\<rparr>) rs) \<Longrightarrow> rng_id r = rid \<Longrightarrow> rng_state r = s"
  unfolding update_where_def set_map by (erule imageE) (simp split: if_splits)

lemma created_in_flight:
  assumes "accept v rid user action key bypass d = (d', Inr (x, True))" "ACTIONS action = Some spec"
  shows "range_in_flight d' rid = [x]" "\<forall>r \<in> set (ranges d'). rng_id r = rid \<longrightarrow> rng_state r = a_in_progress spec"
proof -
  from assms(1) have "range_in_flight d' rid = [x] \<and> (\<forall>r \<in> set (ranges d'). rng_id r = rid \<longrightarrow> rng_state r = a_in_progress spec)"
  proof (rule accept_created)
    fix rng spec' d1
    assume a: "ACTIONS action = Some spec'" "check v rng action spec' d = (d1, Inr ())" "rng_id rng = rid"
      "x = new_op v rng user action key bypass (next_generation d1 rid)" "range_operations d' = range_operations d1 @ [x]"
      "ranges d' = update_where (\<lambda>r. rng_id r = rid) (\<lambda>r. r\<lparr>rng_state := a_in_progress spec', error_message := None\<rparr>) (ranges d)"
    have "range_in_flight d' rid = [x]"
      using check_none [OF a(2)] a(3,4,5) by (simp add: range_in_flight_def in_flight_def IN_FLIGHT_def)
    moreover have "spec' = spec" using a(1) assms(2) by simp
    then have "rng_state r = a_in_progress spec" if "r \<in> set (ranges d')" "rng_id r = rid" for r
      using that moved_state unfolding a(6) by blast
    ultimately show ?thesis by blast
  qed
  then show "range_in_flight d' rid = [x]" "\<forall>r \<in> set (ranges d'). rng_id r = rid \<longrightarrow> rng_state r = a_in_progress spec" by simp_all
qed

lemma provision_cases:
  assumes "provision_for_booking v sent between rid before d = (d', Inr (built, n))"
  obtains (kept) "\<not> built" "ranges d' = ranges d"
      "\<And>before'. provision_for_booking v sent between rid before' d = (d', Inr (False, n))"
  | (built) rng d1 x where "built" "get_range d rid = Some rng" "accept v rid (scheduler_identity rng) ''provision'' None None d = (d1, Inr (x, True))"
      "d' = fst (dispatch v sent between (op_id x) (before d1))" "\<not> is_lab_range d rid"
proof (cases "get_range d rid")
  case None
  then show thesis using assms kept by (simp add: provision_for_booking_def)
next
  case (Some rng)
  have id: "rng_id rng = rid" using get_rangeD [OF Some] by simp
  show thesis
  proof (cases "rng_deleted rng \<or> rng_state rng \<in> set UP_STATES \<or> \<not> can_transition_to (rng_state rng) provisioning")
    case True
    then show thesis using assms kept by (auto simp: provision_for_booking_def Some split: if_splits)
  next
    case False
    obtain d2 q where q: "begin_op v sent between rng ''provision'' before None d = (d2, q)"
      by (cases "begin_op v sent between rng ''provision'' before None d")
    have e: "(d', Inr (built, n)) = (case q of Inl (Transition e) \<Rightarrow> (d2, Inr (False, Refused e)) | Inl (Escapes e) \<Rightarrow> (d2, Inl e)
        | Inr task \<Rightarrow> (d2, Inr (True, if nonempty task then Sent else NotSentYet)))"
      using assms False q by (auto simp: provision_for_booking_def begin_provision_def Some split: sum.splits begin_error.splits)
    show thesis
    proof (cases "\<exists>t. q = Inr t")
      case True
      from q show thesis
      proof (cases rule: begin_op_cases)
        case (begun x d1 t)
        then show thesis using built e Some id q by (auto simp: begin_op_def split: if_splits)
      qed (use True in auto)
    next
      case noop: False
      then obtain er where er: "q = Inl (Transition er)" "d' = d2" "n = Refused er" "\<not> built"
        using e by (cases q) (auto split: begin_error.splits)
      have same: "begin_op v sent between rng ''provision'' before' None d = (d2, q)" for before'
        using q er(1) by (auto simp: begin_op_def Let_def split: if_splits prod.splits sum.splits)
      have "provision_for_booking v sent between rid before' d = (d', Inr (False, n))" for before'
        using False er by (simp add: provision_for_booking_def begin_provision_def Some same)
      moreover have "ranges d2 = ranges d"
        using q er(1) refused_ranges by (cases rule: begin_op_cases) auto
      ultimately show thesis using kept er by simp
    qed
  qed
qed

text \<open>The scheduler owns a build exactly when one was accepted: it reports a build only when the
  range, not a lab's, went to provisioning with that build as its one operation in flight and the
  ownership record (\<open>before\<close>) is in the same transaction; otherwise no range changed and the
  ownership record was not run, whatever it is.\<close>

theorem booking_build_owned:
  assumes "provision_for_booking v sent between rid before d = (d', Inr (built, n))"
  shows "if built
    then \<exists>d1 x. range_in_flight d1 rid = [x] \<and> op_action x = ''provision'' \<and> op_status x = Pending \<and>
      (\<forall>r \<in> set (ranges d1). rng_id r = rid \<longrightarrow> rng_state r = provisioning) \<and> \<not> is_lab_range d rid \<and>
      d' = fst (dispatch v sent between (op_id x) (before d1))
    else ranges d' = ranges d \<and> (\<forall>before'. provision_for_booking v sent between rid before' d = (d', Inr (False, n)))"
  using assms
proof (cases rule: provision_cases)
  case (built rng d1 x)
  have spec: "ACTIONS ''provision'' = Some \<lparr>a_in_progress = provisioning, a_success = ready\<rparr>" by (simp add: ACTIONS_def)
  have "op_action x = ''provision'' \<and> op_status x = Pending"
    using built(3) by (rule accept_created) simp
  then show ?thesis using built created_in_flight [OF built(3) spec] by auto
qed simp

definition settled_note :: "booking_reply \<Rightarrow> bool \<times> bool" where
  "settled_note r = (case snd r of Inl _ \<Rightarrow> (False, False) | Inr (b, n) \<Rightarrow> (True, b))"

lemma settled_noteD: "settled_note r = (True, b) \<Longrightarrow> \<exists>n. r = (fst r, Inr (b, n))"
  by (cases r) (auto simp: settled_note_def split: sum.splits)

theorem booking_build_owned_witness:
  "\<exists>d1 x. range_in_flight d1 ''r'' = [x] \<and> op_action x = ''provision'' \<and>
     fst (provision_for_booking (sample_env 0 ''o1'') (Some ''t'') (\<lambda>d. d) ''r'' (\<lambda>d. d) sample_ops_db)
     = fst (dispatch (sample_env 0 ''o1'') (Some ''t'') (\<lambda>d. d) (op_id x) d1)"
proof -
  let ?p = "provision_for_booking (sample_env 0 ''o1'') (Some ''t'') (\<lambda>d. d) ''r'' (\<lambda>d. d) sample_ops_db"
  have "settled_note ?p = (True, True)" by code_simp
  from settled_noteD [OF this] obtain n where n: "?p = (fst ?p, Inr (True, n))" by (elim exE)
  note q = booking_build_owned [OF n, unfolded if_True]
  from q obtain d1 x where "range_in_flight d1 ''r'' = [x]" "op_action x = ''provision''"
    "fst ?p = fst (dispatch (sample_env 0 ''o1'') (Some ''t'') (\<lambda>d. d) (op_id x) d1)" by (elim exE conjE)
  then show ?thesis by (intro exI [of _ d1] exI [of _ x] conjI)
qed

section \<open>Teardowns\<close>

lemma update_where_origin: "y \<in> set (update_where P f xs) \<Longrightarrow> \<exists>z \<in> set xs. y = z \<or> y = f z"
  by (auto simp: update_where_def)

lemma dispatch_frame:
  "ranges (fst (dispatch v sent (\<lambda>d. d) oid d)) = ranges d"
  "y \<in> set (range_operations (fst (dispatch v sent (\<lambda>d. d) oid d))) \<Longrightarrow>
     \<exists>z \<in> set (range_operations d). op_id y = op_id z \<and> window_bypass y = window_bypass z \<and> (op_status z \<noteq> Held \<longrightarrow> op_status y \<noteq> Held)"
proof -
  show "ranges (fst (dispatch v sent (\<lambda>d. d) oid d)) = ranges d"
    by (simp add: dispatch_def Let_def split: option.split)
  assume y: "y \<in> set (range_operations (fst (dispatch v sent (\<lambda>d. d) oid d)))"
  show "\<exists>z \<in> set (range_operations d). op_id y = op_id z \<and> window_bypass y = window_bypass z \<and> (op_status z \<noteq> Held \<longrightarrow> op_status y \<noteq> Held)"
  proof (cases "find_row (\<lambda>x. op_id x = oid \<and> op_status x \<in> {Pending, Held}) (range_operations d)")
    case None
    then show ?thesis using y by (auto simp: dispatch_def)
  next
    case (Some x)
    from y obtain z where z: "z \<in> set (range_operations d)"
      "y = z \<or> y = (case sent of Some t \<Rightarrow> z\<lparr>dispatch_attempts := dispatch_attempts z + 1, op_status := Dispatched, task_id := Some t,
         dispatched_at := Some (e_now v), op_error := None\<rparr>
       | None \<Rightarrow> z\<lparr>dispatch_attempts := dispatch_attempts z + 1, op_error := Some ''broker_unavailable''\<rparr>)"
      unfolding dispatch_def Some Let_def option.case fst_conv by (auto dest: update_where_origin)
    then show ?thesis by (intro bexI [OF _ z(1)]) (auto split: option.splits)
  qed
qed

lemma bypass_taken:
  assumes "run_destroy_with_bypass rid b False d = (d', Inr (Some x))"
  shows "ranges d' = ranges d" "\<exists>x0. newest_destroy d rid = Some x0 \<and> op_id x = op_id x0"
    "y \<in> set (range_operations d') \<Longrightarrow> op_id y = op_id x \<Longrightarrow> op_status y \<noteq> Held \<and> nonempty (window_bypass y)"
proof -
  obtain x0 where x0: "newest_destroy d rid = Some x0" "b \<in> set BYPASS_KINDS"
    using assms by (auto simp: run_destroy_with_bypass_def Let_def split: if_splits option.splits)
  define f :: "operation \<Rightarrow> operation" where "f = (\<lambda>y. y\<lparr>window_bypass := (if \<not> nonempty (window_bypass y) then Some b else window_bypass y),
    op_status := (if op_status y = Held then Pending else op_status y),
    op_error := (if op_status y = Held then Some ''bypass'' else op_error y)\<rparr>)"
  have e: "d' = put_op (op_id x0) f d" "x = f x0"
    using assms x0 by (simp_all add: run_destroy_with_bypass_def Let_def f_def)
  have fid: "op_id (f z) = op_id z" for z by (simp add: f_def)
  show "ranges d' = ranges d" by (simp add: e put_op_def)
  show "\<exists>x0. newest_destroy d rid = Some x0 \<and> op_id x = op_id x0" using x0(1) e(2) fid by blast
  have b: "nonempty (Some b)" using x0(2) by (auto simp: nonempty_def BYPASS_KINDS_def)
  assume y: "y \<in> set (range_operations d')" "op_id y = op_id x"
  have "y \<in> (\<lambda>z. if op_id z = op_id x0 then f z else z) ` set (range_operations d)"
    using y(1) unfolding e(1) put_op_def update_where_def by simp
  then obtain z where z: "y = (if op_id z = op_id x0 then f z else z)" by (rule imageE)
  then have "op_id z = op_id x0" using y(2) e(2) fid by (auto split: if_splits)
  then have "y = f z" using z by simp
  then show "op_status y \<noteq> Held \<and> nonempty (window_bypass y)" using b by (simp add: f_def)
qed

lemma destroy_cases:
  assumes "destroy_for_booking v sent between rid bypass d = (d', Inr (settled, n))"
  obtains (gone) "settled" "d' = d" "case get_range d rid of None \<Rightarrow> True | Some r \<Rightarrow> rng_deleted r \<or> rng_state r \<in> {destroying, destroyed}"
      "\<And>r. get_range d rid = Some r \<Longrightarrow> \<not> rng_deleted r \<Longrightarrow> rng_state r = destroying \<Longrightarrow> nonempty bypass \<Longrightarrow> newest_destroy d rid = None"
  | (taken) rng x d1 where "settled" "get_range d rid = Some rng" "rng_state rng = destroying" "nonempty bypass"
      "run_destroy_with_bypass rid (the bypass) False d = (d1, Inr (Some x))"
      "d' = d1 \<or> d' = fst (dispatch v sent between (op_id x) d1)"
  | (begun) rng x d1 where "settled" "get_range d rid = Some rng" "rng_state rng \<noteq> destroying"
      "accept v rid (scheduler_identity rng) ''destroy'' None bypass d = (d1, Inr (x, True))"
      "d' = fst (dispatch v sent between (op_id x) d1)"
  | (refused) rng where "\<not> settled" "ranges d' = ranges d" "get_range d rid = Some rng" "rng_state rng \<noteq> destroying"
proof (cases "get_range d rid")
  case None
  then show thesis using assms gone by (simp add: destroy_for_booking_def)
next
  case (Some rng)
  have id: "rng_id rng = rid" using get_rangeD [OF Some] by simp
  define over where "over = (rng_state rng = destroying \<and> nonempty bypass)"
  define q where "q = (if over then run_destroy_with_bypass rid (the bypass) False d else (d, Inr None))"
  show thesis
  proof (cases "rng_deleted rng")
    case True
    then show thesis using assms gone Some by (simp add: destroy_for_booking_def)
  next
    case False
    note e = assms [unfolded destroy_for_booking_def Some option.case if_not_P [OF False] Let_def, folded over_def, folded q_def]
    obtain d1 u where q: "q = (d1, u)" by (cases q)
    show thesis
    proof (cases u)
      case (Inl er)
      then show thesis using e q by simp
    next
      case (Inr w)
      show thesis
      proof (cases w)
        case (Some x)
        then have o: over using q Inr by (auto simp: q_def split: if_splits)
        have "settled" "d' = d1 \<or> d' = fst (dispatch v sent between (op_id x) d1)"
          using e [unfolded q Inr Some prod.case sum.case option.case] by (auto split: if_splits prod.splits)
        then show thesis using taken [of rng d1 x] o q Inr Some \<open>get_range d rid = Some rng\<close> by (simp add: over_def q_def)
      next
        case none: None
        have d1: "d1 = d" "over \<Longrightarrow> newest_destroy d rid = None"
          using q Inr none by (auto simp: q_def run_destroy_with_bypass_def Let_def split: if_splits option.splits)
        note e1 = e [unfolded q Inr none prod.case sum.case option.case d1(1)]
        show thesis
        proof (cases "rng_state rng \<in> {destroying, destroyed}")
          case True
          have "settled" "d' = d" using e1 [unfolded if_P [OF True]] by simp_all
          then show thesis using gone True d1(2) Some by (auto simp: over_def)
        next
          case go: False
          obtain d2 b where b: "begin_op v sent between rng ''destroy'' (\<lambda>d. d) bypass d = (d2, b)"
            by (cases "begin_op v sent between rng ''destroy'' (\<lambda>d. d) bypass d")
          note e2 = e1 [unfolded if_not_P [OF go] begin_destroy_def b prod.case]
          from b show thesis
          proof (cases rule: begin_op_cases)
            case lab
            then show thesis using that(4) [OF _ _ Some] e2 go by simp
          next
            case (refused er)
            have "\<not> settled" "d' = d2" using e2 refused(2) by auto
            then show thesis using that(4) [OF _ _ Some] refused_ranges [OF refused(1)] go by simp
          next
            case (begun x d3 t)
            have "settled" "d' = d2" using e2 begun(3) by auto
            then show thesis using that(3) [OF _ Some] go begun(1,2) id by simp
          qed
        qed
      qed
    qed
  qed
qed

text \<open>A teardown is reported settled only when there is nothing left to start: the range does not
  exist, is deleted, destroyed, or destroying; one not settled left every range as it was, to be
  retried. A teardown that may bypass windows, on a range whose own destroy is in flight, leaves
  that destroy out of \<^verbatim>\<open>held\<close> and with a bypass on record.\<close>

theorem booking_teardown_settled:
  assumes "destroy_for_booking v sent (\<lambda>d. d) rid bypass d = (d', Inr (settled, n))"
  shows "(if settled then (case get_range d' rid of None \<Rightarrow> True | Some r \<Rightarrow> rng_deleted r \<or> rng_state r \<in> {destroying, destroyed})
      else ranges d' = ranges d) \<and>
    (\<forall>rng x y. get_range d rid = Some rng \<and> \<not> rng_deleted rng \<and> rng_state rng = destroying \<and> nonempty bypass \<and> newest_destroy d rid = Some x \<and>
      y \<in> set (range_operations d') \<and> op_id y = op_id x \<longrightarrow> op_status y \<noteq> Held \<and> nonempty (window_bypass y))"
  using assms
proof (cases rule: destroy_cases)
  case gone
  then show ?thesis by auto
next
  case (taken rng x d1)
  have rows: "op_status y \<noteq> Held \<and> nonempty (window_bypass y)" if "y \<in> set (range_operations d')" "op_id y = op_id x" for y
    using taken(6) that bypass_taken(3) [OF taken(5)] dispatch_frame(2) by (metis (no_types))
  have "ranges d' = ranges d" using taken(6) bypass_taken(1) [OF taken(5)] dispatch_frame(1) by metis
  then have "get_range d' rid = Some rng" using taken(2) by (simp add: get_range_def)
  then show ?thesis using taken(1,3) rows bypass_taken(2) [OF taken(5)] by auto
next
  case (begun rng x d1)
  have spec: "ACTIONS ''destroy'' = Some \<lparr>a_in_progress = destroying, a_success = destroyed\<rparr>" by (simp add: ACTIONS_def)
  have "rng_state r = destroying" if "get_range d' rid = Some r" for r
    using created_in_flight(2) [OF begun(4) spec] get_rangeD [OF that] begun(5) dispatch_frame(1) by auto
  then show ?thesis using begun(1-3) by (auto split: option.split)
next
  case refused
  then show ?thesis by simp
qed

text \<open>A held destroy of a booked range, and the booking ended.\<close>

definition held_destroy_db :: db where
  "held_destroy_db = hold_operation (hd (range_operations (fst (accept (sample_env 9 ''o2'') ''s'' sample_user ''destroy'' None None sample_ops_db))))
     (fst (accept (sample_env 9 ''o2'') ''s'' sample_user ''destroy'' None None sample_ops_db))"

theorem booking_teardown_settled_witness:
  "case get_range (fst (destroy_for_booking (sample_env 20 ''z'') None (\<lambda>d. d) ''s'' (Some ''booking_ended'') held_destroy_db)) ''s'' of
     None \<Rightarrow> True | Some r \<Rightarrow> rng_deleted r \<or> rng_state r \<in> {destroying, destroyed}"
proof -
  let ?p = "destroy_for_booking (sample_env 20 ''z'') None (\<lambda>d. d) ''s'' (Some ''booking_ended'') held_destroy_db"
  have "settled_note ?p = (True, True)" by code_simp
  from settled_noteD [OF this] obtain n where n: "?p = (fst ?p, Inr (True, n))" by (elim exE)
  from booking_teardown_settled [OF n] show ?thesis unfolding if_True by (rule conjunct1)
qed

end
