(* ===== verification/Pools.thy ===== *)
theory Pools
  imports Prelude
begin

text \<open>
  Pool settings: \<^verbatim>\<open>worker/vlan_pool.py\<close>, \<^verbatim>\<open>worker/uplink_pool.py\<close> and the parsers of
  \<^verbatim>\<open>app/network_inventory/service.py\<close>, with the parts of Python's \<open>int\<close> and \<open>ipaddress\<close> they use
  (ASCII text). None is a \<^verbatim>\<open>ValueError\<close>. IPv4 addresses are integers from 0 below \<open>2 ^ 32\<close>.
\<close>

section \<open>Numbers and addresses as text\<close>

definition is_digit :: "char \<Rightarrow> bool" where
  "is_digit c = (48 \<le> (of_char c :: nat) \<and> (of_char c :: nat) \<le> 57)"

definition digits_val :: "string \<Rightarrow> nat" where
  "digits_val s = foldl (\<lambda>n c. 10 * n + (of_char c - 48)) 0 s"

text \<open>\<^verbatim>\<open>int(text)\<close>: spaces around, a sign, digits with single underscores between them.\<close>

definition py_int :: "string \<Rightarrow> int option" where
  "py_int s =
     (let t = strip s;
          neg = (t \<noteq> [] \<and> hd t = CHR ''-'');
          body = (if t \<noteq> [] \<and> hd t \<in> {CHR ''-'', CHR ''+''} then tl t else t);
          parts = split_on (CHR ''_'') body
      in if list_all (\<lambda>p. p \<noteq> [] \<and> list_all is_digit p) parts
         then Some ((if neg then -1 else 1) * int (digits_val (concat parts))) else None)"

definition octet :: "string \<Rightarrow> int option" where
  "octet p = (if p \<noteq> [] \<and> list_all is_digit p \<and> length p \<le> 3 \<and> (p = ''0'' \<or> hd p \<noteq> CHR ''0'') \<and> digits_val p \<le> 255
     then Some (int (digits_val p)) else None)"

text \<open>\<^verbatim>\<open>ipaddress.IPv4Address(text)\<close>.\<close>

definition ip4 :: "string \<Rightarrow> int option" where
  "ip4 s = (case map octet (split_on (CHR ''.'') s) of
     [Some a, Some b, Some c, Some d] \<Rightarrow> Some (((a * 256 + b) * 256 + c) * 256 + d) | _ \<Rightarrow> None)"

definition ip4_str :: "int \<Rightarrow> string" where
  "ip4_str n = str_int (n div 256 ^ 3 mod 256) @ ''.'' @ str_int (n div 256 ^ 2 mod 256) @ ''.'' @
     str_int (n div 256 mod 256) @ ''.'' @ str_int (n mod 256)"

text \<open>A prefix length, a netmask or a hostmask.\<close>

definition netmask :: "nat \<Rightarrow> int" where
  "netmask p = (2 ^ p - 1) * 2 ^ (32 - p)"

definition mask_prefix :: "string \<Rightarrow> nat option" where
  "mask_prefix m =
     (if m \<noteq> [] \<and> list_all is_digit m then (if digits_val m \<le> 32 then Some (digits_val m) else None)
      else case ip4 m of None \<Rightarrow> None
       | Some i \<Rightarrow> (case List.find (\<lambda>p. netmask p = i) [0..<33] of Some p \<Rightarrow> Some p
           | None \<Rightarrow> List.find (\<lambda>p. netmask p = 2 ^ 32 - 1 - i) [0..<33]))"

text \<open>\<^verbatim>\<open>IPv4Network(text, strict=False)\<close> as (network address, prefix length), and its \<^verbatim>\<open>hosts()\<close>.\<close>

definition ip4_network :: "string \<Rightarrow> (int \<times> nat) option" where
  "ip4_network s =
     (case split_on (CHR ''/'') s of
        [a] \<Rightarrow> map_option (\<lambda>i. (i, 32)) (ip4 a)
      | [a, m] \<Rightarrow> (case (ip4 a, mask_prefix m) of (Some i, Some p) \<Rightarrow> Some (i div 2 ^ (32 - p) * 2 ^ (32 - p), p) | _ \<Rightarrow> None)
      | _ \<Rightarrow> None)"

definition ip4_hosts :: "int \<times> nat \<Rightarrow> int list" where
  "ip4_hosts n = (case n of (a, p) \<Rightarrow> if p = 32 then [a] else if p = 31 then [a, a + 1]
     else [a + 1..a + 2 ^ (32 - p) - 2])"

section \<open>The pools\<close>

text \<open>The parts of a comma list that are not blank; a first failing part fails the list.\<close>

definition pool_parts :: "string \<Rightarrow> string list" where
  "pool_parts spec = filter (\<lambda>p. p \<noteq> []) (map strip (split_on (CHR '','') spec))"

fun collect :: "('a \<Rightarrow> 'b list option) \<Rightarrow> 'a list \<Rightarrow> 'b list option" where
  "collect f [] = Some []"
| "collect f (x # xs) = (case f x of None \<Rightarrow> None | Some ys \<Rightarrow> map_option (\<lambda>zs. ys @ zs) (collect f xs))"

definition sorted_set :: "'a :: linorder list \<Rightarrow> 'a list option" where
  "sorted_set xs = (if xs = [] then None else Some (sort (remdups xs)))"

definition vlan_entry :: "string \<Rightarrow> int list option" where
  "vlan_entry part =
     (let lo = before_sep (CHR ''-'') part; hi = after_sep (CHR ''-'') part in
      case (py_int lo, py_int (if hi = [] then lo else hi)) of
        (Some s, Some e) \<Rightarrow> if 1 \<le> s \<and> s \<le> e \<and> e \<le> 4094 then Some [s..e] else None
      | _ \<Rightarrow> None)"

definition parse_pool :: "string \<Rightarrow> int list option" where
  "parse_pool spec = Option.bind (collect vlan_entry (pool_parts spec)) sorted_set"

definition parse_reserved :: "string \<Rightarrow> int list option" where
  "parse_reserved spec = (if list_all (\<lambda>c. c \<in> {CHR '' '', CHR '',''}) spec then Some [] else parse_pool spec)"

definition vlan_pool :: "string \<Rightarrow> string list option" where
  "vlan_pool spec = map_option (map str_int) (Option.bind (collect vlan_entry (pool_parts spec)) sorted_set)"

definition before_last_dot :: "string \<Rightarrow> string" where
  "before_last_dot s = (if CHR ''.'' \<in> set s then rev (drop 1 (dropWhile (\<lambda>c. c \<noteq> CHR ''.'') (rev s))) else s)"

definition ip_entry :: "string \<Rightarrow> int list option" where
  "ip_entry part =
     (let lo = strip (before_sep (CHR ''-'') part); hi = after_sep (CHR ''-'') part in
      case (ip4 lo, if hi = [] then ip4 lo else if CHR ''.'' \<in> set hi then ip4 (strip hi)
          else ip4 (before_last_dot lo @ ''.'' @ strip hi)) of
        (Some s, Some e) \<Rightarrow> if e < s then None else Some [s..e]
      | _ \<Rightarrow> None)"

definition uplink_pool :: "string \<Rightarrow> string list option" where
  "uplink_pool spec = map_option (map ip4_str) (Option.bind (collect ip_entry (pool_parts spec)) sorted_set)"

definition api_ip_entry :: "string \<Rightarrow> int list option" where
  "api_ip_entry part = (if CHR ''/'' \<in> set part then map_option ip4_hosts (ip4_network part) else ip_entry part)"

definition parse_ip_pool :: "string \<Rightarrow> string list option" where
  "parse_ip_pool spec = map_option (map ip4_str) (Option.bind (collect api_ip_entry (pool_parts spec)) sorted_set)"

section \<open>Digits\<close>

lemma digit_char_code: "d < 10 \<Longrightarrow> (of_char (digit_char d) :: nat) = 48 + d"
  by (simp add: digit_char_def)

lemma str_nat_digits: "list_all is_digit (str_nat n) \<and> str_nat n \<noteq> []"
proof (induction n rule: str_nat.induct)
  case (1 n)
  have "is_digit (digit_char d)" if "d < 10" for d using that by (simp add: is_digit_def digit_char_code)
  then show ?case using 1 by (subst (1 2) str_nat.simps) simp
qed

lemma digits_val_snoc: "digits_val (s @ [c]) = 10 * digits_val s + (of_char c - 48)"
  by (simp add: digits_val_def)

lemma digits_val_str_nat [simp]: "digits_val (str_nat n) = n"
proof (induction n rule: str_nat.induct)
  case (1 n)
  show ?case
  proof (cases "n < 10")
    case True
    then show ?thesis by (subst str_nat.simps) (simp add: digits_val_def digit_char_code)
  next
    case False
    then show ?thesis using 1 by (subst str_nat.simps) (simp add: digits_val_snoc digit_char_code)
  qed
qed

lemma digit_plain:
  assumes "is_digit c"
  shows "c \<noteq> CHR '',''" "c \<noteq> CHR ''-''" "c \<noteq> CHR ''+''" "c \<noteq> CHR ''_''" "c \<noteq> CHR ''.''" "\<not> py_space c" "c \<noteq> CHR ''/''"
  using assms by (auto simp: is_digit_def py_space_def Let_def)

lemma split_on_none: "c \<notin> set s \<Longrightarrow> split_on c s = [s]"
  by (induction s) auto

lemma split_on_append: "c \<notin> set a \<Longrightarrow> split_on c (a @ c # b) = a # split_on c b"
  by (induction a) auto

lemma strip_plain: "list_all (\<lambda>c. \<not> py_space c) s \<Longrightarrow> strip s = s"
proof -
  assume a: "list_all (\<lambda>c. \<not> py_space c) s"
  have "dropWhile py_space s = s" if "list_all (\<lambda>c. \<not> py_space c) s" for s using that by (cases s) simp_all
  from this [OF a] this [of "rev s"] a show ?thesis by (simp add: strip_def list_all_iff)
qed

lemma before_sep_none: "c \<notin> set s \<Longrightarrow> before_sep c s = s \<and> after_sep c s = []"
  by (induction s) (auto simp: before_sep_def after_sep_def)

lemma digits_set: "c \<in> set (str_nat n) \<Longrightarrow> is_digit c"
  using str_nat_digits by (auto simp: list_all_iff)

lemma py_int_str: "py_int (str_nat n) = Some (int n)"
proof -
  have s: "strip (str_nat n) = str_nat n"
    using digits_set digit_plain(6) by (intro strip_plain) (auto simp: list_all_iff)
  have h: "hd (str_nat n) \<noteq> CHR ''-''" "hd (str_nat n) \<noteq> CHR ''+''"
    using digits_set [of "hd (str_nat n)" n] str_nat_digits [of n] digit_plain by auto
  have "split_on (CHR ''_'') (str_nat n) = [str_nat n]"
    using digits_set digit_plain(4) by (intro split_on_none) auto
  then show ?thesis using s h str_nat_digits [of n] by (simp add: py_int_def Let_def)
qed

lemma str_nat_length: "n < 10 ^ Suc k \<Longrightarrow> length (str_nat n) \<le> Suc k"
proof (induction k arbitrary: n)
  case 0
  then show ?case by (subst str_nat.simps) simp
next
  case (Suc k)
  then have "n div 10 < 10 ^ Suc k" by auto
  from Suc.IH [OF this] show ?case by (subst str_nat.simps) simp
qed

lemma str_nat_lead: "0 < n \<Longrightarrow> hd (str_nat n) \<noteq> CHR ''0''"
proof (induction n rule: str_nat.induct)
  case (1 n)
  show ?case
  proof (cases "n < 10")
    case True
    then have "(of_char (digit_char n) :: nat) \<noteq> 48" using 1(2) by (simp add: digit_char_code)
    then show ?thesis using True by (subst str_nat.simps) auto
  next
    case False
    then have "hd (str_nat (n div 10)) \<noteq> CHR ''0''" using 1(1) by simp
    then show ?thesis using False str_nat_digits [of "n div 10"] by (subst str_nat.simps) simp
  qed
qed

lemma str_nat_short:
  assumes "n < 256"
  shows "length (str_nat n) \<le> 3" "str_nat n = ''0'' \<or> hd (str_nat n) \<noteq> CHR ''0''"
proof -
  show "length (str_nat n) \<le> 3" using str_nat_length [of n 2] assms by simp
  have "str_nat 0 = ''0''" by code_simp
  then show "str_nat n = ''0'' \<or> hd (str_nat n) \<noteq> CHR ''0''" using str_nat_lead [of n] by (cases "n = 0") auto
qed

lemma octet_str: "0 \<le> n \<Longrightarrow> n < 256 \<Longrightarrow> octet (str_int n) = Some n"
  using str_nat_digits [of "nat n"] str_nat_short [of "nat n"] by (simp add: octet_def str_int_def)

lemma str_int_digits: "0 \<le> n \<Longrightarrow> list_all is_digit (str_int n) \<and> str_int n \<noteq> []"
  using str_nat_digits [of "nat n"] by (simp add: str_int_def)

lemma split_ip4_str:
  "split_on (CHR ''.'') (ip4_str n) =
   [str_int (n div 256 ^ 3 mod 256), str_int (n div 256 ^ 2 mod 256), str_int (n div 256 mod 256), str_int (n mod 256)]"
proof -
  have "CHR ''.'' \<notin> set (str_int (k mod 256))" for k
    using str_int_digits [of "k mod 256"] digit_plain(5) by (auto simp: list_all_iff)
  then show ?thesis unfolding ip4_str_def by (simp add: split_on_append split_on_none)
qed

lemma base256:
  "n = 256 * q1 + r0 \<Longrightarrow> q1 = 256 * q2 + r1 \<Longrightarrow> q2 = 256 * q3 + r2 \<Longrightarrow> ((q3 * 256 + r2) * 256 + r1) * 256 + r0 = (n :: int)"
  by simp

lemma octets_value:
  fixes n :: int
  shows "((n div 256 ^ 3 * 256 + n div 256 ^ 2 mod 256) * 256 + n div 256 mod 256) * 256 + n mod 256 = n"
proof -
  have p: "(256 :: int) ^ 2 = 256 * 256" "(256 :: int) ^ 3 = 256 * 256 * 256" by simp_all
  have z: "n div (256 * 256) = n div 256 div 256" by (rule zdiv_zmult2_eq) simp
  have "n div (256 * 256 * 256) = n div (256 * 256) div 256" by (rule zdiv_zmult2_eq) simp
  then have e: "n div 256 ^ 2 = n div 256 div 256" "n div 256 ^ 3 = n div 256 div 256 div 256"
    unfolding p z by - (rule refl, assumption)
  show ?thesis unfolding e
    by (rule base256 [OF mult_div_mod_eq [of 256 n, symmetric] mult_div_mod_eq [of 256 "n div 256", symmetric]
          mult_div_mod_eq [of 256 "n div 256 div 256", symmetric]])
qed

lemma ip4_roundtrip:
  assumes "0 \<le> n" "n < 2 ^ 32"
  shows "ip4 (ip4_str n) = Some n"
proof -
  have o: "octet (str_int (k mod 256)) = Some (k mod 256)" for k by (rule octet_str) simp_all
  have "0 \<le> n div 256 ^ 3" "n div 256 ^ 3 < 256" using assms by simp_all
  then have "n div 256 ^ 3 mod 256 = n div 256 ^ 3" by (simp only: mod_pos_pos_trivial)
  then have "map octet (split_on (CHR ''.'') (ip4_str n)) =
      [Some (n div 256 ^ 3), Some (n div 256 ^ 2 mod 256), Some (n div 256 mod 256), Some (n mod 256)]"
    unfolding split_ip4_str list.map o by (simp only:)
  then show ?thesis unfolding ip4_def by (simp only: list.case option.case octets_value)
qed

section \<open>Pools as text again\<close>

definition join :: "string list \<Rightarrow> string" where
  "join xs = concat (map (\<lambda>x. CHR '','' # x) xs)"

definition as_spec :: "string list \<Rightarrow> string" where
  "as_spec xs = drop 1 (join xs)"

lemma split_as_spec:
  assumes "xs \<noteq> []" "\<And>x. x \<in> set xs \<Longrightarrow> CHR '','' \<notin> set x"
  shows "split_on (CHR '','') (as_spec xs) = xs"
  using assms
proof (induction xs)
  case (Cons x xs)
  show ?case
  proof (cases xs)
    case Nil
    then show ?thesis using Cons.prems by (simp add: as_spec_def join_def split_on_none)
  next
    case (Cons y ys)
    have "split_on (CHR '','') (as_spec xs) = xs" using Cons.IH Cons.prems Cons by simp
    moreover have "as_spec (x # xs) = x @ CHR '','' # as_spec xs" using Cons by (simp add: as_spec_def join_def)
    ultimately show ?thesis using Cons.prems by (simp add: split_on_append)
  qed
qed simp

definition pool_char :: "char \<Rightarrow> bool" where
  "pool_char c = (is_digit c \<or> c = CHR ''.'')"

lemma pool_charD: "pool_char c \<Longrightarrow> c \<noteq> CHR '','' \<and> c \<noteq> CHR ''-'' \<and> c \<noteq> CHR ''/'' \<and> \<not> py_space c"
  by (auto simp: pool_char_def digit_plain) (auto simp: is_digit_def py_space_def Let_def)

lemma parts_as_spec:
  assumes "xs \<noteq> []" "\<And>x. x \<in> set xs \<Longrightarrow> x \<noteq> [] \<and> list_all pool_char x"
  shows "pool_parts (as_spec xs) = xs"
proof -
  have "strip x = x" "CHR '','' \<notin> set x" "x \<noteq> []" if "x \<in> set xs" for x
    using assms(2) [OF that] pool_charD by (auto simp: list_all_iff intro!: strip_plain)
  then show ?thesis by (simp add: pool_parts_def split_as_spec [OF assms(1)] map_idI)
qed

lemma collect_single: "(\<And>x. x \<in> set xs \<Longrightarrow> f (g x) = Some [x]) \<Longrightarrow> collect f (map g xs) = Some xs"
  by (induction xs) simp_all

lemma sorted_set_fixed:
  assumes "sorted_set xs = Some ys"
  shows "sorted_set ys = Some ys" "ys \<noteq> []" "sorted ys" "distinct ys" "set ys = set xs"
proof -
  have ys: "ys = sort (remdups xs)" "xs \<noteq> []" using assms by (simp_all add: sorted_set_def split: if_splits)
  then show s: "sorted ys" "distinct ys" "set ys = set xs" by simp_all
  then show "ys \<noteq> []" using ys(2) by auto
  then show "sorted_set ys = Some ys" using s by (simp add: sorted_set_def sorted_sort_id distinct_remdups_id)
qed

lemma collect_set:
  assumes "collect f xs = Some ys" "y \<in> set ys"
  shows "\<exists>x zs. x \<in> set xs \<and> f x = Some zs \<and> y \<in> set zs"
  using assms
proof (induction xs arbitrary: ys)
  case (Cons x xs)
  then obtain zs ws where "f x = Some zs" "collect f xs = Some ws" "ys = zs @ ws" by (auto split: option.splits)
  then show ?case using Cons.IH [of ws] Cons.prems(2) by auto
qed simp

lemma vlan_entry_bounds: "vlan_entry p = Some vs \<Longrightarrow> v \<in> set vs \<Longrightarrow> 1 \<le> v \<and> v \<le> 4094"
  by (auto simp: vlan_entry_def Let_def split: option.splits if_splits)

lemma vlan_entry_str:
  assumes "1 \<le> v" "v \<le> 4094"
  shows "vlan_entry (str_int v) = Some [v]"
proof -
  have "CHR ''-'' \<notin> set (str_nat (nat v))" using digits_set digit_plain(2) by blast
  then show ?thesis using assms before_sep_none [of "CHR ''-''" "str_nat (nat v)"]
    by (simp add: vlan_entry_def str_int_def py_int_str)
qed

lemma ip4_str_chars: "list_all pool_char (ip4_str n) \<and> ip4_str n \<noteq> []"
proof -
  have "list_all pool_char (str_int (k mod 256))" for k
    using str_int_digits [of "k mod 256"] by (auto simp: list_all_iff pool_char_def)
  then show ?thesis by (simp add: ip4_str_def pool_char_def)
qed

lemma ip_entry_str:
  assumes "0 \<le> n" "n < 2 ^ 32"
  shows "ip_entry (ip4_str n) = Some [n]" "api_ip_entry (ip4_str n) = Some [n]"
proof -
  have c: "pool_char c" if "c \<in> set (ip4_str n)" for c using ip4_str_chars that by (auto simp: list_all_iff)
  have "CHR ''-'' \<notin> set (ip4_str n)" "strip (ip4_str n) = ip4_str n" and slash: "CHR ''/'' \<notin> set (ip4_str n)"
    using c pool_charD by (auto simp: list_all_iff intro!: strip_plain)
  then show e: "ip_entry (ip4_str n) = Some [n]"
    using before_sep_none [of "CHR ''-''" "ip4_str n"] ip4_roundtrip [OF assms] by (simp add: ip_entry_def)
  then show "api_ip_entry (ip4_str n) = Some [n]" using slash by (simp add: api_ip_entry_def)
qed

lemma octet_bound: "octet p = Some k \<Longrightarrow> 0 \<le> k \<and> k < 256"
  by (simp add: octet_def split: if_splits)

lemma ip4_bound:
  assumes "ip4 s = Some n"
  shows "0 \<le> n" "n < 2 ^ 32"
proof -
  obtain a b c d where o: "map octet (split_on (CHR ''.'') s) = [Some a, Some b, Some c, Some d]"
    "n = ((a * 256 + b) * 256 + c) * 256 + d"
    using assms by (auto simp: ip4_def split: list.splits option.splits)
  then have "0 \<le> a \<and> a < 256" "0 \<le> b \<and> b < 256" "0 \<le> c \<and> c < 256" "0 \<le> d \<and> d < 256"
    using octet_bound by (auto simp: map_eq_Cons_conv)
  then show "0 \<le> n" "n < 2 ^ 32" unfolding o(2) by simp_all
qed

lemma ip_entry_bound:
  assumes "ip_entry p = Some ns" "n \<in> set ns"
  shows "0 \<le> n \<and> n < 2 ^ 32"
proof -
  obtain lo hi s e where "ip4 lo = Some s" "ip4 hi = Some e" "s \<le> n" "n \<le> e"
    using assms by (auto simp: ip_entry_def Let_def split: option.splits if_splits)
  then show ?thesis using ip4_bound [of lo s] ip4_bound [of hi e] by simp
qed

lemma mask_prefix_bound: "mask_prefix m = Some p \<Longrightarrow> p \<le> 32"
  by (auto simp: mask_prefix_def find_Some_iff split: if_splits option.splits)

lemma network_fits:
  assumes "ip4_network s = Some (a, p)"
  shows "0 \<le> a" "a + 2 ^ (32 - p) \<le> 2 ^ 32"
proof -
  consider (host) t where "p = 32" "ip4 t = Some a"
    | (net) t m i where "ip4 t = Some i" "mask_prefix m = Some p" "a = i div 2 ^ (32 - p) * 2 ^ (32 - p)"
    using assms by (auto simp: ip4_network_def split: list.splits option.splits)
  then have "0 \<le> a \<and> a + 2 ^ (32 - p) \<le> 2 ^ 32"
  proof cases
    case host
    then show ?thesis using ip4_bound [OF host(2)] by simp
  next
    case net
    define k :: int where "k = 2 ^ (32 - p)"
    have e: "(2 :: int) ^ 32 = 2 ^ p * k" using mask_prefix_bound [OF net(2)] by (simp add: k_def flip: power_add)
    have k: "0 < k" by (simp add: k_def)
    have i: "0 \<le> i" "i < 2 ^ p * k" using ip4_bound [OF net(1)] e by simp_all
    have "i div k * k \<le> i"
      using mult_div_mod_eq [of k i] pos_mod_sign [OF k, of i] unfolding mult.commute [of "i div k" k] by linarith
    then have "i div k * k < 2 ^ p * k" using i(2) by simp
    then have "i div k < 2 ^ p" using k by (simp add: mult_less_cancel_right)
    then have "(i div k + 1) * k \<le> 2 ^ p * k" using k by (intro mult_right_mono) simp_all
    moreover have "0 \<le> i div k * k" using i k by (simp add: pos_imp_zdiv_nonneg_iff)
    ultimately show ?thesis unfolding net(3) k_def [symmetric] e by (simp add: algebra_simps)
  qed
  then show "0 \<le> a" "a + 2 ^ (32 - p) \<le> 2 ^ 32" by simp_all
qed

lemma hosts_bound:
  assumes "ip4_network s = Some net" "n \<in> set (ip4_hosts net)"
  shows "0 \<le> n \<and> n < 2 ^ 32"
proof -
  obtain a p where net: "net = (a, p)" by (cases net)
  have "a \<le> n \<and> n < a + 2 ^ (32 - p)" using assms(2) by (auto simp: net ip4_hosts_def split: if_splits)
  then show ?thesis using network_fits [of s a p] assms(1) net by simp
qed

lemma api_ip_entry_bound: "api_ip_entry p = Some ns \<Longrightarrow> n \<in> set ns \<Longrightarrow> 0 \<le> n \<and> n < 2 ^ 32"
  using ip_entry_bound hosts_bound by (auto simp: api_ip_entry_def split: if_splits)

section \<open>Properties\<close>

text \<open>C39: A pool that parses, written out as the list of its values, parses back to itself: the
  VLAN pool in the API and in the worker, the address pool (CIDR forms included) in both. The
  values are distinct and in increasing order, and VLANs are within 1 to 4094.\<close>

theorem pools_roundtrip:
  assumes "parse_pool spec = Some vs" "parse_ip_pool spec' = Some as"
  shows "parse_pool (as_spec (map str_int vs)) = Some vs \<and> vlan_pool (as_spec (map str_int vs)) = Some (map str_int vs) \<and>
    sorted vs \<and> distinct vs \<and> (\<forall>v \<in> set vs. 1 \<le> v \<and> v \<le> 4094) \<and>
    parse_ip_pool (as_spec as) = Some as \<and> uplink_pool (as_spec as) = Some as \<and>
    (\<exists>ns. as = map ip4_str ns \<and> sorted ns \<and> distinct ns \<and> (\<forall>n \<in> set ns. 0 \<le> n \<and> n < 2 ^ 32))"
proof -
  obtain xs where xs: "collect vlan_entry (pool_parts spec) = Some xs" "sorted_set xs = Some vs"
    using assms(1) by (auto simp: parse_pool_def bind_eq_Some_conv)
  note s = sorted_set_fixed [OF xs(2)]
  have b: "1 \<le> v \<and> v \<le> 4094" if "v \<in> set vs" for v
    using collect_set [OF xs(1)] vlan_entry_bounds that s(5) by blast
  have "list_all pool_char (str_int v) \<and> str_int v \<noteq> []" if "v \<in> set vs" for v
    using b [OF that] str_nat_digits [of "nat v"] by (auto simp: str_int_def list_all_iff pool_char_def)
  then have "pool_parts (as_spec (map str_int vs)) = map str_int vs" using s(2) by (intro parts_as_spec) auto
  then have v: "parse_pool (as_spec (map str_int vs)) = Some vs" "vlan_pool (as_spec (map str_int vs)) = Some (map str_int vs)"
    using collect_single [of vs vlan_entry str_int] vlan_entry_str b s(1) by (simp_all add: parse_pool_def vlan_pool_def)
  obtain ys ns where ys: "collect api_ip_entry (pool_parts spec') = Some ys" "sorted_set ys = Some ns" "as = map ip4_str ns"
    using assms(2) by (auto simp: parse_ip_pool_def bind_eq_Some_conv)
  note r = sorted_set_fixed [OF ys(2)]
  have c: "0 \<le> n \<and> n < 2 ^ 32" if "n \<in> set ns" for n
    using collect_set [OF ys(1)] api_ip_entry_bound that r(5) by blast
  have "pool_parts (as_spec as) = as" using r(2) ys(3) ip4_str_chars by (intro parts_as_spec) auto
  then have "parse_ip_pool (as_spec as) = Some as" "uplink_pool (as_spec as) = Some as"
    using collect_single [of ns _ ip4_str] ip_entry_str c r(1) ys(3) by (simp_all add: parse_ip_pool_def uplink_pool_def)
  then show ?thesis using v s b r c ys(3) by blast
qed

theorem pools_roundtrip_witness:
  "parse_pool (as_spec (map str_int [100, 101, 160])) = Some [100, 101, 160] \<and>
   parse_ip_pool (as_spec [''10.0.0.1'', ''10.0.0.2'']) = Some [''10.0.0.1'', ''10.0.0.2'']"
proof -
  have "parse_pool ''160, 100-101,'' = Some [100, 101, 160]" "parse_ip_pool ''10.0.0.3/30'' = Some [''10.0.0.1'', ''10.0.0.2'']"
    by code_simp+
  from pools_roundtrip [OF this] show ?thesis by (elim conjE) (intro conjI)
qed

section \<open>The two address parsers\<close>

lemma split_on_chars: "x \<in> set s \<Longrightarrow> x \<noteq> c \<Longrightarrow> \<exists>p \<in> set (split_on c s). x \<in> set p"
  by (induction s) (auto split: list.splits)

lemma ip4_chars:
  assumes "ip4 s = Some n" "c \<in> set s"
  shows "pool_char c"
proof (cases "c = CHR ''.''")
  case False
  obtain p where p: "p \<in> set (split_on (CHR ''.'') s)" "c \<in> set p" using split_on_chars assms(2) False by blast
  have "octet p \<noteq> None" using assms(1) p(1) by (auto simp: ip4_def map_eq_Cons_conv split: list.splits option.splits)
  then show ?thesis using p(2) by (auto simp: octet_def pool_char_def list_all_iff split: if_splits)
qed (simp add: pool_char_def)

lemma strip_keeps: "c \<in> set s \<Longrightarrow> \<not> py_space c \<Longrightarrow> c \<in> set (strip s)"
proof -
  have "c \<in> set (dropWhile py_space s)" if "c \<in> set s" "\<not> py_space c" for s
    using that by (induction s) auto
  then show "c \<in> set s \<Longrightarrow> \<not> py_space c \<Longrightarrow> c \<in> set (strip s)" by (simp add: strip_def)
qed

lemma sep_covers: "x \<in> set s \<Longrightarrow> x \<noteq> c \<Longrightarrow> x \<in> set (before_sep c s) \<or> x \<in> set (after_sep c s)"
  by (induction s) (auto simp: before_sep_def after_sep_def)

lemma slash_refused:
  assumes "CHR ''/'' \<in> set part"
  shows "ip_entry part = None"
proof (rule ccontr)
  assume "ip_entry part \<noteq> None"
  then have se: "ip4 (strip (before_sep (CHR ''-'') part)) \<noteq> None"
    "after_sep (CHR ''-'') part = [] \<or> ip4 ([] @ strip (after_sep (CHR ''-'') part)) \<noteq> None \<or>
     ip4 ((before_last_dot (strip (before_sep (CHR ''-'') part)) @ ''.'') @ strip (after_sep (CHR ''-'') part)) \<noteq> None"
    by (auto simp: ip_entry_def Let_def split: option.splits if_splits)
  have "\<not> py_space (CHR ''/'')" by (simp add: py_space_def)
  then consider "CHR ''/'' \<in> set (strip (before_sep (CHR ''-'') part))" | "CHR ''/'' \<in> set (strip (after_sep (CHR ''-'') part))"
    using sep_covers [OF assms, of "CHR ''-''"] strip_keeps by auto
  then have "pool_char (CHR ''/'')"
  proof cases
    case 1
    then show ?thesis using ip4_chars se(1) by blast
  next
    case 2
    then have "after_sep (CHR ''-'') part \<noteq> []" by (auto simp: strip_def)
    then obtain w e where w: "ip4 (w @ strip (after_sep (CHR ''-'') part)) = Some e" using se(2) by blast
    show ?thesis using ip4_chars [OF w] 2 by simp
  qed
  then show False using pool_charD by blast
qed

lemma collect_cong: "(\<And>x. x \<in> set xs \<Longrightarrow> f x = g x) \<Longrightarrow> collect f xs = collect g xs"
  by (induction xs) (simp_all split: option.split)

lemma collect_None: "x \<in> set xs \<Longrightarrow> f x = None \<Longrightarrow> collect f xs = None"
  by (induction xs) (auto split: option.split)

text \<open>The worker's address parser and the API's agree on every setting without a CIDR; a setting
  with one is read by the API (when it is well formed) and refused by the worker, which has no
  CIDR form. The VLAN parsers agree on every setting.\<close>

theorem pool_parsers_agree:
  "vlan_pool spec = map_option (map str_int) (parse_pool spec) \<and>
   uplink_pool spec = (if list_ex (\<lambda>p. CHR ''/'' \<in> set p) (pool_parts spec) then None else parse_ip_pool spec)"
proof -
  have "uplink_pool spec = None" if slash: "list_ex (\<lambda>p. CHR ''/'' \<in> set p) (pool_parts spec)"
  proof -
    obtain q where q: "q \<in> set (pool_parts spec)" "CHR ''/'' \<in> set q" using slash by (auto simp: list_ex_iff)
    show ?thesis using collect_None [OF q(1), of ip_entry] slash_refused [OF q(2)] by (simp add: uplink_pool_def)
  qed
  moreover have "uplink_pool spec = parse_ip_pool spec" if "\<not> list_ex (\<lambda>p. CHR ''/'' \<in> set p) (pool_parts spec)"
    using that collect_cong [of "pool_parts spec" ip_entry api_ip_entry]
    by (auto simp: uplink_pool_def parse_ip_pool_def list_ex_iff api_ip_entry_def)
  ultimately show ?thesis by (simp add: vlan_pool_def parse_pool_def)
qed

end
