(* ===== verification/Rbac.thy ===== *)
theory Rbac
  imports Range_Lifecycle Pools
begin

text \<open>
  \<^verbatim>\<open>app/rbac.py\<close>: permissions, the permissions of each role, the guards routes put in front of their
  handlers, the platform administrator, and who may grant which role.

  \<^verbatim>\<open>Permission\<close> is a string enum; a permission is its value. The environment variable
  \<^verbatim>\<open>PLATFORM_TENANT_ID\<close> and the tenants table are arguments.
\<close>

section \<open>Permissions and roles\<close>

type_synonym permission = string

definition Permission :: "permission list" where
  "Permission =
    [''range:create'', ''range:read'', ''range:update'', ''range:delete'', ''range:provision'',
     ''range:destroy'', ''range:batch_provision'', ''range:lease_force_release'', ''range:credentials_read'',
     ''range:credentials_rotate'', ''range:certification_read'', ''range:admin'', ''template:create'',
     ''template:read'', ''template:update'', ''template:delete'', ''scenario:create'', ''scenario:read'',
     ''scenario:update'', ''scenario:delete'', ''exercise:create'', ''exercise:read'', ''exercise:start'',
     ''exercise:complete'', ''exercise:pause'', ''detection:submit'', ''objective:ack'', ''user:create'',
     ''user:read'', ''user:update'', ''user:delete'', ''registration:read'', ''registration:approve'',
     ''infra:read'', ''infra:write'', ''infra:control'', ''ai_config:read'', ''ai_config:write'',
     ''integration:read'', ''integration:write'', ''learning_record:read'', ''learning_record:write'',
     ''enrollment:manage_own'', ''team:manage_own'', ''course:author'', ''course:release'', ''schedule:read'',
     ''schedule:write'', ''schedule:admin'', ''schedule:approve'', ''content_review:read'',
     ''content_review:review_own'', ''content_review:admin'', ''class:create'', ''class:read'',
     ''readiness:read'', ''class:attend'', ''tenant:create'', ''tenant:read'', ''tenant:update'',
     ''audit:read'', ''telemetry:read'', ''telemetry:write'', ''stats:read'', ''aar:generate'', ''aar:read'',
     ''noise:read'', ''noise:control'', ''wiki:read'', ''wiki:edit'', ''wiki:admin'', ''ticket:create'',
     ''ticket:work'', ''ticket:admin'']"

datatype user_role = R_admin | R_instructor | R_student | R_observer | R_range_ops

fun ROLE_PERMISSIONS :: "user_role \<Rightarrow> permission list" where
  "ROLE_PERMISSIONS R_admin = Permission"
| "ROLE_PERMISSIONS R_instructor = 
    [''range:create'', ''range:read'', ''range:update'', ''range:provision'', ''range:destroy'',
     ''range:batch_provision'', ''range:credentials_read'', ''range:certification_read'', ''template:read'',
     ''template:create'', ''scenario:create'', ''scenario:read'', ''scenario:update'', ''exercise:create'',
     ''exercise:read'', ''exercise:start'', ''exercise:complete'', ''exercise:pause'', ''detection:submit'',
     ''objective:ack'', ''schedule:read'', ''schedule:write'', ''content_review:read'',
     ''content_review:review_own'', ''class:create'', ''class:read'', ''readiness:read'', ''class:attend'',
     ''user:read'', ''infra:read'', ''ai_config:read'', ''integration:read'', ''learning_record:read'',
     ''learning_record:write'', ''enrollment:manage_own'', ''team:manage_own'', ''course:author'',
     ''course:release'', ''stats:read'', ''aar:generate'', ''aar:read'', ''telemetry:read'',
     ''telemetry:write'', ''noise:read'', ''noise:control'', ''wiki:read'', ''wiki:edit'', ''ticket:create'',
     ''ticket:work'']"
| "ROLE_PERMISSIONS R_range_ops = 
    [''infra:read'', ''infra:write'', ''infra:control'', ''ai_config:read'', ''range:create'', ''range:read'',
     ''range:update'', ''range:delete'', ''range:provision'', ''range:destroy'', ''range:batch_provision'',
     ''range:credentials_read'', ''range:certification_read'', ''template:read'', ''template:create'',
     ''template:update'', ''scenario:read'', ''exercise:read'', ''schedule:read'', ''schedule:approve'',
     ''content_review:read'', ''stats:read'', ''telemetry:read'', ''telemetry:write'', ''wiki:read'',
     ''wiki:edit'', ''ticket:create'', ''ticket:work'']"
| "ROLE_PERMISSIONS R_student = 
    [''range:read'', ''template:read'', ''scenario:read'', ''exercise:read'', ''detection:submit'',
     ''aar:read'', ''class:attend'', ''wiki:read'', ''ticket:create'']"
| "ROLE_PERMISSIONS R_observer = 
    [''range:read'', ''template:read'', ''scenario:read'', ''exercise:read'', ''aar:read'', ''schedule:read'',
     ''class:read'', ''readiness:read'', ''telemetry:read'', ''wiki:read'']"

record current_user =
  u_id :: uuid
  u_role :: user_role
  u_tenant :: uuid

definition user_has_permission :: "current_user \<Rightarrow> permission \<Rightarrow> bool" where
  "user_has_permission u p = (p \<in> set (ROLE_PERMISSIONS (u_role u)))"

definition user_permissions :: "current_user \<Rightarrow> permission list" where
  "user_permissions u = ROLE_PERMISSIONS (u_role u)"

section \<open>Guards\<close>

datatype guard_error = Missing "permission list" | NeedsOneOf "permission list" | WrongTenant | NoSuchRange | NotPlatformAdmin

definition require_permission :: "permission list \<Rightarrow> current_user \<Rightarrow> guard_error + current_user" where
  "require_permission ps u =
     (let missing = filter (\<lambda>p. p \<notin> set (ROLE_PERMISSIONS (u_role u))) ps in if missing \<noteq> [] then Inl (Missing missing) else Inr u)"

definition require_any_permission :: "permission list \<Rightarrow> current_user \<Rightarrow> guard_error + current_user" where
  "require_any_permission ps u =
     (if \<not> list_ex (\<lambda>p. p \<in> set (ROLE_PERMISSIONS (u_role u))) ps then Inl (NeedsOneOf ps) else Inr u)"

definition PLATFORM_CURRICULUM_WRITE :: "permission list" where
  "PLATFORM_CURRICULUM_WRITE = [''course:author'', ''tenant:read'']"

text \<open>\<^verbatim>\<open>str(uuid.UUID(raw))\<close>: the prefixes \<^verbatim>\<open>urn:\<close> and \<^verbatim>\<open>uuid:\<close>, braces and hyphens are dropped and
  what is left is 32 characters that \<^verbatim>\<open>int(_, 16)\<close> reads as a number that is not negative.\<close>

fun replace_all :: "string \<Rightarrow> string \<Rightarrow> string" where
  "replace_all sub [] = []"
| "replace_all sub (c # s) =
     (if sub \<noteq> [] \<and> take (length sub) (c # s) = sub then replace_all sub (drop (length sub - 1) s) else c # replace_all sub s)"

definition strip_braces :: "string \<Rightarrow> string" where
  "strip_braces s = (let f = dropWhile (\<lambda>c. c \<in> set ''{}'') in rev (f (rev (f s))))"

definition hex_text :: "string \<Rightarrow> string option" where
  "hex_text s =
     (let t = strip s;
          u = (if t \<noteq> [] \<and> hd t = CHR ''+'' then tl t else t);
          pre = (take 2 u = ''0x'' \<or> take 2 u = ''0X'');
          parts = split_on (CHR ''_'') (if \<not> pre then u else if take 1 (drop 2 u) = ''_'' then drop 3 u else drop 2 u)
      in if list_all (\<lambda>p. p \<noteq> [] \<and> list_all hex_char p) parts then Some (lower (concat parts)) else None)"

definition uuid_text :: "string \<Rightarrow> uuid option" where
  "uuid_text raw =
     (let h = filter (\<lambda>c. c \<noteq> CHR ''-'') (strip_braces (replace_all ''uuid:'' (replace_all ''urn:'' raw))) in
      if length h \<noteq> 32 then None
      else map_option (\<lambda>d. let z = replicate (32 - length d) (CHR ''0'') @ d in
        take 8 z @ ''-'' @ take 4 (drop 8 z) @ ''-'' @ take 4 (drop 12 z) @ ''-'' @ take 4 (drop 16 z) @ ''-'' @ drop 20 z)
        (hex_text h))"

section \<open>Platform administration\<close>

definition platform_tenant_id :: "string option \<Rightarrow> string" where
  "platform_tenant_id env =
     (let raw = strip (case env of None \<Rightarrow> [] | Some s \<Rightarrow> s) in
      if raw = [] then [] else case uuid_text raw of Some i \<Rightarrow> i | None \<Rightarrow> raw)"

definition is_single_tenant :: "uuid list \<Rightarrow> bool" where
  "is_single_tenant tenants = (length (take 2 tenants) \<le> 1)"

definition is_platform_admin :: "string option \<Rightarrow> uuid list \<Rightarrow> current_user \<Rightarrow> bool" where
  "is_platform_admin env tenants u =
     (if u_role u \<noteq> R_admin then False
      else let platform = platform_tenant_id env in
        if platform \<noteq> [] then lower (u_tenant u) = platform else is_single_tenant tenants)"

datatype platform_problem = NotAUuid string | NamesNoTenant string | UnsetWithSeveral

definition platform_tenant_problem :: "string option \<Rightarrow> uuid list \<Rightarrow> platform_problem option" where
  "platform_tenant_problem env tenants =
     (let platform = platform_tenant_id env in
      if platform \<noteq> []
      then (case uuid_text platform of None \<Rightarrow> Some (NotAUuid platform)
            | Some i \<Rightarrow> if i \<in> set tenants then None else Some (NamesNoTenant platform))
      else if is_single_tenant tenants then None else Some UnsetWithSeveral)"

definition require_platform_admin :: "string option \<Rightarrow> uuid list \<Rightarrow> current_user \<Rightarrow> guard_error + current_user" where
  "require_platform_admin env tenants u = (if \<not> is_platform_admin env tenants u then Inl NotPlatformAdmin else Inr u)"

text \<open>The target is the value of the path or query parameter, when the route has one.\<close>

definition require_tenant_access :: "string option \<Rightarrow> uuid list \<Rightarrow> string option \<Rightarrow> current_user \<Rightarrow> guard_error + current_user" where
  "require_tenant_access env tenants target u =
     (if is_platform_admin env tenants u then Inr u
      else if target \<noteq> None \<and> target \<noteq> Some (u_tenant u) then Inl WrongTenant
      else Inr u)"

definition require_range_access :: "string option \<Rightarrow> uuid list \<Rightarrow> db \<Rightarrow> uuid \<Rightarrow> current_user \<Rightarrow> guard_error + current_user" where
  "require_range_access env tenants d rid u =
     (if is_platform_admin env tenants u then Inr u
      else case get_range d rid of None \<Rightarrow> Inl NoSuchRange
      | Some rng \<Rightarrow> if rng_tenant rng \<noteq> None \<and> rng_tenant rng \<noteq> Some (u_tenant u) then Inl WrongTenant else Inr u)"

section \<open>Granting roles\<close>

definition STAFF_GRANTED_BY_ADMIN_ONLY :: "user_role list" where
  "STAFF_GRANTED_BY_ADMIN_ONLY = [R_admin, R_instructor, R_range_ops]"

datatype grant_error = AdminOnly user_role | CarriesMore user_role

definition grant_refusal :: "current_user \<Rightarrow> user_role \<Rightarrow> grant_error option" where
  "grant_refusal granter role =
     (if role \<in> set STAFF_GRANTED_BY_ADMIN_ONLY \<and> u_role granter \<noteq> R_admin then Some (AdminOnly role)
      else if \<not> set (ROLE_PERMISSIONS role) \<subseteq> set (ROLE_PERMISSIONS (u_role granter)) then Some (CarriesMore role)
      else None)"

text \<open>The accounts of a platform and the grants they make: an account that holds a role gives
  another account one, whenever the rule allows it.\<close>

inductive grant_step :: "current_user list \<Rightarrow> current_user list \<Rightarrow> bool" where
  grant: "g \<in> set us \<Longrightarrow> grant_refusal g r = None \<Longrightarrow> grant_step us (update_where (\<lambda>u. u_id u = i) (\<lambda>u. u\<lparr>u_role := r\<rparr>) us)"
| enrol: "g \<in> set us \<Longrightarrow> grant_refusal g r = None \<Longrightarrow> grant_step us (us @ [\<lparr>u_id = i, u_role = r, u_tenant = t\<rparr>])"

section \<open>No escalation\<close>

lemma granted_role:
  assumes "grant_step us us'" "u' \<in> set us'"
  shows "u' \<in> set us \<or> (\<exists>g \<in> set us. grant_refusal g (u_role u') = None)"
  using assms by (cases rule: grant_step.cases) (auto simp: update_where_def split: if_splits)

lemma grant_bounds:
  assumes "grant_refusal g r = None"
  shows "set (ROLE_PERMISSIONS r) \<subseteq> set (user_permissions g)" "r \<in> set STAFF_GRANTED_BY_ADMIN_ONLY \<Longrightarrow> u_role g = R_admin"
  using assms by (simp_all add: grant_refusal_def user_permissions_def split: if_splits)


definition sample_staff :: "current_user list" where
  "sample_staff = [\<lparr>u_id = ''i'', u_role = R_instructor, u_tenant = ''n''\<rparr>]"


section \<open>The operator's tenant\<close>

definition canonical :: "string \<Rightarrow> bool" where
  "canonical s = (uuid_text s = Some s \<and> lower s = s)"

lemma replace_all_none: "CHR '':'' \<notin> set s \<Longrightarrow> CHR '':'' \<in> set sub \<Longrightarrow> replace_all sub s = s"
proof (induction sub s rule: replace_all.induct)
  case (2 sub c s)
  have "take (length sub) (c # s) \<noteq> sub" using 2(3,4) set_take_subset by (metis in_mono)
  then show ?case using 2 by simp
qed simp

definition hex_low :: "char \<Rightarrow> bool" where
  "hex_low c = (c \<in> set ''0123456789abcdef'')"

lemma lower_hex: "hex_char c \<Longrightarrow> hex_low (lower_char c)"
proof -
  have "list_all (\<lambda>c. hex_low (lower_char c)) ''0123456789abcdefABCDEF''" by code_simp
  then show "hex_char c \<Longrightarrow> hex_low (lower_char c)" unfolding hex_char_def list_all_iff by (rule bspec)
qed

lemma hex_low_fixed:
  assumes "hex_low c"
  shows "lower_char c = c \<and> hex_char c \<and> \<not> py_space c \<and> c \<notin> set '':{}+xX_-''"
proof -
  have "list_all (\<lambda>c. lower_char c = c \<and> hex_char c \<and> \<not> py_space c \<and> c \<notin> set '':{}+xX_-'') ''0123456789abcdef''" by code_simp
  then show ?thesis using assms unfolding hex_low_def list_all_iff by (rule bspec)
qed

definition hyphened :: "string \<Rightarrow> string" where
  "hyphened z = take 8 z @ ''-'' @ take 4 (drop 8 z) @ ''-'' @ take 4 (drop 12 z) @ ''-'' @ take 4 (drop 16 z) @ ''-'' @ drop 20 z"

lemma set_hyphened: "set (hyphened z) \<subseteq> insert (CHR ''-'') (set z)"
  by (auto simp: hyphened_def dest: in_set_takeD in_set_dropD)

lemma take_drop_join: "take m (drop n z) @ drop (m + n) z = drop n z"
  using append_take_drop_id [of m "drop n z"] by (simp only: drop_drop)

lemma unhyphened:
  assumes "CHR ''-'' \<notin> set z"
  shows "filter (\<lambda>c. c \<noteq> CHR ''-'') (hyphened z) = z"
proof -
  define P where "P = (\<lambda>c :: char. c \<noteq> CHR ''-'')"
  have keep: "filter P xs = xs" if "set xs \<subseteq> set z" for xs
    using assms that unfolding P_def filter_id_conv by blast
  have piece: "set (take m (drop n z)) \<subseteq> set z" "set (take m z) \<subseteq> set z" "set (drop n z) \<subseteq> set z" for m n
    by (auto dest: in_set_takeD in_set_dropD)
  have "\<not> P (CHR ''-'')" by (simp add: P_def)
  then have "filter P (hyphened z) = take 8 z @ take 4 (drop 8 z) @ take 4 (drop 12 z) @ take 4 (drop 16 z) @ drop 20 z"
    unfolding hyphened_def filter_append keep [OF piece(1)] keep [OF piece(2)] keep [OF piece(3)] by simp
  also have "\<dots> = take 8 z @ take 4 (drop 8 z) @ take 4 (drop 12 z) @ drop 16 z"
    using take_drop_join [of 4 16 z] by simp
  also have "\<dots> = take 8 z @ take 4 (drop 8 z) @ drop 12 z" using take_drop_join [of 4 12 z] by simp
  also have "\<dots> = take 8 z @ drop 8 z" using take_drop_join [of 4 8 z] by simp
  finally show ?thesis by (simp add: P_def)
qed

lemma strip_none:
  assumes "\<forall>c \<in> set s. \<not> P c"
  shows "rev (dropWhile P (rev (dropWhile P s))) = s"
proof -
  have "dropWhile P s = s" "dropWhile P (rev s) = rev s"
    using assms by (simp_all add: dropWhile_eq_self_iff hd_in_set) (metis hd_in_set list.set_sel(1) rev_is_Nil_conv set_rev)+
  then show ?thesis by simp
qed

text \<open>The canonical text reads back as itself.\<close>

lemma hex_text_low:
  assumes "\<forall>c \<in> set z. hex_low c" "z \<noteq> []"
  shows "hex_text z = Some z"
proof -
  note f = hex_low_fixed [OF bspec [OF assms(1)]]
  have "strip z = z" unfolding strip_def by (rule strip_none) (use f in blast)
  moreover have "hd z \<noteq> CHR ''+''" using f [OF hd_in_set [OF assms(2)]] by auto
  moreover have "take 2 z \<noteq> ''0x'' \<and> take 2 z \<noteq> ''0X''"
  proof -
    have "CHR ''x'' \<notin> set z" "CHR ''X'' \<notin> set z" using f by auto
    then show ?thesis by (metis in_set_takeD list.set_intros(1,2))
  qed
  moreover have "split_on (CHR ''_'') z = [z]" by (rule split_on_none) (use f in auto)
  moreover have "list_all hex_char z" using f by (simp add: list_all_iff)
  moreover have "lower z = z" unfolding lower_def by (rule map_idI) (use f in blast)
  ultimately show ?thesis using assms(2) by (simp add: hex_text_def)
qed

lemma uuid_text_hyphened:
  assumes "\<forall>c \<in> set z. hex_low c" "length z = 32"
  shows "uuid_text (hyphened z) = Some (hyphened z)"
proof -
  note f = hex_low_fixed [OF bspec [OF assms(1)]]
  have c: "CHR '':'' \<notin> set (hyphened z)" "\<forall>c \<in> set (hyphened z). c \<notin> set ''{}''"
    using set_hyphened [of z] f by fastforce+
  have "replace_all ''uuid:'' (replace_all ''urn:'' (hyphened z)) = hyphened z"
    using c(1) by (simp add: replace_all_none)
  moreover have "strip_braces (hyphened z) = hyphened z"
    unfolding strip_braces_def Let_def by (rule strip_none) (rule c(2))
  moreover have "filter (\<lambda>c. c \<noteq> CHR ''-'') (hyphened z) = z" by (rule unhyphened) (use f in auto)
  moreover have "z \<noteq> []" using assms(2) by auto
  ultimately show ?thesis
    using hex_text_low [OF assms(1)] assms(2) by (simp add: uuid_text_def hyphened_def)
qed

lemma length_split_on: "length (concat (split_on c s)) \<le> length s"
  by (induction c s rule: split_on.induct) (auto split: list.splits)

lemma length_strip: "length (strip s) \<le> length s"
  unfolding strip_def using length_dropWhile_le [of py_space s] length_dropWhile_le [of py_space "rev (dropWhile py_space s)"] by simp

lemma hex_text_result:
  assumes "hex_text s = Some d"
  shows "length d \<le> length s" "\<forall>c \<in> set d. hex_low c"
proof -
  define u where "u = (if strip s \<noteq> [] \<and> hd (strip s) = CHR ''+'' then tl (strip s) else strip s)"
  define b where "b = (if \<not> (take 2 u = ''0x'' \<or> take 2 u = ''0X'') then u else if take 1 (drop 2 u) = ''_'' then drop 3 u else drop 2 u)"
  define parts where "parts = split_on (CHR ''_'') b"
  have e: "hex_text s = (if list_all (\<lambda>p. p \<noteq> [] \<and> list_all hex_char p) parts then Some (lower (concat parts)) else None)"
    unfolding hex_text_def Let_def u_def [symmetric] b_def [symmetric] parts_def [symmetric] by (rule refl)
  have "length u \<le> length (strip s)" unfolding u_def by simp
  moreover have "length b \<le> length u" unfolding b_def by simp
  ultimately have "length b \<le> length (strip s)" by simp
  moreover have "list_all (\<lambda>p. p \<noteq> [] \<and> list_all hex_char p) parts" "d = lower (concat parts)"
    using assms e by (simp_all split: if_splits)
  ultimately have p: "parts = split_on (CHR ''_'') b" "length b \<le> length (strip s)" "\<forall>p \<in> set parts. \<forall>c \<in> set p. hex_char c"
    "d = lower (concat parts)" by (simp_all add: parts_def list_all_iff)
  show "length d \<le> length s"
    using length_split_on [of "CHR ''_''" b] p(1,2,4) length_strip [of s] by (simp add: lower_def)
  show "\<forall>c \<in> set d. hex_low c" using p(3,4) lower_hex by (auto simp: lower_def)
qed

lemma uuid_text_canonical:
  assumes "uuid_text raw = Some i"
  shows "canonical i"
proof -
  define h where "h = filter (\<lambda>c. c \<noteq> CHR ''-'') (strip_braces (replace_all ''uuid:'' (replace_all ''urn:'' raw)))"
  have e: "uuid_text raw = (if length h \<noteq> 32 then None else map_option (\<lambda>d. hyphened (replicate (32 - length d) (CHR ''0'') @ d)) (hex_text h))"
    unfolding uuid_text_def hyphened_def Let_def h_def [symmetric] by (rule refl)
  then have "length h = 32" using assms by (cases "length h = 32") simp_all
  moreover from this obtain d where "hex_text h = Some d" "i = hyphened (replicate (32 - length d) (CHR ''0'') @ d)"
    using assms e by (cases "hex_text h") simp_all
  ultimately have h: "length h = 32" "hex_text h = Some d" "i = hyphened (replicate (32 - length d) (CHR ''0'') @ d)" by blast+
  define z where "z = replicate (32 - length d) (CHR ''0'') @ d"
  have z: "length z = 32" "\<forall>c \<in> set z. hex_low c"
  proof -
    show "length z = 32" using hex_text_result(1) [OF h(2)] h(1) by (simp add: z_def)
    have "hex_low (CHR ''0'')" by code_simp
    then show "\<forall>c \<in> set z. hex_low c" using hex_text_result(2) [OF h(2)] unfolding z_def by auto
  qed
  have "lower (hyphened z) = hyphened z"
  proof -
    have "lower_char (CHR ''-'') = CHR ''-''" by code_simp
    then have "\<forall>c \<in> set (hyphened z). lower_char c = c" using set_hyphened [of z] hex_low_fixed z(2) by blast
    then show ?thesis unfolding lower_def by (simp add: map_idI)
  qed
  then show ?thesis using uuid_text_hyphened [OF z(2,1)] h(3) by (simp add: canonical_def z_def)
qed

lemma platform_named:
  assumes "uuid_text (platform_tenant_id env) = Some i"
  shows "platform_tenant_id env = i"
proof -
  define raw where "raw = strip (case env of None \<Rightarrow> [] | Some s \<Rightarrow> s)"
  have e: "platform_tenant_id env = (if raw = [] then [] else case uuid_text raw of Some i \<Rightarrow> i | None \<Rightarrow> raw)"
    unfolding platform_tenant_id_def raw_def Let_def by (rule refl)
  show ?thesis
  proof (cases "uuid_text raw")
    case None
    then have "raw \<noteq> [] \<Longrightarrow> False" using assms e by simp
    moreover have "uuid_text [] = None" by (simp add: uuid_text_def strip_braces_def)
    ultimately show ?thesis using assms e by auto
  next
    case (Some j)
    have "uuid_text [] = None" by (simp add: uuid_text_def strip_braces_def)
    then have "raw \<noteq> []" using Some by auto
    then show ?thesis using assms e Some uuid_text_canonical [OF Some] by (simp add: canonical_def)
  qed
qed

lemma platform_warning_exact:
  assumes "tenants \<noteq> []" "\<forall>t \<in> set tenants. canonical t"
  shows "(platform_tenant_problem env tenants = None) =
      (\<exists>u. u_tenant u \<in> set tenants \<and> is_platform_admin env tenants u)"
    (is "?ok = (\<exists>u. ?admin u)")
proof
  assume ok: ?ok
  define p where "p = platform_tenant_id env"
  show "\<exists>u. ?admin u"
  proof (cases "p = []")
    case True
    then have "is_single_tenant tenants" using ok by (simp add: platform_tenant_problem_def p_def split: if_splits)
    then have "?admin \<lparr>u_id = [], u_role = R_admin, u_tenant = hd tenants\<rparr>"
      using True assms(1) by (simp add: is_platform_admin_def p_def)
    then show ?thesis by blast
  next
    case False
    then obtain i where i: "uuid_text p = Some i" "i \<in> set tenants"
      using ok by (auto simp: platform_tenant_problem_def p_def Let_def split: option.splits if_splits)
    have "p = i" using platform_named i(1) by (simp add: p_def)
    moreover have "lower i = i" using assms(2) i(2) by (simp add: canonical_def)
    ultimately have "?admin \<lparr>u_id = [], u_role = R_admin, u_tenant = i\<rparr>"
      using False i(2) by (simp add: is_platform_admin_def p_def)
    then show ?thesis by blast
  qed
next
  assume "\<exists>u. ?admin u"
  then obtain u where u: "u_tenant u \<in> set tenants" "is_platform_admin env tenants u" by blast
  then have c: "canonical (u_tenant u)" using assms(2) by blast
  show ?ok
  proof (cases "platform_tenant_id env = []")
    case True
    then show ?thesis using u(2) by (simp add: is_platform_admin_def platform_tenant_problem_def split: if_splits)
  next
    case False
    then have "platform_tenant_id env = u_tenant u" using u(2) c by (simp add: is_platform_admin_def canonical_def split: if_splits)
    then show ?thesis using False c u(1) by (simp add: platform_tenant_problem_def canonical_def)
  qed
qed

text \<open>C22: The platform administrator fails closed. Over tenants with canonical ids, the startup check
  reports no problem exactly when some tenant's administrator is the platform administrator;
  with two tenants or more, all platform administrators are administrators of one tenant; and
  the range guard lets a caller through only to a range of their own tenant, to one without a
  tenant, or as platform administrator.\<close>

theorem platform_admin_fails_closed:
  assumes "tenants \<noteq> []" "\<forall>t \<in> set tenants. canonical t"
  shows "((platform_tenant_problem env tenants = None) = (\<exists>u. u_tenant u \<in> set tenants \<and> is_platform_admin env tenants u)) \<and>
    (length tenants > 1 \<longrightarrow> is_platform_admin env tenants u \<longrightarrow> is_platform_admin env tenants w \<longrightarrow>
       u_role u = R_admin \<and> lower (u_tenant u) = lower (u_tenant w)) \<and>
    (require_range_access env tenants d rid u = Inr x \<longrightarrow> is_platform_admin env tenants u \<or>
       (\<exists>rng \<in> set (ranges d). rng_id rng = rid \<and> (rng_tenant rng = None \<or> rng_tenant rng = Some (u_tenant u))))"
proof (intro conjI impI)
  show "(platform_tenant_problem env tenants = None) = (\<exists>u. u_tenant u \<in> set tenants \<and> is_platform_admin env tenants u)"
    by (rule platform_warning_exact [OF assms])
next
  assume "length tenants > 1" "is_platform_admin env tenants u" "is_platform_admin env tenants w"
  then show "u_role u = R_admin" "lower (u_tenant u) = lower (u_tenant w)"
    by (simp_all add: is_platform_admin_def is_single_tenant_def Let_def split: if_splits)
next
  assume "require_range_access env tenants d rid u = Inr x"
  then show "is_platform_admin env tenants u \<or>
      (\<exists>rng \<in> set (ranges d). rng_id rng = rid \<and> (rng_tenant rng = None \<or> rng_tenant rng = Some (u_tenant u)))"
    by (auto simp: require_range_access_def dest: get_rangeD split: if_splits option.splits)
qed

theorem platform_admin_fails_closed_witness:
  "\<not> is_platform_admin None [''01234567-0123-0123-0123-0123456789ab'', ''11234567-0123-0123-0123-0123456789ab'']
      \<lparr>u_id = ''u'', u_role = R_admin, u_tenant = ''01234567-0123-0123-0123-0123456789ab''\<rparr>"
proof -
  let ?a = "''01234567-0123-0123-0123-0123456789ab''" and ?b = "''11234567-0123-0123-0123-0123456789ab''"
  have "list_all canonical [?a, ?b]" by code_simp
  then have c: "\<forall>t \<in> set [?a, ?b]. canonical t" unfolding list_all_iff .
  have p: "platform_tenant_problem None [?a, ?b] = Some UnsetWithSeveral" by code_simp
  note w = platform_admin_fails_closed [OF list.distinct(2) c, of None, THEN conjunct1]
  have "?a \<in> set [?a, ?b]" by simp
  then show ?thesis using w p by (metis option.distinct(1) current_user.select_convs(3))
qed

end
