(* ===== verification/Bookings.thy ===== *)
theory Bookings
  imports Rbac
begin

text \<open>
  Bookings: the tables of \<^verbatim>\<open>scheduler/models.py\<close>, the lifecycle of \<^verbatim>\<open>scheduler/lifecycle.py\<close> and
  who may change a booking (\<^verbatim>\<open>scheduler/change_rule.py\<close>).

  \<^item> A handler works on a copy of the row it loaded earlier, \<open>evt\<close>, which other requests may
    have changed since; every move is one guarded UPDATE against the table as it is now.
  \<^item> \<open>history\<close> is any interleaving of such moves by any number of API replicas with edits of
    other columns and new bookings: each move into a started or final state is won once.
  \<^item> The page's flags are the server's rule: \<open>flags\<close> against \<open>refusal\<close>, \<open>lock_editable\<close> and
    \<open>transition\<close>.
\<close>

section \<open>Rows\<close>

datatype event_state = S_draft | S_pending_approval | S_rejected | S_scheduled | S_provisioning | S_active
  | S_completed | S_cancelled

record scheduled_event =
  ev_id :: uuid
  ev_name :: string
  ev_state :: event_state
  ev_tenant :: uuid
  ev_range :: "uuid option"
  ev_template :: "uuid option"
  ev_instructor :: "uuid option"
  ev_course :: "uuid option"
  ev_scenario :: "uuid option"
  ev_exercise :: "uuid option"
  auto_exercise :: bool
  ev_start :: time
  ev_end :: time
  auto_provisioned :: bool
  reminded_at :: "time option"
  vcpu_total :: int
  ram_mb_total :: int
  disk_gb_total :: int

text \<open>The approval row of a booking that needs one: what modelled code reads of it.\<close>

record approval =
  ap_event :: uuid
  proposed_start :: "time option"

text \<open>Classes, as far as bookings read them: the class, its sessions, the ranges built for it and
  its roll call. A date is the number of days since the epoch.\<close>

record class_row =
  cl_id :: uuid
  cl_tenant :: uuid
  cl_lead :: uuid
  cl_status :: string
  cl_start_date :: int
  cl_end_date :: int

record class_session =
  cs_event :: uuid
  cs_class :: uuid
  cs_tenant :: uuid
  range_mode :: string

record class_range =
  cr_class :: uuid
  cr_kind :: string
  cr_template :: uuid
  cr_range :: "uuid option"
  torn_down_at :: "time option"

record roll_call_entry =
  rc_class :: uuid
  rc_tenant :: uuid
  rc_user :: "uuid option"
  rc_status :: string

section \<open>Lifecycle\<close>

text \<open>The states a state may be reached from; no entry for a draft.\<close>

fun SOURCES :: "event_state \<Rightarrow> event_state list option" where
  "SOURCES S_pending_approval = Some [S_draft, S_scheduled]"
| "SOURCES S_scheduled = Some [S_draft, S_pending_approval]"
| "SOURCES S_rejected = Some [S_pending_approval]"
| "SOURCES S_provisioning = Some [S_scheduled]"
| "SOURCES S_active = Some [S_scheduled, S_provisioning]"
| "SOURCES S_completed = Some [S_active]"
| "SOURCES S_cancelled = Some [S_draft, S_pending_approval, S_scheduled, S_provisioning, S_active]"
| "SOURCES S_draft = None"

definition EDITABLE :: "event_state list" where
  "EDITABLE = [S_draft, S_pending_approval, S_scheduled]"

definition HOLDING :: "event_state list" where
  "HOLDING = [S_scheduled, S_provisioning, S_active]"

definition CALLED_OFF :: "event_state list" where
  "CALLED_OFF = [S_cancelled, S_rejected]"

definition UNSENT :: "event_state list" where
  "UNSENT = [S_draft, S_pending_approval]"

datatype booking_error = CannotBecome event_state event_state | ChangedMeanwhile | NoSources event_state
  | NotEditable event_state

text \<open>\<open>evt\<close> is the copy in hand, \<open>es\<close> the table now. \<open>NoSources\<close> is the \<^verbatim>\<open>KeyError\<close> of \<^verbatim>\<open>SOURCES[to]\<close>.\<close>

definition transition :: "scheduled_event \<Rightarrow> event_state \<Rightarrow> scheduled_event list \<Rightarrow> scheduled_event list \<times> (booking_error + bool)" where
  "transition evt to es =
     (if ev_state evt = to then (es, Inr False)
      else case SOURCES to of None \<Rightarrow> (es, Inl (NoSources to))
      | Some allowed \<Rightarrow>
        if ev_state evt \<notin> set allowed then (es, Inl (CannotBecome (ev_state evt) to))
        else let P = (\<lambda>e. ev_id e = ev_id evt \<and> ev_state e \<in> set allowed) in
          if count_where P es = 1 then (update_where P (\<lambda>e. e\<lparr>ev_state := to\<rparr>) es, Inr True)
          else (es, Inl ChangedMeanwhile))"

text \<open>The guarded UPDATE that writes nothing and holds the row until the edit commits.\<close>

definition lock_editable :: "scheduled_event \<Rightarrow> scheduled_event list \<Rightarrow> scheduled_event list \<times> (booking_error + unit)" where
  "lock_editable evt es =
     (if ev_state evt \<notin> set EDITABLE then (es, Inl (NotEditable (ev_state evt)))
      else let P = (\<lambda>e. ev_id e = ev_id evt \<and> ev_state e \<in> set EDITABLE) in
        if count_where P es = 1 then (update_where P (\<lambda>e. e) es, Inr ())
        else (es, Inl ChangedMeanwhile))"

section \<open>Who may change a booking\<close>

definition MOVABLE :: "event_state list" where
  "MOVABLE = [S_draft, S_scheduled, S_pending_approval]"

definition LEAD_ROLES :: "user_role list" where
  "LEAD_ROLES = [R_instructor, R_admin]"

definition S_FINISHED :: "event_state list" where
  "S_FINISHED = [S_completed, S_cancelled, S_rejected]"

definition edits_class :: "class_row \<Rightarrow> current_user \<Rightarrow> bool" where
  "edits_class c u =
     (if cl_tenant c \<noteq> u_tenant u then False
      else if u_role u = R_admin then True
      else cl_lead c = u_id u \<and> u_role u \<in> set LEAD_ROLES)"

datatype change_refusal = ClassFixed string | NotClassEditor | AnotherInstructor

definition refusal :: "scheduled_event \<Rightarrow> current_user \<Rightarrow> class_row option \<Rightarrow> bool \<Rightarrow> change_refusal option" where
  "refusal evt u cls winding_down =
     (case cls of
        Some c \<Rightarrow>
          if cl_status c \<noteq> ''open'' \<and> \<not> (winding_down \<and> cl_status c = ''cancelled'') then Some (ClassFixed (cl_status c))
          else if \<not> (edits_class c u \<or> user_has_permission u ''schedule:admin'') then Some NotClassEditor
          else None
      | None \<Rightarrow>
          if ev_instructor evt \<noteq> None \<and> ev_instructor evt \<noteq> Some (u_id u) \<and> \<not> user_has_permission u ''schedule:admin'' then Some AnotherInstructor
          else None)"

record change_flags =
  can_change :: bool
  can_move :: bool
  can_accept :: bool
  can_decline :: bool
  can_wind_down :: bool

definition no_flags :: change_flags where
  "no_flags = \<lparr>can_change = False, can_move = False, can_accept = False, can_decline = False, can_wind_down = False\<rparr>"

definition flags :: "scheduled_event \<Rightarrow> current_user option \<Rightarrow> class_row option \<Rightarrow> approval option \<Rightarrow> change_flags" where
  "flags evt user cls approval =
     (case user of None \<Rightarrow> no_flags
      | Some u \<Rightarrow>
        if \<not> user_has_permission u ''schedule:write'' then no_flags
        else let wind = (refusal evt u cls True = None \<and> ev_state evt \<notin> set S_FINISHED) in
          if refusal evt u cls False \<noteq> None then no_flags\<lparr>can_wind_down := wind\<rparr>
          else let proposal = (ev_state evt = S_pending_approval \<and>
                 (case approval of None \<Rightarrow> False | Some a \<Rightarrow> proposed_start a \<noteq> None)) in
            \<lparr>can_change = True, can_move = (ev_state evt \<in> set MOVABLE), can_accept = proposal,
             can_decline = proposal, can_wind_down = wind\<rparr>)"

section \<open>Moves are won once\<close>

text \<open>What a started or finished booking has behind it. Scheduling and approval may alternate; from
  the build on every move goes up.\<close>

fun rank :: "event_state \<Rightarrow> nat" where
  "rank S_provisioning = 1"
| "rank S_active = 2"
| "rank S_completed = 3"
| "rank S_cancelled = 3"
| "rank S_rejected = 3"
| "rank _ = 0"

definition source_of :: "event_state \<Rightarrow> event_state \<Rightarrow> bool" where
  "source_of s t = (case SOURCES t of None \<Rightarrow> False | Some allowed \<Rightarrow> s \<in> set allowed)"

text \<open>Any number of requests and clock replicas. A request moves a booking by a copy \<open>evt\<close> it read at
  any earlier time; others edit columns but the state, or add a booking. \<open>won\<close> lists the moves
  that were answered with True.\<close>

inductive history :: "scheduled_event list \<Rightarrow> (uuid \<times> event_state) list \<Rightarrow> scheduled_event list \<Rightarrow> bool" for es where
  start: "history es [] es"
| move: "history es won es1 \<Longrightarrow> transition evt to es1 = (es2, Inr True) \<Longrightarrow> history es ((ev_id evt, to) # won) es2"
| lost: "history es won es1 \<Longrightarrow> transition evt to es1 = (es2, r) \<Longrightarrow> r \<noteq> Inr True \<Longrightarrow> history es won es2"
| edit: "history es won es1 \<Longrightarrow> map (\<lambda>e. (ev_id e, ev_state e)) es2 = map (\<lambda>e. (ev_id e, ev_state e)) es1 \<Longrightarrow> history es won es2"
| book: "history es won es1 \<Longrightarrow> ev_id e \<notin> ev_id ` set es1 \<Longrightarrow> ev_state e \<in> set EDITABLE \<Longrightarrow> history es won (es1 @ [e])"

lemma source_rank: "source_of s t \<Longrightarrow> t \<notin> set EDITABLE \<Longrightarrow> rank s < rank t"
  by (cases t) (auto simp: source_of_def EDITABLE_def)

lemma source_not_final: "source_of s t \<Longrightarrow> rank s < 3" "source_of s t \<Longrightarrow> rank s \<le> rank t"
  by (cases t; force simp: source_of_def)+

lemma transition_cases:
  assumes "transition evt to es = (es', r)"
  obtains (won) "r = Inr True" "\<exists>e \<in> set es. ev_id e = ev_id evt \<and> source_of (ev_state e) to" "source_of (ev_state evt) to"
      "es' = update_where (\<lambda>e. ev_id e = ev_id evt \<and> source_of (ev_state e) to) (\<lambda>e. e\<lparr>ev_state := to\<rparr>) es"
      "count_where (\<lambda>e. ev_id e = ev_id evt \<and> source_of (ev_state e) to) es = 1"
  | (kept) "r \<noteq> Inr True" "es' = es"
proof (cases "\<exists>allowed. SOURCES to = Some allowed \<and> ev_state evt \<in> set allowed \<and> ev_state evt \<noteq> to \<and>
    count_where (\<lambda>e. ev_id e = ev_id evt \<and> ev_state e \<in> set allowed) es = 1")
  case True
  then obtain allowed where a: "SOURCES to = Some allowed" "ev_state evt \<in> set allowed" "ev_state evt \<noteq> to"
    "count_where (\<lambda>e. ev_id e = ev_id evt \<and> ev_state e \<in> set allowed) es = 1" by blast
  have s: "source_of s to = (s \<in> set allowed)" for s by (simp add: source_of_def a(1))
  have "\<exists>e \<in> set es. ev_id e = ev_id evt \<and> ev_state e \<in> set allowed"
    using a(4) count_where_0_iff [of "\<lambda>e. ev_id e = ev_id evt \<and> ev_state e \<in> set allowed" es] by fastforce
  then show thesis using assms a by (intro won) (simp_all add: transition_def s)
next
  case False
  then show thesis using assms kept by (auto simp: transition_def Let_def split: if_splits option.splits)
qed

lemma move_ids: "transition evt to es = (es', r) \<Longrightarrow> map ev_id es' = map ev_id es"
  by (erule transition_cases) (simp_all add: map_update_where)

lemma history_ids: "history es won es' \<Longrightarrow> distinct (map ev_id es) \<Longrightarrow> distinct (map ev_id es')"
proof (induction rule: history.induct)
  case (edit won es1 es2)
  then have "map ev_id es2 = map ev_id es1" by (metis (no_types, lifting) fst_conv list.map_comp map_eq_conv comp_apply)
  then show ?case using edit by simp
qed (auto simp: move_ids)

text \<open>The row a booking has after a move.\<close>

lemma moved_row:
  assumes "transition evt to es = (es', r)" "e \<in> set es"
  shows "\<exists>e' \<in> set es'. ev_id e' = ev_id e \<and> (ev_state e' = ev_state e \<or> source_of (ev_state e) (ev_state e'))"
  using assms
proof (cases rule: transition_cases)
  case won
  let ?f = "\<lambda>e. if ev_id e = ev_id evt \<and> source_of (ev_state e) to then e\<lparr>ev_state := to\<rparr> else e"
  have "?f e \<in> set es'" using assms(2) unfolding won(4) update_where_def set_map by (rule imageI)
  then show ?thesis by (intro bexI [of _ "?f e"]) simp_all
qed (use assms(2) in blast)

lemma same_pairs:
  assumes "map (\<lambda>e. (ev_id e, ev_state e)) es2 = map (\<lambda>e. (ev_id e, ev_state e)) es1" "e \<in> set es1"
  shows "\<exists>e' \<in> set es2. ev_id e' = ev_id e \<and> ev_state e' = ev_state e"
proof -
  have "(ev_id e, ev_state e) \<in> set (map (\<lambda>e. (ev_id e, ev_state e)) es2)" using assms by (simp add: image_iff) blast
  then show ?thesis by auto
qed

lemma history_row:
  assumes "history es won es'" "e \<in> set es"
  shows "\<exists>e' \<in> set es'. ev_id e' = ev_id e \<and> source_of\<^sup>*\<^sup>* (ev_state e) (ev_state e')"
  using assms
proof (induction rule: history.induct)
  case start
  then show ?case by blast
next
  case (move won es1 evt to es2)
  then show ?case using moved_row [OF move(2)] by (metis rtranclp.rtrancl_into_rtrancl)
next
  case (lost won es1 evt to es2 r)
  then show ?case using moved_row [OF lost(2)] by (metis rtranclp.rtrancl_into_rtrancl)
next
  case (edit won es1 es2)
  then show ?case using same_pairs [OF edit(2)] by metis
qed auto

lemma unique_event: "distinct (map ev_id es) \<Longrightarrow> e \<in> set es \<Longrightarrow> f \<in> set es \<Longrightarrow> ev_id e = ev_id f \<Longrightarrow> e = f"
  by (simp add: distinct_map inj_on_def)

lemma won_row:
  assumes "transition evt to es = (es', Inr True)"
  shows "\<exists>e \<in> set es'. ev_id e = ev_id evt \<and> ev_state e = to"
  using assms
proof (cases rule: transition_cases)
  case won
  then obtain e where e: "e \<in> set es" "ev_id e = ev_id evt \<and> source_of (ev_state e) to" by blast
  have "(if ev_id e = ev_id evt \<and> source_of (ev_state e) to then e\<lparr>ev_state := to\<rparr> else e) \<in> set es'"
    unfolding won(4) update_where_def set_map using e(1) by (rule imageI)
  then show ?thesis using e(2) by (intro bexI [of _ "e\<lparr>ev_state := to\<rparr>"]) simp_all
qed simp

text \<open>The rank of a booking is at least that of every move it has made since the build.\<close>

lemma history_rank:
  assumes "history es won es'" "distinct (map ev_id es)" "(i, to) \<in> set won" "to \<notin> set EDITABLE"
  shows "\<exists>e \<in> set es'. ev_id e = i \<and> rank to \<le> rank (ev_state e)"
  using assms
proof (induction arbitrary: i to rule: history.induct)
  case (move won es1 evt t es2)
  have up: "\<exists>e' \<in> set es2. ev_id e' = ev_id e \<and> rank (ev_state e) \<le> rank (ev_state e')" if "e \<in> set es1" for e
    using moved_row [OF move(2) that] source_not_final(2) by (metis order_refl)
  show ?case
  proof (cases "(i, to) \<in> set won")
    case True
    with move(3) [OF move(4) _ move(6)] up show ?thesis by (metis order_trans)
  next
    case False
    then have "i = ev_id evt" "to = t" using move(5) by auto
    then show ?thesis using won_row [OF move(2)] by (metis order_refl)
  qed
next
  case (lost won es1 evt t es2 r)
  then have "es2 = es1" using transition_cases by blast
  then show ?case using lost by blast
next
  case (edit won es1 es2)
  then show ?case using same_pairs [OF edit(2)] by metis
qed auto

lemma history_once:
  assumes "history es won es'" "distinct (map ev_id es)" "to \<notin> set EDITABLE"
  shows "count_list won (i, to) \<le> 1"
  using assms
proof (induction rule: history.induct)
  case (move won es1 evt t es2)
  show ?case
  proof (cases "(ev_id evt, t) = (i, to)")
    case True
    have "(i, to) \<notin> set won"
    proof
      assume "(i, to) \<in> set won"
      then obtain e where e: "e \<in> set es1" "ev_id e = i" "rank to \<le> rank (ev_state e)"
        using history_rank [OF move(1,4)] move(5) by blast
      from move(2) obtain f where "f \<in> set es1" "ev_id f = i" "source_of (ev_state f) to"
        using True by (cases rule: transition_cases) auto
      then have "source_of (ev_state e) to" using e(1,2) unique_event [OF history_ids [OF move(1,4)]] by metis
      then show False using source_rank move(5) e(3) by (meson leD)
    qed
    then show ?thesis using True by (simp add: count_list_0_iff)
  qed (use move in auto)
qed auto

text \<open>C20: However many requests and clock replicas race over bookings, with copies as old as they like,
  each booking moves only along the lifecycle, each move into a started or final state
  (provisioning, active, completed, cancelled, rejected) is answered True at most once, and a
  completed, cancelled or rejected booking stays as it is.\<close>

theorem booking_moves_once:
  assumes "history es won es'" "distinct (map ev_id es)"
  shows "(to \<notin> set EDITABLE \<longrightarrow> count_list won (i, to) \<le> 1) \<and>
    (\<forall>e \<in> set es. \<exists>e' \<in> set es'. ev_id e' = ev_id e \<and> source_of\<^sup>*\<^sup>* (ev_state e) (ev_state e') \<and>
       (ev_state e \<in> set S_FINISHED \<longrightarrow> ev_state e' = ev_state e))"
proof -
  have "t = s" if m: "source_of\<^sup>*\<^sup>* s t" and f: "s \<in> set S_FINISHED" for s t
    using m
  proof (cases rule: converse_rtranclpE)
    case (step u)
    from step(1) have "rank s < 3" by (rule source_not_final(1))
    then show ?thesis using f by (auto simp: S_FINISHED_def)
  qed simp
  then show ?thesis using history_once [OF assms] history_row [OF assms(1)] by blast
qed

definition sample_event :: "uuid \<Rightarrow> event_state \<Rightarrow> uuid option \<Rightarrow> time \<Rightarrow> time \<Rightarrow> scheduled_event" where
  "sample_event i s rid a z = \<lparr>ev_id = i, ev_name = i, ev_state = s, ev_tenant = ''n'', ev_range = rid, ev_template = None,
     ev_instructor = None, ev_course = None, ev_scenario = None, ev_exercise = None, auto_exercise = False,
     ev_start = a, ev_end = z, auto_provisioned = False, reminded_at = None, vcpu_total = 0, ram_mb_total = 0, disk_gb_total = 0\<rparr>"

text \<open>Two replicas that read one scheduled booking: one wins the move.\<close>

theorem booking_moves_once_witness:
  "\<exists>won es'. history [sample_event ''e'' S_scheduled None 0 1] won es' \<and> won \<noteq> [] \<and> count_list won (''e'', S_provisioning) \<le> 1"
proof -
  let ?e = "sample_event ''e'' S_scheduled None 0 1" and ?f = "sample_event ''e'' S_provisioning None 0 1"
  have t: "transition ?e S_provisioning [?e] = ([?f], Inr True)" "transition ?e S_provisioning [?f] = ([?f], Inl ChangedMeanwhile)"
    by (simp_all add: transition_def sample_event_def count_where_def update_where_def)
  have "history [?e] [(''e'', S_provisioning)] [?f]"
    using move [OF start t(1)] by (simp add: sample_event_def)
  then have h: "history [?e] [(''e'', S_provisioning)] [?f]" by (rule lost [OF _ t(2)]) simp
  have d: "distinct (map ev_id [?e])" by simp
  have "S_provisioning \<notin> set EDITABLE" by (simp add: EDITABLE_def)
  with booking_moves_once [OF h d, of S_provisioning "''e''"]
  have "count_list [(''e'', S_provisioning)] (''e'', S_provisioning) \<le> 1" by blast
  with h show ?thesis by (intro exI [of _ "[(''e'', S_provisioning)]"] exI [of _ "[?f]"]) simp
qed

section \<open>The page shows what the server allows\<close>

lemma distinct_count_one: "distinct xs \<Longrightarrow> x \<in> set xs \<Longrightarrow> length (filter (\<lambda>y. y = x) xs) = 1"
  by (induction xs) (auto simp: filter_empty_conv)

text \<open>For a caller with \<^verbatim>\<open>schedule:write\<close>, the page's flags are the server's answers: Move is shown
  exactly when the rule refuses nothing and the edit's lock is granted, Accept and Decline when
  moreover a proposal waits on a booking awaiting approval, and Cancel exactly when the
  winding-down rule refuses nothing and the booking can still become cancelled. Without the
  permission nothing is shown.\<close>

theorem flags_match_server:
  assumes "distinct (map ev_id es)" "evt \<in> set es"
  shows "flags evt user cls ap =
    (case user of None \<Rightarrow> no_flags
     | Some u \<Rightarrow> if \<not> user_has_permission u ''schedule:write'' then no_flags
       else let ok = (refusal evt u cls False = None);
                proposal = (ok \<and> ev_state evt = S_pending_approval \<and> (\<exists>a t. ap = Some a \<and> proposed_start a = Some t)) in
         \<lparr>can_change = ok, can_move = (ok \<and> snd (lock_editable evt es) = Inr ()), can_accept = proposal, can_decline = proposal,
          can_wind_down = (refusal evt u cls True = None \<and> snd (transition evt S_cancelled es) = Inr True)\<rparr>)"
proof -
  have one: "count_where (\<lambda>e. ev_id e = ev_id evt \<and> Q (ev_state e)) es = 1" if "Q (ev_state evt)" for Q
  proof -
    have "e = evt" if "e \<in> set es" "ev_id e = ev_id evt" for e
      using unique_event [OF assms(1) that(1) assms(2)] that(2) by simp
    then have "filter (\<lambda>e. ev_id e = ev_id evt \<and> Q (ev_state e)) es = filter (\<lambda>e. e = evt) es"
      using that by (intro filter_cong) auto
    moreover have "length (filter (\<lambda>e. e = evt) es) = 1"
      using distinct_count_one [OF _ assms(2)] assms(1) by (simp add: distinct_map)
    ultimately show ?thesis by (simp add: count_where_def)
  qed
  have lock: "(snd (lock_editable evt es) = Inr ()) = (ev_state evt \<in> set MOVABLE)"
    using one [of "\<lambda>s. s \<in> set EDITABLE"] by (auto simp: lock_editable_def EDITABLE_def MOVABLE_def Let_def)
  have cancel: "(snd (transition evt S_cancelled es) = Inr True) = (ev_state evt \<notin> set S_FINISHED)"
    using one [of "\<lambda>s. s \<in> set [S_draft, S_pending_approval, S_scheduled, S_provisioning, S_active]"]
    by (cases "ev_state evt") (auto simp: transition_def S_FINISHED_def Let_def)
  show ?thesis
    unfolding flags_def lock cancel
    by (cases user) (auto simp: Let_def no_flags_def split: option.splits)
qed

theorem flags_match_server_witness:
  "can_move (flags (sample_event ''e'' S_scheduled None 0 1) (Some \<lparr>u_id = ''i'', u_role = R_instructor, u_tenant = ''n''\<rparr>) None None)
   = (snd (lock_editable (sample_event ''e'' S_scheduled None 0 1) [sample_event ''e'' S_scheduled None 0 1]) = Inr ())"
proof -
  let ?e = "sample_event ''e'' S_scheduled None 0 1"
  let ?u = "\<lparr>u_id = ''i'', u_role = R_instructor, u_tenant = ''n''\<rparr> :: current_user"
  have p: "user_has_permission ?u ''schedule:write''" by code_simp
  have r: "refusal ?e ?u None False = None" by (simp add: refusal_def sample_event_def)
  have "distinct (map ev_id [?e])" "?e \<in> set [?e]" by simp_all
  note w = flags_match_server [OF this, of "Some ?u" None None, unfolded option.case]
  show ?thesis unfolding w using p r by (simp add: Let_def)
qed

end
