(* ===== verification/Booking_Clock.thy ===== *)
theory Booking_Clock
  imports Bookings
begin

text \<open>
  \<^verbatim>\<open>scheduler/clock.py\<close>: the tick that moves bookings along their lifecycle, with the exercise it
  creates (\<^verbatim>\<open>app/exercise_lifecycle.py\<close>) and the teardown of what a booking built
  (\<^verbatim>\<open>release_range\<close> of \<^verbatim>\<open>scheduler/service.py\<close>).

  \<^item> \<open>sched\<close> is the database with the scheduler's own tables; a tick is modelled from step 0 on,
    as one replica runs it without commits of others in between (races over one booking are
    \<open>Bookings.history\<close>). Step 00, the class ranges, is not part of it.
  \<^item> \<open>clock_env\<close> holds what a tick is given: the time, the settings, the ids it will draw, the
    answers of the broker, the points of a scenario and who is reminded.
  \<^item> The session does not expire loaded rows on commit: the row the loop variable still holds from
    step 0 is not read again by step 1's query, so its range is not yet known there (\<open>loaded\<close>).
\<close>

section \<open>State\<close>

datatype release_note = KeptByClass | HandedTo uuid | Torn booking_note

datatype clock_note = RangeCreated uuid | ToProvisioning booking_note "uuid option" | BuildAfterWindow booking_note
  | ToActive event_state | ToCompleted "release_note option" | Teardown "release_note option" | ApprovalLapsed | Reminded nat nat

record schedule_audit =
  sa_tenant :: uuid
  sa_action :: string
  sa_event :: uuid
  sa_detail :: clock_note

record sched =
  sd_db :: db
  scheduled_events :: "scheduled_event list"
  class_sessions :: "class_session list"
  class_ranges :: "class_range list"
  schedule_log :: "schedule_audit list"
  teams_joined :: "(uuid \<times> uuid) list"

record clock_env =
  k_now :: time
  k_lead :: time
  k_grace :: time
  k_reminder_lead :: time
  k_op :: "nat \<Rightarrow> uuid \<Rightarrow> env"
  k_sent :: "nat \<Rightarrow> uuid \<Rightarrow> string option"
  k_range :: "uuid \<Rightarrow> uuid"
  k_exercise :: "uuid \<Rightarrow> uuid"
  k_points :: "uuid \<Rightarrow> int"
  k_people :: "scheduled_event \<Rightarrow> (string \<times> bool) list"

record tick_result =
  t_ranges_created :: nat
  t_provisioning :: nat
  t_activated :: nat
  t_completed :: nat
  t_torn_down :: nat
  t_deferred_by_window :: nat
  t_built_after_window :: nat
  t_approvals_lapsed :: nat
  t_reminders :: "(uuid \<times> string \<times> bool) list"

text \<open>\<open>ck_held\<close>: the bookings a window keeps from being built this tick. \<open>ck_error\<close>: an error that ended
  the tick; what was committed before stays.\<close>

record clock =
  ck_sched :: sched
  ck_res :: tick_result
  ck_held :: "uuid list"
  ck_error :: "ops_error option"

definition put_event :: "uuid \<Rightarrow> (scheduled_event \<Rightarrow> scheduled_event) \<Rightarrow> sched \<Rightarrow> sched" where
  "put_event i f s = s\<lparr>scheduled_events := update_where (\<lambda>e. ev_id e = i) f (scheduled_events s)\<rparr>"

definition get_event :: "sched \<Rightarrow> uuid \<Rightarrow> scheduled_event option" where
  "get_event s i = find_row (\<lambda>e. ev_id e = i) (scheduled_events s)"

definition audit_system :: "scheduled_event \<Rightarrow> string \<Rightarrow> clock_note \<Rightarrow> sched \<Rightarrow> sched" where
  "audit_system evt action detail s = s\<lparr>schedule_log := schedule_log s @
     [\<lparr>sa_tenant = ev_tenant evt, sa_action = action, sa_event = ev_id evt, sa_detail = detail\<rparr>]\<rparr>"

section \<open>Exercises of a booking\<close>

definition create_exercise :: "uuid \<Rightarrow> uuid \<Rightarrow> uuid \<Rightarrow> uuid \<Rightarrow> int \<Rightarrow> db \<Rightarrow> db" where
  "create_exercise new_id tenant range_id scenario points d = d\<lparr>exercises := exercises d @
     [\<lparr>ex_id = new_id, ex_range = range_id, ex_scenario = Some scenario, ex_state = ex_pending, ex_tenant = Some tenant,
       max_score = (if points \<noteq> 0 then points else 100)\<rparr>]\<rparr>"

definition withdraw_if_unstarted :: "uuid \<Rightarrow> db \<Rightarrow> db \<times> bool" where
  "withdraw_if_unstarted i d =
     (let P = (\<lambda>x. ex_id x = i \<and> ex_state x = ex_pending) in
      (d\<lparr>exercises := update_where P (\<lambda>x. x\<lparr>ex_state := ex_cancelled\<rparr>) (exercises d)\<rparr>, count_where P (exercises d) = 1))"

definition withdraw_exercise :: "scheduled_event \<Rightarrow> db \<Rightarrow> db \<times> bool" where
  "withdraw_exercise evt d =
     (case ev_exercise evt of Some i \<Rightarrow> if auto_exercise evt then withdraw_if_unstarted i d else (d, False) | None \<Rightarrow> (d, False))"

section \<open>Releasing a range\<close>

definition is_class_range :: "sched \<Rightarrow> uuid \<Rightarrow> bool" where
  "is_class_range s rid = list_ex (\<lambda>c. cr_range c = Some rid \<and> torn_down_at c = None) (class_ranges s)"

definition heir_of :: "scheduled_event \<Rightarrow> sched \<Rightarrow> scheduled_event option" where
  "heir_of evt s = (case sort_key ev_start (filter (\<lambda>e. ev_range e = ev_range evt \<and> ev_id e \<noteq> ev_id evt \<and> ev_state e \<in> set HOLDING)
     (scheduled_events s)) of [] \<Rightarrow> None | e # _ \<Rightarrow> Some e)"

definition release_booking :: "env \<Rightarrow> string option \<Rightarrow> scheduled_event \<Rightarrow> sched \<Rightarrow> sched \<times> (ops_error + release_note option)" where
  "release_booking v sent evt s =
     (case ev_range evt of None \<Rightarrow> (s, Inr None)
      | Some rid \<Rightarrow>
        if \<not> auto_provisioned evt then (s, Inr None)
        else let disown = put_event (ev_id evt) (\<lambda>e. e\<lparr>auto_provisioned := False\<rparr>) in
          if is_class_range s rid then (disown s, Inr (Some KeptByClass))
          else case heir_of evt s of
            Some h \<Rightarrow> (disown (put_event (ev_id h) (\<lambda>e. e\<lparr>auto_provisioned := True\<rparr>) s), Inr (Some (HandedTo (ev_id h))))
          | None \<Rightarrow>
            (case destroy_for_booking v sent (\<lambda>d. d) rid (if ev_state evt = S_completed then Some ''booking_ended'' else None) (sd_db s) of
               (d, Inl e) \<Rightarrow> (s\<lparr>sd_db := d\<rparr>, Inl e)
             | (d, Inr (settled, what)) \<Rightarrow>
                 ((if settled then disown else (\<lambda>s. s)) (s\<lparr>sd_db := d\<rparr>), Inr (Some (Torn what)))))"

section \<open>The tick\<close>

text \<open>At most 500 rows by start time. A row the session still holds is used as it was loaded.\<close>

definition DUE_LIMIT :: int where
  "DUE_LIMIT = 500"

definition due :: "(scheduled_event \<Rightarrow> bool) \<Rightarrow> sched \<Rightarrow> scheduled_event list" where
  "due P s = take (nat DUE_LIMIT) (sort_key ev_start (filter P (scheduled_events s)))"

definition loaded :: "scheduled_event option \<Rightarrow> scheduled_event list \<Rightarrow> scheduled_event list" where
  "loaded kept es = map (\<lambda>e. case kept of None \<Rightarrow> e | Some k \<Rightarrow> if ev_id k = ev_id e then k else e) es"

text \<open>One pass over the due rows. \<open>f\<close> is the loop body; an error ends the tick.\<close>

definition each :: "(scheduled_event \<Rightarrow> clock \<Rightarrow> clock) \<Rightarrow> scheduled_event list \<Rightarrow> clock \<Rightarrow> clock" where
  "each f es c = foldl (\<lambda>c e. if ck_error c = None then f e c else c) c es"

text \<open>The row as the session has it: with what the loop itself wrote to it.\<close>

definition fresh :: "sched \<Rightarrow> scheduled_event \<Rightarrow> scheduled_event" where
  "fresh s evt = (case get_event s (ev_id evt) of Some e \<Rightarrow> e | None \<Rightarrow> evt)"

definition claim_move :: "scheduled_event \<Rightarrow> event_state \<Rightarrow> sched \<Rightarrow> sched \<times> bool" where
  "claim_move evt to s = (case transition evt to (scheduled_events s) of
     (es, Inr b) \<Rightarrow> (s\<lparr>scheduled_events := es\<rparr>, b) | (es, Inl _) \<Rightarrow> (s, False))"

definition held_by_window :: "clock_env \<Rightarrow> scheduled_event \<Rightarrow> sched \<Rightarrow> bool" where
  "held_by_window k evt s =
     (let rng = (case ev_range evt of None \<Rightarrow> None | Some i \<Rightarrow> get_range (sd_db s) i) in
      if (case rng of None \<Rightarrow> False | Some r \<Rightarrow> rng_state r \<in> set UP_STATES) then False
      else provision_blocked (e_yaml (k_op k 1 (ev_id evt))) (sd_db s) (ev_tenant evt) (ev_range evt) (k_now k) \<noteq> None)"

text \<open>Step 0: a booking with a template and no range gets one. The answer's second part is the row the
  loop variable is left with.\<close>

definition step0_due :: "clock_env \<Rightarrow> sched \<Rightarrow> scheduled_event list" where
  "step0_due k s = due (\<lambda>e. ev_state e = S_scheduled \<and> ev_range e = None \<and> ev_template e \<noteq> None \<and> ev_start e \<le> k_now k + k_lead k \<and>
     k_now k < ev_end e \<and> ev_id e \<notin> set (map cs_event (class_sessions s))) s"

definition step0_body :: "clock_env \<Rightarrow> scheduled_event \<Rightarrow> clock \<Rightarrow> clock" where
  "step0_body k evt c =
     (let s = ck_sched c; rid = k_range k (ev_id evt);
          s1 = s\<lparr>sd_db := create_for_booking rid (ev_tenant evt) (the (ev_template evt)) (sd_db s)\<rparr>;
          P = (\<lambda>e. ev_id e = ev_id evt \<and> ev_range e = None \<and> ev_state e = S_scheduled)
      in if count_where P (scheduled_events s1) \<noteq> 1 then c
         else c\<lparr>ck_sched := audit_system evt ''range_created'' (RangeCreated rid)
                  (s1\<lparr>scheduled_events := update_where P (\<lambda>e. e\<lparr>ev_range := Some rid\<rparr>) (scheduled_events s1)\<rparr>),
                ck_res := (ck_res c)\<lparr>t_ranges_created := t_ranges_created (ck_res c) + 1\<rparr>\<rparr>)"

definition step0 :: "clock_env \<Rightarrow> clock \<Rightarrow> clock \<times> scheduled_event option" where
  "step0 k c = (let es = step0_due k (ck_sched c); c1 = each (step0_body k) es c in
     (c1, if es \<noteq> [] \<and> ev_range (fresh (ck_sched c1) (last es)) \<noteq> None then Some (last es) else None))"

text \<open>Step 1: the lead is reached. The booking is refreshed once its move is won; it owns the build
  exactly when one was accepted.\<close>

definition join_teams :: "scheduled_event \<Rightarrow> uuid \<Rightarrow> sched \<Rightarrow> sched" where
  "join_teams evt ex s = (case find_row (\<lambda>l. cs_event l = ev_id evt) (class_sessions s) of None \<Rightarrow> s
     | Some l \<Rightarrow> if cs_tenant l \<noteq> ev_tenant evt then s else s\<lparr>teams_joined := teams_joined s @ [(ev_id evt, ex)]\<rparr>)"

definition start_exercise :: "clock_env \<Rightarrow> scheduled_event \<Rightarrow> uuid \<Rightarrow> sched \<Rightarrow> sched \<times> uuid option" where
  "start_exercise k evt rid s =
     (case ev_scenario evt of None \<Rightarrow> (s, None)
      | Some sc \<Rightarrow>
        if ev_exercise evt \<noteq> None then (s, None)
        else let x = k_exercise k (ev_id evt);
                 s1 = s\<lparr>sd_db := create_exercise x (ev_tenant evt) rid sc (k_points k sc) (sd_db s)\<rparr>;
                 s2 = put_event (ev_id evt) (\<lambda>e. e\<lparr>ev_exercise := Some x, auto_exercise := True\<rparr>) s1
             in (join_teams evt x s2, Some x))"

definition own :: "uuid \<Rightarrow> bool \<Rightarrow> sched \<Rightarrow> sched" where
  "own i built s = (if built then put_event i (\<lambda>e. e\<lparr>auto_provisioned := True\<rparr>) s else s)"

definition step1_body :: "clock_env \<Rightarrow> scheduled_event \<Rightarrow> clock \<Rightarrow> clock" where
  "step1_body k evt0 c =
     (if held_by_window k evt0 (ck_sched c) then c\<lparr>ck_held := ev_id evt0 # ck_held c\<rparr>
      else case claim_move evt0 S_provisioning (ck_sched c) of
        (s1, False) \<Rightarrow> c\<lparr>ck_sched := s1\<rparr>
      | (s1, True) \<Rightarrow>
        (let evt = fresh s1 evt0; rid = the (ev_range evt) in
         case provision_for_booking (k_op k 1 (ev_id evt)) (k_sent k 1 (ev_id evt)) (\<lambda>d. d) rid (\<lambda>d. d) (sd_db s1) of
           (d, Inl e) \<Rightarrow> c\<lparr>ck_error := Some e\<rparr>
         | (d, Inr (built, what)) \<Rightarrow>
           (let (s3, x) = start_exercise k evt rid (own (ev_id evt) built (s1\<lparr>sd_db := d\<rparr>)) in
            c\<lparr>ck_sched := audit_system evt ''transition'' (ToProvisioning what x) s3,
              ck_res := (ck_res c)\<lparr>t_provisioning := t_provisioning (ck_res c) + 1\<rparr>\<rparr>)))"

definition step1 :: "clock_env \<Rightarrow> scheduled_event option \<Rightarrow> clock \<Rightarrow> clock" where
  "step1 k kept c = each (step1_body k) (loaded kept (due (\<lambda>e. ev_state e = S_scheduled \<and> ev_range e \<noteq> None \<and>
     ev_start e \<le> k_now k + k_lead k \<and> k_now k < ev_end e) (ck_sched c))) c"

text \<open>Step 1b: under way with its range never built. A build that is not accepted is rolled back.\<close>

definition step1b_body :: "clock_env \<Rightarrow> scheduled_event \<Rightarrow> clock \<Rightarrow> clock" where
  "step1b_body k evt0 c =
     (let s = ck_sched c; evt = fresh s evt0; rid = the (ev_range evt) in
      case get_range (sd_db s) rid of None \<Rightarrow> c
      | Some rng \<Rightarrow>
        if rng_state rng \<noteq> created then c
        else if held_by_window k evt s then c\<lparr>ck_held := ev_id evt # ck_held c\<rparr>
        else (case provision_for_booking (k_op k 2 (ev_id evt)) (k_sent k 2 (ev_id evt)) (\<lambda>d. d) rid (\<lambda>d. d) (sd_db s) of
            (d, Inl e) \<Rightarrow> c\<lparr>ck_error := Some e\<rparr>
          | (d, Inr (built, what)) \<Rightarrow>
            if \<not> built then c
            else c\<lparr>ck_sched := audit_system evt ''build_after_window'' (BuildAfterWindow what) (own (ev_id evt) built (s\<lparr>sd_db := d\<rparr>)),
                   ck_res := (ck_res c)\<lparr>t_built_after_window := t_built_after_window (ck_res c) + 1\<rparr>\<rparr>))"

definition step1b :: "clock_env \<Rightarrow> clock \<Rightarrow> clock" where
  "step1b k c = each (step1b_body k) (due (\<lambda>e. ev_state e = S_active \<and> ev_range e \<noteq> None \<and> k_now k < ev_end e) (ck_sched c)) c"

text \<open>Step 2: the session has started.\<close>

definition step2_body :: "clock_env \<Rightarrow> scheduled_event \<Rightarrow> clock \<Rightarrow> clock" where
  "step2_body k evt c =
     (if ev_id evt \<in> set (ck_held c) \<and> ev_state evt = S_scheduled \<and> k_now k < ev_end evt then c
      else case claim_move evt S_active (ck_sched c) of
        (s1, False) \<Rightarrow> c\<lparr>ck_sched := s1\<rparr>
      | (s1, True) \<Rightarrow> c\<lparr>ck_sched := audit_system evt ''transition'' (ToActive (ev_state evt)) s1,
          ck_res := (ck_res c)\<lparr>t_activated := t_activated (ck_res c) + 1\<rparr>\<rparr>)"

definition step2 :: "clock_env \<Rightarrow> clock \<Rightarrow> clock" where
  "step2 k c = each (step2_body k) (due (\<lambda>e. ev_state e \<in> {S_scheduled, S_provisioning} \<and> ev_start e \<le> k_now k) (ck_sched c)) c"

text \<open>Step 3: the grace after the end is over.\<close>

definition step3_body :: "clock_env \<Rightarrow> scheduled_event \<Rightarrow> clock \<Rightarrow> clock" where
  "step3_body k evt0 c =
     (case claim_move evt0 S_completed (ck_sched c) of
        (s1, False) \<Rightarrow> c\<lparr>ck_sched := s1\<rparr>
      | (s1, True) \<Rightarrow>
        (let evt = fresh s1 evt0 in
         case release_booking (k_op k 3 (ev_id evt)) (k_sent k 3 (ev_id evt)) evt s1 of
           (_, Inl e) \<Rightarrow> c\<lparr>ck_error := Some e\<rparr>
         | (s2, Inr what) \<Rightarrow>
           (let torn = (what \<noteq> None \<and> \<not> auto_provisioned (fresh s2 evt)) in
            c\<lparr>ck_sched := audit_system evt ''transition'' (ToCompleted what) s2,
              ck_res := (ck_res c)\<lparr>t_completed := t_completed (ck_res c) + 1,
                t_torn_down := t_torn_down (ck_res c) + (if torn then 1 else 0)\<rparr>\<rparr>)))"

definition step3 :: "clock_env \<Rightarrow> clock \<Rightarrow> clock" where
  "step3 k c = each (step3_body k) (due (\<lambda>e. ev_state e = S_active \<and> ev_end e \<le> k_now k - k_grace k) (ck_sched c)) c"

text \<open>Step 3b: a finished booking that still owns a build.\<close>

definition step3b_body :: "clock_env \<Rightarrow> scheduled_event \<Rightarrow> clock \<Rightarrow> clock" where
  "step3b_body k evt0 c =
     (let evt = fresh (ck_sched c) evt0 in
      case release_booking (k_op k 4 (ev_id evt)) (k_sent k 4 (ev_id evt)) evt (ck_sched c) of
        (_, Inl e) \<Rightarrow> c\<lparr>ck_error := Some e\<rparr>
      | (s1, Inr what) \<Rightarrow>
          if auto_provisioned (fresh s1 evt) then c\<lparr>ck_sched := s1\<rparr>
          else c\<lparr>ck_sched := audit_system evt ''teardown'' (Teardown what) s1,
                 ck_res := (ck_res c)\<lparr>t_torn_down := t_torn_down (ck_res c) + 1\<rparr>\<rparr>)"

definition step3b :: "clock_env \<Rightarrow> clock \<Rightarrow> clock" where
  "step3b k c = each (step3b_body k) (due (\<lambda>e. ev_state e \<in> {S_completed, S_cancelled} \<and> auto_provisioned e \<and> ev_range e \<noteq> None) (ck_sched c)) c"

text \<open>Step 3c: never approved before its end.\<close>

definition step3c_body :: "clock_env \<Rightarrow> scheduled_event \<Rightarrow> clock \<Rightarrow> clock" where
  "step3c_body k evt c =
     (case claim_move evt S_cancelled (ck_sched c) of
        (s1, False) \<Rightarrow> c\<lparr>ck_sched := s1\<rparr>
      | (s1, True) \<Rightarrow> c\<lparr>ck_sched := audit_system evt ''approval_lapsed'' ApprovalLapsed s1,
          ck_res := (ck_res c)\<lparr>t_approvals_lapsed := t_approvals_lapsed (ck_res c) + 1\<rparr>\<rparr>)"

definition step3c :: "clock_env \<Rightarrow> clock \<Rightarrow> clock" where
  "step3c k c = each (step3c_body k) (due (\<lambda>e. ev_state e = S_pending_approval \<and> ev_end e \<le> k_now k) (ck_sched c)) c"

text \<open>Step 4: reminders, claimed by the guarded write of \<open>reminded_at\<close>.\<close>

definition step4_body :: "clock_env \<Rightarrow> scheduled_event \<Rightarrow> clock \<Rightarrow> clock" where
  "step4_body k evt c =
     (let s = ck_sched c; P = (\<lambda>e. ev_id e = ev_id evt \<and> reminded_at e = None) in
      if count_where P (scheduled_events s) \<noteq> 1 then c
      else let s1 = s\<lparr>scheduled_events := update_where P (\<lambda>e. e\<lparr>reminded_at := Some (k_now k)\<rparr>) (scheduled_events s)\<rparr>;
               people = k_people k evt;
               students = length (filter snd people)
           in c\<lparr>ck_sched := (if people = [] then s1 else audit_system evt ''reminder'' (Reminded (length people - students) students) s1),
                ck_res := (ck_res c)\<lparr>t_reminders := t_reminders (ck_res c) @ map (\<lambda>p. (ev_id evt, p)) people\<rparr>\<rparr>)"

definition step4 :: "clock_env \<Rightarrow> clock \<Rightarrow> clock" where
  "step4 k c = (if 0 < k_reminder_lead k
     then each (step4_body k) (due (\<lambda>e. ev_state e \<in> {S_scheduled, S_provisioning} \<and> reminded_at e = None \<and>
        (ev_instructor e \<noteq> None \<or> ev_course e \<noteq> None) \<and> k_now k < ev_start e \<and> ev_start e \<le> k_now k + k_reminder_lead k) (ck_sched c)) c
     else c)"

definition no_result :: tick_result where
  "no_result = \<lparr>t_ranges_created = 0, t_provisioning = 0, t_activated = 0, t_completed = 0, t_torn_down = 0,
     t_deferred_by_window = 0, t_built_after_window = 0, t_approvals_lapsed = 0, t_reminders = []\<rparr>"

definition count_deferred :: "clock \<Rightarrow> clock" where
  "count_deferred c = (if ck_error c = None then c\<lparr>ck_res := (ck_res c)\<lparr>t_deferred_by_window := card (set (ck_held c))\<rparr>\<rparr> else c)"

definition tick :: "clock_env \<Rightarrow> sched \<Rightarrow> clock" where
  "tick k s =
     (let (c0, kept) = step0 k \<lparr>ck_sched = s, ck_res = no_result, ck_held = [], ck_error = None\<rparr> in
      step4 k (step3c k (count_deferred (step3b k (step3 k (step2 k (step1b k (step1 k kept c0))))))))"

section \<open>Invariants of a tick\<close>

text \<open>A booking a step may pick: not a draft, not rejected, and one awaiting approval only after its end.\<close>

definition worked :: "clock_env \<Rightarrow> scheduled_event \<Rightarrow> bool" where
  "worked k e = (ev_state e \<notin> {S_draft, S_rejected} \<and> (ev_state e = S_pending_approval \<longrightarrow> ev_end e \<le> k_now k))"

text \<open>What every loop body keeps, the tick keeps. \<open>Q\<close> is what is known of the rows a loop picked when it
  read them.\<close>

locale clock_invariant =
  fixes k :: clock_env and I :: "sched \<Rightarrow> bool" and Q :: "scheduled_event \<Rightarrow> bool"
  assumes picked: "I s \<Longrightarrow> e \<in> set (scheduled_events s) \<Longrightarrow> worked k e \<Longrightarrow> Q e"
    and body0: "I (ck_sched c) \<Longrightarrow> Q e \<Longrightarrow> I (ck_sched (step0_body k e c))"
    and body1: "I (ck_sched c) \<Longrightarrow> Q e \<Longrightarrow> I (ck_sched (step1_body k e c))"
    and body1b: "I (ck_sched c) \<Longrightarrow> Q e \<Longrightarrow> I (ck_sched (step1b_body k e c))"
    and body2: "I (ck_sched c) \<Longrightarrow> Q e \<Longrightarrow> I (ck_sched (step2_body k e c))"
    and body3: "I (ck_sched c) \<Longrightarrow> Q e \<Longrightarrow> I (ck_sched (step3_body k e c))"
    and body3b: "I (ck_sched c) \<Longrightarrow> Q e \<Longrightarrow> I (ck_sched (step3b_body k e c))"
    and body3c: "I (ck_sched c) \<Longrightarrow> Q e \<Longrightarrow> I (ck_sched (step3c_body k e c))"
    and body4: "I (ck_sched c) \<Longrightarrow> Q e \<Longrightarrow> I (ck_sched (step4_body k e c))"
begin

lemma each_keeps:
  assumes "I (ck_sched c)" "\<forall>e \<in> set es. Q e" "\<And>c e. I (ck_sched c) \<Longrightarrow> Q e \<Longrightarrow> I (ck_sched (f e c))"
  shows "I (ck_sched (each f es c))"
  using assms unfolding each_def by (induction es arbitrary: c) auto

lemma due_picked:
  assumes "I s" "\<And>e. P e \<Longrightarrow> worked k e"
  shows "\<forall>e \<in> set (due P s). Q e"
proof
  fix e
  assume "e \<in> set (due P s)"
  then have "e \<in> set (scheduled_events s)" "P e" unfolding due_def by (auto dest: in_set_takeD)
  then show "Q e" using picked assms by blast
qed

lemma loop_keeps:
  assumes "I (ck_sched c)" "\<And>e. P e \<Longrightarrow> worked k e" "\<And>c e. I (ck_sched c) \<Longrightarrow> Q e \<Longrightarrow> I (ck_sched (f e c))"
  shows "I (ck_sched (each f (due P (ck_sched c)) c))"
  by (rule each_keeps [OF assms(1) due_picked [OF assms(1,2)] assms(3)])

lemma step0_keeps:
  assumes "I (ck_sched c)" "step0 k c = (c', kept)"
  shows "I (ck_sched c')" "kept = Some e \<Longrightarrow> Q e"
proof -
  have q: "\<forall>e \<in> set (step0_due k (ck_sched c)). Q e"
    unfolding step0_due_def by (rule due_picked [OF assms(1)]) (simp add: worked_def)
  show "I (ck_sched c')"
    using assms(2) each_keeps [OF assms(1) q body0] by (auto simp: step0_def Let_def)
  show "kept = Some e \<Longrightarrow> Q e"
    using assms(2) q by (auto simp: step0_def Let_def split: if_splits)
qed

lemma step1_keeps:
  assumes "I (ck_sched c)" "\<And>e. kept = Some e \<Longrightarrow> Q e"
  shows "I (ck_sched (step1 k kept c))"
  unfolding step1_def
proof (rule each_keeps [OF assms(1) _ body1])
  let ?es = "due (\<lambda>e. ev_state e = S_scheduled \<and> ev_range e \<noteq> None \<and> ev_start e \<le> k_now k + k_lead k \<and> k_now k < ev_end e) (ck_sched c)"
  have "\<forall>e \<in> set ?es. Q e" by (rule due_picked [OF assms(1)]) (simp add: worked_def)
  then show "\<forall>e \<in> set (loaded kept ?es). Q e" using assms(2) by (auto simp: loaded_def split: option.splits)
qed

lemma tick_keeps:
  assumes "I s"
  shows "I (ck_sched (tick k s))"
proof -
  obtain c0 kept where z: "step0 k \<lparr>ck_sched = s, ck_res = no_result, ck_held = [], ck_error = None\<rparr> = (c0, kept)"
    by (cases "step0 k \<lparr>ck_sched = s, ck_res = no_result, ck_held = [], ck_error = None\<rparr>")
  have "I (ck_sched \<lparr>ck_sched = s, ck_res = no_result, ck_held = [], ck_error = None\<rparr>)" using assms by simp
  note c0 = step0_keeps [OF this z]
  have "I (ck_sched (step1 k kept c0))" by (rule step1_keeps [OF c0])
  then have "I (ck_sched (step1b k (step1 k kept c0)))"
    unfolding step1b_def by (rule loop_keeps [OF _ _ body1b]) (simp add: worked_def)
  then have "I (ck_sched (step2 k (step1b k (step1 k kept c0))))"
    unfolding step2_def by (rule loop_keeps [OF _ _ body2]) (auto simp: worked_def)
  then have "I (ck_sched (step3 k (step2 k (step1b k (step1 k kept c0)))))"
    unfolding step3_def by (rule loop_keeps [OF _ _ body3]) (auto simp: worked_def)
  then have "I (ck_sched (step3b k (step3 k (step2 k (step1b k (step1 k kept c0))))))"
    unfolding step3b_def by (rule loop_keeps [OF _ _ body3b]) (auto simp: worked_def)
  then have "I (ck_sched (count_deferred (step3b k (step3 k (step2 k (step1b k (step1 k kept c0)))))))"
    by (simp add: count_deferred_def)
  then have "I (ck_sched (step3c k (count_deferred (step3b k (step3 k (step2 k (step1b k (step1 k kept c0))))))))"
    unfolding step3c_def by (rule loop_keeps [OF _ _ body3c]) (auto simp: worked_def)
  then have "I (ck_sched (step4 k (step3c k (count_deferred (step3b k (step3 k (step2 k (step1b k (step1 k kept c0)))))))))"
    unfolding step4_def by (cases "0 < k_reminder_lead k") (auto intro!: loop_keeps [OF _ _ body4] simp: worked_def)
  then show ?thesis by (simp add: tick_def z)
qed

end

section \<open>Ranges the scheduler did not build\<close>

definition rows_of :: "uuid \<Rightarrow> db \<Rightarrow> range_row list" where
  "rows_of rid d = filter (\<lambda>r. rng_id r = rid) (ranges d)"

definition owned :: "uuid \<Rightarrow> scheduled_event \<Rightarrow> bool" where
  "owned rid e = (auto_provisioned e \<and> ev_range e = Some rid)"

lemma get_range_rows: "get_range d rid = find_row (\<lambda>_. True) (rows_of rid d)"
proof -
  have "find P xs = find (\<lambda>_. True) (filter P xs)" for P and xs :: "range_row list" by (induction xs) auto
  then show ?thesis by (simp only: get_range_def rows_of_def find_row_def)
qed

lemma rows_of_ranges: "ranges d' = ranges d \<Longrightarrow> rows_of rid d' = rows_of rid d"
  by (simp add: rows_of_def)

lemma rows_of_moved:
  assumes "ranges d' = update_where (\<lambda>r. rng_id r = rid') f (ranges d)" "\<And>r. rng_id (f r) = rng_id r" "rid' \<noteq> rid"
  shows "rows_of rid d' = rows_of rid d"
proof -
  have "filter (\<lambda>r. rng_id r = rid) (update_where (\<lambda>r. rng_id r = rid') f rs) = filter (\<lambda>r. rng_id r = rid) rs" for rs
    using assms(2,3) by (induction rs) (auto simp: update_where_def)
  then show ?thesis by (simp add: rows_of_def assms(1))
qed

lemma accept_rows:
  assumes "accept v rid' user action key bypass d = (d', Inr (x, True))" "rid' \<noteq> rid"
  shows "rows_of rid d' = rows_of rid d"
  using assms(1) by (rule accept_created) (erule rows_of_moved, simp_all add: assms(2))

lemma provision_rows:
  assumes "provision_for_booking v sent (\<lambda>d. d) rid' (\<lambda>d. d) d = (d', Inr (built, n))"
    "get_range d rid = Some r" "\<not> can_transition_to (rng_state r) provisioning"
  shows "rows_of rid d' = rows_of rid d" "rid' = rid \<Longrightarrow> \<not> built"
proof -
  have same: "\<not> built \<and> d' = d" if "rid' = rid"
    using assms that by (auto simp: provision_for_booking_def split: if_splits)
  then show "rid' = rid \<Longrightarrow> \<not> built" by blast
  from assms(1) show "rows_of rid d' = rows_of rid d"
  proof (cases rule: provision_cases)
    case kept
    then show ?thesis using rows_of_ranges by blast
  next
    case (built rng d1 x)
    then have "rid' \<noteq> rid" using same by blast
    then show ?thesis using accept_rows [OF built(3)] built(4) dispatch_frame(1) rows_of_ranges by metis
  qed
qed

lemma destroy_rows:
  assumes "destroy_for_booking v sent (\<lambda>d. d) rid' bypass d = (d', Inr (settled, n))" "rid' \<noteq> rid"
  shows "rows_of rid d' = rows_of rid d"
  using assms(1)
proof (cases rule: destroy_cases)
  case gone
  then show ?thesis by simp
next
  case (taken rng x d1)
  then have "ranges d' = ranges d" using bypass_taken(1) [OF taken(5)] dispatch_frame(1) by metis
  then show ?thesis by (rule rows_of_ranges)
next
  case (begun rng x d1)
  then show ?thesis using accept_rows [OF begun(4) assms(2)] dispatch_frame(1) rows_of_ranges by metis
next
  case refused
  then show ?thesis using rows_of_ranges by blast
qed

text \<open>A range that no booking owns and that cannot be built: its rows, and that nobody owns it.\<close>

definition spared :: "clock_env \<Rightarrow> uuid \<Rightarrow> range_row list \<Rightarrow> sched \<Rightarrow> bool" where
  "spared k rid R s = ((\<forall>i. k_range k i \<noteq> rid) \<and> (\<exists>r. find_row (\<lambda>_. True) R = Some r \<and> \<not> can_transition_to (rng_state r) provisioning) \<and>
     rows_of rid (sd_db s) = R \<and> distinct (map ev_id (scheduled_events s)) \<and> (\<forall>e \<in> set (scheduled_events s). \<not> owned rid e))"

lemma fresh_cases: "fresh s e \<in> set (scheduled_events s) \<and> ev_id (fresh s e) = ev_id e \<or> fresh s e = e \<and> ev_id e \<notin> ev_id ` set (scheduled_events s)"
proof (cases "get_event s (ev_id e)")
  case None
  then show ?thesis by (auto simp: fresh_def) (auto simp: get_event_def find_row_None_iff)
next
  case (Some x)
  then show ?thesis by (auto simp: fresh_def) (auto simp: get_event_def dest: find_row_SomeD)
qed

lemma fresh_id [simp]: "ev_id (fresh s e) = ev_id e"
  using fresh_cases [of s e] by auto

lemma unowned_fresh: "spared k rid R s \<Longrightarrow> \<not> owned rid e \<Longrightarrow> \<not> owned rid (fresh s e)"
  using fresh_cases [of s e] by (auto simp: spared_def)

lemma spared_events:
  assumes "spared k rid R s" "map ev_id es = map ev_id (scheduled_events s)" "\<forall>e \<in> set es. \<not> owned rid e"
  shows "spared k rid R (s\<lparr>scheduled_events := es\<rparr>)"
  using assms by (simp add: spared_def)

lemma spared_update:
  assumes "spared k rid R s" "\<And>e. ev_id (f e) = ev_id e" "\<And>e. e \<in> set (scheduled_events s) \<Longrightarrow> P e \<Longrightarrow> \<not> owned rid (f e)"
  shows "spared k rid R (s\<lparr>scheduled_events := update_where P f (scheduled_events s)\<rparr>)"
proof (rule spared_events [OF assms(1)])
  show "map ev_id (update_where P f (scheduled_events s)) = map ev_id (scheduled_events s)"
    by (rule map_update_where) (rule assms(2))
  have "\<forall>e \<in> set (scheduled_events s). \<not> owned rid e" using assms(1) by (simp add: spared_def)
  then show "\<forall>e \<in> set (update_where P f (scheduled_events s)). \<not> owned rid e"
    using assms(3) unfolding update_where_def by auto
qed

lemma spared_disown: "spared k rid R s \<Longrightarrow> spared k rid R (put_event i (\<lambda>e. e\<lparr>auto_provisioned := False\<rparr>) s)"
  unfolding put_event_def by (rule spared_update) (simp_all add: owned_def)

lemma spared_own:
  assumes "spared k rid R s" "e \<in> set (scheduled_events s)" "ev_range e \<noteq> Some rid"
  shows "spared k rid R (put_event (ev_id e) (\<lambda>e. e\<lparr>auto_provisioned := True\<rparr>) s)"
  unfolding put_event_def
proof (rule spared_update [OF assms(1)])
  fix x
  assume "x \<in> set (scheduled_events s)" "ev_id x = ev_id e"
  moreover have "distinct (map ev_id (scheduled_events s))" using assms(1) by (simp add: spared_def)
  ultimately have "x = e" using unique_event assms(2) by blast
  then show "\<not> owned rid (x\<lparr>auto_provisioned := True\<rparr>)" using assms(3) by (simp add: owned_def)
qed simp

lemma spared_db: "spared k rid R s \<Longrightarrow> rows_of rid d = rows_of rid (sd_db s) \<Longrightarrow> spared k rid R (s\<lparr>sd_db := d\<rparr>)"
  by (simp add: spared_def)

lemma spared_audit [simp]: "spared k rid R (audit_system evt a n s) = spared k rid R s"
  by (simp add: spared_def audit_system_def)

lemma spared_claim:
  assumes "spared k rid R s" "claim_move evt to s = (s', b)"
  shows "spared k rid R s'"
proof -
  obtain es r where t: "transition evt to (scheduled_events s) = (es, r)" by (cases "transition evt to (scheduled_events s)")
  have "spared k rid R (s\<lparr>scheduled_events := es\<rparr>)"
    using t
  proof (cases rule: transition_cases)
    case won
    then show ?thesis using assms(1) unfolding won(4)
      by (intro spared_update) (auto simp: owned_def spared_def)
  qed (use assms(1) in simp)
  then show ?thesis using assms t by (auto simp: claim_move_def split: sum.splits)
qed

lemma spared_range: "spared k rid R s \<Longrightarrow> \<exists>r. get_range (sd_db s) rid = Some r \<and> \<not> can_transition_to (rng_state r) provisioning"
  by (auto simp: spared_def get_range_rows)

lemma heir_in: "heir_of evt s = Some h \<Longrightarrow> h \<in> set (scheduled_events s) \<and> ev_range h = ev_range evt \<and> ev_state h \<in> set HOLDING"
proof -
  let ?l = "sort_key ev_start (filter (\<lambda>e. ev_range e = ev_range evt \<and> ev_id e \<noteq> ev_id evt \<and> ev_state e \<in> set HOLDING) (scheduled_events s))"
  assume "heir_of evt s = Some h"
  then have "(case ?l of [] \<Rightarrow> None | e # _ \<Rightarrow> Some e) = Some h" unfolding heir_of_def .
  then have "h \<in> set ?l" by (cases ?l) simp_all
  then show ?thesis unfolding set_sort set_filter by blast
qed

lemma spared_release:
  assumes "spared k rid R s" "\<not> owned rid evt" "release_booking v sent evt s = (s', Inr what)"
  shows "spared k rid R s'"
proof (cases "auto_provisioned evt \<and> ev_range evt \<noteq> None")
  case False
  then show ?thesis using assms(1,3) by (auto simp: release_booking_def split: option.splits)
next
  case True
  then obtain rid' where r: "ev_range evt = Some rid'" "auto_provisioned evt" by blast
  have other: "rid' \<noteq> rid" using assms(2) r by (auto simp: owned_def)
  define bypass where "bypass = (if ev_state evt = S_completed then Some ''booking_ended'' else None)"
  note e = assms(3) [unfolded release_booking_def r(1) option.case Let_def bypass_def [symmetric]]
  obtain d q where dq: "destroy_for_booking v sent (\<lambda>d. d) rid' bypass (sd_db s) = (d, q)"
    by (cases "destroy_for_booking v sent (\<lambda>d. d) rid' bypass (sd_db s)")
  show ?thesis
  proof (cases "is_class_range s rid'")
    case True
    then show ?thesis using e r(2) spared_disown [OF assms(1)] by auto
  next
    case False
    show ?thesis
    proof (cases "heir_of evt s")
      case (Some h)
      have "spared k rid R (put_event (ev_id h) (\<lambda>e. e\<lparr>auto_provisioned := True\<rparr>) s)"
        by (rule spared_own [OF assms(1)]) (use heir_in [OF Some] r other in auto)
      then show ?thesis using e r(2) False Some spared_disown by auto
    next
      case None
      obtain settled n where q: "q = Inr (settled, n)" "s' = (if settled then put_event (ev_id evt) (\<lambda>e. e\<lparr>auto_provisioned := False\<rparr>) else (\<lambda>s. s)) (s\<lparr>sd_db := d\<rparr>)"
        using e [unfolded dq None option.case prod.case] r(2) False by (auto split: sum.splits)
      have "spared k rid R (s\<lparr>sd_db := d\<rparr>)"
        by (rule spared_db [OF assms(1) destroy_rows [OF _ other]]) (use dq q in blast)
      then show ?thesis using q(2) spared_disown by simp
    qed
  qed
qed

lemma spared_body0:
  assumes "spared k rid R (ck_sched c)"
  shows "spared k rid R (ck_sched (step0_body k e c))"
proof -
  let ?s = "ck_sched c" and ?n = "k_range k (ev_id e)"
  let ?s1 = "?s\<lparr>sd_db := create_for_booking ?n (ev_tenant e) (the (ev_template e)) (sd_db ?s)\<rparr>"
  have n: "?n \<noteq> rid" using assms by (simp add: spared_def)
  have "spared k rid R ?s1"
    by (rule spared_db [OF assms]) (simp add: rows_of_def create_for_booking_def n)
  then have "spared k rid R (?s1\<lparr>scheduled_events := update_where P (\<lambda>e. e\<lparr>ev_range := Some ?n\<rparr>) (scheduled_events ?s1)\<rparr>)" for P
    by (rule spared_update) (simp_all add: owned_def n)
  then show ?thesis using assms by (simp add: step0_body_def Let_def)
qed

lemma spared_start_exercise:
  assumes "spared k rid R s" "start_exercise k evt r s = (s', x)"
  shows "spared k rid R s'"
proof (cases "ev_scenario evt = None \<or> ev_exercise evt \<noteq> None")
  case True
  then show ?thesis using assms by (auto simp: start_exercise_def split: option.splits)
next
  case False
  then obtain sc where sc: "ev_scenario evt = Some sc" "ev_exercise evt = None" by auto
  let ?s1 = "s\<lparr>sd_db := create_exercise (k_exercise k (ev_id evt)) (ev_tenant evt) r sc (k_points k sc) (sd_db s)\<rparr>"
  have "spared k rid R ?s1" by (rule spared_db [OF assms(1)]) (simp add: rows_of_def create_exercise_def)
  then have "spared k rid R (put_event (ev_id evt) (\<lambda>e. e\<lparr>ev_exercise := x, auto_exercise := True\<rparr>) ?s1)" for x
    unfolding put_event_def by (intro spared_update) (auto simp: owned_def spared_def)
  moreover have "spared k rid R (join_teams evt x s) = spared k rid R s" for x s
    by (simp add: join_teams_def spared_def split: option.split)
  ultimately show ?thesis using assms(2) sc by (auto simp: start_exercise_def Let_def)
qed

text \<open>A build the clock starts never makes a booking own a range that cannot be built.\<close>

lemma spared_build:
  assumes "spared k rid R s" "provision_for_booking v sent (\<lambda>d. d) (the (ev_range (fresh s e))) (\<lambda>d. d) (sd_db s) = (d, Inr (built, n))"
  shows "spared k rid R (own (ev_id e) built (s\<lparr>sd_db := d\<rparr>))"
proof -
  obtain r where r: "get_range (sd_db s) rid = Some r" "\<not> can_transition_to (rng_state r) provisioning"
    using spared_range [OF assms(1)] by blast
  note p = provision_rows [OF assms(2) r]
  have s: "spared k rid R (s\<lparr>sd_db := d\<rparr>)" by (rule spared_db [OF assms(1) p(1)])
  show ?thesis
  proof (cases built)
    case True
    then have other: "ev_range (fresh s e) \<noteq> Some rid" using p(2) by auto
    from fresh_cases [of s e] show ?thesis
    proof
      assume f: "fresh s e \<in> set (scheduled_events s) \<and> ev_id (fresh s e) = ev_id e"
      have "spared k rid R (put_event (ev_id (fresh s e)) (\<lambda>e. e\<lparr>auto_provisioned := True\<rparr>) (s\<lparr>sd_db := d\<rparr>))"
        by (rule spared_own [OF s]) (use f other in simp_all)
      then show ?thesis using True by (simp add: own_def)
    next
      assume "fresh s e = e \<and> ev_id e \<notin> ev_id ` set (scheduled_events s)"
      then have "update_where (\<lambda>x. ev_id x = ev_id e) (\<lambda>e. e\<lparr>auto_provisioned := True\<rparr>) (scheduled_events s) = scheduled_events s"
        by (intro update_where_none) (metis imageI)
      then show ?thesis using s by (simp add: own_def put_event_def)
    qed
  qed (use s in \<open>simp add: own_def\<close>)
qed

lemma spared_body1:
  assumes "spared k rid R (ck_sched c)"
  shows "spared k rid R (ck_sched (step1_body k e c))"
proof (cases "held_by_window k e (ck_sched c)")
  case True
  then show ?thesis using assms by (simp add: step1_body_def)
next
  case False
  obtain s1 b where m: "claim_move e S_provisioning (ck_sched c) = (s1, b)" by (cases "claim_move e S_provisioning (ck_sched c)")
  have s1: "spared k rid R s1" by (rule spared_claim [OF assms m])
  let ?e = "fresh s1 e"
  obtain d q where q: "provision_for_booking (k_op k 1 (ev_id ?e)) (k_sent k 1 (ev_id ?e)) (\<lambda>d. d) (the (ev_range ?e)) (\<lambda>d. d) (sd_db s1) = (d, q)"
    by (cases "provision_for_booking (k_op k 1 (ev_id ?e)) (k_sent k 1 (ev_id ?e)) (\<lambda>d. d) (the (ev_range ?e)) (\<lambda>d. d) (sd_db s1)")
  note e = step1_body_def [of k e c, unfolded if_not_P [OF False] m prod.case Let_def q]
  show ?thesis
  proof (cases b)
    case True
    show ?thesis
    proof (cases q)
      case (Inl er)
      then show ?thesis using assms True by (simp add: e)
    next
      case (Inr y)
      obtain built n where y: "y = (built, n)" by (cases y)
      have "spared k rid R (own (ev_id e) built (s1\<lparr>sd_db := d\<rparr>))" by (rule spared_build [OF s1]) (use q Inr y in blast)
      then have "spared k rid R s3" if "start_exercise k ?e (the (ev_range ?e)) (own (ev_id ?e) built (s1\<lparr>sd_db := d\<rparr>)) = (s3, x)" for s3 x
        using spared_start_exercise that by simp
      then show ?thesis using True Inr y by (simp add: e split: prod.split)
    qed
  qed (use s1 in \<open>simp add: e\<close>)
qed

lemma spared_body1b:
  assumes "spared k rid R (ck_sched c)"
  shows "spared k rid R (ck_sched (step1b_body k e c))"
proof -
  let ?s = "ck_sched c"
  let ?e = "fresh ?s e"
  obtain d q where q: "provision_for_booking (k_op k 2 (ev_id ?e)) (k_sent k 2 (ev_id ?e)) (\<lambda>d. d) (the (ev_range ?e)) (\<lambda>d. d) (sd_db ?s) = (d, q)"
    by (cases "provision_for_booking (k_op k 2 (ev_id ?e)) (k_sent k 2 (ev_id ?e)) (\<lambda>d. d) (the (ev_range ?e)) (\<lambda>d. d) (sd_db ?s)")
  have "spared k rid R (own (ev_id ?e) True (?s\<lparr>sd_db := d\<rparr>))" if "q = Inr (True, n)" for n
    unfolding fresh_id by (rule spared_build [OF assms]) (use q that in blast)
  then show ?thesis
    unfolding step1b_body_def Let_def q
    using assms by (auto split: option.split sum.split)
qed

lemma spared_body2:
  assumes "spared k rid R (ck_sched c)"
  shows "spared k rid R (ck_sched (step2_body k e c))"
  using assms spared_claim [OF assms] by (auto simp: step2_body_def split: prod.split bool.split)

lemma spared_body3c:
  assumes "spared k rid R (ck_sched c)"
  shows "spared k rid R (ck_sched (step3c_body k e c))"
  using assms spared_claim [OF assms] by (auto simp: step3c_body_def split: prod.split bool.split)

lemma spared_body3:
  assumes "spared k rid R (ck_sched c)" "\<not> owned rid e"
  shows "spared k rid R (ck_sched (step3_body k e c))"
proof -
  obtain s1 b where m: "claim_move e S_completed (ck_sched c) = (s1, b)" by (cases "claim_move e S_completed (ck_sched c)")
  have s1: "spared k rid R s1" by (rule spared_claim [OF assms(1) m])
  have "spared k rid R s2" if "release_booking v sent (fresh s1 e) s1 = (s2, Inr what)" for v sent s2 what
    by (rule spared_release [OF s1 unowned_fresh [OF s1 assms(2)] that])
  then show ?thesis using assms(1) s1
    unfolding step3_body_def m Let_def prod.case by (cases b) (auto split: prod.split sum.split)
qed

lemma spared_body3b:
  assumes "spared k rid R (ck_sched c)" "\<not> owned rid e"
  shows "spared k rid R (ck_sched (step3b_body k e c))"
proof -
  have "spared k rid R s2" if "release_booking v sent (fresh (ck_sched c) e) (ck_sched c) = (s2, Inr what)" for v sent s2 what
    by (rule spared_release [OF assms(1) unowned_fresh [OF assms] that])
  then show ?thesis using assms(1)
    unfolding step3b_body_def Let_def by (auto split: prod.split sum.split)
qed

lemma spared_body4:
  assumes "spared k rid R (ck_sched c)"
  shows "spared k rid R (ck_sched (step4_body k e c))"
proof -
  have "spared k rid R ((ck_sched c)\<lparr>scheduled_events := update_where P (\<lambda>e. e\<lparr>reminded_at := Some (k_now k)\<rparr>) (scheduled_events (ck_sched c))\<rparr>)" for P
    by (rule spared_update [OF assms]) (use assms in \<open>auto simp: owned_def spared_def\<close>)
  then show ?thesis using assms by (simp add: step4_body_def Let_def)
qed

interpretation spare: clock_invariant k "spared k rid R" "\<lambda>e. \<not> owned rid e"
  by unfold_locales (simp add: spared_def, (erule spared_body0 spared_body1 spared_body1b spared_body2 spared_body3
      spared_body3b spared_body3c spared_body4; assumption?)+)


definition sample_sched :: "scheduled_event list \<Rightarrow> sched" where
  "sample_sched es = \<lparr>sd_db = sample_ops_db, scheduled_events = es, class_sessions = [], class_ranges = [], schedule_log = [], teams_joined = []\<rparr>"

definition sample_clock :: "time \<Rightarrow> clock_env" where
  "sample_clock t = \<lparr>k_now = t, k_lead = 30, k_grace = 15, k_reminder_lead = 1440, k_op = (\<lambda>_ _. sample_env t ''op''), k_sent = (\<lambda>_ _. Some ''task''),
     k_range = (\<lambda>_. ''new''), k_exercise = (\<lambda>_. ''ex''), k_points = (\<lambda>_. 0), k_people = (\<lambda>_. [])\<rparr>"


section \<open>Bookings nobody approved\<close>

text \<open>A booking the steps have no business with, and its row.\<close>

definition waiting :: "clock_env \<Rightarrow> scheduled_event \<Rightarrow> sched \<Rightarrow> bool" where
  "waiting k e s = (\<not> worked k e \<and> distinct (map ev_id (scheduled_events s)) \<and> e \<in> set (scheduled_events s))"

lemma waiting_update:
  assumes "waiting k e s" "\<And>x. ev_id (f x) = ev_id x" "\<not> P e"
  shows "waiting k e (s\<lparr>scheduled_events := update_where P f (scheduled_events s)\<rparr>)"
proof -
  have "(if P e then f e else e) \<in> set (update_where P f (scheduled_events s))"
    using assms(1) unfolding update_where_def set_map waiting_def by (intro imageI) blast
  then show ?thesis using assms by (simp add: waiting_def map_update_where)
qed

lemma waiting_put:
  assumes "waiting k e s" "i \<noteq> ev_id e" "\<And>x. ev_id (f x) = ev_id x"
  shows "waiting k e (put_event i f s)"
  unfolding put_event_def by (rule waiting_update) (use assms in auto)

lemma waiting_frame [simp]:
  "waiting k e (s\<lparr>sd_db := d\<rparr>) = waiting k e s" "waiting k e (audit_system x a n s) = waiting k e s"
  "waiting k e (join_teams x y s) = waiting k e s" "waiting k e (s\<lparr>sd_db := d, scheduled_events := es\<rparr>) = waiting k e (s\<lparr>scheduled_events := es\<rparr>)"
  by (simp_all add: waiting_def audit_system_def join_teams_def split: option.split)

lemma waiting_claim:
  assumes "waiting k e s" "ev_id x \<noteq> ev_id e" "claim_move x to s = (s', b)"
  shows "waiting k e s'"
proof -
  obtain es r where t: "transition x to (scheduled_events s) = (es, r)" by (cases "transition x to (scheduled_events s)")
  have "waiting k e (s\<lparr>scheduled_events := es\<rparr>)"
    using t
  proof (cases rule: transition_cases)
    case won
    show ?thesis unfolding won(4) by (rule waiting_update [OF assms(1)]) (use assms(2) in auto)
  qed (use assms(1) in simp)
  then show ?thesis using assms t by (auto simp: claim_move_def split: sum.splits)
qed

lemma waiting_release:
  assumes "waiting k e s" "ev_id x \<noteq> ev_id e" "release_booking v sent x s = (s', r)"
  shows "waiting k e s'"
proof -
  have disown: "waiting k e s \<Longrightarrow> waiting k e (put_event (ev_id x) (\<lambda>e. e\<lparr>auto_provisioned := False\<rparr>) s)" for s
    by (rule waiting_put) (use assms(2) in auto)
  have "waiting k e (put_event (ev_id h) (\<lambda>e. e\<lparr>auto_provisioned := True\<rparr>) s)" if h: "heir_of x s = Some h" for h
  proof (rule waiting_put [OF assms(1)])
    have "worked k h" using heir_in [OF h] by (auto simp: worked_def HOLDING_def)
    then have "h \<noteq> e" using assms(1) by (auto simp: waiting_def)
    then show "ev_id h \<noteq> ev_id e" using heir_in [OF h] assms(1) unique_event unfolding waiting_def by blast
  qed simp
  then show ?thesis
    using assms(1,3) disown by (auto simp: release_booking_def Let_def split: option.splits if_splits prod.splits sum.splits)
qed

lemma waiting_own: "waiting k e s \<Longrightarrow> i \<noteq> ev_id e \<Longrightarrow> waiting k e (own i b s)"
  by (simp add: own_def waiting_put)

lemma waiting_start_exercise:
  assumes "waiting k e s" "ev_id x \<noteq> ev_id e" "start_exercise k x r s = (s', y)"
  shows "waiting k e s'"
  using assms waiting_put [of k e] by (auto simp: start_exercise_def Let_def split: option.splits if_splits)

lemma waiting_bodies:
  assumes "waiting k e (ck_sched c)" "ev_id x \<noteq> ev_id e"
  shows "waiting k e (ck_sched (step0_body k x c))" "waiting k e (ck_sched (step1_body k x c))" "waiting k e (ck_sched (step1b_body k x c))"
    "waiting k e (ck_sched (step2_body k x c))" "waiting k e (ck_sched (step3_body k x c))" "waiting k e (ck_sched (step3b_body k x c))"
    "waiting k e (ck_sched (step3c_body k x c))" "waiting k e (ck_sched (step4_body k x c))"
proof -
  note claim = waiting_claim [OF assms]
  have upd: "waiting k e (s\<lparr>scheduled_events := update_where (\<lambda>y. ev_id y = ev_id x \<and> P y) f (scheduled_events s)\<rparr>)"
    if "waiting k e s" "\<And>y. ev_id (f y) = ev_id y" for s P f
    by (rule waiting_update [OF that]) (use assms(2) in auto)
  show "waiting k e (ck_sched (step0_body k x c))" using assms(1) by (auto simp: step0_body_def Let_def intro!: upd)
  show "waiting k e (ck_sched (step4_body k x c))" using assms(1) by (auto simp: step4_body_def Let_def intro!: upd)
  show "waiting k e (ck_sched (step2_body k x c))" "waiting k e (ck_sched (step3c_body k x c))"
    using assms(1) claim by (auto simp: step2_body_def step3c_body_def split: prod.split bool.split)
  show "waiting k e (ck_sched (step3_body k x c))"
    using assms claim waiting_release [of k e] by (auto simp: step3_body_def Let_def split: prod.split bool.split sum.split) (metis fresh_id)
  show "waiting k e (ck_sched (step3b_body k x c))"
    using assms waiting_release [of k e] by (auto simp: step3b_body_def Let_def split: prod.split sum.split) (metis fresh_id)+
  show "waiting k e (ck_sched (step1b_body k x c))"
    using assms waiting_own [of k e] by (auto simp: step1b_body_def Let_def split: option.split prod.split sum.split)
  show "waiting k e (ck_sched (step1_body k x c))"
    using assms claim waiting_own [of k e] waiting_start_exercise [of k e]
    by (auto simp: step1_body_def Let_def split: prod.split bool.split sum.split) (metis fresh_id waiting_frame(1))+
qed

interpretation wait: clock_invariant k "waiting k e" "\<lambda>x. ev_id x \<noteq> ev_id e"
proof unfold_locales
  show "waiting k e s \<Longrightarrow> x \<in> set (scheduled_events s) \<Longrightarrow> worked k x \<Longrightarrow> ev_id x \<noteq> ev_id e" for s x
    using unique_event by (auto simp: waiting_def)
qed (rule waiting_bodies; assumption)+

text \<open>The clock leaves alone what nobody approved: a draft, a rejected booking and a booking awaiting
  approval whose session has not ended have the same row after a tick.\<close>

theorem clock_leaves_unapproved:
  assumes "distinct (map ev_id (scheduled_events s))" "e \<in> set (scheduled_events s)"
    "ev_state e \<in> {S_draft, S_rejected} \<or> ev_state e = S_pending_approval \<and> k_now k < ev_end e"
  shows "e \<in> set (scheduled_events (ck_sched (tick k s)))"
proof -
  have "waiting k e s" using assms by (auto simp: waiting_def worked_def)
  then show ?thesis using wait.tick_keeps waiting_def by blast
qed

theorem clock_leaves_unapproved_witness:
  "sample_event ''p'' S_pending_approval (Some ''s'') 50 300 \<in>
     set (scheduled_events (ck_sched (tick (sample_clock 200)
       (sample_sched [sample_event ''e'' S_active (Some ''s'') 50 100, sample_event ''p'' S_pending_approval (Some ''s'') 50 300]))))"
  by (rule clock_leaves_unapproved) (simp_all add: sample_sched_def sample_event_def sample_clock_def)

section \<open>The window a new range escapes\<close>

text \<open>A window over the tag of a booking's template. A range of that template is held back by it.\<close>

definition tagged_sched :: "uuid option \<Rightarrow> sched" where
  "tagged_sched rid = (sample_sched [(sample_event ''e'' S_scheduled rid 200 300)\<lparr>ev_template := Some ''t''\<rparr>])\<lparr>sd_db := empty_db\<lparr>
     ranges := [sample_range ''r'' created], templates := [\<lparr>tm_id = ''t'', tm_yaml = ''y''\<rparr>],
     maintenance_windows := [\<lparr>mw_id = ''w'', mw_tenant = Some ''n'', mw_reason = ''m'', starts_at = 0, ends_at = 250, mw_scope = ''tags'',
       mw_range_ids = [], mw_tags = [''x'']\<rparr>]\<rparr>\<rparr>"

definition tagged_clock :: clock_env where
  "tagged_clock = (sample_clock 180)\<lparr>k_op := (\<lambda>_ _. (sample_env 180 ''op'')\<lparr>e_yaml := (\<lambda>_. Some (JObj [(''tags'', JList [JStr ''x''])]))\<rparr>)\<rparr>"

text \<open>With a range of its own the booking stays scheduled until the window is over. When the same tick
  created the range, the row in hand still has no range: the window is asked about a range that does
  not exist yet, the booking moves to provisioning, and its build is then refused.\<close>

definition booking_outcome :: "sched \<Rightarrow> (event_state \<times> bool) list" where
  "booking_outcome s = map (\<lambda>e. (ev_state e, auto_provisioned e)) (scheduled_events s)"

lemma known_range_held: "booking_outcome (ck_sched (tick tagged_clock (tagged_sched (Some ''r'')))) = [(S_scheduled, False)]"
  by code_simp

lemma created_range_escapes_hold: "booking_outcome (ck_sched (tick tagged_clock (tagged_sched None))) = [(S_provisioning, False)]"
  by code_simp

end
