(* ===== verification/Windows_Roles.thy ===== *)
theory Windows_Roles
  imports Pools
begin

text \<open>
  \<^verbatim>\<open>windows_roles.py\<close> (one file, copied to the API and to the worker): the catalogue of Windows Server
  roles, which roles a node's services name, the sizing floor of a node, and which placements can be
  built. A service entry is a string; texts of errors and warnings are reduced to constructors.
  Labels, groups and note texts are left out of the catalogue.
\<close>

section \<open>The catalogue\<close>

record specs =
  sp_vcpu :: int
  sp_ram_mb :: int
  sp_disk_gb :: int

definition sizes :: "int \<Rightarrow> int \<Rightarrow> int \<Rightarrow> specs" where
  "sizes v r d = \<lparr>sp_vcpu = v, sp_ram_mb = r, sp_disk_gb = d\<rparr>"

definition BASE_SPECS :: specs where
  "BASE_SPECS = sizes 2 4096 60"

datatype install = Feature "string list" | Image "(string \<times> string) list"

record role =
  ro_id :: string
  ro_min :: specs
  ro_recommended :: "specs option"
  ro_install :: install
  ro_requires :: "string list"
  ro_conflicts :: "string list"
  ro_notes :: bool
  ro_aliases :: "string list"

definition ROLES :: "role list" where
  "ROLES = [
     \<lparr>ro_id = ''ad-ds'', ro_min = sizes 2 4096 60, ro_recommended = Some (sizes 4 8192 100),
       ro_install = Feature [''AD-Domain-Services'', ''DNS'', ''GPMC'', ''RSAT-AD-Tools'', ''RSAT-DNS-Server''],
       ro_requires = [], ro_conflicts = [], ro_notes = False,
       ro_aliases = [''active_directory'', ''ad'', ''ad_ds'', ''adds'', ''domain_controller'']\<rparr>,
     \<lparr>ro_id = ''ad-cs'', ro_min = sizes 2 4096 60, ro_recommended = None,
       ro_install = Feature [''ADCS-Cert-Authority'', ''ADCS-Web-Enrollment'', ''ADCS-Online-Cert''],
       ro_requires = [''ad-ds''], ro_conflicts = [], ro_notes = False,
       ro_aliases = [''adcs'', ''ad_cs'', ''ca'', ''pki'', ''ocsp'']\<rparr>,
     \<lparr>ro_id = ''ad-fs'', ro_min = sizes 2 8192 80, ro_recommended = None,
       ro_install = Feature [''ADFS-Federation''],
       ro_requires = [''ad-ds'', ''ad-cs''], ro_conflicts = [''ad-ds''], ro_notes = False,
       ro_aliases = [''adfs'', ''ad_fs'']\<rparr>,
     \<lparr>ro_id = ''entra-connect-sim'', ro_min = sizes 2 4096 60, ro_recommended = None,
       ro_install = Image [(''windows-server-2022'', ''srv2022-entraconnect-sim'')],
       ro_requires = [''ad-ds''], ro_conflicts = [], ro_notes = False,
       ro_aliases = [''azure_ad_connect_sim'', ''entra_connect_sim'', ''aad_connect'']\<rparr>,
     \<lparr>ro_id = ''dns'', ro_min = sizes 2 4096 60, ro_recommended = None,
       ro_install = Feature [''DNS'', ''RSAT-DNS-Server''],
       ro_requires = [], ro_conflicts = [], ro_notes = False,
       ro_aliases = [''dns_server'']\<rparr>,
     \<lparr>ro_id = ''dhcp'', ro_min = sizes 2 4096 60, ro_recommended = None,
       ro_install = Feature [''DHCP'', ''RSAT-DHCP''],
       ro_requires = [], ro_conflicts = [], ro_notes = False,
       ro_aliases = [''dhcp_server'']\<rparr>,
     \<lparr>ro_id = ''file'', ro_min = sizes 2 4096 100, ro_recommended = Some (sizes 2 8192 500),
       ro_install = Feature [''FS-FileServer'', ''FS-DFS-Namespace'', ''FS-DFS-Replication''],
       ro_requires = [], ro_conflicts = [], ro_notes = False,
       ro_aliases = [''smb'', ''dfs'', ''file_server'', ''file-print'', ''vshadow'']\<rparr>,
     \<lparr>ro_id = ''print'', ro_min = sizes 2 4096 60, ro_recommended = None,
       ro_install = Feature [''Print-Server''],
       ro_requires = [], ro_conflicts = [], ro_notes = False,
       ro_aliases = [''print_spooler'', ''print_server'']\<rparr>,
     \<lparr>ro_id = ''nps'', ro_min = sizes 2 4096 60, ro_recommended = None,
       ro_install = Feature [''NPAS''],
       ro_requires = [], ro_conflicts = [], ro_notes = False,
       ro_aliases = [''radius'', ''npas'']\<rparr>,
     \<lparr>ro_id = ''rras'', ro_min = sizes 2 4096 60, ro_recommended = None,
       ro_install = Feature [''RemoteAccess'', ''Routing'', ''DirectAccess-VPN''],
       ro_requires = [], ro_conflicts = [], ro_notes = False,
       ro_aliases = [''vpn'', ''remote_access'']\<rparr>,
     \<lparr>ro_id = ''wds'', ro_min = sizes 2 4096 200, ro_recommended = None,
       ro_install = Feature [''WDS''],
       ro_requires = [], ro_conflicts = [], ro_notes = False,
       ro_aliases = [''pxe'']\<rparr>,
     \<lparr>ro_id = ''kms'', ro_min = sizes 2 4096 60, ro_recommended = None,
       ro_install = Feature [''VolumeActivation''],
       ro_requires = [], ro_conflicts = [], ro_notes = False,
       ro_aliases = [''volume_activation'']\<rparr>,
     \<lparr>ro_id = ''failover-cluster'', ro_min = sizes 2 8192 100, ro_recommended = None,
       ro_install = Feature [''Failover-Clustering''],
       ro_requires = [], ro_conflicts = [], ro_notes = False,
       ro_aliases = [''failover_clustering'', ''wsfc'']\<rparr>,
     \<lparr>ro_id = ''hyper-v'', ro_min = sizes 4 16384 200, ro_recommended = Some (sizes 8 32768 500),
       ro_install = Feature [''Hyper-V''],
       ro_requires = [], ro_conflicts = [], ro_notes = True,
       ro_aliases = [''hyperv'']\<rparr>,
     \<lparr>ro_id = ''iis'', ro_min = sizes 2 4096 60, ro_recommended = None,
       ro_install = Feature [''Web-Server'', ''Web-Mgmt-Console'', ''Web-Asp-Net45''],
       ro_requires = [], ro_conflicts = [], ro_notes = False,
       ro_aliases = [''web_server'', ''w3svc'']\<rparr>,
     \<lparr>ro_id = ''sql-server'', ro_min = sizes 4 16384 200, ro_recommended = Some (sizes 8 32768 500),
       ro_install = Image [(''windows-server-2022'', ''srv2022-sql2022'')],
       ro_requires = [], ro_conflicts = [], ro_notes = False,
       ro_aliases = [''mssql'', ''mssql_2019'', ''mssql_2022'', ''sql'', ''sql_server'', ''ssrs'']\<rparr>,
     \<lparr>ro_id = ''exchange'', ro_min = sizes 4 16384 200, ro_recommended = None,
       ro_install = Image [(''windows-server-2022'', ''srv2022-exchange2019'')],
       ro_requires = [''ad-ds''], ro_conflicts = [''ad-ds''], ro_notes = False,
       ro_aliases = [''exchange_2019'', ''exchange_se'']\<rparr>,
     \<lparr>ro_id = ''sharepoint'', ro_min = sizes 4 16384 200, ro_recommended = None,
       ro_install = Image [(''windows-server-2019'', ''srv2019-sharepoint2019''), (''windows-server-2022'', ''srv2022-sharepointse'')],
       ro_requires = [''ad-ds'', ''sql-server''], ro_conflicts = [''ad-ds''], ro_notes = False,
       ro_aliases = [''sharepoint_se'']\<rparr>,
     \<lparr>ro_id = ''sharepoint-2019'', ro_min = sizes 4 16384 200, ro_recommended = None,
       ro_install = Image [(''windows-server-2019'', ''srv2019-sharepoint2019''), (''windows-server-2022'', ''srv2022-sharepoint2019'')],
       ro_requires = [''ad-ds''], ro_conflicts = [''ad-ds''], ro_notes = False,
       ro_aliases = [''sharepoint_2019'', ''sharepoint2019'']\<rparr>,
     \<lparr>ro_id = ''erp-app'', ro_min = sizes 4 16384 200, ro_recommended = None,
       ro_install = Image [(''windows-server-2022'', ''srv2022-erp-app'')],
       ro_requires = [], ro_conflicts = [], ro_notes = False,
       ro_aliases = [''erp'']\<rparr>,
     \<lparr>ro_id = ''historian'', ro_min = sizes 4 8192 200, ro_recommended = Some (sizes 4 8192 500),
       ro_install = Image [(''windows-server-2019'', ''srv2019-historian-sim'')],
       ro_requires = [], ro_conflicts = [], ro_notes = False,
       ro_aliases = [''osisoft_pi_sim'', ''historian_sim'']\<rparr>,
     \<lparr>ro_id = ''mecm'', ro_min = sizes 4 16384 200, ro_recommended = None,
       ro_install = Image [(''windows-server-2022'', ''srv2022-mecm'')],
       ro_requires = [''ad-ds''], ro_conflicts = [''ad-ds''], ro_notes = False,
       ro_aliases = [''sccm'', ''configmgr'']\<rparr>,
     \<lparr>ro_id = ''wsus'', ro_min = sizes 2 4096 150, ro_recommended = Some (sizes 2 8192 300),
       ro_install = Feature [''UpdateServices-Services'', ''UpdateServices-WidDB'', ''UpdateServices-UI''],
       ro_requires = [], ro_conflicts = [], ro_notes = False,
       ro_aliases = [''update_services'']\<rparr>,
     \<lparr>ro_id = ''rds'', ro_min = sizes 2 8192 100, ro_recommended = None,
       ro_install = Feature [''RDS-RD-Server'', ''RDS-Gateway'', ''RDS-Licensing''],
       ro_requires = [], ro_conflicts = [], ro_notes = False,
       ro_aliases = [''remote_desktop'', ''rds_session_host'']\<rparr>,
     \<lparr>ro_id = ''jump'', ro_min = sizes 2 4096 60, ro_recommended = None,
       ro_install = Feature [''RSAT-AD-Tools'', ''RSAT-DNS-Server'', ''GPMC''],
       ro_requires = [], ro_conflicts = [], ro_notes = False,
       ro_aliases = [''jump_host'', ''rsat'']\<rparr>]"

definition BY_ID :: "string \<Rightarrow> role option" where
  "BY_ID i = find_row (\<lambda>r. ro_id r = i) ROLES"

text \<open>The dictionary of ids and aliases; a later entry replaces an earlier one.\<close>

definition alias_entries :: "(string \<times> string) list" where
  "alias_entries = concat (map (\<lambda>r. (ro_id r, ro_id r) # map (\<lambda>a. (a, ro_id r)) (ro_aliases r)) ROLES)"

definition alias_of :: "string \<Rightarrow> string option" where
  "alias_of a = map_of (rev alias_entries) a"

section \<open>Roles of a node\<close>

definition is_windows_server :: "string \<Rightarrow> bool" where
  "is_windows_server os = startswith (lower (strip os)) ''windows-server''"

definition swap_char :: "char \<Rightarrow> char \<Rightarrow> string \<Rightarrow> string" where
  "swap_char a b s = map (\<lambda>c. if c = a then b else c) s"

definition role_id :: "string \<Rightarrow> string option" where
  "role_id name =
     (let key = lower (strip name) in
      case alias_of key of Some r \<Rightarrow> Some r
      | None \<Rightarrow> (case alias_of (swap_char (CHR ''_'') (CHR ''-'') key) of Some r \<Rightarrow> Some r
         | None \<Rightarrow> alias_of (swap_char (CHR ''-'') (CHR ''_'') key)))"

definition roles_of :: "string list \<Rightarrow> string list" where
  "roles_of services =
     (let picked = List.map_filter role_id services in map ro_id (filter (\<lambda>r. ro_id r \<in> set picked) ROLES))"

definition max_specs :: "specs \<Rightarrow> specs \<Rightarrow> specs" where
  "max_specs a b = sizes (max (sp_vcpu a) (sp_vcpu b)) (max (sp_ram_mb a) (sp_ram_mb b)) (max (sp_disk_gb a) (sp_disk_gb b))"

definition size_of :: "bool \<Rightarrow> role \<Rightarrow> specs" where
  "size_of rec x = (case (rec, ro_recommended x) of (True, Some y) \<Rightarrow> y | _ \<Rightarrow> ro_min x)"

text \<open>A role that is not in the catalogue is the \<^verbatim>\<open>KeyError\<close> of \<^verbatim>\<open>BY_ID[rid]\<close>: None.\<close>

fun min_specs_from :: "bool \<Rightarrow> specs \<Rightarrow> string list \<Rightarrow> specs option" where
  "min_specs_from recommended out [] = Some out"
| "min_specs_from recommended out (r # rs) =
     (case BY_ID r of None \<Rightarrow> None
      | Some x \<Rightarrow> min_specs_from recommended (max_specs out (size_of recommended x)) rs)"

definition min_specs :: "bool \<Rightarrow> string list \<Rightarrow> specs option" where
  "min_specs recommended roles = min_specs_from recommended BASE_SPECS roles"

definition is_image :: "string \<Rightarrow> bool" where
  "is_image r = (case BY_ID r of Some x \<Rightarrow> (case ro_install x of Image _ \<Rightarrow> True | _ \<Rightarrow> False) | None \<Rightarrow> False)"

definition image_roles :: "string list \<Rightarrow> string list" where
  "image_roles roles = filter is_image roles"

definition images_of :: "string \<Rightarrow> (string \<times> string) list" where
  "images_of r = (case BY_ID r of Some x \<Rightarrow> (case ro_install x of Image m \<Rightarrow> m | _ \<Rightarrow> []) | None \<Rightarrow> [])"

definition role_image :: "string list \<Rightarrow> string \<Rightarrow> string option" where
  "role_image roles os = (case image_roles roles of [] \<Rightarrow> None | r # _ \<Rightarrow> map_of (images_of r) (lower (strip os)))"

fun role_features_from :: "string list \<Rightarrow> string list \<Rightarrow> string list" where
  "role_features_from out [] = out"
| "role_features_from out (r # rs) = role_features_from (case BY_ID r of
       Some x \<Rightarrow> (case ro_install x of Feature fs \<Rightarrow> foldl (\<lambda>out f. if f \<in> set out then out else out @ [f]) out fs | _ \<Rightarrow> out)
     | None \<Rightarrow> out) rs"

definition role_features :: "string list \<Rightarrow> string list" where
  "role_features roles = role_features_from [] roles"

section \<open>Placement checks\<close>

datatype role_problem = SeparateImages "string list" | NoImage string string | MustNotShare string string
  | Expects string string | Noted string

definition role_errors :: "string list \<Rightarrow> string \<Rightarrow> role_problem list" where
  "role_errors roles r = (case BY_ID r of None \<Rightarrow> []
     | Some x \<Rightarrow> map (\<lambda>c. MustNotShare r c) (filter (\<lambda>c. c \<in> set roles) (ro_conflicts x)))"

definition role_warnings :: "string list \<Rightarrow> string \<Rightarrow> role_problem list" where
  "role_warnings range_roles r = (case BY_ID r of None \<Rightarrow> []
     | Some x \<Rightarrow> map (\<lambda>c. Expects r c) (filter (\<lambda>c. c \<notin> set range_roles) (ro_requires x)) @ (if ro_notes x then [Noted r] else []))"

definition check_node :: "string \<Rightarrow> string list \<Rightarrow> string list \<Rightarrow> role_problem list \<times> role_problem list" where
  "check_node os roles range_roles =
     (if roles = [] \<or> \<not> is_windows_server os then ([], [])
      else let imgs = image_roles roles;
               e = (if length imgs > 1 then [SeparateImages imgs]
                    else if imgs \<noteq> [] \<and> role_image roles os = None then [NoImage (hd imgs) os] else [])
           in (e @ concat (map (role_errors roles) roles), concat (map (role_warnings range_roles) roles)))"

text \<open>A node as the check reads it: its OS and its services.\<close>

definition check_nodes :: "(string \<times> string list) list \<Rightarrow> role_problem list \<times> role_problem list" where
  "check_nodes nodes =
     (let per = map (\<lambda>(os, sv). (os, roles_of sv)) (filter (\<lambda>(os, sv). is_windows_server os) nodes);
          range_roles = concat (map snd per);
          res = map (\<lambda>(os, rs). check_node os rs range_roles) per
      in (concat (map fst res), concat (map snd res)))"

definition require_buildable :: "(string \<times> string list) list \<Rightarrow> role_problem list + unit" where
  "require_buildable nodes = (let e = fst (check_nodes nodes) in if e \<noteq> [] then Inl e else Inr ())"

section \<open>The catalogue is consistent\<close>

definition known :: "string \<Rightarrow> bool" where
  "known r = (BY_ID r \<noteq> None)"

definition covers :: "specs \<Rightarrow> specs \<Rightarrow> bool" where
  "covers a b = (sp_vcpu b \<le> sp_vcpu a \<and> sp_ram_mb b \<le> sp_ram_mb a \<and> sp_disk_gb b \<le> sp_disk_gb a)"

text \<open>No two entries of the dictionary have one key, and keys are spelled as they are looked up.\<close>

lemma alias_keys: "distinct (map fst alias_entries)" "list_all (\<lambda>p. lower (strip (fst p)) = fst p) alias_entries"
  by code_simp+

lemma named_role: "(a, i) \<in> set alias_entries \<Longrightarrow> role_id a = Some i"
proof -
  assume a: "(a, i) \<in> set alias_entries"
  then have "lower (strip a) = a" using alias_keys(2) by (auto simp: list_all_iff)
  moreover have "distinct (map fst (rev alias_entries))" using alias_keys(1) by (simp add: rev_map [symmetric])
  then have "alias_of a = Some i" using a by (simp add: alias_of_def)
  ultimately show ?thesis by (simp add: role_id_def)
qed

lemma own_names: "r \<in> set ROLES \<Longrightarrow> a \<in> set (ro_id r # ro_aliases r) \<Longrightarrow> role_id a = Some (ro_id r)"
  by (rule named_role) (auto simp: alias_entries_def)

lemma catalogue_checks:
  "distinct (map ro_id ROLES)"
  "list_all (\<lambda>r. list_all known (ro_requires r @ ro_conflicts r) \<and> covers (ro_min r) BASE_SPECS \<and>
     (case ro_recommended r of None \<Rightarrow> True | Some s \<Rightarrow> covers s (ro_min r))) ROLES"
  by code_simp+


section \<open>Sizing\<close>

lemma covers_max: "covers s (max_specs a b) = (covers s a \<and> covers s b)"
  by (auto simp: covers_def max_specs_def sizes_def)

lemma covers_refl [simp]: "covers s s"
  by (simp add: covers_def)

lemma find_row_mem: "r \<in> set rows \<Longrightarrow> P r \<Longrightarrow> \<exists>x. find_row P rows = Some x"
  using find_row_None_iff [of P rows] by (cases "find_row P rows") auto

lemma roles_of_known: "r \<in> set (roles_of sv) \<Longrightarrow> known r"
  unfolding roles_of_def Let_def known_def BY_ID_def using find_row_mem by fastforce

lemma min_specs_from_least:
  assumes "\<forall>r \<in> set roles. known r"
  shows "\<exists>s. min_specs_from rec base roles = Some s \<and>
    (\<forall>t. covers t s = (covers t base \<and> (\<forall>r \<in> set roles. \<forall>x. BY_ID r = Some x \<longrightarrow> covers t (size_of rec x))))"
  using assms
proof (induction roles arbitrary: base)
  case (Cons r roles)
  then obtain x where x: "BY_ID r = Some x" by (auto simp: known_def)
  from Cons.prems have "\<forall>r \<in> set roles. known r" by simp
  from Cons.IH [OF this, of "max_specs base (size_of rec x)"]
  obtain s where s: "min_specs_from rec (max_specs base (size_of rec x)) roles = Some s"
    "\<And>t. covers t s = ((covers t base \<and> covers t (size_of rec x)) \<and>
      (\<forall>r \<in> set roles. \<forall>x. BY_ID r = Some x \<longrightarrow> covers t (size_of rec x)))"
    unfolding covers_max by blast
  have "min_specs_from rec base (r # roles) = Some s" using s(1) x by simp
  moreover have "covers t s = (covers t base \<and> (\<forall>r' \<in> set (r # roles). \<forall>x. BY_ID r' = Some x \<longrightarrow> covers t (size_of rec x)))" for t
    unfolding s(2) using x by simp
  ultimately show ?case by blast
qed simp

text \<open>A node gets the least size that covers the base and the floors of all roles its services name:
  for every services list the floor exists, and a size is at least the floor exactly when it covers
  the base and each of those roles; likewise for the recommended sizes.\<close>

theorem min_specs_least:
  "\<exists>s. min_specs rec (roles_of sv) = Some s \<and>
     (\<forall>t. covers t s = (covers t BASE_SPECS \<and> (\<forall>r \<in> set (roles_of sv). \<forall>x. BY_ID r = Some x \<longrightarrow> covers t (size_of rec x))))"
  unfolding min_specs_def by (rule min_specs_from_least) (blast intro: roles_of_known)

theorem min_specs_least_witness:
  "\<exists>s. min_specs False (roles_of [''exchange'', ''owa'']) = Some s \<and> covers s (sizes 4 16384 200)"
proof -
  obtain s where s: "min_specs False (roles_of [''exchange'', ''owa'']) = Some s"
    "\<forall>t. covers t s = (covers t BASE_SPECS \<and> (\<forall>r \<in> set (roles_of [''exchange'', ''owa'']). \<forall>x. BY_ID r = Some x \<longrightarrow> covers t (size_of False x)))"
    using min_specs_least [of False "[''exchange'', ''owa'']"] by (elim exE conjE)
  have r: "roles_of [''exchange'', ''owa''] = [''exchange'']" "map_option (size_of False) (BY_ID ''exchange'') = Some (sizes 4 16384 200)"
    by code_simp+
  obtain x where x: "BY_ID ''exchange'' = Some x" "size_of False x = sizes 4 16384 200" using r(2) by (elim map_option_eq_Some [THEN iffD1, elim_format] exE conjE)
  have "covers s s" by (rule covers_refl)
  then have "covers s (size_of False x)" using s(2) [THEN spec, of s] x(1) unfolding r(1) by (metis list.set_intros(1))
  then show ?thesis using s(1) x(2) by (intro exI [of _ s]) simp
qed

section \<open>What can be built\<close>

definition placement_ok :: "string \<Rightarrow> string list \<Rightarrow> bool" where
  "placement_ok os roles = (length (image_roles roles) \<le> 1 \<and> (image_roles roles \<noteq> [] \<longrightarrow> role_image roles os \<noteq> None) \<and>
     list_all (\<lambda>r. case BY_ID r of None \<Rightarrow> True | Some x \<Rightarrow> set (ro_conflicts x) \<inter> set roles = {}) roles)"

lemma role_errors_none: "role_errors roles r = [] \<longleftrightarrow> (case BY_ID r of None \<Rightarrow> True | Some x \<Rightarrow> set (ro_conflicts x) \<inter> set roles = {})"
  by (auto simp: role_errors_def filter_empty_conv split: option.split)

lemma check_node_errors:
  assumes "is_windows_server os"
  shows "fst (check_node os roles range_roles) = [] \<longleftrightarrow> placement_ok os roles"
proof (cases "roles = []")
  case True
  then show ?thesis by (simp add: check_node_def placement_ok_def image_roles_def)
next
  case False
  then show ?thesis using assms
    by (auto simp: check_node_def placement_ok_def Let_def role_errors_none list_all_iff)
qed

text \<open>A template's placements pass the check before a build exactly when on every Windows Server node at
  most one role is a product image, that image exists for the node's OS, and no two roles conflict.\<close>

theorem require_buildable_exact:
  "(require_buildable nodes = Inr ()) = (\<forall>os sv. (os, sv) \<in> set nodes \<and> is_windows_server os \<longrightarrow> placement_ok os (roles_of sv))"
proof -
  let ?per = "map (\<lambda>(os, sv). (os, roles_of sv)) (filter (\<lambda>(os, sv). is_windows_server os) nodes)"
  let ?rr = "concat (map snd ?per)"
  have "fst (check_nodes nodes) = [] \<longleftrightarrow> (\<forall>x \<in> set ?per. fst (check_node (fst x) (snd x) ?rr) = [])"
    unfolding check_nodes_def Let_def fst_conv concat_eq_Nil_conv set_map image_image ball_simps case_prod_beta by blast
  also have "\<dots> \<longleftrightarrow> (\<forall>os sv. (os, sv) \<in> set nodes \<and> is_windows_server os \<longrightarrow> fst (check_node os (roles_of sv) ?rr) = [])"
    by auto
  also have "\<dots> \<longleftrightarrow> (\<forall>os sv. (os, sv) \<in> set nodes \<and> is_windows_server os \<longrightarrow> placement_ok os (roles_of sv))"
    using check_node_errors by blast
  finally show ?thesis by (simp add: require_buildable_def Let_def)
qed

theorem require_buildable_exact_witness:
  "require_buildable [(''windows-server-2022'', [''exchange'', ''ad''])] \<noteq> Inr ()"
proof
  let ?n = "(''windows-server-2022'', [''exchange'', ''ad''])"
  assume "require_buildable [?n] = Inr ()"
  then have all: "\<forall>os sv. (os, sv) \<in> set [?n] \<and> is_windows_server os \<longrightarrow> placement_ok os (roles_of sv)"
    by (rule require_buildable_exact [THEN iffD1])
  have "?n \<in> set [?n]" by (rule list.set_intros(1))
  moreover have "is_windows_server ''windows-server-2022''" by code_simp
  ultimately have "placement_ok ''windows-server-2022'' (roles_of [''exchange'', ''ad''])"
    by (intro all [THEN spec, THEN spec, THEN mp] conjI)
  moreover have "\<not> placement_ok ''windows-server-2022'' (roles_of [''exchange'', ''ad''])" by code_simp
  ultimately show False by (rule notE [rotated])
qed

end
