(* ===== verification/Demand.thy ===== *)
theory Demand
  imports Windows_Roles
begin

text \<open>
  What a template asks of the cluster: \<^verbatim>\<open>template_demand\<close> of the API (\<^verbatim>\<open>app/range_topology.py\<close>) against the
  sizes the worker gives the VMs it builds (\<^verbatim>\<open>worker/render.py\<close>).

  A template is the document its YAML parses to, without floating-point numbers. A worker step that
  raises is None. Of \<^verbatim>\<open>render_topology\<close> the model has what decides how many VMs there are and how
  large: the nodes, counts, specs and role floors; addresses, NICs and images are left out.
\<close>

section \<open>Reading documents\<close>

text \<open>\<^verbatim>\<open>int(x)\<close>; None where it raises.\<close>

definition as_int :: "json \<Rightarrow> int option" where
  "as_int j = (case j of JInt i \<Rightarrow> Some i | JBool b \<Rightarrow> Some (if b then 1 else 0) | JStr s \<Rightarrow> py_int s | _ \<Rightarrow> None)"

definition falsy :: "json option \<Rightarrow> bool" where
  "falsy x = (case x of None \<Rightarrow> True | Some j \<Rightarrow> \<not> truthy j)"

text \<open>\<^verbatim>\<open>str(x)\<close>; the text of a list or a mapping is reduced to its first character.\<close>

definition json_str :: "json \<Rightarrow> string" where
  "json_str j = (case j of JStr s \<Rightarrow> s | JInt i \<Rightarrow> str_int i | JBool b \<Rightarrow> (if b then ''True'' else ''False'') | JNull \<Rightarrow> ''None''
     | JList _ \<Rightarrow> ''['' | JObj _ \<Rightarrow> ''{'')"

definition NON_VM_TYPES :: "string list" where
  "NON_VM_TYPES = [''switch'', ''cloud'', ''subnet'', ''dmz'']"

text \<open>An entry that is drawn and not built.\<close>

definition only_drawn :: "json \<Rightarrow> bool" where
  "only_drawn e = (falsy (jget ''os'' e) \<and> falsy (jget ''os_template'' e) \<and>
     (case jget ''type'' e of None \<Rightarrow> False | Some j \<Rightarrow> json_str j \<in> set NON_VM_TYPES))"

definition LEGACY :: "(string \<times> string) list" where
  "LEGACY = [(''vcpu'', ''cores''), (''ram_mb'', ''memory_mb''), (''disk_gb'', ''disk_gb'')]"

definition declared_specs :: "json \<Rightarrow> (string \<times> json) list" where
  "declared_specs e = (case jget ''specs'' e of Some (JObj kvs) \<Rightarrow> kvs | _ \<Rightarrow> [])"

definition given :: "json option \<Rightarrow> bool" where
  "given x = (case x of None \<Rightarrow> False | Some JNull \<Rightarrow> False | Some (JStr []) \<Rightarrow> False | Some _ \<Rightarrow> True)"

text \<open>The declared specs, and the legacy keys for those that are missing.\<close>

definition fill :: "(string \<Rightarrow> json option) \<Rightarrow> (string \<times> string) list \<Rightarrow> (string \<times> json) list \<Rightarrow> (string \<times> json) list" where
  "fill v keys sp = foldl (\<lambda>sp (legacy, key). if map_of sp key = None then (case v legacy of None \<Rightarrow> sp | Some j \<Rightarrow> sp @ [(key, j)]) else sp) sp keys"

section \<open>The API's count\<close>

record demand =
  vm_count :: int
  dm_vcpu :: int
  dm_ram_mb :: int
  dm_disk_gb :: int

definition DEFAULT_CORES :: int where "DEFAULT_CORES = 2"
definition DEFAULT_MEMORY_MB :: int where "DEFAULT_MEMORY_MB = 4096"
definition DEFAULT_DISK_GB :: int where "DEFAULT_DISK_GB = 60"

definition node_specs :: "json \<Rightarrow> (string \<times> json) list" where
  "node_specs e = fill (\<lambda>legacy. if given (jget legacy e) then jget legacy e else None) LEGACY (declared_specs e)"

definition spec_of :: "(string \<times> json) list \<Rightarrow> string \<Rightarrow> int \<Rightarrow> int" where
  "spec_of sp key dflt = (case map_of sp key of None \<Rightarrow> dflt
     | Some j \<Rightarrow> (case as_int j of None \<Rightarrow> dflt | Some n \<Rightarrow> max 0 n))"

definition entry_count :: "json \<Rightarrow> json" where
  "entry_count e = (case jget ''count'' e of None \<Rightarrow> JInt 1 | Some j \<Rightarrow> if truthy j then j else JInt 1)"

definition add_entry :: "bool \<Rightarrow> json \<Rightarrow> demand \<Rightarrow> demand" where
  "add_entry from_nodes entry d =
     (let e = (case entry of JStr _ \<Rightarrow> JObj [] | _ \<Rightarrow> entry) in
      case e of JObj _ \<Rightarrow>
        if only_drawn e then d
        else let n = (case as_int (entry_count e) of None \<Rightarrow> 1 | Some n \<Rightarrow> max 0 n);
                 sp = (if from_nodes then node_specs e else [])
             in \<lparr>vm_count = vm_count d + n, dm_vcpu = dm_vcpu d + n * spec_of sp ''cores'' DEFAULT_CORES,
                 dm_ram_mb = dm_ram_mb d + n * spec_of sp ''memory_mb'' DEFAULT_MEMORY_MB,
                 dm_disk_gb = dm_disk_gb d + n * spec_of sp ''disk_gb'' DEFAULT_DISK_GB\<rparr>
      | _ \<Rightarrow> d)"

definition no_demand :: demand where
  "no_demand = \<lparr>vm_count = 0, dm_vcpu = 0, dm_ram_mb = 0, dm_disk_gb = 0\<rparr>"

text \<open>\<open>doc\<close> is the parsed document; None when the YAML does not parse.\<close>

definition template_demand :: "json option \<Rightarrow> demand option" where
  "template_demand doc =
     (case doc of Some (JObj kvs) \<Rightarrow>
        if jget ''assets'' (JObj kvs) = None \<and> jget ''nodes'' (JObj kvs) = None then None
        else let from_nodes = \<not> falsy (jget ''nodes'' (JObj kvs));
                 entries = (if from_nodes then the (jget ''nodes'' (JObj kvs))
                   else if \<not> falsy (jget ''assets'' (JObj kvs)) then the (jget ''assets'' (JObj kvs)) else JList [])
             in Some (foldl (\<lambda>d e. add_entry from_nodes e d) no_demand (case entries of JList es \<Rightarrow> es | _ \<Rightarrow> []))
      | _ \<Rightarrow> None)"

definition count_template_hosts :: "json option \<Rightarrow> int option" where
  "count_template_hosts doc = map_option vm_count (template_demand doc)"

section \<open>The worker's VMs\<close>

definition DEPRECATED_OS_ALIASES :: "(string \<times> string) list" where
  "DEPRECATED_OS_ALIASES = [(''ubuntu-2204'', ''ubuntu-2404''), (''ubuntu2204'', ''ubuntu-2404''), (''ubuntu-22.04'', ''ubuntu-24.04'')]"

definition DEFAULT_OS :: string where
  "DEFAULT_OS = ''ubuntu-2404''"

definition canonical_os :: "string \<Rightarrow> string" where
  "canonical_os alias = (case map_of DEPRECATED_OS_ALIASES (strip alias) of None \<Rightarrow> strip alias | Some a \<Rightarrow> a)"

definition node_os :: "json \<Rightarrow> string" where
  "node_os e = (case filter (\<lambda>x. \<not> falsy x) [jget ''os'' e, jget ''os_template'' e, jget ''type'' e] of
     Some j # _ \<Rightarrow> json_str j | _ \<Rightarrow> DEFAULT_OS)"

definition worker_specs :: "json \<Rightarrow> (string \<times> json) list" where
  "worker_specs e = fill (\<lambda>legacy. if given (jget legacy e) then map_option JInt (as_int (the (jget legacy e))) else None)
     LEGACY (declared_specs e)"

definition jdefault :: "string \<Rightarrow> json \<Rightarrow> json \<Rightarrow> json" where
  "jdefault k dflt e = (case jget k e of None \<Rightarrow> dflt | Some j \<Rightarrow> j)"

definition asset_node :: "json \<Rightarrow> json option" where
  "asset_node a = (case a of JObj _ \<Rightarrow> Some (JObj [(''id'', jdefault ''role'' (JStr ''vm'') a), (''role'', jdefault ''role'' (JStr ''generic'') a),
     (''os'', jdefault ''os'' (JStr DEFAULT_OS) a), (''type'', jdefault ''type'' (JStr ''vm'') a), (''count'', jdefault ''count'' (JInt 1) a),
     (''tags'', jdefault ''tags'' (JList []) a), (''services'', jdefault ''services'' (JList []) a)]) | _ \<Rightarrow> None)"

text \<open>All answers, or None.\<close>

fun all_some :: "'a option list \<Rightarrow> 'a list option" where
  "all_some [] = Some []"
| "all_some (x # xs) = (case (x, all_some xs) of (Some y, Some ys) \<Rightarrow> Some (y # ys) | _ \<Rightarrow> None)"

definition extract_nodes :: "json \<Rightarrow> json list option" where
  "extract_nodes t =
     (if \<not> falsy (jget ''nodes'' t) then (case jget ''nodes'' t of Some (JList ns) \<Rightarrow> Some ns | _ \<Rightarrow> None)
      else if \<not> falsy (jget ''assets'' t) then (case jget ''assets'' t of Some (JList xs) \<Rightarrow> all_some (map asset_node xs) | _ \<Rightarrow> None)
      else Some [])"

text \<open>The services as the roles read them: a list, a text split at commas, the keys of a mapping.\<close>

definition services_of :: "json option \<Rightarrow> string list option" where
  "services_of x =
     (if falsy x then Some [] else case the x of JStr s \<Rightarrow> Some (split_on (CHR '','') s)
      | JList xs \<Rightarrow> Some (map (\<lambda>j. if truthy j then json_str j else []) xs) | JObj kvs \<Rightarrow> Some (map fst kvs) | _ \<Rightarrow> None)"

definition floor_spec :: "int \<Rightarrow> string \<Rightarrow> (string \<times> json) list \<Rightarrow> (string \<times> json) list option" where
  "floor_spec least key sp =
     (let old = (case map_of sp key of None \<Rightarrow> JInt 0 | Some j \<Rightarrow> if truthy j then j else JInt 0) in
      map_option (\<lambda>n. (key, JInt (max n least)) # sp) (as_int old))"

definition or_default :: "json option \<Rightarrow> int \<Rightarrow> json" where
  "or_default x n = (case x of None \<Rightarrow> JInt n | Some j \<Rightarrow> j)"

definition read_sizes :: "(string \<times> json) list \<Rightarrow> json \<times> json \<times> json" where
  "read_sizes sp = (or_default (map_of sp ''cores'') 2, or_default (map_of sp ''memory_mb'') 4096, or_default (map_of sp ''disk_gb'') 60)"

text \<open>The size of one VM of a node, as documents (a declared spec is passed on as it is).\<close>

definition vm_size :: "json \<Rightarrow> (json \<times> json \<times> json) option" where
  "vm_size e =
     (let os = canonical_os (node_os e); sp = worker_specs e
      in if \<not> is_windows_server os then Some (read_sizes sp)
         else case services_of (jget ''services'' e) of None \<Rightarrow> None
         | Some sv \<Rightarrow>
           (case roles_of sv of [] \<Rightarrow> Some (read_sizes sp)
            | roles \<Rightarrow> (case min_specs False roles of None \<Rightarrow> None
              | Some least \<Rightarrow> (case floor_spec (sp_vcpu least) ''cores'' sp of None \<Rightarrow> None
                | Some s1 \<Rightarrow> (case floor_spec (sp_ram_mb least) ''memory_mb'' s1 of None \<Rightarrow> None
                  | Some s2 \<Rightarrow> map_option read_sizes (floor_spec (sp_disk_gb least) ''disk_gb'' s2))))))"

definition node_vms :: "json \<Rightarrow> (json \<times> json \<times> json) list option" where
  "node_vms e = (case e of JObj _ \<Rightarrow>
        if only_drawn e then Some []
        else (case as_int (entry_count e) of None \<Rightarrow> None
          | Some n \<Rightarrow> if n \<le> 0 then Some [] else map_option (replicate (nat n)) (vm_size e))
      | _ \<Rightarrow> None)"

definition rendered_vms :: "json \<Rightarrow> (json \<times> json \<times> json) list option" where
  "rendered_vms t = (case extract_nodes t of None \<Rightarrow> None | Some ns \<Rightarrow> map_option concat (all_some (map node_vms ns)))"

section \<open>The two agree\<close>

definition intval :: "json \<Rightarrow> int" where
  "intval j = (case as_int j of None \<Rightarrow> 0 | Some n \<Rightarrow> n)"

definition total :: "(json \<times> json \<times> json) list \<Rightarrow> specs" where
  "total vs = sizes (\<Sum>v\<leftarrow>vs. intval (fst v)) (\<Sum>v\<leftarrow>vs. intval (fst (snd v))) (\<Sum>v\<leftarrow>vs. intval (snd (snd v)))"

text \<open>A node whose declared sizes are numbers that are not negative, with a readable count and readable
  services.\<close>

definition plain_spec :: "json \<Rightarrow> string \<times> string \<Rightarrow> bool" where
  "plain_spec e = (\<lambda>(legacy, key). case map_of (declared_specs e) key of Some j \<Rightarrow> (case j of JInt n \<Rightarrow> 0 \<le> n | _ \<Rightarrow> False)
     | None \<Rightarrow> (case jget legacy e of None \<Rightarrow> True | Some j \<Rightarrow> (case as_int j of None \<Rightarrow> True | Some n \<Rightarrow> 0 \<le> n)))"

definition plain_node :: "json \<Rightarrow> bool" where
  "plain_node e = ((case e of JObj _ \<Rightarrow> True | _ \<Rightarrow> False) \<and> as_int (entry_count e) \<noteq> None \<and> services_of (jget ''services'' e) \<noteq> None \<and>
     list_all (plain_spec e) LEGACY)"

definition node_roles :: "json \<Rightarrow> string list" where
  "node_roles e = (if is_windows_server (canonical_os (node_os e)) then roles_of (the (services_of (jget ''services'' e))) else [])"

definition legacy_value :: "json \<Rightarrow> string \<Rightarrow> string \<Rightarrow> json option" where
  "legacy_value e legacy key = (case map_of (declared_specs e) key of Some j \<Rightarrow> Some j
     | None \<Rightarrow> if given (jget legacy e) then jget legacy e else None)"

lemma given_Some: "given x \<Longrightarrow> x = Some (the x)"
  by (auto simp: given_def split: option.splits)

lemma fill_other: "key \<notin> snd ` set keys \<Longrightarrow> map_of (fill v keys sp) key = map_of sp key"
  unfolding fill_def by (induction keys arbitrary: sp) (auto simp: map_add_def split: option.split)

lemma fill_Cons: "fill v ((l, k) # keys) sp = fill v keys (if map_of sp k = None then (case v l of None \<Rightarrow> sp | Some j \<Rightarrow> sp @ [(k, j)]) else sp)"
  by (simp add: fill_def)

lemma fill_get:
  assumes "distinct (map snd keys)" "(legacy, key) \<in> set keys"
  shows "map_of (fill v keys sp) key = (case map_of sp key of Some j \<Rightarrow> Some j | None \<Rightarrow> v legacy)"
  using assms
proof (induction keys arbitrary: sp)
  case (Cons x keys)
  obtain l k where x: "x = (l, k)" by (cases x)
  define sp1 where "sp1 = (if map_of sp k = None then (case v l of None \<Rightarrow> sp | Some j \<Rightarrow> sp @ [(k, j)]) else sp)"
  show ?case
  proof (cases "(legacy, key) \<in> set keys")
    case True
    then have "k \<noteq> key" using Cons.prems(1) x by (auto simp: image_iff)
    then have "map_of sp1 key = map_of sp key" by (auto simp: sp1_def map_add_def split: option.split)
    then show ?thesis using Cons.IH [of sp1] Cons.prems(1) True by (simp add: x fill_Cons sp1_def [symmetric])
  next
    case False
    then have e: "l = legacy" "k = key" using Cons.prems(2) x by auto
    have "map_of (fill v keys sp1) key = map_of sp1 key"
      by (rule fill_other) (use Cons.prems(1) x e in \<open>simp add: image_iff\<close>)
    then show ?thesis using e by (auto simp: x fill_Cons sp1_def map_add_def split: option.split)
  qed
qed simp

lemma legacy_keys: "distinct (map snd LEGACY)"
  by code_simp

lemma node_specs_get: "(legacy, key) \<in> set LEGACY \<Longrightarrow> map_of (node_specs e) key = legacy_value e legacy key"
  unfolding node_specs_def legacy_value_def by (rule fill_get [OF legacy_keys])

lemma worker_specs_get:
  "(legacy, key) \<in> set LEGACY \<Longrightarrow> map_of (worker_specs e) key = (case map_of (declared_specs e) key of Some j \<Rightarrow> Some j
     | None \<Rightarrow> if given (jget legacy e) then map_option JInt (as_int (the (jget legacy e))) else None)"
  unfolding worker_specs_def by (rule fill_get [OF legacy_keys])

lemma spec_agrees:
  assumes "plain_spec e (legacy, key)" "(legacy, key) \<in> set LEGACY" "0 \<le> dflt"
  shows "or_default (map_of (worker_specs e) key) dflt = JInt (spec_of (node_specs e) key dflt)"
    "map_of (worker_specs e) key = None \<Longrightarrow> spec_of (node_specs e) key dflt = dflt"
proof -
  show "or_default (map_of (worker_specs e) key) dflt = JInt (spec_of (node_specs e) key dflt)"
  proof (cases "map_of (declared_specs e) key")
    case (Some j)
    then obtain n where "j = JInt n" "0 \<le> n" using assms(1) by (auto simp: plain_spec_def split: json.splits)
    then show ?thesis using Some by (simp add: or_default_def worker_specs_get [OF assms(2)] spec_of_def node_specs_get [OF assms(2)] legacy_value_def as_int_def)
  next
    case None
    show ?thesis
    proof (cases "given (jget legacy e)")
      case True
      then obtain j where j: "jget legacy e = Some j" using given_Some by blast
      then show ?thesis using None True assms(1)
        by (simp add: or_default_def worker_specs_get [OF assms(2)] spec_of_def node_specs_get [OF assms(2)] legacy_value_def plain_spec_def split: option.splits)
    next
      case False
      then show ?thesis using None
        by (simp add: or_default_def worker_specs_get [OF assms(2)] spec_of_def node_specs_get [OF assms(2)] legacy_value_def)
    qed
  qed
  then show "map_of (worker_specs e) key = None \<Longrightarrow> spec_of (node_specs e) key dflt = dflt" by (simp add: or_default_def)
qed

text \<open>The worker's value of each size, with the floor of the roles or without.\<close>

lemma legacy_members: "(''vcpu'', ''cores'') \<in> set LEGACY" "(''ram_mb'', ''memory_mb'') \<in> set LEGACY" "(''disk_gb'', ''disk_gb'') \<in> set LEGACY"
  by (simp_all add: LEGACY_def)

lemma floor_spec_get:
  assumes "or_default (map_of sp key) dflt = JInt n" "0 \<le> n" "dflt \<le> least"
  shows "\<exists>m. floor_spec least key sp = Some ((key, JInt m) # sp) \<and> n \<le> m"
proof (cases "map_of sp key")
  case None
  then show ?thesis using assms by (auto simp: floor_spec_def or_default_def as_int_def)
next
  case (Some j)
  then have "j = JInt n" using assms(1) by (simp add: or_default_def)
  then show ?thesis using Some assms(2) by (auto simp: floor_spec_def as_int_def)
qed

lemma map_of_Cons_other: "k \<noteq> k' \<Longrightarrow> map_of ((k, v) # xs) k' = map_of xs k'"
  by simp

lemma min_specs_grow: "min_specs_from rec base roles = Some s \<Longrightarrow> covers s base"
proof (induction roles arbitrary: base)
  case (Cons r roles)
  then obtain x where "min_specs_from rec (max_specs base (size_of rec x)) roles = Some s" by (auto split: option.splits)
  then show ?case using Cons.IH covers_max by blast
qed simp

lemma roles_floor:
  assumes "min_specs False roles = Some s"
  shows "2 \<le> sp_vcpu s" "4096 \<le> sp_ram_mb s" "60 \<le> sp_disk_gb s"
  using min_specs_grow [OF assms [unfolded min_specs_def]] by (simp_all add: covers_def BASE_SPECS_def sizes_def)

text \<open>One VM of a plain node: its size is at least what the API counts for it, and exactly that without
  roles.\<close>

lemma spec_of_nonneg: "0 \<le> dflt \<Longrightarrow> 0 \<le> spec_of sp key dflt"
  by (auto simp: spec_of_def split: option.split)

lemma vm_size_agrees:
  assumes "plain_node e"
  defines "c \<equiv> spec_of (node_specs e) ''cores'' DEFAULT_CORES" and "m \<equiv> spec_of (node_specs e) ''memory_mb'' DEFAULT_MEMORY_MB"
    and "g \<equiv> spec_of (node_specs e) ''disk_gb'' DEFAULT_DISK_GB"
  shows "\<exists>c' m' g'. vm_size e = Some (JInt c', JInt m', JInt g') \<and> c \<le> c' \<and> m \<le> m' \<and> g \<le> g' \<and>
    (node_roles e = [] \<longrightarrow> c' = c \<and> m' = m \<and> g' = g)"
proof -
  define sp where "sp = worker_specs e"
  have p: "plain_spec e x" if "x \<in> set LEGACY" for x using assms(1) that by (simp add: plain_node_def list_all_iff)
  have r: "or_default (map_of sp ''cores'') 2 = JInt c" "or_default (map_of sp ''memory_mb'') 4096 = JInt m" "or_default (map_of sp ''disk_gb'') 60 = JInt g"
    unfolding sp_def c_def m_def g_def DEFAULT_CORES_def DEFAULT_MEMORY_MB_def DEFAULT_DISK_GB_def
    using spec_agrees(1) [OF p] legacy_members by simp_all
  have nn: "0 \<le> c" "0 \<le> m" "0 \<le> g" unfolding c_def m_def g_def DEFAULT_CORES_def DEFAULT_MEMORY_MB_def DEFAULT_DISK_GB_def
    by (rule spec_of_nonneg, simp)+
  have rd: "read_sizes sp = (JInt c, JInt m, JInt g)" unfolding read_sizes_def r by (rule refl)
  obtain sv where sv: "services_of (jget ''services'' e) = Some sv" using assms(1) by (auto simp: plain_node_def)
  define os where "os = canonical_os (node_os e)"
  note v = vm_size_def [of e, unfolded Let_def os_def [symmetric] sp_def [symmetric] sv option.case]
  have nr: "node_roles e = (if is_windows_server os then roles_of sv else [])" unfolding node_roles_def os_def [symmetric] sv option.sel by (rule refl)
  show ?thesis
  proof (cases "node_roles e")
    case Nil
    then have "vm_size e = Some (read_sizes sp)" unfolding v using nr by (cases "is_windows_server os") simp_all
    then show ?thesis unfolding rd by (intro exI [of _ c] exI [of _ m] exI [of _ g]) simp
  next
    case (Cons x xs)
    then have w: "is_windows_server os" "roles_of sv = x # xs" using nr by (simp_all split: if_splits)
    obtain s where s: "min_specs False (roles_of sv) = Some s" using min_specs_from_least [of "roles_of sv"] roles_of_known
      unfolding min_specs_def by blast
    note fl = roles_floor [OF s]
    obtain c' where c': "floor_spec (sp_vcpu s) ''cores'' sp = Some ((''cores'', JInt c') # sp)" "c \<le> c'"
      using floor_spec_get [OF r(1) nn(1) fl(1)] by (elim exE conjE)
    let ?s1 = "(''cores'', JInt c') # sp"
    have "or_default (map_of ?s1 ''memory_mb'') 4096 = JInt m" using r(2) by simp
    from floor_spec_get [OF this nn(2) fl(2)]
    obtain m' where m': "floor_spec (sp_ram_mb s) ''memory_mb'' ?s1 = Some ((''memory_mb'', JInt m') # ?s1)" "m \<le> m'" by (elim exE conjE)
    let ?s2 = "(''memory_mb'', JInt m') # ?s1"
    have "or_default (map_of ?s2 ''disk_gb'') 60 = JInt g" using r(3) by simp
    from floor_spec_get [OF this nn(3) fl(3)]
    obtain g' where g': "floor_spec (sp_disk_gb s) ''disk_gb'' ?s2 = Some ((''disk_gb'', JInt g') # ?s2)" "g \<le> g'" by (elim exE conjE)
    have "read_sizes ((''disk_gb'', JInt g') # ?s2) = (JInt c', JInt m', JInt g')" by (simp add: read_sizes_def or_default_def)
    then have "vm_size e = Some (JInt c', JInt m', JInt g')"
      unfolding v using w s c'(1) m'(1) g'(1) by simp
    then show ?thesis using c'(2) m'(2) g'(2) Cons by (intro exI [of _ c'] exI [of _ m'] exI [of _ g']) simp
  qed
qed

lemma sum_replicate: "sum_list (replicate n x) = int n * (x :: int)"
  by (simp add: sum_list_replicate)

text \<open>What a node adds to the API's demand, against its VMs.\<close>

lemma node_agrees:
  assumes "plain_node e"
  shows "\<exists>vs. node_vms e = Some vs \<and> vm_count (add_entry True e d) = vm_count d + int (length vs) \<and>
    dm_vcpu (add_entry True e d) - dm_vcpu d \<le> sp_vcpu (total vs) \<and> dm_ram_mb (add_entry True e d) - dm_ram_mb d \<le> sp_ram_mb (total vs) \<and>
    dm_disk_gb (add_entry True e d) - dm_disk_gb d \<le> sp_disk_gb (total vs) \<and>
    (node_roles e = [] \<longrightarrow> sizes (dm_vcpu (add_entry True e d) - dm_vcpu d) (dm_ram_mb (add_entry True e d) - dm_ram_mb d)
       (dm_disk_gb (add_entry True e d) - dm_disk_gb d) = total vs)"
proof -
  obtain kvs where e: "e = JObj kvs" using assms by (auto simp: plain_node_def split: json.splits)
  obtain n where n: "as_int (entry_count e) = Some n" using assms by (auto simp: plain_node_def)
  obtain c m g where v: "vm_size e = Some (JInt c, JInt m, JInt g)"
    "spec_of (node_specs e) ''cores'' DEFAULT_CORES \<le> c" "spec_of (node_specs e) ''memory_mb'' DEFAULT_MEMORY_MB \<le> m"
    "spec_of (node_specs e) ''disk_gb'' DEFAULT_DISK_GB \<le> g"
    "node_roles e = [] \<longrightarrow> c = spec_of (node_specs e) ''cores'' DEFAULT_CORES \<and> m = spec_of (node_specs e) ''memory_mb'' DEFAULT_MEMORY_MB \<and>
      g = spec_of (node_specs e) ''disk_gb'' DEFAULT_DISK_GB"
    using vm_size_agrees [OF assms] by (elim exE conjE)
  show ?thesis
  proof (cases "only_drawn e")
    case True
    then have "node_vms e = Some []" "add_entry True e d = d" by (simp_all add: node_vms_def add_entry_def e)
    then show ?thesis by (simp add: total_def sizes_def)
  next
    case False
    define k where "k = nat (max 0 n)"
    have k: "int k = max 0 n" by (simp add: k_def)
    have vms: "node_vms e = Some (replicate k (JInt c, JInt m, JInt g))"
      using False n v(1) e by (auto simp: node_vms_def k_def max_def)
    have a: "add_entry True e d = \<lparr>vm_count = vm_count d + int k, dm_vcpu = dm_vcpu d + int k * spec_of (node_specs e) ''cores'' DEFAULT_CORES,
        dm_ram_mb = dm_ram_mb d + int k * spec_of (node_specs e) ''memory_mb'' DEFAULT_MEMORY_MB,
        dm_disk_gb = dm_disk_gb d + int k * spec_of (node_specs e) ''disk_gb'' DEFAULT_DISK_GB\<rparr>"
      using False n e k by (simp add: add_entry_def Let_def)
    have t: "total (replicate k (JInt c, JInt m, JInt g)) = sizes (int k * c) (int k * m) (int k * g)" for c m g
      by (simp add: total_def sum_replicate intval_def as_int_def)
    show ?thesis unfolding vms a t
      using v(2-5) by (intro exI [of _ "replicate k (JInt c, JInt m, JInt g)"]) (simp add: t sizes_def mult_left_mono)
  qed
qed

lemma total_append: "total (xs @ ys) = sizes (sp_vcpu (total xs) + sp_vcpu (total ys)) (sp_ram_mb (total xs) + sp_ram_mb (total ys)) (sp_disk_gb (total xs) + sp_disk_gb (total ys))"
  by (simp add: total_def sizes_def)

lemma nodes_agree:
  assumes "\<forall>e \<in> set ns. plain_node e"
  shows "\<exists>vs. all_some (map node_vms ns) = Some vs \<and>
    (let d' = foldl (\<lambda>d e. add_entry True e d) d ns in
     vm_count d' = vm_count d + int (length (concat vs)) \<and> dm_vcpu d' - dm_vcpu d \<le> sp_vcpu (total (concat vs)) \<and>
     dm_ram_mb d' - dm_ram_mb d \<le> sp_ram_mb (total (concat vs)) \<and> dm_disk_gb d' - dm_disk_gb d \<le> sp_disk_gb (total (concat vs)) \<and>
     ((\<forall>e \<in> set ns. node_roles e = []) \<longrightarrow>
        sizes (dm_vcpu d' - dm_vcpu d) (dm_ram_mb d' - dm_ram_mb d) (dm_disk_gb d' - dm_disk_gb d) = total (concat vs)))"
  using assms
proof (induction ns arbitrary: d)
  case Nil
  then show ?case by (simp add: total_def sizes_def)
next
  case (Cons e ns)
  define d1 where "d1 = add_entry True e d"
  obtain v where v: "node_vms e = Some v" "vm_count d1 = vm_count d + int (length v)" "dm_vcpu d1 - dm_vcpu d \<le> sp_vcpu (total v)"
    "dm_ram_mb d1 - dm_ram_mb d \<le> sp_ram_mb (total v)" "dm_disk_gb d1 - dm_disk_gb d \<le> sp_disk_gb (total v)"
    "node_roles e = [] \<Longrightarrow> sizes (dm_vcpu d1 - dm_vcpu d) (dm_ram_mb d1 - dm_ram_mb d) (dm_disk_gb d1 - dm_disk_gb d) = total v"
    using node_agrees [of e d] Cons.prems unfolding d1_def by auto
  obtain vs where vs: "all_some (map node_vms ns) = Some vs" and w: "let d' = foldl (\<lambda>d e. add_entry True e d) d1 ns in
     vm_count d' = vm_count d1 + int (length (concat vs)) \<and> dm_vcpu d' - dm_vcpu d1 \<le> sp_vcpu (total (concat vs)) \<and>
     dm_ram_mb d' - dm_ram_mb d1 \<le> sp_ram_mb (total (concat vs)) \<and> dm_disk_gb d' - dm_disk_gb d1 \<le> sp_disk_gb (total (concat vs)) \<and>
     ((\<forall>e \<in> set ns. node_roles e = []) \<longrightarrow>
        sizes (dm_vcpu d' - dm_vcpu d1) (dm_ram_mb d' - dm_ram_mb d1) (dm_disk_gb d' - dm_disk_gb d1) = total (concat vs))"
    using Cons.IH [of d1] Cons.prems by auto
  have all: "all_some (map node_vms (e # ns)) = Some (v # vs)" using v(1) vs by simp
  have f: "foldl (\<lambda>d e. add_entry True e d) d (e # ns) = foldl (\<lambda>d e. add_entry True e d) d1 ns" by (simp add: d1_def)
  define d2 where "d2 = foldl (\<lambda>d e. add_entry True e d) d1 ns"
  have fld: "sp_vcpu (sizes a b c) = a" "sp_ram_mb (sizes a b c) = b" "sp_disk_gb (sizes a b c) = c" for a b c by (simp_all add: sizes_def)
  note w' = w [folded d2_def, unfolded Let_def]
  have eq: "sizes (dm_vcpu d2 - dm_vcpu d) (dm_ram_mb d2 - dm_ram_mb d) (dm_disk_gb d2 - dm_disk_gb d) = total (v @ concat vs)"
    if "\<forall>x \<in> set (e # ns). node_roles x = []"
  proof -
    have "total v = sizes (dm_vcpu d1 - dm_vcpu d) (dm_ram_mb d1 - dm_ram_mb d) (dm_disk_gb d1 - dm_disk_gb d)" using v(6) that by simp
    moreover have "total (concat vs) = sizes (dm_vcpu d2 - dm_vcpu d1) (dm_ram_mb d2 - dm_ram_mb d1) (dm_disk_gb d2 - dm_disk_gb d1)" using w' that by simp
    ultimately show ?thesis by (simp add: total_append fld)
  qed
  show ?case unfolding f d2_def [symmetric] Let_def all
    using v(2-5) w' eq by (intro exI [of _ "v # vs"]) (simp add: total_append fld)
qed

text \<open>C34: The capacity the API reserves for a template is the capacity its build takes. For a template with
  nodes whose declared sizes are numbers that are not negative, the worker renders as many VMs as
  the API counts, never smaller than the API's sum in any resource, and of exactly that sum when no
  node is a Windows Server with roles.\<close>

theorem demand_matches_build:
  assumes "jget ''nodes'' (JObj kvs) = Some (JList ns)" "ns \<noteq> []" "\<forall>e \<in> set ns. plain_node e"
  shows "\<exists>d vs. template_demand (Some (JObj kvs)) = Some d \<and> rendered_vms (JObj kvs) = Some vs \<and> vm_count d = int (length vs) \<and>
    covers (total vs) (sizes (dm_vcpu d) (dm_ram_mb d) (dm_disk_gb d)) \<and>
    ((\<forall>e \<in> set ns. node_roles e = []) \<longrightarrow> total vs = sizes (dm_vcpu d) (dm_ram_mb d) (dm_disk_gb d))"
proof -
  have t: "\<not> falsy (jget ''nodes'' (JObj kvs))" using assms(1,2) by (simp add: falsy_def)
  define d where "d = foldl (\<lambda>d e. add_entry True e d) no_demand ns"
  have d: "template_demand (Some (JObj kvs)) = Some d" using t assms(1) by (simp add: template_demand_def d_def Let_def)
  obtain vs where vs: "all_some (map node_vms ns) = Some vs" and w: "let d' = d in
     vm_count d' = vm_count no_demand + int (length (concat vs)) \<and> dm_vcpu d' - dm_vcpu no_demand \<le> sp_vcpu (total (concat vs)) \<and>
     dm_ram_mb d' - dm_ram_mb no_demand \<le> sp_ram_mb (total (concat vs)) \<and> dm_disk_gb d' - dm_disk_gb no_demand \<le> sp_disk_gb (total (concat vs)) \<and>
     ((\<forall>e \<in> set ns. node_roles e = []) \<longrightarrow>
        sizes (dm_vcpu d' - dm_vcpu no_demand) (dm_ram_mb d' - dm_ram_mb no_demand) (dm_disk_gb d' - dm_disk_gb no_demand) = total (concat vs))"
    using nodes_agree [OF assms(3), of no_demand] unfolding d_def by (elim exE conjE)
  have r: "rendered_vms (JObj kvs) = Some (concat vs)" using t assms(1) vs by (simp add: rendered_vms_def extract_nodes_def)
  show ?thesis
    using w unfolding d r by (intro exI [of _ d] exI [of _ "concat vs"]) (simp add: no_demand_def covers_def sizes_def)
qed

definition sample_template :: "json \<Rightarrow> (string \<times> json) list" where
  "sample_template services = [(''nodes'', JList [JObj [(''os'', JStr ''windows-server-2022''), (''services'', services)],
     JObj [(''os'', JStr ''kali''), (''count'', JInt 2), (''specs'', JObj [(''cores'', JInt 4)])], JObj [(''type'', JStr ''switch'')]])]"

theorem demand_matches_build_witness:
  "\<exists>d vs. template_demand (Some (JObj (sample_template (JList [])))) = Some d \<and> rendered_vms (JObj (sample_template (JList []))) = Some vs \<and>
     total vs = sizes (dm_vcpu d) (dm_ram_mb d) (dm_disk_gb d)"
proof -
  let ?t = "sample_template (JList [])" and ?ns = "case the (jget ''nodes'' (JObj (sample_template (JList [])))) of JList ns \<Rightarrow> ns | _ \<Rightarrow> []"
  have "list_all plain_node ?ns" "list_all (\<lambda>e. node_roles e = []) ?ns" by code_simp+
  then have p: "\<forall>e \<in> set ?ns. plain_node e" "\<forall>e \<in> set ?ns. node_roles e = []" unfolding list_all_iff by blast+
  have n: "jget ''nodes'' (JObj ?t) = Some (JList ?ns)" "?ns \<noteq> []" by (simp_all add: sample_template_def jget_def)
  from demand_matches_build [OF n p(1)] p(2) show ?thesis by blast
qed

text \<open>A role's floor is not counted: a node whose services name Exchange is built with 16 GB and reserved
  with 4.\<close>

lemma roles_not_counted:
  "map_option dm_ram_mb (template_demand (Some (JObj (sample_template (JList [JStr ''exchange'']))))) = Some (3 * 4096)"
  "map_option (\<lambda>vs. sp_ram_mb (total vs)) (rendered_vms (JObj (sample_template (JList [JStr ''exchange''])))) = Some (16384 + 2 * 4096)"
  by code_simp+

end
