(* ===== verification/Capacity.thy ===== *)
theory Capacity
  imports Booking_Clock Demand
begin

text \<open>
  The capacity view bookings are checked against: \<^verbatim>\<open>scheduler/capacity.py\<close>, with what classes hold
  (\<^verbatim>\<open>classes/holds.py\<close>), what lab sessions hold (\<^verbatim>\<open>lab_sessions/holdings.py\<close>) and the ranges running
  now (\<^verbatim>\<open>app/capacity/service.py\<close>).

  \<open>site\<close> holds the tables they read; the YAML parser, the lead, the grace and the present are
  arguments. Sets of ids are lists. \<open>committed_many\<close> and \<open>committed_series\<close> answer many windows in one
  pass; the theorems compare them with \<open>committed\<close> asked window by window at the same instant.
\<close>

section \<open>Tables\<close>

record lab_row =
  lb_id :: uuid
  lb_range :: "uuid option"
  lb_state :: string
  lb_tenant :: uuid
  lb_user :: uuid
  lb_vcpu :: int
  lb_ram_mb :: int
  lb_disk_gb :: int
  lb_booking :: "uuid option"
  lb_idle_expires :: "time option"
  lb_max_expires :: "time option"

record site =
  st_ranges :: "range_row list"
  st_templates :: "template_row list"
  st_events :: "scheduled_event list"
  st_sessions :: "class_session list"
  st_classes :: "class_row list"
  st_class_ranges :: "class_range list"
  st_roll_call :: "roll_call_entry list"
  st_labs :: "lab_row list"

record resources =
  rs_vcpu :: int
  rs_ram_mb :: int
  rs_disk_gb :: int

definition DAY :: time where
  "DAY = seconds 86400"

section \<open>Ranges running now\<close>

definition BUILT :: "range_state list" where
  "BUILT = [provisioning, ready, running]"

type_synonym load = "uuid \<times> resources"

definition template_size :: "(string \<Rightarrow> json option) \<Rightarrow> template_row \<Rightarrow> resources option" where
  "template_size yaml t = map_option (\<lambda>d. \<lparr>rs_vcpu = dm_vcpu d, rs_ram_mb = dm_ram_mb d, rs_disk_gb = dm_disk_gb d\<rparr>) (template_demand (yaml (tm_yaml t)))"

definition RESETTING :: string where "RESETTING = ''resetting''"

definition ENDING :: "string list" where
  "ENDING = [''completed'', ''expired'', ''cleaning'', ''reconcile_required'', ''reconciling'']"

definition RUNS_RESOURCES :: "string list" where
  "RUNS_RESOURCES = [''provisioning'', ''baselining'', ''ready'', ''active'', ''resetting''] @ ENDING"

definition resetting_loads :: "site \<Rightarrow> load list" where
  "resetting_loads s = concat (map (\<lambda>l. concat (map (\<lambda>r.
     if lb_range l = Some (rng_id r) \<and> lb_state l = RESETTING \<and> rng_state r \<notin> set (BUILT @ [stopped])
     then [(rng_id r, \<lparr>rs_vcpu = lb_vcpu l, rs_ram_mb = lb_ram_mb l, rs_disk_gb = lb_disk_gb l\<rparr>)] else []) (st_ranges s))) (st_labs s))"

definition range_load :: "(string \<Rightarrow> json option) \<Rightarrow> range_row \<Rightarrow> template_row \<Rightarrow> load option" where
  "range_load yaml r t = map_option (\<lambda>z. (rng_id r, if rng_state r = stopped then \<lparr>rs_vcpu = 0, rs_ram_mb = 0, rs_disk_gb = rs_disk_gb z\<rparr> else z))
     (template_size yaml t)"

definition running_ranges :: "(string \<Rightarrow> json option) \<Rightarrow> site \<Rightarrow> load list" where
  "running_ranges yaml s =
     concat (map (\<lambda>r. if rng_state r \<in> set (BUILT @ [stopped]) \<and> \<not> rng_deleted r
       then List.map_filter (\<lambda>t. if tm_id t = rng_template r then range_load yaml r t else None) (st_templates s) else []) (st_ranges s))
     @ resetting_loads s"

definition SWEEP_LAG :: time where
  "SWEEP_LAG = seconds 1800"

text \<open>When each running lab's range is gone: by default its maximum lifetime, for a forecast when it would
  close if unused.\<close>

definition lab_ends :: "site \<Rightarrow> time \<Rightarrow> bool \<Rightarrow> (uuid \<times> time) list" where
  "lab_ends s now forecast = List.map_filter (\<lambda>l.
     if lb_state l \<notin> set RUNS_RESOURCES then None
     else case lb_range l of None \<Rightarrow> None
     | Some rid \<Rightarrow>
       if lb_state l \<in> set ENDING then (if forecast then Some (rid, now) else None)
       else if \<not> forecast then map_option (\<lambda>t. (rid, max t (now + SWEEP_LAG))) (lb_max_expires l)
       else (case (lb_idle_expires l, lb_max_expires l) of (Some a, Some b) \<Rightarrow> Some (rid, min a b)
         | (Some a, None) \<Rightarrow> Some (rid, a) | (None, Some b) \<Rightarrow> Some (rid, b) | (None, None) \<Rightarrow> None)) (st_labs s)"

section \<open>Labs that draw on a booking\<close>

definition OFF_ROLL_CALL :: "string list" where
  "OFF_ROLL_CALL = [''removed'', ''pending'', ''forfeited'']"

definition on_roll_call :: "site \<Rightarrow> uuid \<Rightarrow> lab_row \<Rightarrow> bool" where
  "on_roll_call s booking l = list_ex (\<lambda>x. list_ex (\<lambda>c. cs_class c = rc_class x \<and> cs_event c = booking) (st_sessions s) \<and>
     rc_tenant x = lb_tenant l \<and> rc_user x = Some (lb_user l) \<and> rc_status x \<notin> set OFF_ROLL_CALL) (st_roll_call s)"

definition drawing :: "site \<Rightarrow> lab_row list" where
  "drawing s = filter (\<lambda>l. (case lb_booking l of None \<Rightarrow> False | Some b \<Rightarrow> on_roll_call s b l) \<and> lb_state l \<in> set RUNS_RESOURCES) (st_labs s)"

definition lab_sum :: "lab_row list \<Rightarrow> resources" where
  "lab_sum ls = \<lparr>rs_vcpu = sum_list (map lb_vcpu ls), rs_ram_mb = sum_list (map lb_ram_mb ls), rs_disk_gb = sum_list (map lb_disk_gb ls)\<rparr>"

text \<open>The dictionary for the bookings asked about; no entry for a booking no lab draws on.\<close>

definition drawing_on :: "site \<Rightarrow> uuid list \<Rightarrow> uuid \<Rightarrow> (uuid list \<times> resources) option" where
  "drawing_on s ids b =
     (let ls = filter (\<lambda>l. lb_booking l = Some b) (drawing s) in
      if b \<notin> set ids \<or> ls = [] then None else Some (List.map_filter lb_range ls, lab_sum ls))"

definition is_drawing :: "site \<Rightarrow> uuid \<Rightarrow> bool" where
  "is_drawing s i = list_ex (\<lambda>l. lb_id l = i) (drawing s)"

definition drawn :: "site \<Rightarrow> uuid \<Rightarrow> uuid option \<Rightarrow> resources" where
  "drawn s b exclude = lab_sum (filter (\<lambda>l. lb_booking l = Some b \<and> Some (lb_id l) \<noteq> exclude) (drawing s))"

section \<open>What a class holds\<close>

type_synonym hold_key = "uuid \<times> string \<times> uuid"

record hold =
  h_key :: hold_key
  h_start :: time
  h_end :: time
  h_resources :: resources
  h_ranges :: "uuid list"
  h_events :: "uuid list"

definition NEEDS_RANGES :: "event_state list" where
  "NEEDS_RANGES = HOLDING @ [S_completed]"

definition last_day_end :: "int \<Rightarrow> time" where
  "last_day_end date = (date + 1) * DAY"

definition kind_of :: "string \<Rightarrow> string" where
  "kind_of mode = (if mode = ''individual'' then ''seat'' else ''shared'')"

type_synonym session_row = "scheduled_event \<times> class_session \<times> class_row"

text \<open>The join of bookings, sessions and classes.\<close>

definition session_rows :: "site \<Rightarrow> session_row list" where
  "session_rows s = concat (map (\<lambda>e. concat (map (\<lambda>l. concat (map (\<lambda>c.
     if cs_event l = ev_id e \<and> cl_id c = cs_class l \<and> cl_status c = ''open'' \<and> cl_tenant c = ev_tenant e \<and>
        ev_state e \<in> set NEEDS_RANGES \<and> ev_template e \<noteq> None then [(e, l, c)] else []) (st_classes s))) (st_sessions s))) (st_events s))"

definition class_owns :: "site \<Rightarrow> uuid \<Rightarrow> uuid \<Rightarrow> bool" where
  "class_owns s cid rid = list_ex (\<lambda>x. cr_class x = cid \<and> cr_range x = Some rid) (st_class_ranges s)"

definition uses_class_ranges :: "site \<Rightarrow> session_row \<Rightarrow> bool" where
  "uses_class_ranges s = (\<lambda>(e, l, c). range_mode l = ''individual'' \<or> (case ev_range e of None \<Rightarrow> True | Some rid \<Rightarrow> class_owns s (cl_id c) rid))"

definition row_key :: "session_row \<Rightarrow> hold_key" where
  "row_key = (\<lambda>(e, l, c). (cl_id c, kind_of (range_mode l), the (ev_template e)))"

definition seats :: "site \<Rightarrow> class_row \<Rightarrow> int" where
  "seats s c = int (length (filter (\<lambda>x. rc_class x = cl_id c \<and> rc_status x \<notin> set OFF_ROLL_CALL \<and> rc_tenant x = cl_tenant c) (st_roll_call s)))"

definition sized_template :: "(string \<Rightarrow> json option) \<Rightarrow> site \<Rightarrow> uuid \<Rightarrow> resources option" where
  "sized_template yaml s tid = (case find_row (\<lambda>t. tm_id t = tid) (st_templates s) of None \<Rightarrow> None
     | Some t \<Rightarrow> if tm_yaml t = [] then None else template_size yaml t)"

definition live_ranges :: "site \<Rightarrow> hold_key \<Rightarrow> uuid list" where
  "live_ranges s key = List.map_filter (\<lambda>x. if (cr_class x, cr_kind x, cr_template x) = key \<and> torn_down_at x = None then cr_range x else None) (st_class_ranges s)"

definition hold_of :: "(string \<Rightarrow> json option) \<Rightarrow> time \<Rightarrow> time \<Rightarrow> site \<Rightarrow> session_row list \<Rightarrow> hold_key \<Rightarrow> hold option" where
  "hold_of yaml lead grace s rows key =
     (let grp = filter (\<lambda>x. row_key x = key) rows;
          es = map fst grp;
          c = snd (snd (last grp));
          approved = filter (\<lambda>e. ev_state e \<in> set HOLDING) es;
          first = Min (set (map ev_start (if approved \<noteq> [] then approved else es))) - lead;
          end = Max (set (last_day_end (cl_end_date c) # map ev_end es)) + grace;
          n = (if fst (snd key) = ''seat'' then seats s c else 1)
      in map_option (\<lambda>one. \<lparr>h_key = key, h_start = first, h_end = end,
           h_resources = \<lparr>rs_vcpu = rs_vcpu one * n, rs_ram_mb = rs_ram_mb one * n, rs_disk_gb = rs_disk_gb one * n\<rparr>,
           h_ranges = live_ranges s key, h_events = map ev_id es\<rparr>) (sized_template yaml s (snd (snd key))))"

definition class_holds :: "(string \<Rightarrow> json option) \<Rightarrow> time \<Rightarrow> time \<Rightarrow> site \<Rightarrow> time \<Rightarrow> time \<Rightarrow> hold list" where
  "class_holds yaml lead grace s start end =
     (let since = (start - grace - DAY) div DAY;
          rows = filter (uses_class_ranges s) (filter (\<lambda>(e, l, c). since \<le> cl_end_date c) (session_rows s))
      in filter (\<lambda>h. h_start h < end \<and> start < h_end h)
           (List.map_filter (hold_of yaml lead grace s rows) (dict_fromkeys (map row_key rows))))"

definition hold_key_of :: "site \<Rightarrow> scheduled_event \<Rightarrow> hold_key option" where
  "hold_key_of s evt =
     (case find_row (\<lambda>l. cs_event l = ev_id evt) (st_sessions s) of None \<Rightarrow> None
      | Some l \<Rightarrow>
        if ev_template evt = None then None
        else (case find_row (\<lambda>c. cl_id c = cs_class l) (st_classes s) of None \<Rightarrow> None
          | Some c \<Rightarrow> if cl_tenant c \<noteq> ev_tenant evt \<or> \<not> uses_class_ranges s (evt, l, c) then None
              else Some (cl_id c, kind_of (range_mode l), the (ev_template evt))))"

definition class_end :: "site \<Rightarrow> scheduled_event \<Rightarrow> time option" where
  "class_end s evt = (case hold_key_of s evt of None \<Rightarrow> None
     | Some key \<Rightarrow> map_option (\<lambda>c. max (last_day_end (cl_end_date c)) (ev_end evt)) (find_row (\<lambda>c. cl_id c = fst key) (st_classes s)))"

section \<open>What is committed\<close>

record item =
  i_from :: time
  i_to :: time
  i_need :: resources
  i_uses :: "uuid list"

record committed =
  cm_resources :: resources
  cm_events :: nat
  cm_ranges :: nat

record cluster =
  cc_running :: "load list"
  cc_ends :: "(uuid \<times> time) list"

definition new_cluster :: "(string \<Rightarrow> json option) \<Rightarrow> site \<Rightarrow> time \<Rightarrow> (uuid \<times> time) list option \<Rightarrow> cluster" where
  "new_cluster yaml s now ends = \<lparr>cc_running = running_ranges yaml s, cc_ends = (case ends of Some m \<Rightarrow> m | None \<Rightarrow> lab_ends s now False)\<rparr>"

definition hold_item :: "hold \<Rightarrow> item" where
  "hold_item h = \<lparr>i_from = h_start h, i_to = h_end h, i_need = h_resources h, i_uses = h_ranges h\<rparr>"

definition event_item :: "time \<Rightarrow> time \<Rightarrow> (uuid \<Rightarrow> (uuid list \<times> resources) option) \<Rightarrow> scheduled_event \<Rightarrow> item" where
  "event_item lead grace labs e =
     (let (rids, l) = (case labs (ev_id e) of None \<Rightarrow> ([], \<lparr>rs_vcpu = 0, rs_ram_mb = 0, rs_disk_gb = 0\<rparr>) | Some x \<Rightarrow> x) in
      \<lparr>i_from = ev_start e - lead, i_to = ev_end e + grace,
       i_need = \<lparr>rs_vcpu = max (vcpu_total e) (rs_vcpu l), rs_ram_mb = max (ram_mb_total e) (rs_ram_mb l), rs_disk_gb = max (disk_gb_total e) (rs_disk_gb l)\<rparr>,
       i_uses = (case ev_range e of None \<Rightarrow> [] | Some r \<Rightarrow> [r]) @ rids\<rparr>)"

definition excluded :: "site \<Rightarrow> uuid option \<Rightarrow> scheduled_event option" where
  "excluded s exclude = (case exclude of None \<Rightarrow> None | Some i \<Rightarrow> find_row (\<lambda>e. ev_id e = i) (st_events s))"

definition excluded_key :: "site \<Rightarrow> uuid option \<Rightarrow> hold_key option" where
  "excluded_key s exclude = (case excluded s exclude of None \<Rightarrow> None | Some e \<Rightarrow> hold_key_of s e)"

text \<open>The re-checked booking's own range and its Students' labs, part of the demand being asked.\<close>

definition excluded_ranges :: "site \<Rightarrow> uuid option \<Rightarrow> uuid list" where
  "excluded_ranges s exclude = (case excluded s exclude of None \<Rightarrow> [] | Some e \<Rightarrow> (case ev_range e of None \<Rightarrow> [] | Some r \<Rightarrow> [r]) @
     (case drawing_on s [ev_id e] (ev_id e) of None \<Rightarrow> [] | Some x \<Rightarrow> fst x))"

definition held_items :: "(string \<Rightarrow> json option) \<Rightarrow> time \<Rightarrow> time \<Rightarrow> site \<Rightarrow> time \<Rightarrow> time \<Rightarrow> uuid option \<Rightarrow> item list \<times> uuid list" where
  "held_items yaml lead grace s start end exclude =
     (let key = excluded_key s exclude;
          hs = class_holds yaml lead grace s (start - grace) (end + lead);
          absorbed = concat (map h_events hs);
          skip = excluded_ranges s exclude @ concat (map h_ranges (filter (\<lambda>h. Some (h_key h) = key) hs));
          es = filter (\<lambda>e. ev_id e \<notin> set absorbed) (filter (\<lambda>e. ev_state e \<in> set HOLDING \<and> ev_start e < end + lead \<and>
            start - grace < ev_end e \<and> Some (ev_id e) \<noteq> exclude) (st_events s))
      in (map hold_item (filter (\<lambda>h. Some (h_key h) \<noteq> key) hs) @ map (event_item lead grace (drawing_on s (map ev_id es))) es, skip))"

definition sum_held :: "cluster \<Rightarrow> time \<Rightarrow> item list \<Rightarrow> time \<Rightarrow> time \<Rightarrow> uuid list \<Rightarrow> committed" where
  "sum_held cc now held t0 t1 skip =
     (let live = filter (\<lambda>i. i_from i < t1 \<and> t0 < i_to i) held;
          covered = concat (map i_uses live);
          extra = (if now < t1 then map snd (filter (\<lambda>(rid, z). rid \<notin> set covered \<and> rid \<notin> set skip \<and>
            (case map_of (rev (cc_ends cc)) rid of None \<Rightarrow> True | Some t \<Rightarrow> t0 < t)) (cc_running cc)) else []);
          all = map i_need live @ extra
      in \<lparr>cm_resources = \<lparr>rs_vcpu = sum_list (map rs_vcpu all), rs_ram_mb = sum_list (map rs_ram_mb all), rs_disk_gb = sum_list (map rs_disk_gb all)\<rparr>,
          cm_events = length live, cm_ranges = length extra\<rparr>)"

definition committed_at :: "(string \<Rightarrow> json option) \<Rightarrow> time \<Rightarrow> time \<Rightarrow> site \<Rightarrow> cluster \<Rightarrow> time \<Rightarrow> time \<Rightarrow> time \<Rightarrow> uuid option \<Rightarrow> committed" where
  "committed_at yaml lead grace s cc now start end exclude =
     (let (held, skip) = held_items yaml lead grace s start end exclude in sum_held cc now held start end skip)"

definition committed_many :: "(string \<Rightarrow> json option) \<Rightarrow> time \<Rightarrow> time \<Rightarrow> site \<Rightarrow> cluster \<Rightarrow> time \<Rightarrow> (time \<times> time) list \<Rightarrow> uuid option \<Rightarrow> committed list" where
  "committed_many yaml lead grace s cc now windows exclude =
     (if windows = [] then []
      else let (held, skip) = held_items yaml lead grace s (Min (set (map fst windows))) (Max (set (map snd windows))) exclude in
        map (\<lambda>(a, z). sum_held cc now held a z skip) windows)"

text \<open>The loop of the timeline; it never ends with a step that is not positive.\<close>

partial_function (option) series_loop :: "(time \<Rightarrow> time \<Rightarrow> 'a) \<Rightarrow> time \<Rightarrow> time \<Rightarrow> time \<Rightarrow> 'a list option" where
  "series_loop f step end t =
     (if t < end then Option.bind (series_loop f step end (t + step)) (\<lambda>xs. Some (f t (t + step) # xs)) else Some [])"

definition committed_series :: "(string \<Rightarrow> json option) \<Rightarrow> time \<Rightarrow> time \<Rightarrow> site \<Rightarrow> cluster \<Rightarrow> time \<Rightarrow> time \<Rightarrow> time \<Rightarrow> time \<Rightarrow> committed list option" where
  "committed_series yaml lead grace s cc now start end step =
     (let (held, _) = held_items yaml lead grace s start end None in series_loop (\<lambda>a z. sum_held cc now held a z []) step end start)"

definition held_window :: "time \<Rightarrow> time \<Rightarrow> time \<Rightarrow> time \<Rightarrow> time \<times> time" where
  "held_window lead grace start end = (start - lead, end + grace)"

definition available :: "resources \<Rightarrow> resources \<Rightarrow> resources" where
  "available supply used = \<lparr>rs_vcpu = max 0 (rs_vcpu supply - rs_vcpu used), rs_ram_mb = max 0 (rs_ram_mb supply - rs_ram_mb used),
     rs_disk_gb = max 0 (rs_disk_gb supply - rs_disk_gb used)\<rparr>"

datatype shortfall = ShortVcpu int int | ShortRam int int | ShortDisk int int

definition shortfalls :: "resources \<Rightarrow> resources \<Rightarrow> shortfall list" where
  "shortfalls need free =
     (if rs_vcpu need > rs_vcpu free then [ShortVcpu (rs_vcpu need) (rs_vcpu free)] else []) @
     (if rs_ram_mb need > rs_ram_mb free then [ShortRam (rs_ram_mb need) (rs_ram_mb free)] else []) @
     (if rs_disk_gb need > rs_disk_gb free then [ShortDisk (rs_disk_gb need) (rs_disk_gb free)] else [])"

section \<open>One pass over many windows\<close>

lemma dict_fromkeys_filter_map: "dict_fromkeys (map k (filter (\<lambda>x. P (k x)) xs)) = filter P (dict_fromkeys (map k xs))"
proof -
  have "map k (filter (\<lambda>x. P (k x)) xs) = filter P (map k xs)" by (induction xs) auto
  then show ?thesis by (simp only: dict_fromkeys_def remdups_filter rev_filter)
qed

lemma map_filter_cong: "(\<And>x. x \<in> set xs \<Longrightarrow> f x = g x) \<Longrightarrow> List.map_filter f xs = List.map_filter g xs"
  by (induction xs) (auto simp: List.map_filter_simps split: option.splits)

lemma filter_map_filter_drop:
  assumes "\<And>x y. x \<in> set xs \<Longrightarrow> f x = Some y \<Longrightarrow> P y \<Longrightarrow> Q x \<and> R y"
  shows "filter P (filter R (List.map_filter f (filter Q xs))) = filter P (List.map_filter f xs)"
  using assms by (induction xs) (auto simp: List.map_filter_simps split: option.splits)

text \<open>Every class hold, whatever the window asked about: what the query of \<open>class_holds\<close> draws from.\<close>

definition class_rows :: "site \<Rightarrow> session_row list" where
  "class_rows s = filter (uses_class_ranges s) (session_rows s)"

definition all_holds :: "(string \<Rightarrow> json option) \<Rightarrow> time \<Rightarrow> time \<Rightarrow> site \<Rightarrow> hold list" where
  "all_holds yaml lead grace s = List.map_filter (hold_of yaml lead grace s (class_rows s)) (dict_fromkeys (map row_key (class_rows s)))"

definition spans :: "time \<Rightarrow> time \<Rightarrow> hold \<Rightarrow> bool" where
  "spans a z h = (h_start h < z \<and> a < h_end h)"

definition live_in :: "time \<Rightarrow> time \<Rightarrow> item \<Rightarrow> bool" where
  "live_in a z i = (i_from i < z \<and> a < i_to i)"

text \<open>Primary keys are unique, and the sessions of a class are over by the end of its last day.\<close>

definition sessions_within_class :: "site \<Rightarrow> bool" where
  "sessions_within_class s = list_all (\<lambda>(e, l, c). ev_end e \<le> last_day_end (cl_end_date c)) (session_rows s)"

definition keyed :: "site \<Rightarrow> bool" where
  "keyed s = (distinct (map ev_id (st_events s)) \<and> distinct (map cl_id (st_classes s)))"

lemma session_rowsD:
  "(e, l, c) \<in> set (session_rows s) \<Longrightarrow> e \<in> set (st_events s) \<and> c \<in> set (st_classes s) \<and> ev_template e \<noteq> None"
  by (auto simp: session_rows_def split: if_splits)

lemma session_row_class: "x \<in> set (session_rows s) \<Longrightarrow> snd (snd x) \<in> set (st_classes s)"
  and session_row_event: "x \<in> set (session_rows s) \<Longrightarrow> fst x \<in> set (st_events s)"
  by (cases x; use session_rowsD in force)+

lemma fst_row_key: "fst (row_key x) = cl_id (snd (snd x))"
  by (simp add: row_key_def split: prod.splits)

lemma keyed_event: "keyed s \<Longrightarrow> e \<in> set (st_events s) \<Longrightarrow> f \<in> set (st_events s) \<Longrightarrow> ev_id e = ev_id f \<Longrightarrow> e = f"
  by (auto simp: keyed_def distinct_map dest: inj_onD)

lemma keyed_class: "keyed s \<Longrightarrow> c \<in> set (st_classes s) \<Longrightarrow> d \<in> set (st_classes s) \<Longrightarrow> cl_id c = cl_id d \<Longrightarrow> c = d"
  by (auto simp: keyed_def distinct_map dest: inj_onD)

definition class_since :: "site \<Rightarrow> int \<Rightarrow> hold_key \<Rightarrow> bool" where
  "class_since s since key = list_ex (\<lambda>c. cl_id c = fst key \<and> since \<le> cl_end_date c) (st_classes s)"

lemma class_since_row:
  assumes "keyed s" "(e, l, c) \<in> set (session_rows s)"
  shows "class_since s since (row_key (e, l, c)) = (since \<le> cl_end_date c)"
  using session_rowsD [OF assms(2)] keyed_class [OF assms(1)]
  by (fastforce simp: class_since_def row_key_def list_ex_iff)

lemma rows_since:
  assumes "keyed s"
  shows "filter (uses_class_ranges s) (filter (\<lambda>(e, l, c). since \<le> cl_end_date c) (session_rows s)) =
    filter (\<lambda>x. class_since s since (row_key x)) (class_rows s)"
proof -
  have "filter (\<lambda>(e, l, c). since \<le> cl_end_date c) (session_rows s) = filter (\<lambda>x. class_since s since (row_key x)) (session_rows s)"
    by (rule filter_cong) (auto simp: class_since_row [OF assms])
  then show ?thesis by (simp add: class_rows_def conj_commute)
qed

lemma hold_of_since:
  assumes "class_since s since key"
  shows "hold_of yaml lead grace s (filter (\<lambda>x. class_since s since (row_key x)) rows) key = hold_of yaml lead grace s rows key"
proof -
  have "filter (\<lambda>x. row_key x = key) (filter (\<lambda>x. class_since s since (row_key x)) rows) = filter (\<lambda>x. row_key x = key) rows"
    using assms by (simp only: filter_filter) (rule filter_cong, auto)
  then show ?thesis by (simp only: hold_of_def)
qed

lemma class_holds_from_all:
  assumes "keyed s"
  shows "class_holds yaml lead grace s start end = filter (spans start end)
    (List.map_filter (hold_of yaml lead grace s (class_rows s))
      (filter (class_since s ((start - grace - DAY) div DAY)) (dict_fromkeys (map row_key (class_rows s)))))"
proof -
  let ?since = "(start - grace - DAY) div DAY"
  let ?rows = "filter (\<lambda>x. class_since s ?since (row_key x)) (class_rows s)"
  have "List.map_filter (hold_of yaml lead grace s ?rows) (dict_fromkeys (map row_key ?rows)) =
      List.map_filter (hold_of yaml lead grace s (class_rows s)) (filter (class_since s ?since) (dict_fromkeys (map row_key (class_rows s))))"
    unfolding dict_fromkeys_filter_map by (rule map_filter_cong) (auto simp: hold_of_since)
  then show ?thesis by (simp only: class_holds_def rows_since [OF assms] Let_def spans_def [abs_def])
qed

lemma hold_ofD:
  assumes "hold_of yaml lead grace s rows key = Some h"
  shows "h_key h = key" "h_events h = map ev_id (map fst (filter (\<lambda>x. row_key x = key) rows))"
    "h_end h = Max (set (last_day_end (cl_end_date (snd (snd (last (filter (\<lambda>x. row_key x = key) rows))))) #
       map ev_end (map fst (filter (\<lambda>x. row_key x = key) rows)))) + grace"
  using assms by (auto simp: hold_of_def Let_def image_image)

lemma hold_of_start:
  assumes "hold_of yaml lead grace s rows key = Some h" "x \<in> set rows" "row_key x = key" "ev_state (fst x) \<in> set HOLDING"
  shows "h_start h \<le> ev_start (fst x) - lead"
proof -
  define es where "es = filter (\<lambda>e. ev_state e \<in> set HOLDING) (map fst (filter (\<lambda>y. row_key y = key) rows))"
  have m: "fst x \<in> set es" using assms(2-4) by (auto simp: es_def)
  then have "es \<noteq> []" by auto
  then have "h_start h = Min (set (map ev_start es)) - lead"
    using assms(1) by (auto simp: hold_of_def Let_def es_def [symmetric])
  moreover have "Min (set (map ev_start es)) \<le> ev_start (fst x)" using m by (intro Min_le) auto
  ultimately show ?thesis by simp
qed

lemma hold_of_end:
  assumes "hold_of yaml lead grace s rows key = Some h" "x \<in> set rows" "row_key x = key"
  shows "ev_end (fst x) + grace \<le> h_end h"
proof -
  have "ev_end (fst x) \<le> Max (set (last_day_end d # map ev_end (map fst (filter (\<lambda>x. row_key x = key) rows))))" for d
    using assms(2,3) by (intro Max_ge) auto
  then show ?thesis unfolding hold_ofD(3) [OF assms(1)] by (rule add_right_mono)
qed

text \<open>A class the query leaves out for its end date holds nothing the window can meet, as long as its
  sessions end with it.\<close>

lemma dropped_hold_ended:
  assumes k: "keyed s" and w: "sessions_within_class s" and g: "0 \<le> grace"
    and h: "hold_of yaml lead grace s (class_rows s) key = Some h" and m: "key \<in> set (map row_key (class_rows s))"
    and n: "\<not> class_since s ((start - grace - DAY) div DAY) key"
  shows "h_end h \<le> start"
proof -
  define grp where "grp = filter (\<lambda>x. row_key x = key) (class_rows s)"
  define c where "c = snd (snd (last grp))"
  have sub: "set grp \<subseteq> set (session_rows s)" by (auto simp: grp_def class_rows_def)
  have ne: "grp \<noteq> []" using m by (auto simp: grp_def filter_empty_conv)
  have inc: "snd (snd x) = c" if x: "x \<in> set grp" for x
  proof -
    have "x \<in> set (session_rows s)" "last grp \<in> set (session_rows s)" using sub x ne last_in_set [of grp] by blast+
    moreover have "row_key x = key" "row_key (last grp) = key" using x ne last_in_set [of grp] by (auto simp: grp_def)
    then have "cl_id (snd (snd x)) = cl_id c" unfolding fst_row_key [symmetric] c_def by simp
    ultimately show ?thesis using keyed_class [OF k session_row_class session_row_class] unfolding c_def by blast
  qed
  have e: "ev_end (fst x) \<le> last_day_end (cl_end_date c)" if "x \<in> set grp" for x
    using w sub that inc [OF that] by (cases x) (fastforce simp: sessions_within_class_def list_all_iff)
  have "h_end h = Max (set (last_day_end (cl_end_date c) # map ev_end (map fst grp))) + grace"
    using hold_ofD(3) [OF h] by (simp only: grp_def c_def)
  also have "\<dots> = last_day_end (cl_end_date c) + grace"
    by (intro arg_cong2 [of _ _ _ _ plus] refl Max_eqI) (auto dest: e)
  finally have he: "h_end h = last_day_end (cl_end_date c) + grace" .
  have "last grp \<in> set (session_rows s)" "row_key (last grp) = key" using sub ne last_in_set [of grp] by (auto simp: grp_def)
  then have "class_since s since key = (since \<le> cl_end_date c)" for since
    using class_since_row [OF k, of "fst (last grp)" "fst (snd (last grp))" c since] by (simp add: c_def)
  with n have "cl_end_date c + 1 \<le> (start - grace - DAY) div DAY" by simp
  then have "(cl_end_date c + 1) * DAY \<le> (start - grace - DAY) div DAY * DAY"
    by (intro mult_right_mono) (simp_all add: DAY_def seconds_def)
  also have "\<dots> \<le> start - grace - DAY" by (simp add: DAY_def seconds_def)
  finally show ?thesis using g he by (simp add: last_day_end_def DAY_def seconds_def)
qed

lemma class_holds_spanning:
  assumes k: "keyed s" and w: "sessions_within_class s" and g: "0 \<le> grace" "0 \<le> lead" and A: "A \<le> a" "z \<le> Z"
  shows "filter (spans a z) (class_holds yaml lead grace s (A - grace) (Z + lead)) = filter (spans a z) (all_holds yaml lead grace s)"
  unfolding class_holds_from_all [OF k] all_holds_def
proof (rule filter_map_filter_drop)
  fix key h
  assume m: "key \<in> set (dict_fromkeys (map row_key (class_rows s)))"
    and h: "hold_of yaml lead grace s (class_rows s) key = Some h" and sp: "spans a z h"
  have "class_since s ((A - grace - grace - DAY) div DAY) key"
  proof (rule ccontr)
    assume "\<not> ?thesis"
    then have "h_end h \<le> A - grace" using m by (intro dropped_hold_ended [OF k w g(1) h]) simp_all
    with sp g A show False by (simp add: spans_def)
  qed
  moreover have "spans (A - grace) (Z + lead) h" using sp g A by (simp add: spans_def)
  ultimately show "class_since s ((A - grace - grace - DAY) div DAY) key \<and> spans (A - grace) (Z + lead) h" ..
qed

lemma class_holds_subset: "keyed s \<Longrightarrow> set (class_holds yaml lead grace s a z) \<subseteq> set (all_holds yaml lead grace s)"
  by (auto simp: class_holds_from_all all_holds_def List.map_filter_def)

lemma all_holdsD:
  assumes "h \<in> set (all_holds yaml lead grace s)" "i \<in> set (h_events h)"
  obtains x where "x \<in> set (class_rows s)" "ev_id (fst x) = i" "row_key x = h_key h" "hold_of yaml lead grace s (class_rows s) (h_key h) = Some h"
proof -
  from assms(1) have "\<exists>key. hold_of yaml lead grace s (class_rows s) key = Some h"
    unfolding all_holds_def List.map_filter_def set_map set_filter by (elim imageE CollectE conjE) (metis comp_apply option.collapse)
  then obtain key where h: "hold_of yaml lead grace s (class_rows s) key = Some h" by blast
  with assms(2) hold_ofD(1,2) [OF h] that show thesis by auto
qed

text \<open>A holding session that meets a window is inside a hold that meets it too.\<close>

lemma absorbed_hold_spans:
  assumes k: "keyed s" and h: "h \<in> set (all_holds yaml lead grace s)" and e: "e \<in> set (st_events s)" "ev_id e \<in> set (h_events h)"
    and st: "ev_state e \<in> set HOLDING" and o: "ev_start e - lead < z" "a < ev_end e + grace"
  shows "spans a z h"
proof -
  obtain x where x: "x \<in> set (class_rows s)" "ev_id (fst x) = ev_id e" "row_key x = h_key h"
    and ho: "hold_of yaml lead grace s (class_rows s) (h_key h) = Some h"
    using all_holdsD [OF h e(2)] .
  have "fst x \<in> set (st_events s)" using x(1) by (intro session_row_event) (simp add: class_rows_def)
  then have fx: "fst x = e" using keyed_event [OF k _ e(1) x(2)] by blast
  show ?thesis using hold_of_start [OF ho x(1,3)] hold_of_end [OF ho x(1,3)] st o unfolding fx spans_def by simp
qed

definition held_events :: "(string \<Rightarrow> json option) \<Rightarrow> time \<Rightarrow> time \<Rightarrow> site \<Rightarrow> time \<Rightarrow> time \<Rightarrow> uuid option \<Rightarrow> scheduled_event list" where
  "held_events yaml lead grace s a z exclude = filter (\<lambda>e. ev_state e \<in> set HOLDING \<and> ev_start e - lead < z \<and> a < ev_end e + grace \<and>
     Some (ev_id e) \<noteq> exclude \<and>
     ev_id e \<notin> set (concat (map h_events (filter (spans a z) (all_holds yaml lead grace s))))) (st_events s)"

text \<open>What holds capacity in a window, from the tables alone: the class holds that meet it, and the
  holding bookings that meet it and that none of those holds absorbs.\<close>

definition live_items :: "(string \<Rightarrow> json option) \<Rightarrow> time \<Rightarrow> time \<Rightarrow> site \<Rightarrow> time \<Rightarrow> time \<Rightarrow> uuid option \<Rightarrow> item list" where
  "live_items yaml lead grace s a z exclude = map hold_item (filter (spans a z) (all_holds yaml lead grace s)) @
     map (\<lambda>e. event_item lead grace (drawing_on s [ev_id e]) e) (held_events yaml lead grace s a z exclude)"

lemma live_hold_item: "live_in a z (hold_item h) = spans a z h"
  by (simp add: live_in_def hold_item_def spans_def)

lemma live_event_item: "live_in a z (event_item lead grace labs e) = (ev_start e - lead < z \<and> a < ev_end e + grace)"
  by (simp add: live_in_def event_item_def split: prod.splits)

lemma event_item_own: "ev_id e \<in> set ids \<Longrightarrow> event_item lead grace (drawing_on s ids) e = event_item lead grace (drawing_on s [ev_id e]) e"
  by (simp add: event_item_def drawing_on_def)

lemma held_items_live:
  assumes k: "keyed s" and w: "sessions_within_class s" and g: "0 \<le> grace" "0 \<le> lead" and x: "excluded_key s exclude = None"
    and A: "A \<le> a" "z \<le> Z"
  shows "filter (live_in a z) (fst (held_items yaml lead grace s A Z exclude)) = live_items yaml lead grace s a z exclude"
proof -
  define hs where "hs = class_holds yaml lead grace s (A - grace) (Z + lead)"
  define es where "es = filter (\<lambda>e. ev_id e \<notin> set (concat (map h_events hs))) (filter (\<lambda>e. ev_state e \<in> set HOLDING \<and>
    ev_start e < Z + lead \<and> A - grace < ev_end e \<and> Some (ev_id e) \<noteq> exclude) (st_events s))"
  have sp: "filter (spans a z) hs = filter (spans a z) (all_holds yaml lead grace s)"
    unfolding hs_def by (rule class_holds_spanning [OF k w g A])
  have ab: "ev_id e \<in> set (concat (map h_events hs)) \<longleftrightarrow> ev_id e \<in> set (concat (map h_events (filter (spans a z) hs)))"
    if "e \<in> set (st_events s)" "ev_state e \<in> set HOLDING" "ev_start e - lead < z" "a < ev_end e + grace" for e
    using absorbed_hold_spans [OF k _ that(1) _ that(2-4)] class_holds_subset [OF k] unfolding hs_def by fastforce
  have "fst (held_items yaml lead grace s A Z exclude) = map hold_item hs @ map (event_item lead grace (drawing_on s (map ev_id es))) es"
    by (simp add: held_items_def Let_def hs_def [symmetric] es_def x)
  also have "map (event_item lead grace (drawing_on s (map ev_id es))) es = map (\<lambda>e. event_item lead grace (drawing_on s [ev_id e]) e) es"
    by (rule map_cong [OF refl event_item_own]) simp
  also have "filter (live_in a z) (map hold_item hs @ map (\<lambda>e. event_item lead grace (drawing_on s [ev_id e]) e) es) =
      map hold_item (filter (spans a z) hs) @
      map (\<lambda>e. event_item lead grace (drawing_on s [ev_id e]) e) (filter (\<lambda>e. ev_start e - lead < z \<and> a < ev_end e + grace) es)"
    by (simp add: filter_map comp_def live_hold_item live_event_item)
  also have "filter (\<lambda>e. ev_start e - lead < z \<and> a < ev_end e + grace) es = held_events yaml lead grace s a z exclude"
    unfolding held_events_def es_def filter_filter sp [symmetric]
    by (rule filter_cong [OF refl]) (use ab A in auto)
  finally show ?thesis unfolding live_items_def sp .
qed

lemma held_items_skip: "excluded_key s exclude = None \<Longrightarrow> snd (held_items yaml lead grace s A Z exclude) = excluded_ranges s exclude"
  by (simp add: held_items_def Let_def)

lemma nothing_excluded [simp]: "excluded_key s None = None" "excluded_ranges s None = []"
  by (simp_all add: excluded_key_def excluded_ranges_def excluded_def)

lemma sum_held_live: "filter (live_in a z) xs = filter (live_in a z) ys \<Longrightarrow> sum_held cc now xs a z skip = sum_held cc now ys a z skip"
  unfolding sum_held_def live_in_def by (simp only:)

lemma sum_held_window:
  assumes "keyed s" "sessions_within_class s" "0 \<le> grace" "0 \<le> lead" "excluded_key s exclude = None" "A \<le> a" "z \<le> Z"
  shows "sum_held cc now (fst (held_items yaml lead grace s A Z exclude)) a z (excluded_ranges s exclude) =
    committed_at yaml lead grace s cc now a z exclude"
proof -
  have "filter (live_in a z) (fst (held_items yaml lead grace s A Z exclude)) = filter (live_in a z) (fst (held_items yaml lead grace s a z exclude))"
    using held_items_live [OF assms] held_items_live [OF assms(1-5) order_refl order_refl] by simp
  from sum_held_live [OF this] show ?thesis
    by (simp add: committed_at_def case_prod_beta held_items_skip [OF assms(5)])
qed

lemma series_loop_total:
  assumes "0 < step"
  shows "series_loop f step (t + int n * step) t = Some (map (\<lambda>i. f (t + int i * step) (t + (int i + 1) * step)) [0..<n])"
proof (induction n arbitrary: t)
  case 0
  show ?case by (subst series_loop.simps) simp
next
  case (Suc n)
  have "series_loop f step (t + int (Suc n) * step) (t + step) =
      Some (map (\<lambda>i. f (t + step + int i * step) (t + step + (int i + 1) * step)) [0..<n])"
    using Suc.IH [of "t + step"] by (simp add: algebra_simps)
  also have "map (\<lambda>i. f (t + step + int i * step) (t + step + (int i + 1) * step)) [0..<n] =
      map (\<lambda>i. f (t + int i * step) (t + (int i + 1) * step)) (map Suc [0..<n])"
    by (simp add: algebra_simps)
  finally have s: "series_loop f step (t + int (Suc n) * step) (t + step) = Some (map (\<lambda>i. f (t + int i * step) (t + (int i + 1) * step)) (map Suc [0..<n]))" .
  have "t < t + int (Suc n) * step" using assms by simp
  moreover have "[0..<Suc n] = 0 # map Suc [0..<n]" by (simp add: map_Suc_upt upt_conv_Cons del: upt_Suc)
  ultimately show ?case by (subst series_loop.simps) (simp only: s if_True bind.simps list.map of_nat_0 mult_zero_left add_0_right add_0_left mult_1_left, simp)
qed

lemma committed_many_exact:
  assumes "keyed s" "sessions_within_class s" "0 \<le> grace" "0 \<le> lead" "excluded_key s exclude = None"
  shows "committed_many yaml lead grace s cc now windows exclude = map (\<lambda>(a, z). committed_at yaml lead grace s cc now a z exclude) windows"
proof -
  have "sum_held cc now (fst (held_items yaml lead grace s (Min (set (map fst windows))) (Max (set (map snd windows))) exclude)) a z
      (excluded_ranges s exclude) = committed_at yaml lead grace s cc now a z exclude" if "(a, z) \<in> set windows" for a z
    using that by (intro sum_held_window [OF assms] Min_le Max_ge) force+
  then show ?thesis by (auto simp: committed_many_def held_items_skip [OF assms(5)] case_prod_beta)
qed

lemma committed_series_exact:
  assumes "keyed s" "sessions_within_class s" "0 \<le> grace" "0 \<le> lead" and st: "0 < step"
  shows "committed_series yaml lead grace s cc now start (start + int n * step) step =
      Some (map (\<lambda>i. committed_at yaml lead grace s cc now (start + int i * step) (start + (int i + 1) * step) None) [0..<n])"
proof -
  have "sum_held cc now (fst (held_items yaml lead grace s start (start + int n * step) None)) (start + int i * step) (start + (int i + 1) * step) [] =
      committed_at yaml lead grace s cc now (start + int i * step) (start + (int i + 1) * step) None" if "i < n" for i
  proof -
    have "start \<le> start + int i * step" using st by simp
    moreover have "(int i + 1) * step \<le> int n * step" using that st by (intro mult_right_mono) auto
    then have "start + (int i + 1) * step \<le> start + int n * step" by simp
    ultimately show ?thesis using sum_held_window [OF assms(1-4), of None] by simp
  qed
  then show ?thesis by (simp add: committed_series_def series_loop_total [OF st] case_prod_beta)
qed


text \<open>A class with one seat session and one Student, and a booking of another range; the class's range
  runs.\<close>

definition sample_site :: "int \<Rightarrow> site" where
  "sample_site day = \<lparr>st_ranges = [sample_range ''r'' running], st_templates = [\<lparr>tm_id = ''t'', tm_yaml = ''y''\<rparr>],
     st_events = [sample_event ''e'' S_scheduled None (4 * DAY) (5 * DAY) \<lparr>ev_template := Some ''t''\<rparr>,
       sample_event ''b'' S_scheduled (Some ''r2'') (2 * DAY) (3 * DAY) \<lparr>vcpu_total := 8\<rparr>],
     st_sessions = [\<lparr>cs_event = ''e'', cs_class = ''k'', cs_tenant = ''n'', range_mode = ''individual''\<rparr>],
     st_classes = [\<lparr>cl_id = ''k'', cl_tenant = ''n'', cl_lead = ''l'', cl_status = ''open'', cl_start_date = 0, cl_end_date = day\<rparr>],
     st_class_ranges = [\<lparr>cr_class = ''k'', cr_kind = ''seat'', cr_template = ''t'', cr_range = Some ''r'', torn_down_at = None\<rparr>],
     st_roll_call = [\<lparr>rc_class = ''k'', rc_tenant = ''n'', rc_user = Some ''u'', rc_status = ''active''\<rparr>], st_labs = []\<rparr>"

definition capacity_yaml :: "string \<Rightarrow> json option" where
  "capacity_yaml _ = Some (JObj (sample_template (JList [])))"

definition sample_cluster :: "int \<Rightarrow> cluster" where
  "sample_cluster day = new_cluster capacity_yaml (sample_site day) 0 None"


text \<open>Re-checking a class session does differ: over a window its class's hold does not meet, the class's
  running range is the session's own when a later window is asked about too, and another's load when
  the window is asked about alone.\<close>

lemma recheck_depends_on_other_windows:
  "map cm_ranges (committed_many capacity_yaml 0 0 (sample_site 6) (sample_cluster 6) 0 [(2 * DAY, 3 * DAY), (4 * DAY, 5 * DAY)] (Some ''e'')) = [0, 0]"
  "cm_ranges (committed_at capacity_yaml 0 0 (sample_site 6) (sample_cluster 6) 0 (2 * DAY) (3 * DAY) (Some ''e'')) = 1"
  by code_simp+

text \<open>And a session after its class's last day loses its hold: the class is left out by its end date, though
  the hold it would give lasts to that session's end.\<close>

lemma late_session_not_held:
  "map h_end (all_holds capacity_yaml 0 0 (sample_site 1)) = [5 * DAY]"
  "class_holds capacity_yaml 0 0 (sample_site 1) (4 * DAY) (5 * DAY) = []"
  by code_simp+

end
