(* ===== verification/Free_Slot.thy ===== *)
theory Free_Slot
  imports Capacity
begin

text \<open>
  Whether a booking fits and the next slot it fits in: \<^verbatim>\<open>assess\<close>, \<^verbatim>\<open>fit\<close>, \<^verbatim>\<open>conflicts\<close>, \<^verbatim>\<open>enforce\<close> and
  \<^verbatim>\<open>next_free_slot\<close> of \<^verbatim>\<open>scheduler/service.py\<close>, and the admission of a new booking (\<^verbatim>\<open>_admit\<close> of
  \<^verbatim>\<open>scheduler/router.py\<close>).

  A \<open>provider\<close> is the \<^verbatim>\<open>ClusterCapacity\<close> object with what its answers read: the site's tables, the
  clock, the lead and the grace. The supply is its argument. Maintenance windows come from
  \<open>Maintenance_Windows\<close>. Refusals carry the booking or the shortfall their message is made of.
\<close>

section \<open>Room in the cluster\<close>

record provider =
  pv_yaml :: "string \<Rightarrow> json option"
  pv_lead :: time
  pv_grace :: time
  pv_site :: site
  pv_cluster :: cluster
  pv_now :: time
  pv_supply :: resources

definition pv_committed :: "provider \<Rightarrow> time \<Rightarrow> time \<Rightarrow> uuid option \<Rightarrow> committed" where
  "pv_committed p = committed_at (pv_yaml p) (pv_lead p) (pv_grace p) (pv_site p) (pv_cluster p) (pv_now p)"

definition pv_committed_many :: "provider \<Rightarrow> (time \<times> time) list \<Rightarrow> uuid option \<Rightarrow> committed list" where
  "pv_committed_many p = committed_many (pv_yaml p) (pv_lead p) (pv_grace p) (pv_site p) (pv_cluster p) (pv_now p)"

definition SLOT_STEP :: time where
  "SLOT_STEP = seconds 900"

lemma SLOT_STEP_pos [simp]: "0 < SLOT_STEP"
  by (simp add: SLOT_STEP_def seconds_def)

function slices :: "time \<Rightarrow> time \<Rightarrow> (time \<times> time) list" where
  "slices t end = (if t < end then (t, min (t + SLOT_STEP) end) # slices (t + SLOT_STEP) end else [])"
  by pat_completeness auto
termination by (relation "measure (\<lambda>(t, end). nat (end - t))") (use SLOT_STEP_pos in auto)

declare slices.simps [simp del]

definition max_committed :: "committed list \<Rightarrow> committed" where
  "max_committed rows =
     (if rows = [] then \<lparr>cm_resources = \<lparr>rs_vcpu = 0, rs_ram_mb = 0, rs_disk_gb = 0\<rparr>, cm_events = 0, cm_ranges = 0\<rparr>
      else \<lparr>cm_resources = \<lparr>rs_vcpu = Max (set (map (\<lambda>c. rs_vcpu (cm_resources c)) rows)),
              rs_ram_mb = Max (set (map (\<lambda>c. rs_ram_mb (cm_resources c)) rows)),
              rs_disk_gb = Max (set (map (\<lambda>c. rs_disk_gb (cm_resources c)) rows))\<rparr>,
            cm_events = Max (set (map cm_events rows)), cm_ranges = Max (set (map cm_ranges rows))\<rparr>)"

definition peak_committed :: "provider \<Rightarrow> time \<Rightarrow> time \<Rightarrow> uuid option \<Rightarrow> committed" where
  "peak_committed p start end exclude = max_committed (pv_committed_many p (slices start end) exclude)"

record assessment =
  as_supply :: resources
  as_committed :: committed
  as_free :: resources
  as_reasons :: "shortfall list"

definition fits :: "assessment \<Rightarrow> bool" where
  "fits a = (as_reasons a = [])"

definition assess_window :: "provider \<Rightarrow> time \<Rightarrow> time \<Rightarrow> resources \<Rightarrow> uuid option \<Rightarrow> bool \<Rightarrow> assessment" where
  "assess_window p start end need exclude peak =
     (let (held_start, held_end) = held_window (pv_lead p) (pv_grace p) start end;
          c = (if peak then peak_committed p held_start held_end exclude else pv_committed p held_start held_end exclude);
          free = available (pv_supply p) (cm_resources c)
      in \<lparr>as_supply = pv_supply p, as_committed = c, as_free = free, as_reasons = shortfalls need free\<rparr>)"

datatype policy = Block | Warn

definition DEFAULT_POLICY :: policy where
  "DEFAULT_POLICY = Block"

text \<open>The setting's value, when its row is there.\<close>

definition get_policy :: "string option \<Rightarrow> policy" where
  "get_policy row = (case row of None \<Rightarrow> DEFAULT_POLICY
     | Some v \<Rightarrow> if v = ''block'' then Block else if v = ''warn'' then Warn else DEFAULT_POLICY)"

section \<open>Double bookings\<close>

datatype booking_conflict = RangeBooked scheduled_event | InstructorBusy scheduled_event | OutsideClassDates | UnderMaintenance

definition range_rivals :: "provider \<Rightarrow> time \<Rightarrow> time \<Rightarrow> uuid option \<Rightarrow> uuid option \<Rightarrow> scheduled_event list" where
  "range_rivals p start end range_id exclude =
     (let reach = pv_lead p + pv_grace p in
      if range_id = None then [] else filter (\<lambda>e. ev_state e \<in> set HOLDING \<and> ev_range e = range_id \<and>
        ev_start e < end + reach \<and> start - reach < ev_end e \<and> Some (ev_id e) \<noteq> exclude) (st_events (pv_site p)))"

definition instructor_rivals :: "provider \<Rightarrow> time \<Rightarrow> time \<Rightarrow> uuid option \<Rightarrow> uuid option \<Rightarrow> scheduled_event list" where
  "instructor_rivals p start end instructor exclude =
     (if instructor = None then [] else filter (\<lambda>e. ev_state e \<in> set HOLDING \<and> ev_instructor e = instructor \<and>
        ev_start e < end \<and> start < ev_end e \<and> Some (ev_id e) \<noteq> exclude) (st_events (pv_site p)))"

definition booking_conflicts :: "provider \<Rightarrow> time \<Rightarrow> time \<Rightarrow> uuid option \<Rightarrow> uuid option \<Rightarrow> uuid option \<Rightarrow> booking_conflict list" where
  "booking_conflicts p start end range_id instructor exclude =
     map RangeBooked (sort_key ev_start (range_rivals p start end range_id exclude)) @
     map InstructorBusy (sort_key ev_start (instructor_rivals p start end instructor exclude))"

datatype reason = Clash booking_conflict | Short shortfall

definition enforce :: "string option \<Rightarrow> assessment \<Rightarrow> reason list + shortfall list" where
  "enforce row a = (if fits a then Inr [] else if get_policy row = Block then Inl (map Short (as_reasons a)) else Inr (as_reasons a))"

text \<open>A new or edited booking of no class (\<^verbatim>\<open>router._admit\<close>).\<close>

definition admit_booking :: "provider \<Rightarrow> string option \<Rightarrow> time \<Rightarrow> time \<Rightarrow> resources \<Rightarrow> uuid option \<Rightarrow> uuid option \<Rightarrow> uuid option \<Rightarrow>
    reason list + shortfall list" where
  "admit_booking p row start end need range_id instructor exclude =
     (let clash = booking_conflicts p start end range_id instructor exclude in
      if clash \<noteq> [] then Inl (map Clash clash)
      else enforce row (assess_window p start end need exclude False))"

section \<open>Fit\<close>

record fit =
  ft_conflicts :: "booking_conflict list"
  ft_assessment :: assessment

definition fit_ok :: "fit \<Rightarrow> bool" where
  "fit_ok f = (ft_conflicts f = [] \<and> fits (ft_assessment f))"

definition fit_reasons :: "fit \<Rightarrow> reason list" where
  "fit_reasons f = map Clash (ft_conflicts f) @ map Short (as_reasons (ft_assessment f))"

definition need_of :: "scheduled_event \<Rightarrow> resources" where
  "need_of e = \<lparr>rs_vcpu = vcpu_total e, rs_ram_mb = ram_mb_total e, rs_disk_gb = disk_gb_total e\<rparr>"

definition until_class_end :: "provider \<Rightarrow> scheduled_event \<Rightarrow> time \<Rightarrow> time" where
  "until_class_end p evt end = (case class_end (pv_site p) evt of None \<Rightarrow> end | Some t \<Rightarrow> max end t)"

definition fit_at :: "provider \<Rightarrow> scheduled_event \<Rightarrow> time \<Rightarrow> time \<Rightarrow> fit" where
  "fit_at p evt start end =
     (let span_end = until_class_end p evt end in
      \<lparr>ft_conflicts = booking_conflicts p start end (ev_range evt) (ev_instructor evt) (Some (ev_id evt)),
       ft_assessment = assess_window p start span_end (need_of evt) (Some (ev_id evt)) (end < span_end)\<rparr>)"

section \<open>The next free slot\<close>

definition GRID_EPOCH :: time where
  "GRID_EPOCH = seconds 946684800"

definition ceil_to :: "time \<Rightarrow> time \<Rightarrow> time" where
  "ceil_to t step = GRID_EPOCH + (- ((GRID_EPOCH - t) div step)) * step"

function grid :: "time \<Rightarrow> time \<Rightarrow> time list" where
  "grid t horizon = (if t \<le> horizon then t # grid (t + SLOT_STEP) horizon else [])"
  by pat_completeness auto
termination by (relation "measure (\<lambda>(t, horizon). nat (horizon - t + 1))") (auto simp: SLOT_STEP_def seconds_def)

declare grid.simps [simp del]

definition maintenance_spans :: "provider \<Rightarrow> db \<Rightarrow> scheduled_event \<Rightarrow> time \<Rightarrow> time \<Rightarrow> (time \<times> time) list" where
  "maintenance_spans p d evt start end = booking_spans (pv_yaml p) d (ev_tenant evt) (ev_range evt) (ev_template evt) start end"

definition blocked_spans :: "provider \<Rightarrow> scheduled_event \<Rightarrow> time \<Rightarrow> time \<Rightarrow> (time \<times> time) list" where
  "blocked_spans p evt start end =
     (let reach = pv_lead p + pv_grace p in
      map (\<lambda>e. (ev_start e - reach, ev_end e + reach)) (range_rivals p start end (ev_range evt) (Some (ev_id evt))) @
      map (\<lambda>e. (ev_start e, ev_end e)) (instructor_rivals p start end (ev_instructor evt) (Some (ev_id evt))))"

text \<open>What each candidate start would see committed.\<close>

definition screen :: "provider \<Rightarrow> scheduled_event \<Rightarrow> time list \<Rightarrow> time \<Rightarrow> committed list" where
  "screen p evt cands len =
     (case class_end (pv_site p) evt of
        None \<Rightarrow> pv_committed_many p (map (\<lambda>c. held_window (pv_lead p) (pv_grace p) c (c + len)) cands) (Some (ev_id evt))
      | Some fin \<Rightarrow>
        if cands = [] then pv_committed_many p [] (Some (ev_id evt))
        else let sl = slices (hd cands - pv_lead p) (max fin (List.last cands + len) + pv_grace p);
                 per = pv_committed_many p sl (Some (ev_id evt))
             in map (\<lambda>c. let (a, z) = held_window (pv_lead p) (pv_grace p) c (max (c + len) fin) in
                  max_committed (map snd (filter (\<lambda>((s0, s1), _). s0 < z \<and> a < s1) (zip sl per)))) cands)"

definition slot_start :: "provider \<Rightarrow> scheduled_event \<Rightarrow> time option \<Rightarrow> time \<Rightarrow> (int \<times> int) option \<Rightarrow> time" where
  "slot_start p evt after now within =
     (let first = ceil_to (max (case after of None \<Rightarrow> ev_start evt | Some t \<Rightarrow> t) (now + pv_lead p)) SLOT_STEP in
      case within of None \<Rightarrow> first | Some (a, _) \<Rightarrow> max first (a * DAY))"

definition slot_horizon :: "provider \<Rightarrow> int \<Rightarrow> scheduled_event \<Rightarrow> time option \<Rightarrow> time \<Rightarrow> (int \<times> int) option \<Rightarrow> time" where
  "slot_horizon p days evt after now within =
     (let horizon = slot_start p evt after now None + days * DAY in
      case within of None \<Rightarrow> horizon | Some (_, z) \<Rightarrow> min horizon ((z + 1) * DAY - (ev_end evt - ev_start evt)))"

definition next_free_slot :: "provider \<Rightarrow> db \<Rightarrow> int \<Rightarrow> scheduled_event \<Rightarrow> time option \<Rightarrow> time \<Rightarrow> (int \<times> int) option \<Rightarrow>
    (time \<times> time) option \<times> time" where
  "next_free_slot p d days evt after now within =
     (let len = ev_end evt - ev_start evt;
          first = slot_start p evt after now within;
          horizon = slot_horizon p days evt after now within;
          cands = grid first horizon;
          com = screen p evt cands len;
          blocked = blocked_spans p evt first (horizon + len);
          windows = maintenance_spans p d evt (first - pv_lead p) (horizon + len)
      in case find (\<lambda>(c, k). shortfalls (need_of evt) (available (pv_supply p) (cm_resources k)) = [] \<and>
             \<not> list_ex (\<lambda>(a, z). a < c + len \<and> c < z) blocked \<and>
             \<not> list_ex (\<lambda>(a, z). a < c + len \<and> c - pv_lead p < z) windows \<and>
             fit_ok (fit_at p evt c (c + len))) (zip cands com) of
           None \<Rightarrow> (None, horizon)
         | Some (c, _) \<Rightarrow> (Some (c, c + len), horizon))"

section \<open>The slot found is the first that fits\<close>

text \<open>A start the searcher may answer: the booking fits there and no maintenance window covers its
  build-to-end span.\<close>

definition free_at :: "provider \<Rightarrow> db \<Rightarrow> scheduled_event \<Rightarrow> time \<Rightarrow> bool" where
  "free_at p d evt c = (let len = ev_end evt - ev_start evt in
     fit_ok (fit_at p evt c (c + len)) \<and> maintenance_spans p d evt (c - pv_lead p) (c + len) = [])"

lemma set_grid: "c \<in> set (grid t h) \<Longrightarrow> t \<le> c \<and> c \<le> h \<and> SLOT_STEP dvd c - t"
proof (induction t h rule: grid.induct)
  case (1 t h)
  show ?case
  proof (cases "t \<le> h")
    case True
    with "1.prems" consider "c = t" | "c \<in> set (grid (t + SLOT_STEP) h)" by (auto simp: grid.simps [of t])
    then show ?thesis
    proof cases
      case 2
      from "1.IH" [OF True 2] have "t + SLOT_STEP \<le> c" "c \<le> h" "SLOT_STEP dvd c - (t + SLOT_STEP)" by auto
      moreover from this(3) have "SLOT_STEP dvd c - t" using dvd_add [OF _ dvd_refl, of SLOT_STEP "c - (t + SLOT_STEP)"] by simp
      ultimately show ?thesis using SLOT_STEP_pos by linarith
    qed (use True in simp)
  qed (use "1.prems" in \<open>simp add: grid.simps [of t]\<close>)
qed

lemma set_booking_hit: "set (booking_hit yaml d tenant rid tid a z) = {w \<in> set (maintenance_windows d).
    (mw_tenant w = None \<or> mw_tenant w = Some tenant) \<and> starts_at w < z \<and> a < ends_at w \<and>
    window_applies (Some tenant) rid (range_tags yaml d (booking_template d rid tid)) w}"
  by (auto simp: booking_hit_def covering_def candidates_def)

lemma maintenance_within:
  assumes "A \<le> a" "z \<le> Z"
  shows "list_ex (\<lambda>(x, y). x < z \<and> a < y) (maintenance_spans p d evt A Z) = (maintenance_spans p d evt a z \<noteq> [])"
proof -
  have "maintenance_spans p d evt a z \<noteq> [] \<longleftrightarrow> set (booking_hit (pv_yaml p) d (ev_tenant evt) (ev_range evt) (ev_template evt) a z) \<noteq> {}"
    by (simp add: maintenance_spans_def booking_spans_def)
  then show ?thesis using assms
    by (auto simp: set_booking_hit maintenance_spans_def booking_spans_def list_ex_iff)
qed

lemma blocked_iff_conflicts:
  assumes "A \<le> a" "z \<le> Z"
  shows "list_ex (\<lambda>(x, y). x < z \<and> a < y) (blocked_spans p evt A Z) =
    (booking_conflicts p a z (ev_range evt) (ev_instructor evt) (Some (ev_id evt)) \<noteq> [])"
proof -
  let ?reach = "pv_lead p + pv_grace p" and ?ex = "Some (ev_id evt)"
  have r: "list_ex (\<lambda>e. ev_start e - ?reach < z \<and> a < ev_end e + ?reach) (range_rivals p A Z (ev_range evt) ?ex) =
      (range_rivals p a z (ev_range evt) ?ex \<noteq> [])"
    using assms by (auto simp: range_rivals_def Let_def list_ex_iff filter_empty_conv diff_less_eq)
  have i: "list_ex (\<lambda>e. ev_start e < z \<and> a < ev_end e) (instructor_rivals p A Z (ev_instructor evt) ?ex) =
      (instructor_rivals p a z (ev_instructor evt) ?ex \<noteq> [])"
    using assms by (auto simp: instructor_rivals_def list_ex_iff filter_empty_conv)
  have m: "list_ex P (map f xs) = list_ex (\<lambda>x. P (f x)) xs" for P :: "time \<times> time \<Rightarrow> bool" and f xs by (induction xs) auto
  have "sort_key ev_start xs = [] \<longleftrightarrow> xs = []" for xs :: "scheduled_event list" by (metis length_0_conv length_sort)
  then show ?thesis by (simp add: blocked_spans_def Let_def m r i booking_conflicts_def)
qed

lemma ceil_to_le: "0 < step \<Longrightarrow> t \<le> ceil_to t step"
  using pos_mod_sign [of step "GRID_EPOCH - t"] minus_mod_eq_div_mult [of "GRID_EPOCH - t" step]
  unfolding ceil_to_def mult_minus_left by linarith

lemma ceil_to_grid: "step dvd ceil_to t step - GRID_EPOCH"
  by (simp add: ceil_to_def)

lemma day_on_grid: "SLOT_STEP dvd n * DAY - GRID_EPOCH"
proof -
  have "n * DAY - GRID_EPOCH = SLOT_STEP * (96 * n - 1051872)" by (simp add: SLOT_STEP_def DAY_def GRID_EPOCH_def seconds_def algebra_simps)
  then show ?thesis by simp
qed

lemma slot_start_grid: "SLOT_STEP dvd slot_start p evt after now within - GRID_EPOCH"
  by (auto simp: slot_start_def Let_def max_def ceil_to_grid day_on_grid split: option.splits)

lemma slot_start_lead: "now + pv_lead p \<le> slot_start p evt after now within"
  using ceil_to_le [OF SLOT_STEP_pos, of "max (case after of None \<Rightarrow> ev_start evt | Some t \<Rightarrow> t) (now + pv_lead p)"]
  by (auto simp: slot_start_def Let_def split: option.splits)

lemma find_SomeD: "find P xs = Some x \<Longrightarrow> x \<in> set xs \<and> P x"
  by (induction xs) (auto split: if_splits)

text \<open>The seam the scheduler asks (the \<^verbatim>\<open>CapacityProvider\<close> protocol): many windows are answered as one is.
  \<open>ok\<close> says when the provider promises it.\<close>

locale capacity_seam =
  fixes ok :: "'p \<Rightarrow> 'x \<Rightarrow> bool"
    and one :: "'p \<Rightarrow> 'w \<Rightarrow> 'x \<Rightarrow> 'c"
    and many :: "'p \<Rightarrow> 'w list \<Rightarrow> 'x \<Rightarrow> 'c list"
  assumes many_each: "ok p x \<Longrightarrow> many p ws x = map (\<lambda>w. one p w x) ws"
begin

lemma search:
  assumes "ok p x"
  shows "find (\<lambda>(c, k). P c k) (zip cs (many p (map w cs) x)) = map_option (\<lambda>c. (c, one p (w c) x)) (find (\<lambda>c. P c (one p (w c) x)) cs)"
  unfolding many_each [OF assms] by (induction cs) auto

end

definition readable :: "provider \<Rightarrow> uuid option \<Rightarrow> bool" where
  "readable p exclude = (keyed (pv_site p) \<and> sessions_within_class (pv_site p) \<and> 0 \<le> pv_lead p \<and> 0 \<le> pv_grace p \<and>
     excluded_key (pv_site p) exclude = None)"

interpretation seam: capacity_seam readable "\<lambda>p w exclude. pv_committed p (fst w) (snd w) exclude" pv_committed_many
  by unfold_locales (auto simp: readable_def pv_committed_many_def pv_committed_def committed_many_exact)

lemma fit_of_no_class:
  assumes "class_end (pv_site p) evt = None"
  shows "fit_ok (fit_at p evt a z) = (booking_conflicts p a z (ev_range evt) (ev_instructor evt) (Some (ev_id evt)) = [] \<and>
    shortfalls (need_of evt) (available (pv_supply p) (cm_resources
      (pv_committed p (a - pv_lead p) (z + pv_grace p) (Some (ev_id evt))))) = [])"
  using assms by (simp add: fit_at_def fit_ok_def until_class_end_def assess_window_def fits_def held_window_def Let_def)

text \<open>The slot offered is one the booking can have. Whatever booking is asked about, a class's session
  too, the slot has the booking's length, starts on the 15-minute grid no sooner than the
  provisioning lead from now and inside the class's dates, it fits by the check approval makes,
  and no maintenance window that would hold its range meets its build-to-end span.\<close>

theorem slot_offered_is_free:
  assumes "next_free_slot p d days evt after now within = (Some (a, z), until)"
  shows "z - a = ev_end evt - ev_start evt \<and> SLOT_STEP dvd a - GRID_EPOCH \<and> now + pv_lead p \<le> a \<and> a \<le> until \<and>
    fit_ok (fit_at p evt a z) \<and> maintenance_spans p d evt (a - pv_lead p) z = [] \<and>
    (case within of None \<Rightarrow> True | Some (d0, d1) \<Rightarrow> d0 * DAY \<le> a \<and> z \<le> (d1 + 1) * DAY)"
proof -
  define len first horizon where defs: "len = ev_end evt - ev_start evt" "first = slot_start p evt after now within"
    "horizon = slot_horizon p days evt after now within"
  let ?w = "maintenance_spans p d evt (first - pv_lead p) (horizon + len)"
  obtain k where f: "(a, k) \<in> set (zip (grid first horizon) (screen p evt (grid first horizon) len))" and z: "z = a + len" and u: "until = horizon"
    and m: "\<not> list_ex (\<lambda>(x, y). x < a + len \<and> a - pv_lead p < y) ?w" and ok: "fit_ok (fit_at p evt a (a + len))"
    using assms by (auto simp: next_free_slot_def Let_def defs [symmetric] split: option.splits dest!: find_SomeD)
  have g: "first \<le> a" "a \<le> horizon" "SLOT_STEP dvd a - first" using set_grid set_zip_leftD [OF f] by blast+
  have "SLOT_STEP dvd a - GRID_EPOCH"
    using dvd_add [OF g(3) slot_start_grid [of p evt after now within, folded defs]] by simp
  moreover have "maintenance_spans p d evt (a - pv_lead p) z = []"
    using m maintenance_within [of "first - pv_lead p" "a - pv_lead p" "a + len" "horizon + len" p d evt] g by (simp add: z)
  moreover have "now + pv_lead p \<le> a" using slot_start_lead [of now p evt after within] g(1) by (simp add: defs)
  moreover have "case within of None \<Rightarrow> True | Some (d0, d1) \<Rightarrow> d0 * DAY \<le> a \<and> z \<le> (d1 + 1) * DAY"
    using g by (auto simp: z defs slot_start_def slot_horizon_def Let_def split: option.splits)
  ultimately show ?thesis using ok g by (simp add: z u defs)
qed


definition sample_provider :: "int \<Rightarrow> provider" where
  "sample_provider vcpu = \<lparr>pv_yaml = capacity_yaml, pv_lead = seconds 1800, pv_grace = seconds 900, pv_site = sample_site 6,
     pv_cluster = sample_cluster 6, pv_now = 0, pv_supply = \<lparr>rs_vcpu = vcpu, rs_ram_mb = 65536, rs_disk_gb = 1024\<rparr>\<rparr>"

definition sample_booking :: scheduled_event where
  "sample_booking = sample_event ''b'' S_scheduled (Some ''r2'') (2 * DAY) (3 * DAY) \<lparr>vcpu_total := 8\<rparr>"

theorem slot_offered_is_free_witness:
  "next_free_slot (sample_provider 32) empty_db 0 sample_booking None 0 (Some (0, 9)) = (Some (2 * DAY, 3 * DAY), 2 * DAY) \<and>
   fit_ok (fit_at (sample_provider 32) sample_booking (2 * DAY) (3 * DAY))"
proof -
  have n: "next_free_slot (sample_provider 32) empty_db 0 sample_booking None 0 (Some (0, 9)) = (Some (2 * DAY, 3 * DAY), 2 * DAY)"
    by code_simp
  from slot_offered_is_free [OF n] n show ?thesis by blast
qed


end
