(* ===== verification/Approval.thy ===== *)
theory Approval
  imports Free_Slot
begin

text \<open>
  Approving class sessions: \<^verbatim>\<open>scheduler/approval.py\<close>, with the sizing of a session at its approval
  (\<^verbatim>\<open>classes/sessions.py\<close>).

  A \<open>desk\<close> is what the operations read and write: the capacity view with the bookings in its site, the
  tables of ranges and maintenance windows, the approval rows, the over-capacity setting, the iCalendar
  sequence of each booking and the audit trail. Each operation takes the caller's copy of the booking;
  the guarded update of \<open>transition\<close> decides against the table. A refusal is an exception before the
  commit: the desk is as it was.
\<close>

section \<open>State\<close>

record approval_row = approval +
  ap_tenant :: uuid
  requested_by :: "uuid option"
  requested_at :: "time option"
  proposed_end :: "time option"
  proposed_by :: "uuid option"
  proposed_at :: "time option"
  decided_by :: "uuid option"
  decided_at :: "time option"
  ap_reason :: "string option"

record owned_template = template_row +
  tm_tenant :: "uuid option"
  tm_public :: bool
  tm_deleted :: bool

record desk =
  dk_provider :: provider
  dk_db :: db
  dk_templates :: "owned_template list"
  dk_approvals :: "approval_row list"
  dk_policy :: "string option"
  dk_days :: int
  dk_sequence :: "uuid \<Rightarrow> nat"
  dk_audit :: "(string \<times> uuid) list"

definition desk_site :: "desk \<Rightarrow> site" where
  "desk_site k = pv_site (dk_provider k)"

definition desk_events :: "desk \<Rightarrow> scheduled_event list" where
  "desk_events k = st_events (desk_site k)"

definition desk_now :: "desk \<Rightarrow> time" where
  "desk_now k = pv_now (dk_provider k)"

definition put_events :: "scheduled_event list \<Rightarrow> desk \<Rightarrow> desk" where
  "put_events es k = k\<lparr>dk_provider := (dk_provider k)\<lparr>pv_site := (desk_site k)\<lparr>st_events := es\<rparr>\<rparr>\<rparr>"

definition write_event :: "uuid \<Rightarrow> (scheduled_event \<Rightarrow> scheduled_event) \<Rightarrow> desk \<Rightarrow> desk" where
  "write_event i f k = put_events (update_where (\<lambda>e. ev_id e = i) f (desk_events k)) k"

definition write_approval :: "uuid \<Rightarrow> (approval_row \<Rightarrow> approval_row) \<Rightarrow> desk \<Rightarrow> desk" where
  "write_approval i f k = k\<lparr>dk_approvals := update_where (\<lambda>a. ap_event a = i) f (dk_approvals k)\<rparr>"

definition audit_entry :: "string \<Rightarrow> uuid \<Rightarrow> desk \<Rightarrow> desk" where
  "audit_entry act i k = k\<lparr>dk_audit := dk_audit k @ [(act, i)]\<rparr>"

datatype approval_error = NoApproval | NotPending event_state | ClassNotOpen string | BadTimes | ProposePast | AlreadyOver
  | RangeGone | RangeOfLab | SlotRefused "reason list" "(time \<times> time) option" | NoProposal | Moving booking_error

definition approval_of :: "desk \<Rightarrow> uuid \<Rightarrow> approval_row option" where
  "approval_of k i = find_row (\<lambda>a. ap_event a = i) (dk_approvals k)"

section \<open>The class of a session\<close>

definition class_of :: "site \<Rightarrow> scheduled_event \<Rightarrow> class_row option" where
  "class_of s evt = find_row (\<lambda>c. cl_tenant c = ev_tenant evt \<and>
     list_ex (\<lambda>l. cs_class l = cl_id c \<and> cs_event l = ev_id evt) (st_sessions s)) (st_classes s)"

definition mode_of :: "site \<Rightarrow> scheduled_event \<Rightarrow> string option" where
  "mode_of s evt = map_option range_mode (find_row (\<lambda>l. cs_event l = ev_id evt) (rev (st_sessions s)))"

definition per_seat :: "desk \<Rightarrow> class_row \<Rightarrow> uuid option \<Rightarrow> resources" where
  "per_seat k c tid = (let nothing = \<lparr>rs_vcpu = 0, rs_ram_mb = 0, rs_disk_gb = 0\<rparr> in
     case tid of None \<Rightarrow> nothing
     | Some i \<Rightarrow> (case find_row (\<lambda>t. tm_id t = i \<and> \<not> tm_deleted t \<and> (tm_tenant t = Some (cl_tenant c) \<or> tm_public t)) (dk_templates k) of
         None \<Rightarrow> nothing
       | Some t \<Rightarrow> (case template_size (pv_yaml (dk_provider k)) (template_row.truncate t) of None \<Rightarrow> nothing | Some z \<Rightarrow> z)))"

text \<open>An individual session is approved for the Students on its roll call now.\<close>

definition set_size :: "resources \<Rightarrow> scheduled_event \<Rightarrow> scheduled_event" where
  "set_size z e = e\<lparr>vcpu_total := rs_vcpu z, ram_mb_total := rs_ram_mb z, disk_gb_total := rs_disk_gb z\<rparr>"

definition size_for_approval :: "desk \<Rightarrow> scheduled_event \<Rightarrow> desk \<times> scheduled_event" where
  "size_for_approval k evt =
     (case class_of (desk_site k) evt of None \<Rightarrow> (k, evt)
      | Some c \<Rightarrow>
        if mode_of (desk_site k) evt \<noteq> Some ''individual'' then (k, evt)
        else let seat = per_seat k c (ev_template evt);
                 n = seats (desk_site k) c;
                 z = \<lparr>rs_vcpu = rs_vcpu seat * n, rs_ram_mb = rs_ram_mb seat * n, rs_disk_gb = rs_disk_gb seat * n\<rparr>
             in (write_event (ev_id evt) (set_size z) k, set_size z evt))"

section \<open>Checking a time\<close>

definition class_dates :: "site \<Rightarrow> scheduled_event \<Rightarrow> (int \<times> int) option" where
  "class_dates s evt = map_option (\<lambda>c. (cl_start_date c, cl_end_date c)) (class_of s evt)"

definition off_limits :: "desk \<Rightarrow> scheduled_event \<Rightarrow> time \<Rightarrow> time \<Rightarrow> (int \<times> int) option \<Rightarrow> booking_conflict list" where
  "off_limits k evt start end within =
     (case within of None \<Rightarrow> [] | Some (d0, d1) \<Rightarrow> if d0 \<le> start div DAY \<and> end div DAY \<le> d1 then [] else [OutsideClassDates]) @
     (if maintenance_spans (dk_provider k) (dk_db k) evt (start - pv_lead (dk_provider k)) end \<noteq> [] then [UnderMaintenance] else [])"

text \<open>The detached copy to search from: the columns it is not given are unset. Of those the checks read
  the template.\<close>

definition at_time :: "scheduled_event \<Rightarrow> time \<Rightarrow> time \<Rightarrow> scheduled_event" where
  "at_time evt start end = evt\<lparr>ev_start := start, ev_end := end, ev_template := None, ev_course := None, ev_scenario := None,
     ev_exercise := None\<rparr>"

record checked =
  ck_fit :: fit
  ck_next :: "(time \<times> time) option"
  ck_until :: time

definition check_time :: "desk \<Rightarrow> scheduled_event \<Rightarrow> time \<Rightarrow> time \<Rightarrow> bool \<Rightarrow> checked" where
  "check_time k evt start end strict =
     (let p = dk_provider k;
          f0 = fit_at p evt start end;
          within = class_dates (desk_site k) evt;
          f = (if strict then f0\<lparr>ft_conflicts := ft_conflicts f0 @ off_limits k evt start end within\<rparr> else f0);
          (nxt, until) = (if fit_ok f then (Some (start, end), start)
            else next_free_slot p (dk_db k) (dk_days k) (at_time evt start end) (Some start) (desk_now k) within)
      in \<lparr>ck_fit = f, ck_next = nxt, ck_until = until\<rparr>)"

definition admit_session :: "desk \<Rightarrow> scheduled_event \<Rightarrow> time \<Rightarrow> time \<Rightarrow> bool \<Rightarrow> approval_error + shortfall list" where
  "admit_session k evt start end strict =
     (let rng = Option.bind (ev_range evt) (get_range (dk_db k)) in
      if end \<le> desk_now k then Inl AlreadyOver
      else if ev_range evt \<noteq> None \<and> (case rng of None \<Rightarrow> True | Some r \<Rightarrow> rng_state r \<in> {destroying, destroyed}) then Inl RangeGone
      else if ev_range evt \<noteq> None \<and> is_lab_range (dk_db k) (rng_id (the rng)) then Inl RangeOfLab
      else let c = check_time k evt start end strict; f = ck_fit c in
        if ft_conflicts f \<noteq> [] then Inl (SlotRefused (fit_reasons f) (ck_next c))
        else if fits (ft_assessment f) then Inr []
        else if get_policy (dk_policy k) = Block then Inl (SlotRefused (fit_reasons f) (ck_next c))
        else Inr (as_reasons (ft_assessment f)))"

definition class_open :: "desk \<Rightarrow> scheduled_event \<Rightarrow> approval_error option" where
  "class_open k evt = (case class_of (desk_site k) evt of None \<Rightarrow> None
     | Some c \<Rightarrow> if cl_status c = ''open'' then None else Some (ClassNotOpen (cl_status c)))"

section \<open>Decisions\<close>

definition resend :: "uuid \<Rightarrow> desk \<Rightarrow> desk" where
  "resend i k = (if dk_sequence k i = 0 then k else k\<lparr>dk_sequence := (dk_sequence k)(i := dk_sequence k i + 1)\<rparr>)"

definition no_proposal :: "approval_row \<Rightarrow> approval_row" where
  "no_proposal a = a\<lparr>proposed_start := None, proposed_end := None, proposed_by := None, proposed_at := None\<rparr>"

definition decision :: "uuid option \<Rightarrow> time \<Rightarrow> string option \<Rightarrow> approval_row \<Rightarrow> approval_row" where
  "decision who now why a = no_proposal (a\<lparr>decided_by := who, decided_at := Some now, ap_reason := why\<rparr>)"

definition audit_warnings :: "shortfall list \<Rightarrow> uuid \<Rightarrow> desk \<Rightarrow> desk" where
  "audit_warnings ws i k = (if ws = [] then k else audit_entry ''overcapacity_warning'' i k)"

definition approve :: "uuid option \<Rightarrow> scheduled_event \<Rightarrow> desk \<Rightarrow> desk \<times> (approval_error + bool \<times> shortfall list)" where
  "approve me evt k =
     (case approval_of k (ev_id evt) of None \<Rightarrow> (k, Inl NoApproval)
      | Some a \<Rightarrow>
        if ev_state evt = S_scheduled then (k, Inr (False, []))
        else if ev_state evt \<noteq> S_pending_approval then (k, Inl (NotPending (ev_state evt)))
        else case class_open k evt of Some err \<Rightarrow> (k, Inl err)
        | None \<Rightarrow>
          let (k1, evt1) = size_for_approval k evt in
          case admit_session k1 evt1 (ev_start evt1) (ev_end evt1) False of Inl err \<Rightarrow> (k, Inl err)
          | Inr ws \<Rightarrow>
            (case transition evt1 S_scheduled (desk_events k1) of
               (_, Inl err) \<Rightarrow> (k, Inl (Moving err))
             | (es, Inr _) \<Rightarrow>
               (audit_warnings ws (ev_id evt) (audit_entry ''approve'' (ev_id evt)
                  (write_approval (ev_id evt) (decision me (desk_now k) None) (resend (ev_id evt) (put_events es k1)))),
                Inr (True, ws))))"

definition reject :: "uuid option \<Rightarrow> scheduled_event \<Rightarrow> string \<Rightarrow> desk \<Rightarrow> desk \<times> (approval_error + bool)" where
  "reject me evt why k =
     (case approval_of k (ev_id evt) of None \<Rightarrow> (k, Inl NoApproval)
      | Some a \<Rightarrow>
        if ev_state evt = S_rejected then (k, Inr False)
        else if ev_state evt \<noteq> S_pending_approval then (k, Inl (NotPending (ev_state evt)))
        else (case transition evt S_rejected (desk_events k) of
          (_, Inl err) \<Rightarrow> (k, Inl (Moving err))
        | (es, Inr _) \<Rightarrow> (audit_entry ''reject'' (ev_id evt)
            (write_approval (ev_id evt) (decision me (desk_now k) (Some why)) (put_events es k)), Inr True)))"

definition propose :: "uuid option \<Rightarrow> scheduled_event \<Rightarrow> time \<Rightarrow> time \<Rightarrow> desk \<Rightarrow> desk \<times> (approval_error + shortfall list)" where
  "propose me evt start end k =
     (case approval_of k (ev_id evt) of None \<Rightarrow> (k, Inl NoApproval)
      | Some a \<Rightarrow>
        if ev_state evt \<noteq> S_pending_approval then (k, Inl (NotPending (ev_state evt)))
        else case class_open k evt of Some err \<Rightarrow> (k, Inl err)
        | None \<Rightarrow>
          if end \<le> start then (k, Inl BadTimes)
          else if start \<le> desk_now k then (k, Inl ProposePast)
          else case admit_session k evt start end True of Inl err \<Rightarrow> (k, Inl err)
          | Inr ws \<Rightarrow> (audit_entry ''propose'' (ev_id evt)
              (write_approval (ev_id evt) (\<lambda>a. a\<lparr>proposed_start := Some start, proposed_end := Some end, proposed_by := me,
                 proposed_at := Some (desk_now k)\<rparr>) k), Inr ws))"

definition accept_proposal :: "scheduled_event \<Rightarrow> desk \<Rightarrow> desk \<times> (approval_error + shortfall list)" where
  "accept_proposal evt k =
     (case approval_of k (ev_id evt) of None \<Rightarrow> (k, Inl NoApproval)
      | Some a \<Rightarrow>
        if ev_state evt \<noteq> S_pending_approval then (k, Inl (NotPending (ev_state evt)))
        else case (proposed_start a, proposed_end a) of (Some start, Some end) \<Rightarrow>
          (case class_open k evt of Some err \<Rightarrow> (k, Inl err)
           | None \<Rightarrow>
            (case lock_editable evt (desk_events k) of (_, Inl err) \<Rightarrow> (k, Inl (Moving err))
             | (_, Inr _) \<Rightarrow>
              let (k1, evt1) = size_for_approval k evt in
              case admit_session k1 (at_time evt1 start end) start end False of Inl err \<Rightarrow> (k, Inl err)
              | Inr ws \<Rightarrow>
                let at = (\<lambda>e. e\<lparr>ev_start := start, ev_end := end, reminded_at := None\<rparr>);
                    k2 = write_event (ev_id evt) at k1
                in (case transition (at evt1) S_scheduled (desk_events k2) of (_, Inl err) \<Rightarrow> (k, Inl (Moving err))
                  | (es, Inr _) \<Rightarrow>
                    (audit_warnings ws (ev_id evt) (audit_entry ''accept_proposal'' (ev_id evt)
                       (write_approval (ev_id evt) (\<lambda>a. decision (proposed_by a) (desk_now k) None a) (resend (ev_id evt) (put_events es k2)))),
                     Inr ws))))
        | _ \<Rightarrow> (k, Inl NoProposal))"

definition decline :: "scheduled_event \<Rightarrow> desk \<Rightarrow> desk \<times> (approval_error + unit)" where
  "decline evt k =
     (case approval_of k (ev_id evt) of None \<Rightarrow> (k, Inl NoApproval)
      | Some a \<Rightarrow>
        if ev_state evt \<noteq> S_pending_approval then (k, Inl (NotPending (ev_state evt)))
        else if proposed_start a = None then (k, Inl NoProposal)
        else (audit_entry ''decline_proposal'' (ev_id evt) (write_approval (ev_id evt) no_proposal k), Inr ()))"

text \<open>A new session's row; the primary key refuses a second.\<close>

definition request :: "uuid option \<Rightarrow> scheduled_event \<Rightarrow> desk \<Rightarrow> desk" where
  "request me evt k = (if approval_of k (ev_id evt) \<noteq> None then k
     else k\<lparr>dk_approvals := dk_approvals k @ [\<lparr>ap_event = ev_id evt, proposed_start = None, ap_tenant = ev_tenant evt, requested_by = me,
       requested_at = Some (desk_now k), proposed_end = None, proposed_by = None, proposed_at = None, decided_by = None,
       decided_at = None, ap_reason = None\<rparr>]\<rparr>)"

definition back_to_approval :: "uuid option \<Rightarrow> scheduled_event \<Rightarrow> desk \<Rightarrow> desk \<times> (approval_error + unit)" where
  "back_to_approval me evt k =
     (case approval_of k (ev_id evt) of None \<Rightarrow> (k, Inl NoApproval)
      | Some a \<Rightarrow> (case transition evt S_pending_approval (desk_events k) of
          (_, Inl err) \<Rightarrow> (k, Inl (Moving err))
        | (es, Inr _) \<Rightarrow> (audit_entry ''approval_requested'' (ev_id evt) (write_approval (ev_id evt) (\<lambda>a. a\<lparr>decided_by := None,
            decided_at := None, requested_by := me, requested_at := Some (desk_now k)\<rparr>) (put_events es k)), Inr ())))"

definition withdraw_proposal :: "scheduled_event \<Rightarrow> desk \<Rightarrow> desk \<times> bool" where
  "withdraw_proposal evt k = (case approval_of k (ev_id evt) of None \<Rightarrow> (k, False)
     | Some a \<Rightarrow> if proposed_start a = None then (k, False) else (write_approval (ev_id evt) no_proposal k, True))"

definition approval_queue :: "uuid \<Rightarrow> nat \<Rightarrow> desk \<Rightarrow> scheduled_event list" where
  "approval_queue tenant limit k = take limit (sort_key ev_start (filter (\<lambda>e. ev_tenant e = tenant \<and> ev_state e = S_pending_approval \<and>
     list_ex (\<lambda>a. ap_event a = ev_id e \<and> ap_tenant a = tenant) (dk_approvals k)) (desk_events k)))"

section \<open>A session waiting for approval holds nothing\<close>

definition drop_waiting :: "provider \<Rightarrow> provider" where
  "drop_waiting p = p\<lparr>pv_site := (pv_site p)\<lparr>st_events := filter (\<lambda>e. ev_state e \<in> set NEEDS_RANGES) (st_events (pv_site p))\<rparr>\<rparr>"

definition drop_events :: "site \<Rightarrow> site" where
  "drop_events s = s\<lparr>st_events := filter (\<lambda>e. ev_state e \<in> set NEEDS_RANGES) (st_events s)\<rparr>"

lemma concat_map_filter_nil: "(\<And>x. x \<in> set xs \<Longrightarrow> \<not> P x \<Longrightarrow> f x = []) \<Longrightarrow> concat (map f (filter P xs)) = concat (map f xs)"
  by (induction xs) auto

lemma drop_tables:
  "st_sessions (drop_events s) = st_sessions s" "st_classes (drop_events s) = st_classes s" "st_class_ranges (drop_events s) = st_class_ranges s"
  "st_roll_call (drop_events s) = st_roll_call s" "st_labs (drop_events s) = st_labs s" "st_templates (drop_events s) = st_templates s"
  "st_events (drop_events s) = filter (\<lambda>e. ev_state e \<in> set NEEDS_RANGES) (st_events s)"
  by (simp_all add: drop_events_def)

lemma drop_session_rows: "session_rows (drop_events s) = session_rows s"
  unfolding session_rows_def drop_tables by (rule concat_map_filter_nil) simp

lemma drop_hold_of: "hold_of yaml lead grace (drop_events s) = hold_of yaml lead grace s"
  by (intro ext) (simp only: hold_of_def seats_def sized_template_def live_ranges_def drop_tables)

lemma drop_uses: "uses_class_ranges (drop_events s) = uses_class_ranges s"
  by (simp only: uses_class_ranges_def class_owns_def drop_tables)

lemma drop_holds: "class_holds yaml lead grace (drop_events s) a z = class_holds yaml lead grace s a z"
  by (simp only: class_holds_def drop_session_rows drop_uses drop_hold_of)

lemma drop_drawing: "drawing_on (drop_events s) = drawing_on s"
  by (intro ext) (simp only: drawing_on_def drawing_def on_roll_call_def drop_tables)

lemma filter_holding_drop:
  "filter (\<lambda>e. ev_state e \<in> set HOLDING \<and> Q e) (st_events (drop_events s)) = filter (\<lambda>e. ev_state e \<in> set HOLDING \<and> Q e) (st_events s)"
  unfolding drop_tables filter_filter by (rule filter_cong [OF refl]) (simp only: NEEDS_RANGES_def set_append Un_iff, blast)

lemma drop_held_items: "held_items yaml lead grace (drop_events s) a z None = held_items yaml lead grace s a z None"
  by (simp only: held_items_def drop_holds drop_drawing nothing_excluded filter_holding_drop)

lemma drop_rivals:
  "range_rivals (drop_waiting p) a z r ex = range_rivals p a z r ex"
  "instructor_rivals (drop_waiting p) a z i ex = instructor_rivals p a z i ex"
proof -
  have d: "pv_site (drop_waiting p) = drop_events (pv_site p)" "pv_lead (drop_waiting p) = pv_lead p" "pv_grace (drop_waiting p) = pv_grace p"
    by (simp_all add: drop_waiting_def drop_events_def)
  show "range_rivals (drop_waiting p) a z r ex = range_rivals p a z r ex"
    "instructor_rivals (drop_waiting p) a z i ex = instructor_rivals p a z i ex"
    by (simp_all only: range_rivals_def instructor_rivals_def d filter_holding_drop)
qed

text \<open>A session that waits for approval, a draft, a rejected or a cancelled booking holds nothing: what is
  committed in any window, and the bookings that clash with any time, range and instructor, are the
  same as if those bookings did not exist.\<close>

theorem waiting_holds_nothing:
  "pv_committed (drop_waiting p) a z None = pv_committed p a z None \<and> booking_conflicts (drop_waiting p) a z r i ex = booking_conflicts p a z r i ex"
proof
  have "pv_site (drop_waiting p) = drop_events (pv_site p)" by (simp add: drop_waiting_def drop_events_def)
  then show "pv_committed (drop_waiting p) a z None = pv_committed p a z None"
    by (simp add: pv_committed_def committed_at_def drop_held_items drop_waiting_def)
  show "booking_conflicts (drop_waiting p) a z r i ex = booking_conflicts p a z r i ex" by (simp only: booking_conflicts_def drop_rivals)
qed

section \<open>Approval means it fits\<close>

lemma admit_session_Inr:
  assumes "admit_session k evt a z strict = Inr ws"
  shows "desk_now k < z" "ft_conflicts (ck_fit (check_time k evt a z strict)) = []"
    "ws = as_reasons (ft_assessment (ck_fit (check_time k evt a z strict)))"
    "get_policy (dk_policy k) = Block \<Longrightarrow> ws = []"
  using assms by (auto simp: admit_session_def Let_def fits_def split: if_splits option.splits)

lemma check_time_fit: "ck_fit (check_time k evt a z False) = fit_at (dk_provider k) evt a z"
  by (simp add: check_time_def Let_def split: prod.splits)

lemma size_for_approval_cases:
  assumes "size_for_approval k evt = (k1, evt1)"
  obtains "k1 = k" "evt1 = evt" | z where "k1 = write_event (ev_id evt) (set_size z) k" "evt1 = set_size z evt"
proof (cases "class_of (desk_site k) evt = None \<or> mode_of (desk_site k) evt \<noteq> Some ''individual''")
  case True
  then have "(k1, evt1) = (k, evt)" using assms by (auto simp only: size_for_approval_def option.case if_True if_False split: option.splits if_split_asm)
  then show thesis using that(1) by blast
next
  case False
  note f = False [unfolded de_Morgan_disj not_not]
  from f have m: "mode_of (desk_site k) evt = Some ''individual''" by (rule conjunct2)
  from f obtain c where "class_of (desk_site k) evt = Some c" by (cases "class_of (desk_site k) evt") simp_all
  with m have "\<exists>z. (k1, evt1) = (write_event (ev_id evt) (set_size z) k, set_size z evt)"
    using assms unfolding size_for_approval_def Let_def by (simp only: option.case simp_thms if_False, blast)
  then show thesis using that(2) by blast
qed

lemma set_size_keeps [simp]:
  "ev_id (set_size z e) = ev_id e" "ev_state (set_size z e) = ev_state e" "ev_start (set_size z e) = ev_start e"
  "ev_end (set_size z e) = ev_end e" "ev_template (set_size z e) = ev_template e" "ev_range (set_size z e) = ev_range e"
  by (simp_all add: set_size_def)

lemma write_event_keeps [simp]:
  "dk_policy (write_event i f k) = dk_policy k" "desk_now (write_event i f k) = desk_now k" "dk_approvals (write_event i f k) = dk_approvals k"
  "desk_events (write_event i f k) = update_where (\<lambda>e. ev_id e = i) f (desk_events k)"
  by (simp_all add: write_event_def put_events_def desk_now_def desk_events_def desk_site_def)

lemma map_update_where_same: "(\<And>x. g (f x) = g x) \<Longrightarrow> map g (update_where P f xs) = map g xs"
  by (simp add: update_where_def)

lemma size_for_approval_keeps:
  assumes "size_for_approval k evt = (k1, evt1)"
  shows "ev_id evt1 = ev_id evt" "ev_state evt1 = ev_state evt" "ev_start evt1 = ev_start evt" "ev_end evt1 = ev_end evt"
    "ev_template evt1 = ev_template evt" "ev_range evt1 = ev_range evt" "dk_policy k1 = dk_policy k" "desk_now k1 = desk_now k"
    "dk_approvals k1 = dk_approvals k"
    "map ev_id (desk_events k1) = map ev_id (desk_events k)" "map ev_state (desk_events k1) = map ev_state (desk_events k)"
  by (rule size_for_approval_cases [OF assms]; simp add: map_update_where_same)+

lemma transition_won:
  assumes "transition evt to es = (es', Inr True)"
  shows "\<exists>e \<in> set es'. ev_id e = ev_id evt \<and> ev_state e = to"
  using assms
proof (cases rule: transition_cases)
  case won
  then obtain e where e: "e \<in> set es" "ev_id e = ev_id evt" "source_of (ev_state e) to" by blast
  then have "e\<lparr>ev_state := to\<rparr> \<in> set es'" unfolding won(4) update_where_def set_map by (intro image_eqI [OF _ e(1)]) simp
  then show ?thesis using e(2) by (intro bexI [of _ "e\<lparr>ev_state := to\<rparr>"]) simp_all
qed simp

lemma approve_cases:
  assumes "approve me evt k = (k', r)"
  obtains (moved) k1 evt1 es ws where "r = Inr (True, ws)" "ev_state evt = S_pending_approval" "class_open k evt = None"
      "size_for_approval k evt = (k1, evt1)"
      "admit_session k1 evt1 (ev_start evt) (ev_end evt) False = Inr ws" "transition evt1 S_scheduled (desk_events k1) = (es, Inr True)"
      "desk_events k' = es" "dk_approvals k' = update_where (\<lambda>a. ap_event a = ev_id evt) (decision me (desk_now k) None) (dk_approvals k1)"
  | (kept) "k' = k" "\<And>ws. r \<noteq> Inr (True, ws)"
proof -
  obtain k1 evt1 where z: "size_for_approval k evt = (k1, evt1)" by fastforce
  note keep = size_for_approval_keeps [OF z]
  have b: "snd (transition evt1 S_scheduled (desk_events k1)) = Inr False \<Longrightarrow> ev_state evt = S_scheduled"
    using keep(2) by (auto simp: transition_def Let_def split: if_splits option.splits)
  consider "approval_of k (ev_id evt) = None \<or> ev_state evt \<noteq> S_pending_approval \<or> class_open k evt \<noteq> None" |
    err where "admit_session k1 evt1 (ev_start evt) (ev_end evt) False = Inl err" |
    es err where "transition evt1 S_scheduled (desk_events k1) = (es, Inl err)" |
    es m a ws where "approval_of k (ev_id evt) = Some a" "ev_state evt = S_pending_approval" "class_open k evt = None"
      "admit_session k1 evt1 (ev_start evt) (ev_end evt) False = Inr ws" "transition evt1 S_scheduled (desk_events k1) = (es, Inr m)"
    by (cases "approval_of k (ev_id evt)"; cases "class_open k evt"; cases "ev_state evt = S_pending_approval";
        cases "admit_session k1 evt1 (ev_start evt) (ev_end evt) False"; cases "transition evt1 S_scheduled (desk_events k1)";
        cases "snd (transition evt1 S_scheduled (desk_events k1))") auto
  then show thesis
  proof cases
    case 1
    then have "k' = k" "\<And>ws. r \<noteq> Inr (True, ws)" using assms by (auto simp: approve_def split: option.splits if_splits)
    then show thesis by (rule kept)
  next
    case 2
    then have "k' = k" "\<And>ws. r \<noteq> Inr (True, ws)" using assms keep(3,4) z by (auto simp: approve_def split: option.splits if_splits)
    then show thesis by (rule kept)
  next
    case 3
    then have "k' = k" "\<And>ws. r \<noteq> Inr (True, ws)"
      using assms keep(3,4) z by (auto simp: approve_def split: option.splits if_splits sum.splits)
    then show thesis by (rule kept)
  next
    case 4
    then have m: "m" using b by (cases m) auto
    have e: "(k', r) = (audit_warnings ws (ev_id evt) (audit_entry ''approve'' (ev_id evt)
        (write_approval (ev_id evt) (decision me (desk_now k) None) (resend (ev_id evt) (put_events es k1)))), Inr (True, ws))"
      using assms 4 keep(3,4) by (simp add: approve_def z)
    have "desk_events k' = es" "dk_approvals k' = update_where (\<lambda>a. ap_event a = ev_id evt) (decision me (desk_now k) None) (dk_approvals k1)"
      using e by (auto simp: desk_events_def desk_site_def audit_warnings_def audit_entry_def write_approval_def resend_def put_events_def)
    then show thesis using moved [OF _ 4(2,3) z 4(4)] 4(5) m e by simp
  qed
qed

text \<open>C31: Approving books what fits. When an approver's word moves a session, the session sized for its roll
  call clashes with no holding booking, its end lies ahead, and its row, the only one of that id, is
  scheduled; a warning comes back exactly when it does not fit to the end of its class, and under the
  policy that refuses over-capacity it does fit.\<close>

theorem approve_fits:
  assumes "approve me evt k = (k', Inr (True, ws))" "size_for_approval k evt = (k1, evt1)"
  shows "let f = fit_at (dk_provider k1) evt1 (ev_start evt) (ev_end evt) in
    ft_conflicts f = [] \<and> (ws = [] \<longleftrightarrow> fit_ok f) \<and> (get_policy (dk_policy k) = Block \<longrightarrow> fit_ok f) \<and> desk_now k < ev_end evt \<and>
    (\<exists>e \<in> set (desk_events k'). ev_id e = ev_id evt \<and> ev_state e = S_scheduled)"
  using assms(1)
proof (cases rule: approve_cases)
  case (moved k1' evt1' es ws')
  have z: "k1' = k1" "evt1' = evt1" "ws' = ws" using moved(1,4) assms(2) by simp_all
  note ad = admit_session_Inr [OF moved(5)] and keep = size_for_approval_keeps [OF assms(2)]
  have "\<exists>e \<in> set es. ev_id e = ev_id evt \<and> ev_state e = S_scheduled"
    using transition_won [OF moved(6)] by (simp add: z keep)
  moreover have "desk_now k < ev_end evt" using ad(1) by (simp add: z keep)
  ultimately show ?thesis using ad(2-4) moved(7) by (auto simp: Let_def z keep check_time_fit fit_ok_def fits_def)
qed blast

section \<open>A rejection is final\<close>

text \<open>Any sequence of the operations, each on a copy of the booking that may be out of date.\<close>

inductive desk_step :: "desk \<Rightarrow> desk \<Rightarrow> bool" where
  step_approve: "approve me evt k = (k', r) \<Longrightarrow> desk_step k k'"
| step_reject: "reject me evt why k = (k', r') \<Longrightarrow> desk_step k k'"
| step_propose: "propose me evt start end k = (k', r'') \<Longrightarrow> desk_step k k'"
| step_accept: "accept_proposal evt k = (k', r'') \<Longrightarrow> desk_step k k'"
| step_decline: "decline evt k = (k', u) \<Longrightarrow> desk_step k k'"
| step_request: "desk_step k (request me evt k)"
| step_back: "back_to_approval me evt k = (k', u) \<Longrightarrow> desk_step k k'"
| step_withdraw: "withdraw_proposal evt k = (k', b) \<Longrightarrow> desk_step k k'"

lemma desk_events_keep [simp]:
  "desk_events (write_approval i f k) = desk_events k" "desk_events (audit_entry s i k) = desk_events k" "desk_events (resend i k) = desk_events k"
  "desk_events (put_events es k) = es" "desk_events (audit_warnings ws i k) = desk_events k" "desk_events (request me evt k) = desk_events k"
  by (simp_all add: desk_events_def desk_site_def write_approval_def audit_entry_def resend_def put_events_def audit_warnings_def request_def)

lemma transition_Inr: "transition evt to es = (es', Inr b) \<Longrightarrow> ev_state evt \<noteq> to \<Longrightarrow> b"
  by (auto simp: transition_def Let_def split: if_splits option.splits)

text \<open>What a move may have written first on the booking's own row: its size or its time.\<close>

definition written :: "uuid \<Rightarrow> scheduled_event list \<Rightarrow> scheduled_event list \<Rightarrow> bool" where
  "written i es es1 = (\<exists>f. (\<forall>x. ev_id (f x) = ev_id x \<and> ev_state (f x) = ev_state x) \<and> es1 = update_where (\<lambda>e. ev_id e = i) f es)"

lemma written_refl: "written i es es"
  unfolding written_def by (intro exI [of _ id]) (simp add: update_where_def map_idI)

lemma written_write: "written i es es1 \<Longrightarrow> (\<And>x. ev_id (g x) = ev_id x \<and> ev_state (g x) = ev_state x) \<Longrightarrow> written i es (update_where (\<lambda>e. ev_id e = i) g es1)"
proof -
  assume "written i es es1" and g: "\<And>x. ev_id (g x) = ev_id x \<and> ev_state (g x) = ev_state x"
  then obtain f where "\<forall>x. ev_id (f x) = ev_id x \<and> ev_state (f x) = ev_state x" "es1 = update_where (\<lambda>e. ev_id e = i) f es"
    unfolding written_def by blast
  then show ?thesis unfolding written_def by (intro exI [of _ "g \<circ> f"]) (simp add: g update_where_def)
qed

lemma size_written: "size_for_approval k evt = (k1, evt1) \<Longrightarrow> written (ev_id evt) (desk_events k) (desk_events k1)"
  by (erule size_for_approval_cases) (auto intro: written_refl written_write)

lemma no_way_out_of_rejected: "\<not> source_of S_rejected to"
  by (cases to) (simp_all add: source_of_def)

lemma move_keeps_rejected:
  assumes d: "distinct (map ev_id es)" and e: "e \<in> set es" "ev_state e = S_rejected" and w: "written (ev_id evt) es es1"
    and t: "transition evt to es1 = (es2, Inr True)"
  shows "e \<in> set es2 \<and> distinct (map ev_id es2)"
  using t
proof (cases rule: transition_cases)
  case won
  from w obtain f where f: "\<And>x. ev_id (f x) = ev_id x \<and> ev_state (f x) = ev_state x" and es1: "es1 = update_where (\<lambda>e. ev_id e = ev_id evt) f es"
    unfolding written_def by blast
  from won(2) obtain y where y: "y \<in> set es" "ev_id y = ev_id evt" "source_of (ev_state y) to"
    unfolding es1 update_where_def using f by (auto split: if_splits)
  have "e \<noteq> y" using y(3) e(2) no_way_out_of_rejected by metis
  then have ne: "ev_id e \<noteq> ev_id evt" using inj_onD [OF conjunct2 [OF d [unfolded distinct_map]], of e y] e(1) y(1,2) by auto
  have "map ev_id es2 = map ev_id es" unfolding won(4) es1 by (simp add: map_update_where_same f)
  moreover have "e \<in> set es1" unfolding es1 update_where_def set_map by (rule image_eqI [OF _ e(1)]) (simp add: ne)
  then have "e \<in> set es2" unfolding won(4) update_where_def set_map by (rule image_eqI [rotated]) (simp add: ne)
  ultimately show ?thesis using d by simp
qed simp

lemma transition_keeps_rejected:
  assumes "distinct (map ev_id es)" "e \<in> set es" "ev_state e = S_rejected" and t: "transition evt to es = (es2, r)"
  shows "e \<in> set es2 \<and> distinct (map ev_id es2)"
  using t
proof (cases rule: transition_cases)
  case won
  then show ?thesis using move_keeps_rejected [OF assms(1-3) written_refl] t by simp
qed (use assms in simp)

lemma accept_proposal_cases:
  assumes "accept_proposal evt k = (k', r)"
  obtains (moved) evt1 es1 es where "written (ev_id evt) (desk_events k) es1" "ev_id evt1 = ev_id evt"
    "transition evt1 S_scheduled es1 = (es, Inr True)" "desk_events k' = es"
  | (kept) "k' = k"
proof -
  obtain k1 evt1 where z: "size_for_approval k evt = (k1, evt1)" by fastforce
  note keep = size_for_approval_keeps [OF z]
  consider "k' = k" | a z0 es b where "ev_state evt = S_pending_approval"
    "transition (evt1\<lparr>ev_start := a, ev_end := z0, reminded_at := None\<rparr>) S_scheduled
       (update_where (\<lambda>e. ev_id e = ev_id evt) (\<lambda>e. e\<lparr>ev_start := a, ev_end := z0, reminded_at := None\<rparr>) (desk_events k1)) = (es, Inr b)"
    "desk_events k' = es"
    using assms unfolding accept_proposal_def z Let_def
    by (auto split: option.splits if_splits sum.splits prod.splits)
  then show thesis
  proof cases
    case 2
    then have b using transition_Inr [OF 2(2)] by (simp add: keep)
    with 2(2) have tr: "transition (evt1\<lparr>ev_start := a, ev_end := z0, reminded_at := None\<rparr>) S_scheduled
       (update_where (\<lambda>e. ev_id e = ev_id evt) (\<lambda>e. e\<lparr>ev_start := a, ev_end := z0, reminded_at := None\<rparr>) (desk_events k1)) = (es, Inr True)" by simp
    show thesis by (rule moved [OF _ _ tr 2(3)]) (auto intro: written_write size_written [OF z] simp: keep)
  qed (rule kept)
qed

lemma step_keeps_rejected:
  assumes "desk_step k k'" "distinct (map ev_id (desk_events k))" "e \<in> set (desk_events k)" "ev_state e = S_rejected"
  shows "e \<in> set (desk_events k') \<and> distinct (map ev_id (desk_events k'))"
  using assms(1)
proof cases
  case (step_approve me evt r)
  then show ?thesis
  proof (cases rule: approve_cases)
    case (moved k1 evt1 es ws)
    then show ?thesis using move_keeps_rejected [OF assms(2-4), of evt1 "desk_events k1"] size_written [OF moved(4)] size_for_approval_keeps(1) [OF moved(4)] by simp
  qed (use assms in simp)
next
  case (step_accept evt r)
  then show ?thesis
  proof (cases rule: accept_proposal_cases)
    case (moved evt1 es1 es)
    then show ?thesis using move_keeps_rejected [OF assms(2-4), of evt1 es1] by simp
  qed (use assms in simp)
next
  case (step_reject me evt why r)
  then show ?thesis using assms(2,3) transition_keeps_rejected [OF assms(2-4)]
    by (auto simp: reject_def split: option.splits if_splits sum.splits prod.splits)
next
  case (step_back me evt u)
  then show ?thesis using assms(2,3) transition_keeps_rejected [OF assms(2-4)]
    by (auto simp: back_to_approval_def split: option.splits if_splits sum.splits prod.splits)
next
  case (step_propose me evt start "end" r)
  then show ?thesis using assms(2,3) by (auto simp: propose_def split: option.splits if_splits sum.splits)
next
  case (step_decline evt u)
  then show ?thesis using assms(2,3) by (auto simp: decline_def split: option.splits if_splits)
next
  case (step_withdraw evt b)
  then show ?thesis using assms(2,3) by (auto simp: withdraw_proposal_def split: option.splits if_splits)
qed (use assms in simp)

text \<open>A rejection is final: whatever approvers and instructors do afterwards, in any order and on copies of
  the booking that may be out of date, the rejected booking's row stays exactly as it is.\<close>

theorem rejection_is_final:
  assumes "desk_step\<^sup>*\<^sup>* k k'" "distinct (map ev_id (desk_events k))" "e \<in> set (desk_events k)" "ev_state e = S_rejected"
  shows "e \<in> set (desk_events k')"
proof -
  from assms(1) have "e \<in> set (desk_events k') \<and> distinct (map ev_id (desk_events k'))"
    by (induction rule: rtranclp_induct) (use assms step_keeps_rejected in blast)+
  then show ?thesis ..
qed

section \<open>Accepting a proposal checks less than approving\<close>

text \<open>A class of one day with one Student, whose session waits for approval with a proposed time, and a
  booking of eight CPUs that evening.\<close>

definition minute :: "int \<Rightarrow> int \<Rightarrow> time" where
  "minute h m = seconds (h * 3600 + m * 60)"

definition sample_session :: scheduled_event where
  "sample_session = sample_event ''e'' S_pending_approval None (minute 22 0) (minute 22 30) \<lparr>ev_template := Some ''t''\<rparr>"

definition sample_desk :: "int \<Rightarrow> desk" where
  "sample_desk vcpu = (let s = \<lparr>st_ranges = [], st_templates = [\<lparr>tm_id = ''t'', tm_yaml = ''y''\<rparr>],
       st_events = [sample_session, sample_event ''b'' S_scheduled (Some ''r2'') (minute 23 15) (minute 23 30) \<lparr>vcpu_total := 8\<rparr>],
       st_sessions = [\<lparr>cs_event = ''e'', cs_class = ''k'', cs_tenant = ''n'', range_mode = ''individual''\<rparr>],
       st_classes = [\<lparr>cl_id = ''k'', cl_tenant = ''n'', cl_lead = ''l'', cl_status = ''open'', cl_start_date = 0, cl_end_date = 0\<rparr>],
       st_class_ranges = [], st_roll_call = [\<lparr>rc_class = ''k'', rc_tenant = ''n'', rc_user = Some ''u'', rc_status = ''active''\<rparr>], st_labs = []\<rparr> in
     \<lparr>dk_provider = \<lparr>pv_yaml = capacity_yaml, pv_lead = 0, pv_grace = 0, pv_site = s,
        pv_cluster = new_cluster capacity_yaml s 0 None, pv_now = minute 21 0, pv_supply = \<lparr>rs_vcpu = vcpu, rs_ram_mb = 65536, rs_disk_gb = 1024\<rparr>\<rparr>,
      dk_db = empty_db, dk_templates = [\<lparr>tm_id = ''t'', tm_yaml = ''y'', tm_tenant = Some ''n'', tm_public = False, tm_deleted = False\<rparr>],
      dk_approvals = [\<lparr>ap_event = ''e'', proposed_start = Some (minute 22 45), ap_tenant = ''n'', requested_by = None, requested_at = None,
        proposed_end = Some (minute 23 0), proposed_by = Some ''v'', proposed_at = None, decided_by = None, decided_at = None, ap_reason = None\<rparr>],
      dk_policy = None, dk_days = 0, dk_sequence = (\<lambda>_. 0), dk_audit = []\<rparr>)"

theorem approve_fits_witness:
  "\<exists>k' k1 evt1. approve (Some ''v'') sample_session (sample_desk 32) = (k', Inr (True, [])) \<and>
     size_for_approval (sample_desk 32) sample_session = (k1, evt1) \<and> fit_ok (fit_at (dk_provider k1) evt1 (minute 22 0) (minute 22 30))"
proof -
  obtain k1 evt1 where z: "size_for_approval (sample_desk 32) sample_session = (k1, evt1)" by fastforce
  have s: "snd (approve (Some ''v'') sample_session (sample_desk 32)) = Inr (True, [])" by code_simp
  obtain k' where a: "approve (Some ''v'') sample_session (sample_desk 32) = (k', Inr (True, []))"
    using s by (cases "approve (Some ''v'') sample_session (sample_desk 32)") simp
  have "ev_start sample_session = minute 22 0" "ev_end sample_session = minute 22 30" by (simp_all add: sample_session_def sample_event_def)
  then have "fit_ok (fit_at (dk_provider k1) evt1 (minute 22 0) (minute 22 30))"
    using approve_fits [OF a z] unfolding Let_def by simp
  with a z show ?thesis by blast
qed

theorem rejection_is_final_witness:
  "\<exists>k e. desk_step\<^sup>*\<^sup>* (sample_desk 32) k \<and> e \<in> set (desk_events k) \<and> ev_state e = S_rejected \<and>
     e \<in> set (desk_events (fst (accept_proposal sample_session k)))"
proof -
  let ?k = "fst (reject (Some ''v'') sample_session ''full'' (sample_desk 32))" and ?e = "sample_session\<lparr>ev_state := S_rejected\<rparr>"
  have r: "desk_step\<^sup>*\<^sup>* (sample_desk 32) ?k" by (rule r_into_rtranclp, rule step_reject, rule prod.collapse [symmetric])
  have a: "desk_step\<^sup>*\<^sup>* ?k (fst (accept_proposal sample_session ?k))" by (rule r_into_rtranclp, rule step_accept, rule prod.collapse [symmetric])
  have e: "hd (desk_events ?k) = ?e" "desk_events ?k \<noteq> []" "distinct (map ev_id (desk_events ?k))" "ev_state ?e = S_rejected" by code_simp+
  then have i: "?e \<in> set (desk_events ?k)" using hd_in_set by metis
  from rejection_is_final [OF a e(3) i e(4)] r i e(4) show ?thesis by blast
qed


end
