(* ===== verification/Reserved_Networks.thy ===== *)
theory Reserved_Networks
  imports Pools
begin

text \<open>
  Site networks a range's subnets may not overlap: \<^verbatim>\<open>app/network_inventory/reserved.py\<close> (template
  validation) and \<^verbatim>\<open>worker/reserved_networks.py\<close> (again at provision). \<open>v6\<close> reads an IPv6 network
  (first address, prefix length) and \<open>text\<close> is Python's \<^verbatim>\<open>str\<close> of a template value. A message
  is kept as the place, the subnet and the site network it names. A template section that is not
  a list contributes nothing.
\<close>

section \<open>Networks\<close>

datatype net = Net4 int nat | Net6 int nat

definition ip_network :: "(string \<Rightarrow> (int \<times> nat) option) \<Rightarrow> string \<Rightarrow> net option" where
  "ip_network v6 s = (case ip4_network s of Some (a, p) \<Rightarrow> Some (Net4 a p)
     | None \<Rightarrow> map_option (\<lambda>(a, p). Net6 a p) (v6 s))"

fun version :: "net \<Rightarrow> nat" where
  "version (Net4 a p) = 4" | "version (Net6 a p) = 6"

fun first_addr :: "net \<Rightarrow> int" where
  "first_addr (Net4 a p) = a" | "first_addr (Net6 a p) = a"

fun last_addr :: "net \<Rightarrow> int" where
  "last_addr (Net4 a p) = a + 2 ^ (32 - p) - 1" | "last_addr (Net6 a p) = a + 2 ^ (128 - p) - 1"

definition addr_in :: "int \<Rightarrow> net \<Rightarrow> bool" where
  "addr_in x n = (first_addr n \<le> x \<and> x \<le> last_addr n)"

text \<open>\<^verbatim>\<open>overlaps\<close>: an end of one in the other.\<close>

definition overlaps :: "net \<Rightarrow> net \<Rightarrow> bool" where
  "overlaps n m = (addr_in (first_addr m) n \<or> addr_in (last_addr m) n \<or> addr_in (first_addr n) m \<or> addr_in (last_addr n) m)"

section \<open>The setting\<close>

definition commas :: "string \<Rightarrow> string" where
  "commas s = map (\<lambda>c. if c = CHR '';'' then CHR '','' else c) s"

fun read_all :: "('a \<Rightarrow> 'b option) \<Rightarrow> 'a list \<Rightarrow> 'b list option" where
  "read_all f [] = Some []"
| "read_all f (x # xs) = (case f x of None \<Rightarrow> None | Some y \<Rightarrow> map_option (\<lambda>ys. y # ys) (read_all f xs))"

definition reserved_cidrs :: "(string \<Rightarrow> (int \<times> nat) option) \<Rightarrow> string \<Rightarrow> net list option" where
  "reserved_cidrs v6 raw = read_all (ip_network v6) (filter (\<lambda>p. p \<noteq> []) (map strip (split_on (CHR '','') (commas raw))))"

text \<open>\<^verbatim>\<open>check_settings\<close> of the worker and \<^verbatim>\<open>check_at_startup\<close> of the API: whether the process starts.\<close>

definition check_settings :: "(string \<Rightarrow> (int \<times> nat) option) \<Rightarrow> string \<Rightarrow> string \<Rightarrow> bool" where
  "check_settings v6 cidrs vlans = (reserved_cidrs v6 cidrs \<noteq> None \<and> parse_reserved vlans \<noteq> None)"

definition check_at_startup :: "(string \<Rightarrow> (int \<times> nat) option) \<Rightarrow> string \<Rightarrow> bool" where
  "check_at_startup v6 cidrs = (reserved_cidrs v6 cidrs \<noteq> None)"

section \<open>A template's subnets\<close>

definition field :: "string \<Rightarrow> (string \<times> json) list \<Rightarrow> json option" where
  "field k kvs = (case map_of kvs k of Some j \<Rightarrow> if truthy j then Some j else None | None \<Rightarrow> None)"

definition section_dicts :: "string \<Rightarrow> (string \<times> json) list \<Rightarrow> (nat \<times> (string \<times> json) list) list" where
  "section_dicts k kvs = (case map_of kvs k of Some (JList js) \<Rightarrow>
       List.map_filter (\<lambda>(i, j). case j of JObj x \<Rightarrow> Some (i, x) | _ \<Rightarrow> None) (enumerate 0 js)
     | _ \<Rightarrow> [])"

definition subdict :: "string \<Rightarrow> (string \<times> json) list \<Rightarrow> (string \<times> json) list" where
  "subdict k kvs = (case map_of kvs k of Some (JObj x) \<Rightarrow> x | _ \<Rightarrow> [])"

definition input_cidrs :: "(json \<Rightarrow> string) \<Rightarrow> (string \<times> json) list \<Rightarrow> (string \<times> string) list" where
  "input_cidrs text doc = List.map_filter (\<lambda>(k, j). if startswith k ''cidr_'' \<and> truthy j
     then Some (''inputs.'' @ k, text j) else None) (subdict ''inputs'' doc)"

text \<open>The worker's: a rendered template's networks if it has any, else what it declares.\<close>

definition named :: "(json \<Rightarrow> string) \<Rightarrow> string \<Rightarrow> nat \<Rightarrow> (string \<times> json) list \<Rightarrow> string" where
  "named text w i x = strip (w @ ''['' @ str_nat i @ ''] '' @ (case field ''name'' x of Some j \<Rightarrow> text j | None \<Rightarrow> []))"

definition rendered_cidrs :: "(json \<Rightarrow> string) \<Rightarrow> (string \<times> json) list \<Rightarrow> (string \<times> string) list" where
  "rendered_cidrs text doc = concat (map (\<lambda>(i, x). List.map_filter (\<lambda>k. map_option (\<lambda>j. (named text ''networks'' i x, text j)) (field k x))
     [''cidr'', ''subnet'']) (section_dicts ''networks'' doc))"

definition template_cidrs :: "(json \<Rightarrow> string) \<Rightarrow> (string \<times> json) list \<Rightarrow> (string \<times> string) list" where
  "template_cidrs text doc =
     (if rendered_cidrs text doc \<noteq> [] then rendered_cidrs text doc
      else List.map_filter (\<lambda>(i, x). map_option (\<lambda>j. (named text ''network.vlans'' i x, text j)) (field ''cidr'' x))
             (section_dicts ''vlans'' (subdict ''network'' doc)) @ input_cidrs text doc)"

text \<open>The API's: everything declared.\<close>

definition declared :: "(json \<Rightarrow> string) \<Rightarrow> (string \<times> json) list \<Rightarrow> (string \<times> string) list" where
  "declared text doc =
     List.map_filter (\<lambda>(i, x). map_option (\<lambda>j. (''network.vlans.'' @ str_nat i @ ''.cidr'', text j)) (field ''cidr'' x))
       (section_dicts ''vlans'' (subdict ''network'' doc)) @
     input_cidrs text doc @
     concat (map (\<lambda>(i, x). List.map_filter (\<lambda>k. map_option (\<lambda>j. (''networks.'' @ str_nat i @ ''.'' @ k, text j)) (field k x))
       [''cidr'', ''subnet'']) (section_dicts ''networks'' doc))"

section \<open>Conflicts\<close>

type_synonym conflict = "string \<times> net \<times> net"

definition clashes :: "(string \<Rightarrow> (int \<times> nat) option) \<Rightarrow> net list \<Rightarrow> (string \<times> string) list \<Rightarrow> conflict list" where
  "clashes v6 reserved cidrs = concat (map (\<lambda>(w, c). case ip_network v6 c of None \<Rightarrow> []
     | Some n \<Rightarrow> map (\<lambda>s. (w, n, s)) (filter (\<lambda>s. version n = version s \<and> overlaps n s) reserved)) cidrs)"

definition conflicts :: "(string \<Rightarrow> (int \<times> nat) option) \<Rightarrow> (json \<Rightarrow> string) \<Rightarrow> net list \<Rightarrow> (string \<times> json) list \<Rightarrow> conflict list" where
  "conflicts v6 text reserved template = (if reserved = [] then [] else dict_fromkeys (clashes v6 reserved (template_cidrs text template)))"

definition template_conflicts :: "(string \<Rightarrow> (int \<times> nat) option) \<Rightarrow> (json \<Rightarrow> string) \<Rightarrow> net list \<Rightarrow> json \<Rightarrow> conflict list" where
  "template_conflicts v6 text reserved doc = (case doc of JObj kvs \<Rightarrow>
       if reserved = [] then [] else clashes v6 reserved (declared text kvs)
     | _ \<Rightarrow> [])"

section \<open>Properties\<close>

lemma net_nonempty: "first_addr n \<le> last_addr n"
  by (cases n) simp_all

lemma overlaps_iff: "overlaps n m \<longleftrightarrow> (\<exists>x. addr_in x n \<and> addr_in x m)"
proof
  assume "overlaps n m"
  then show "\<exists>x. addr_in x n \<and> addr_in x m"
    using net_nonempty [of n] net_nonempty [of m] by (auto simp: overlaps_def addr_in_def)
next
  assume "\<exists>x. addr_in x n \<and> addr_in x m"
  then show "overlaps n m" unfolding overlaps_def addr_in_def by linarith
qed

lemma clashes_iff:
  "(w, n, s) \<in> set (clashes v6 reserved cidrs) \<longleftrightarrow>
   (\<exists>c. (w, c) \<in> set cidrs \<and> ip_network v6 c = Some n) \<and> s \<in> set reserved \<and> version n = version s \<and> overlaps n s"
proof (induction cidrs)
  case (Cons p cidrs)
  obtain w' c where p: "p = (w', c)" by (cases p)
  show ?case using Cons unfolding p clashes_def by (cases "ip_network v6 c") auto
qed (simp add: clashes_def)

lemma clashes_pairs:
  "snd ` set (clashes v6 reserved cidrs) =
   {(n, s). (\<exists>c \<in> snd ` set cidrs. ip_network v6 c = Some n) \<and> s \<in> set reserved \<and> version n = version s \<and> overlaps n s}"
proof (intro set_eqI, clarify)
  fix n s
  have "(n, s) \<in> snd ` set (clashes v6 reserved cidrs) \<longleftrightarrow> (\<exists>w. (w, n, s) \<in> set (clashes v6 reserved cidrs))" by force
  also have "\<dots> \<longleftrightarrow> (\<exists>c \<in> snd ` set cidrs. ip_network v6 c = Some n) \<and> s \<in> set reserved \<and> version n = version s \<and> overlaps n s"
    unfolding clashes_iff by force
  finally show "(n, s) \<in> snd ` set (clashes v6 reserved cidrs) \<longleftrightarrow> (n, s) \<in> {(n, s). (\<exists>c \<in> snd ` set cidrs. ip_network v6 c = Some n) \<and>
      s \<in> set reserved \<and> version n = version s \<and> overlaps n s}" by simp
qed

lemma map_filter_values:
  "snd ` set (List.map_filter (\<lambda>x. map_option (\<lambda>j. (f x, h j)) (g x)) xs) = {h j | j x. x \<in> set xs \<and> g x = Some j}"
  by (force simp: List.map_filter_def)

lemma vlan_values:
  "snd ` set (List.map_filter (\<lambda>(i, x). map_option (\<lambda>j. (f i x, text j)) (field ''cidr'' x)) ds)
   = {text j | j i x. (i, x) \<in> set ds \<and> field ''cidr'' x = Some j}"
proof -
  have "(\<lambda>(i, x). map_option (\<lambda>j. (f i x, text j)) (field ''cidr'' x)) =
      (\<lambda>y. map_option (\<lambda>j. (case y of (i, x) \<Rightarrow> f i x, text j)) (field ''cidr'' (snd y)))"
    by (auto simp: fun_eq_iff)
  then show ?thesis by (simp only: map_filter_values) auto
qed

lemma network_values:
  "snd ` set (concat (map (\<lambda>(i, x). List.map_filter (\<lambda>k. map_option (\<lambda>j. (f i x k, text j)) (field k x)) ks) ds))
   = {text j | j k i x. (i, x) \<in> set ds \<and> k \<in> set ks \<and> field k x = Some j}"
proof -
  have "snd ` set (concat (map (\<lambda>(i, x). List.map_filter (\<lambda>k. map_option (\<lambda>j. (f i x k, text j)) (field k x)) ks) ds))
    = (\<Union>(i, x) \<in> set ds. snd ` set (List.map_filter (\<lambda>k. map_option (\<lambda>j. (f i x k, text j)) (field k x)) ks))"
    by (simp add: image_UN case_prod_beta)
  also have "\<dots> = {text j | j k i x. (i, x) \<in> set ds \<and> k \<in> set ks \<and> field k x = Some j}"
    unfolding map_filter_values by auto
  finally show ?thesis .
qed

lemma rendered_values:
  "snd ` set (rendered_cidrs text doc) =
   {text j | j k i x. (i, x) \<in> set (section_dicts ''networks'' doc) \<and> k \<in> set [''cidr'', ''subnet''] \<and> field k x = Some j}"
  unfolding rendered_cidrs_def by (rule network_values)

definition vlan_texts :: "(json \<Rightarrow> string) \<Rightarrow> (string \<times> json) list \<Rightarrow> string set" where
  "vlan_texts text doc = {text j | j i x. (i, x) \<in> set (section_dicts ''vlans'' (subdict ''network'' doc)) \<and> field ''cidr'' x = Some j}"

lemma declared_values:
  "snd ` set (declared text doc) = vlan_texts text doc \<union> snd ` set (input_cidrs text doc) \<union> snd ` set (rendered_cidrs text doc)"
  unfolding declared_def set_append image_Un vlan_values network_values rendered_values vlan_texts_def by (rule Un_assoc [symmetric])

lemma template_values:
  "snd ` set (template_cidrs text doc) = (if rendered_cidrs text doc = [] then vlan_texts text doc \<union> snd ` set (input_cidrs text doc)
     else snd ` set (rendered_cidrs text doc))"
proof (cases "rendered_cidrs text doc = []")
  case True
  then show ?thesis unfolding template_cidrs_def by (simp only: simp_thms if_False if_True set_append image_Un vlan_values vlan_texts_def)
next
  case False
  then show ?thesis unfolding template_cidrs_def by (simp only: simp_thms if_False if_True)
qed

text \<open>C40: The API refuses a template exactly for its declared subnets that share an address with a
  reserved site network, and names each such pair. The worker's check at provision finds no pair
  the API would not, and the same pairs for a template that is not rendered yet.\<close>

theorem reserved_subnets_refused:
  "((w, n, s) \<in> set (template_conflicts v6 text reserved (JObj doc)) \<longleftrightarrow>
     (\<exists>c. (w, c) \<in> set (declared text doc) \<and> ip_network v6 c = Some n) \<and> s \<in> set reserved \<and> version n = version s \<and>
     (\<exists>x. addr_in x n \<and> addr_in x s)) \<and>
   (if rendered_cidrs text doc = []
    then snd ` set (conflicts v6 text reserved doc) = snd ` set (template_conflicts v6 text reserved (JObj doc))
    else snd ` set (conflicts v6 text reserved doc) \<subseteq> snd ` set (template_conflicts v6 text reserved (JObj doc)))"
proof -
  have empty: "clashes v6 [] cidrs = []" for cidrs by (auto simp: clashes_def split: option.split)
  have a: "template_conflicts v6 text reserved (JObj doc) = clashes v6 reserved (declared text doc)"
    by (simp add: template_conflicts_def empty)
  have "set (conflicts v6 text reserved doc) = set (clashes v6 reserved (template_cidrs text doc))"
    by (simp add: conflicts_def empty)
  then have "snd ` set (conflicts v6 text reserved doc) = snd ` set (clashes v6 reserved (template_cidrs text doc))" by (rule arg_cong)
  then show ?thesis unfolding a clashes_iff overlaps_iff [symmetric] clashes_pairs template_values declared_values
    by (cases "rendered_cidrs text doc = []") auto
qed

end
