(* ===== verification/Range_Alloc.thy ===== *)
theory Range_Alloc
  imports Network_Inventory Fencing Reserved_Networks "HOL-Library.List_Lexorder" "HOL-Library.Char_ord"
begin

text \<open>
  \<^verbatim>\<open>worker/range_alloc.py\<close>: what a build reserves before the provisioner runs, what a failed one
  gives back and what a finished one records; with the statements of \<^verbatim>\<open>worker/db_ops.py\<close> it uses.
  The provisioner is a parameter (what it needs, what it reads on the live switch, what it plans);
  None there is the exception it raises. A session rolls back on an exception, so an error returns
  the database the transaction started with. \<open>ids k\<close> are the uuids the k-th insert draws.
\<close>

section \<open>Lock keys\<close>

unbundle bit_operations_syntax

definition crc_bit :: "32 word \<Rightarrow> 32 word" where
  "crc_bit c = (if bit c 0 then drop_bit 1 c XOR 0xEDB88320 else drop_bit 1 c)"

definition crc_byte :: "32 word \<Rightarrow> char \<Rightarrow> 32 word" where
  "crc_byte c b = (crc_bit ^^ 8) (c XOR word_of_nat (of_char b))"

text \<open>\<^verbatim>\<open>zlib.crc32\<close>, and the advisory lock of one (kind, domain).\<close>

definition crc32 :: "string \<Rightarrow> 32 word" where
  "crc32 s = foldl crc_byte 0xFFFFFFFF s XOR 0xFFFFFFFF"

definition lock_key :: "string \<Rightarrow> string \<Rightarrow> int" where
  "lock_key domain kind = uint (crc32 (kind @ '':'' @ domain)) - 2 ^ 31"

section \<open>Reserving for a build\<close>

record need =
  nd_key :: string
  nd_kind :: string
  nd_domain :: string
  nd_pool :: "string list"
  nd_holders :: "string list"
  nd_single :: bool
  nd_excluded :: "string list"

datatype allocation = One string | Many "(string \<times> string) list"

type_synonym allocations = "(string \<times> allocation) list"

record provisioner =
  pv_needs :: "uuid \<Rightarrow> (string \<times> json) list \<Rightarrow> need list option"
  pv_usage :: "need list \<Rightarrow> live_usage list option"
  pv_planned :: "uuid \<Rightarrow> allocations \<Rightarrow> (string \<times> json) list"

record net_settings =
  ns_v6 :: "string \<Rightarrow> (int \<times> nat) option"
  ns_text :: "json \<Rightarrow> string"
  ns_reserved :: string

definition lock_range_in_state :: "uuid \<Rightarrow> range_state \<Rightarrow> db \<Rightarrow> bool" where
  "lock_range_in_state rid s d = list_ex (\<lambda>r. rng_id r = rid \<and> rng_state r = s) (ranges d)"

fun record_all :: "(nat \<Rightarrow> nat \<Rightarrow> uuid) \<Rightarrow> time \<Rightarrow> nat \<Rightarrow> live_usage list \<Rightarrow> db \<Rightarrow> (db \<times> nat) option" where
  "record_all ids now k [] d = Some (d, k)"
| "record_all ids now k (u # us) d = (case record_external (ids k) u now d of
     (d1, Inl e) \<Rightarrow> None | (d1, Inr _) \<Rightarrow> record_all ids now (k + 1) us d1)"

definition allocation_of :: "need \<Rightarrow> (string \<times> string) list \<Rightarrow> allocation option" where
  "allocation_of n got = (if nd_single n
     then (case nd_holders n of [] \<Rightarrow> None | h # _ \<Rightarrow> map_option One (map_of got h)) else Some (Many got))"

fun reserve_needs :: "(nat \<Rightarrow> nat \<Rightarrow> uuid) \<Rightarrow> time \<Rightarrow> live_usage list \<Rightarrow> uuid \<Rightarrow> nat \<Rightarrow> need list \<Rightarrow>
    allocations \<Rightarrow> db \<Rightarrow> allocations outcome" where
  "reserve_needs ids now usage rid k [] acc d = (d, Inr acc)"
| "reserve_needs ids now usage rid k (n # ns) acc d =
     (case record_all ids now k (filter (\<lambda>u. lu_domain u = nd_domain n \<and> lu_kind u = nd_kind n) usage) d of
        None \<Rightarrow> (d, Inl IntegrityError)
      | Some (d1, k1) \<Rightarrow>
        (case reserve_values (ids k1) now True (nd_excluded n) rid (nd_domain n) (nd_kind n) (nd_pool n) (nd_holders n) d1 of
           (d2, Inl e) \<Rightarrow> (d2, Inl e)
         | (d2, Inr got) \<Rightarrow>
           (case allocation_of n got of None \<Rightarrow> (d2, Inl BadNeed)
            | Some a \<Rightarrow> reserve_needs ids now usage rid (k1 + 1) ns (dict_set (nd_key n) a acc) d2)))"

text \<open>The transaction, on the needs in lock order.\<close>

definition reserve_in_order :: "provisioner \<Rightarrow> (nat \<Rightarrow> nat \<Rightarrow> uuid) \<Rightarrow> time \<Rightarrow> exec option \<Rightarrow> live_usage list \<Rightarrow> uuid \<Rightarrow>
    need list \<Rightarrow> db \<Rightarrow> db \<times> exec option \<times> (alloc_error + allocations)" where
  "reserve_in_order pv ids now current usage rid needs d =
     (if \<not> lock_range_in_state rid provisioning d then (d, current, Inl NotProvisioning)
      else case ensure_held current rid d of
        (cur, False) \<Rightarrow> (d, cur, Inl LeaseLostError)
      | (cur, True) \<Rightarrow>
        (case reserve_needs ids now usage rid 0 (sort_key (\<lambda>n. lock_key (nd_domain n) (nd_kind n)) needs) [] d of
           (d1, Inl e) \<Rightarrow> (d, cur, Inl e)
         | (d1, Inr a) \<Rightarrow>
           (let planned = pv_planned pv rid a
            in (if planned \<noteq> [] then merge_range_output rid planned d1 else d1, cur, Inr a))))"

definition reserve_for_build :: "net_settings \<Rightarrow> provisioner \<Rightarrow> (nat \<Rightarrow> nat \<Rightarrow> uuid) \<Rightarrow> time \<Rightarrow> exec option \<Rightarrow> uuid \<Rightarrow>
    (string \<times> json) list \<Rightarrow> db \<Rightarrow> db \<times> exec option \<times> (alloc_error + allocations)" where
  "reserve_for_build st pv ids now current rid template d =
     (case reserved_cidrs (ns_v6 st) (ns_reserved st) of None \<Rightarrow> (d, current, Inl ReservedNetwork)
      | Some reserved \<Rightarrow>
        if conflicts (ns_v6 st) (ns_text st) reserved template \<noteq> [] then (d, current, Inl ReservedNetwork)
        else case pv_needs pv rid template of None \<Rightarrow> (d, current, Inl SettingsInvalid)
         | Some needs \<Rightarrow>
           if needs = [] then (d, current, Inr [])
           else case pv_usage pv needs of None \<Rightarrow> (d, current, Inl LiveReadFailed)
            | Some usage \<Rightarrow> reserve_in_order pv ids now current usage rid needs d)"

section \<open>After the build\<close>

definition json_int :: "json \<Rightarrow> int option" where
  "json_int j = (case j of JInt i \<Rightarrow> Some i | JStr s \<Rightarrow> py_int s | JBool b \<Rightarrow> Some (if b then 1 else 0) | _ \<Rightarrow> None)"

text \<open>Whether a recorded network is on one of the VLANs; None: its VLAN is not a number.\<close>

definition on_vlans :: "int list \<Rightarrow> json \<Rightarrow> bool option" where
  "on_vlans vlans j = (case jget ''physical_vlan'' j of None \<Rightarrow> Some False | Some JNull \<Rightarrow> Some False
     | Some x \<Rightarrow> map_option (\<lambda>i. i \<in> set vlans) (json_int x))"

definition drop_range_networks :: "uuid \<Rightarrow> int list \<Rightarrow> db \<Rightarrow> db option" where
  "drop_range_networks rid vlans d =
     (case get_range d rid of None \<Rightarrow> Some d
      | Some r \<Rightarrow>
        (case load_output (provisioner_output r) of
           Some (JObj kvs) \<Rightarrow>
             (case map_of kvs ''networks'' of
                Some (JList nets) \<Rightarrow>
                  if list_all (\<lambda>j. on_vlans vlans j \<noteq> None) nets
                  then Some (merge_range_output rid [(''networks'', JList (filter (\<lambda>j. on_vlans vlans j = Some False) nets))] d)
                  else None
              | _ \<Rightarrow> Some d)
         | _ \<Rightarrow> Some d))"

record conflict_report =
  cf_domain :: string
  cf_source :: "string option"
  cf_release :: "int list"
  cf_vlans :: "(int \<times> string) list"

definition release_conflict :: "(nat \<Rightarrow> uuid) \<Rightarrow> time \<Rightarrow> uuid \<Rightarrow> conflict_report \<Rightarrow> db \<Rightarrow> unit outcome" where
  "release_conflict ids now rid c d =
     (let domain = cf_domain c;
          source = (case cf_source c of Some s \<Rightarrow> if s = [] then ''live switch'' else s | None \<Rightarrow> ''live switch'');
          (d1, freed) = drop_range_values rid domain ''vlan'' (map str_int (cf_release c)) d
      in case drop_range_networks rid (cf_release c) d1 of None \<Rightarrow> (d, Inl BadNeed)
       | Some d2 \<Rightarrow>
         (let (d3, taken) = taken_reservation_values domain ''vlan'' d2
          in insert_external_reservations ids domain ''vlan''
               (map (\<lambda>(v, name). (str_int v, EXTERNAL @ source @ '':'' @ name))
                  (filter (\<lambda>(v, name). str_int v \<notin> set taken) (cf_vlans c))) now d d3))"

datatype build_error = RetryBuild | NetworkConflict bool

text \<open>\<open>NetworkConflict kept\<close>: final; \<open>kept\<close> when its reservations could not be released.\<close>

definition build_failure :: "(nat \<Rightarrow> uuid) \<Rightarrow> time \<Rightarrow> uuid \<Rightarrow> conflict_report option \<Rightarrow> db \<Rightarrow> db \<times> build_error" where
  "build_failure ids now rid c d =
     (case c of None \<Rightarrow> (d, RetryBuild)
      | Some report \<Rightarrow>
        if \<not> lock_range_in_state rid provisioning d then (d, NetworkConflict False)
        else case release_conflict ids now rid report d of
          (d1, Inl e) \<Rightarrow> (d, NetworkConflict True)
        | (d1, Inr _) \<Rightarrow> (d1, NetworkConflict False))"

definition release_after_destroy :: "bool \<Rightarrow> uuid \<Rightarrow> db \<Rightarrow> db \<times> nat" where
  "release_after_destroy reachable rid d = (if reachable then release_destroyed_range rid d else (d, 0))"

text \<open>A provisioner's result: the built VMs and networks and the optional parts by name.\<close>

record build_result =
  br_vms :: json
  br_networks :: json
  br_extra :: "(string \<times> json) list"
  br_not_ready :: "string list"
  br_errors :: "string list"
  br_isolation :: "json option"

definition stored_output :: "string \<Rightarrow> uuid \<Rightarrow> build_result \<Rightarrow> json option \<Rightarrow> json" where
  "stored_output backend rid res connection =
     JObj ([(''provider'', JStr backend), (''range_id'', JStr rid), (''vms'', br_vms res), (''networks'', br_networks res)] @
       List.map_filter (\<lambda>k. case map_of (br_extra res) k of Some j \<Rightarrow> if truthy j then Some (k, j) else None | None \<Rightarrow> None)
         [''uplink'', ''mirrors'', ''warnings'', ''not_ready'', ''inventory'', ''isolation''] @
       (case connection of Some (JObj (kv # kvs)) \<Rightarrow> [(''connection'', JObj (kv # kvs))] | _ \<Rightarrow> []))"

definition blocking :: "(json \<Rightarrow> string) \<Rightarrow> json option \<Rightarrow> string option" where
  "blocking text rec =
     (case rec of Some (JObj kvs) \<Rightarrow>
        if map_of kvs ''mode'' \<noteq> Some (JStr ''enforce'') \<or> map_of kvs ''verdict'' = Some (JStr ''isolated'') then None
        else Some (''isolation not proven (RANGE_ISOLATION_CHECK=enforce): '' @
          text (case map_of kvs ''summary'' of Some s \<Rightarrow> if truthy s then s else
              (case map_of kvs ''verdict'' of Some j \<Rightarrow> j | None \<Rightarrow> JNull)
            | None \<Rightarrow> (case map_of kvs ''verdict'' of Some j \<Rightarrow> j | None \<Rightarrow> JNull)))
      | _ \<Rightarrow> None)"

fun joined :: "string \<Rightarrow> string list \<Rightarrow> string" where
  "joined sep [] = []"
| "joined sep [x] = x"
| "joined sep (x # xs) = x @ sep @ joined sep xs"

definition build_outcome :: "(json \<Rightarrow> string) \<Rightarrow> build_result \<Rightarrow> range_state \<times> string option" where
  "build_outcome text res =
     (let names = br_not_ready res in
      if names = [] then (case blocking text (br_isolation res) of Some e \<Rightarrow> (failed, Some e) | None \<Rightarrow> (ready, None))
      else let why = filter (\<lambda>e. list_ex (\<lambda>n. startswith e (''VM '' @ n @ '':'')) names) (br_errors res)
           in (failed, Some (str_nat (length names) @ '' VM(s) built but not ready: '' @
                joined ''; '' (if why = [] then names else why))))"

definition range_state_of :: "uuid \<Rightarrow> db \<Rightarrow> range_state option" where
  "range_state_of rid d = map_option rng_state (get_range d rid)"

datatype stored = Stored | NoLongerReady | Unreadable | Rebuilt | LaterProbe

text \<open>Probe start times are compared as text.\<close>

definition store_isolation :: "(json \<Rightarrow> string) \<Rightarrow> uuid \<Rightarrow> (string \<times> json) list \<Rightarrow>
    string list \<Rightarrow> range_state list \<Rightarrow> db \<Rightarrow> db \<times> stored" where
  "store_isolation text rid rec vm_ids states d =
     (case find_row (\<lambda>r. rng_id r = rid \<and> rng_state r \<in> set states) (ranges d) of None \<Rightarrow> (d, NoLongerReady)
      | Some r \<Rightarrow>
        (case load_output (provisioner_output r) of
           Some (JObj kvs) \<Rightarrow>
             (let vms = (case map_of kvs ''vms'' of Some (JList js) \<Rightarrow> List.map_filter (\<lambda>j. case jget ''vm_id'' j of
                        Some i \<Rightarrow> if truthy i then Some (text i) else None | None \<Rightarrow> None) js | _ \<Rightarrow> []);
                  started = (\<lambda>x. case map_of x ''started_at'' of Some j \<Rightarrow> if truthy j then text j else [] | None \<Rightarrow> []);
                  old = (case map_of kvs ''isolation_reprobe'' of Some (JObj x) \<Rightarrow> x | _ \<Rightarrow> [])
              in if set vms \<noteq> set vm_ids then (d, Rebuilt)
                 else if started rec < started old then (d, LaterProbe)
                 else (put_range rid (\<lambda>r. r\<lparr>provisioner_output := Doc (JObj (dict_set ''isolation_reprobe'' (JObj rec) kvs))\<rparr>) d, Stored))
         | Some _ \<Rightarrow> (d, Unreadable)
         | None \<Rightarrow> (let started = (\<lambda>x. case map_of x ''started_at'' of Some j \<Rightarrow> if truthy j then text j else [] | None \<Rightarrow> [])
             in if vm_ids \<noteq> [] then (d, Rebuilt)
                else if started rec < [] then (d, LaterProbe)
                else (put_range rid (\<lambda>r. r\<lparr>provisioner_output := Doc (JObj [(''isolation_reprobe'', JObj rec)])\<rparr>) d, Stored))))"

section \<open>What a build's reservation keeps\<close>

text \<open>Later reservations of the transaction keep what the range and the others hold.\<close>

lemma record_external_keeps:
  assumes "record_external ids u now d = (d', Inr w)" "inventory_ok d"
  shows "inventory_ok d'" "ranges d' = ranges d"
    "holds d a domain kind h v \<Longrightarrow> a \<notin> set (destroyed_ids d) \<Longrightarrow> holds d' a domain kind h v"
proof -
  define d1 where "d1 = free_destroyed (lu_domain u) (lu_kind u) d"
  define want where "want = wanted_external u (range_held_values d1 (lu_domain u) (lu_kind u))"
  define d4 where "d4 = refresh_external u now want d1"
  obtain rows where d': "flush_rows rows d4 = Some d'"
    using assms(1) unfolding record_external_def Let_def taken_reservation_values_def prod.case
      d1_def [symmetric] want_def [symmetric] d4_def [symmetric]
    by (auto simp: insert_external_reservations_def split: option.splits)
  note f = d' [unfolded flush_rows_Some]
  show "inventory_ok d'" using f by (rule conjunct2)
  have "ranges d' = ranges d4" using conjunct1 [OF f] by simp
  then show "ranges d' = ranges d" by (simp add: d4_def d1_def frame_simps)
  assume h: "holds d a domain kind h v" "a \<notin> set (destroyed_ids d)"
  then obtain r where r: "r \<in> set (network_reservations d1)" "nr_range r = Some a" "in_domain domain kind r" "nr_holder r = h" "nr_value r = v"
    using free_destroyed_holds [of d a domain kind h v] unfolding d1_def holds_def by blast
  have "inventory_ok d1" using assms(2) by (simp add: d1_def free_destroyed_ok)
  then have "still_there r d4" unfolding d4_def using r(1,2) by (intro refresh_keeps) simp_all
  then obtain s where s: "s \<in> set (network_reservations d4)" "s\<lparr>nr_updated := 0\<rparr> = r\<lparr>nr_updated := 0\<rparr>"
    by (auto simp: still_there_def)
  have "nr_range s = nr_range r" "nr_domain s = nr_domain r" "nr_kind s = nr_kind r" "nr_holder s = nr_holder r" "nr_value s = nr_value r"
    using arg_cong [OF s(2), of nr_range] arg_cong [OF s(2), of nr_domain] arg_cong [OF s(2), of nr_kind]
      arg_cong [OF s(2), of nr_holder] arg_cong [OF s(2), of nr_value] by simp_all
  then have "holds d4 a domain kind h v" using s(1) r by (auto simp: holds_def in_domain_def)
  then show "holds d' a domain kind h v" by (rule holds_more) (use d' in \<open>auto simp: flush_rows_Some\<close>)
qed

lemma record_all_keeps:
  assumes "record_all ids now k us d = Some (d', k')" "inventory_ok d"
  shows "inventory_ok d' \<and> ranges d' = ranges d \<and>
    (\<forall>a domain kind h v. holds d a domain kind h v \<longrightarrow> a \<notin> set (destroyed_ids d) \<longrightarrow> holds d' a domain kind h v)"
  using assms
proof (induction us arbitrary: d k)
  case (Cons u us)
  obtain d1 w where r: "record_external (ids k) u now d = (d1, Inr w)" "record_all ids now (k + 1) us d1 = Some (d', k')"
    using Cons.prems(1) by (auto split: prod.splits sum.splits)
  note e = record_external_keeps [OF r(1) Cons.prems(2)]
  have "destroyed_ids d1 = destroyed_ids d" using e(2) by (simp add: destroyed_ids_def)
  then show ?case using Cons.IH [OF r(2) e(1)] e(2,3) by simp
qed simp

lemma reserve_values_keeps:
  assumes "reserve_values ids now prune excl rid domain kind pool hs d = (d', Inr got)"
    and "holds d a dom2 kind2 h v" "a \<notin> set (destroyed_ids d)" "a \<noteq> rid \<or> kind2 \<noteq> kind"
  shows "holds d' a dom2 kind2 h v"
proof -
  let ?p = "prune_stale prune rid kind hs d"
  have p: "holds ?p a dom2 kind2 h v" using assms(2,4) by (auto simp: holds_def prune_stale_rows in_domain_def)
  have q: "holds (free_destroyed domain kind ?p) a dom2 kind2 h v"
    using p assms(3) by (intro free_destroyed_holds) (simp_all add: frame_simps)
  from assms(1) show ?thesis
  proof (cases rule: reserve_values_cases)
    case (reserved mine needed free rng)
    then show ?thesis using q by (auto simp: flush_rows_Some intro: holds_more)
  qed (use p in simp_all)
qed

text \<open>What a need got: a value per holder, held by the range, under its key.\<close>

definition met :: "db \<Rightarrow> uuid \<Rightarrow> allocations \<Rightarrow> need \<Rightarrow> bool" where
  "met d rid al n = (\<exists>got a. map fst got = dict_fromkeys (nd_holders n) \<and>
     (\<forall>(h, v) \<in> set got. holds d rid (nd_domain n) (nd_kind n) h v) \<and> allocation_of n got = Some a \<and> map_of al (nd_key n) = Some a)"

lemma live_range_cong: "ranges d' = ranges d \<Longrightarrow> live_range d' r = live_range d r"
  by (simp add: live_range_def get_range_def destroyed_ids_def)

lemma reserve_needs_spec:
  assumes "reserve_needs ids now usage (rng_id rng) k ns acc d = (d', Inr al)" "inventory_ok d" "live_range d rng"
    and "distinct (map nd_kind ns)" "distinct (map nd_key ns)"
  shows "inventory_ok d' \<and> ranges d' = ranges d \<and>
    (\<forall>a dom knd h v. holds d a dom knd h v \<longrightarrow> a \<notin> set (destroyed_ids d) \<longrightarrow> a \<noteq> rng_id rng \<or> knd \<notin> nd_kind ` set ns \<longrightarrow> holds d' a dom knd h v) \<and>
    (\<forall>key. key \<notin> nd_key ` set ns \<longrightarrow> map_of al key = map_of acc key) \<and> (\<forall>n \<in> set ns. met d' (rng_id rng) al n)"
  using assms
proof (induction ns arbitrary: d k acc)
  case (Cons n ns)
  obtain d1 k1 d2 got a where s: "record_all ids now k (filter (\<lambda>u. lu_domain u = nd_domain n \<and> lu_kind u = nd_kind n) usage) d = Some (d1, k1)"
    "reserve_values (ids k1) now True (nd_excluded n) (rng_id rng) (nd_domain n) (nd_kind n) (nd_pool n) (nd_holders n) d1 = (d2, Inr got)"
    "allocation_of n got = Some a" "reserve_needs ids now usage (rng_id rng) (k1 + 1) ns (dict_set (nd_key n) a acc) d2 = (d', Inr al)"
    using Cons.prems(1) by (auto split: option.splits prod.splits sum.splits)
  have r1: "inventory_ok d1" "ranges d1 = ranges d"
    and k1: "\<And>b dom knd h v. holds d b dom knd h v \<Longrightarrow> b \<notin> set (destroyed_ids d) \<Longrightarrow> holds d1 b dom knd h v"
    using record_all_keeps [OF s(1) Cons.prems(2)] by blast+
  have live1: "live_range d1 rng" using Cons.prems(3) r1(2) live_range_cong by blast
  have r2: "inventory_ok d2" "ranges d2 = ranges d"
    using worker_reserve.alloc_ok [OF r1(1) s(2)] worker_reserve.alloc_ranges [OF s(2)] r1(2) by simp_all
  have live2: "live_range d2 rng" using Cons.prems(3) r2(2) live_range_cong by blast
  have des: "destroyed_ids d1 = destroyed_ids d" "destroyed_ids d2 = destroyed_ids d" "rng_id rng \<notin> set (destroyed_ids d)"
    using r1(2) r2(2) Cons.prems(3) by (simp_all add: destroyed_ids_def live_range_def)
  have ih: "inventory_ok d'" "ranges d' = ranges d2"
    and keep: "\<And>b dom knd h v. holds d2 b dom knd h v \<Longrightarrow> b \<notin> set (destroyed_ids d) \<Longrightarrow> b \<noteq> rng_id rng \<or> knd \<notin> nd_kind ` set ns \<Longrightarrow> holds d' b dom knd h v"
    and keys: "\<And>key. key \<notin> nd_key ` set ns \<Longrightarrow> map_of al key = map_of (dict_set (nd_key n) a acc) key"
    and rest: "\<And>m. m \<in> set ns \<Longrightarrow> met d' (rng_id rng) al m"
    using Cons.IH [OF s(4) r2(1) live2] Cons.prems(4,5) des by simp_all
  have "holds d' (rng_id rng) (nd_domain n) (nd_kind n) h v" if "(h, v) \<in> set got" for h v
    using keep [OF worker_reserve.alloc_gives [OF r1(1) live1 s(2) that]] des(3) Cons.prems(4) by simp
  moreover have "map_of al (nd_key n) = Some a" using keys [of "nd_key n"] Cons.prems(5) by simp
  ultimately have "met d' (rng_id rng) al n"
    using worker_reserve.alloc_names [OF s(2)] s(3) unfolding met_def by blast
  moreover have "holds d' b dom knd h v"
    if "holds d b dom knd h v" "b \<notin> set (destroyed_ids d)" "b \<noteq> rng_id rng \<or> knd \<notin> nd_kind ` set (n # ns)" for b dom knd h v
    using keep reserve_values_keeps [OF s(2) k1 [OF that(1,2)]] that(2,3) des by auto
  moreover have "map_of al key = map_of acc key" if "key \<notin> nd_key ` set (n # ns)" for key
    using keys [of key] that by simp
  ultimately show ?case using ih r2 rest by auto
qed simp

lemma merge_output_frame:
  "network_reservations (merge_range_output rid u d) = network_reservations d"
  by (simp add: merge_range_output_def put_range_def)

lemma reserve_in_order_spec:
  assumes "reserve_in_order pv ids now current usage (rng_id rng) needs d = (d', cur, r)" "inventory_ok d" "live_range d rng"
    and "distinct (map nd_kind needs)" "distinct (map nd_key needs)"
  shows "case r of Inl e \<Rightarrow> d' = d
    | Inr al \<Rightarrow> lock_range_in_state (rng_id rng) provisioning d \<and> snd (ensure_held current (rng_id rng) d) \<and> inventory_ok d' \<and>
        (\<forall>n \<in> set needs. met d' (rng_id rng) al n) \<and>
        (\<forall>a dom knd h v. holds d a dom knd h v \<and> a \<noteq> rng_id rng \<and> a \<notin> set (destroyed_ids d) \<longrightarrow> holds d' a dom knd h v)"
proof (cases "lock_range_in_state (rng_id rng) provisioning d")
  case False
  then show ?thesis using assms(1) by (auto simp: reserve_in_order_def)
next
  case locked: True
  obtain c b where eh: "ensure_held current (rng_id rng) d = (c, b)" by (cases "ensure_held current (rng_id rng) d")
  define ns where "ns = sort_key (\<lambda>n. lock_key (nd_domain n) (nd_kind n)) needs"
  obtain d1 q where rn: "reserve_needs ids now usage (rng_id rng) 0 ns [] d = (d1, q)"
    by (cases "reserve_needs ids now usage (rng_id rng) 0 ns [] d")
  note e = assms(1) [unfolded reserve_in_order_def eh ns_def [symmetric] rn prod.case Let_def]
  show ?thesis
  proof (cases "b \<and> (\<exists>al. q = Inr al)")
    case False
    then show ?thesis using e locked by (cases q; cases b) auto
  next
    case True
    then obtain al where al: "q = Inr al" b by blast
    have ns: "set ns = set needs" "distinct (map nd_kind ns)" "distinct (map nd_key ns)"
      using assms(4,5) by (simp_all add: ns_def distinct_map)
    note spec = reserve_needs_spec [OF rn [unfolded al(1)] assms(2,3) ns(2,3)]
    have d': "network_reservations d' = network_reservations d1" "r = Inr al"
      using e locked al merge_output_frame by (auto split: if_splits)
    have h: "holds d' = holds d1" "inventory_ok d' = inventory_ok d1"
      by (simp_all add: fun_eq_iff holds_def inventory_ok_def d'(1))
    have m: "met d' = met d1" by (simp add: fun_eq_iff met_def h(1))
    show ?thesis using spec locked eh al(2) unfolding d'(2) ns(1) h m by auto
  qed
qed

text \<open>C36: A build gets its reservation only while its range is provisioning and its execution holds the
  lease, and then every need is met: one value per holder, held by the range in that domain. The
  table keeps its constraints, so no other range holds any of these values, and what other live
  ranges hold is untouched. A build that is refused reserves nothing.\<close>

theorem build_reservation_sound:
  assumes "reserve_for_build st pv ids now current rid template d = (d', cur, r)" "inventory_ok d"
    and "get_range d rid = Some rng" "rng_state rng \<noteq> destroyed" "distinct (map rng_id (ranges d))"
    and "pv_needs pv rid template = Some needs" "distinct (map nd_kind needs)" "distinct (map nd_key needs)" "needs \<noteq> []"
  shows "case r of Inl e \<Rightarrow> d' = d
    | Inr al \<Rightarrow> rng_state rng = provisioning \<and> snd (ensure_held current rid d) \<and> inventory_ok d' \<and>
        (\<forall>n \<in> set needs. met d' rid al n) \<and>
        (\<forall>a dom knd h v. holds d a dom knd h v \<and> a \<noteq> rid \<and> a \<notin> set (destroyed_ids d) \<longrightarrow> holds d' a dom knd h v) \<and>
        (\<forall>a dom knd h g v. holds d' rid dom knd h v \<and> holds d' a dom knd g v \<longrightarrow> a = rid)"
proof -
  have id: "rng_id rng = rid" and mem: "rng \<in> set (ranges d)" using get_range_SomeD [OF assms(3)] by auto
  have uniq: "x = rng" if "x \<in> set (ranges d)" "rng_id x = rid" for x
    using that assms(5) mem id by (auto simp: distinct_map inj_on_def)
  have live: "live_range d rng"
    using assms(3,4) id uniq by (auto simp: live_range_def destroyed_ids_def)
  have locked: "lock_range_in_state rid provisioning d \<Longrightarrow> rng_state rng = provisioning"
    using uniq by (auto simp: lock_range_in_state_def list_ex_iff)
  consider (refused) e where "r = Inl e" "d' = d" | (tried) usage where "reserve_in_order pv ids now current usage rid needs d = (d', cur, r)"
    using assms(1,9) unfolding reserve_for_build_def assms(6) by (auto split: option.splits if_splits)
  then show ?thesis
  proof cases
    case tried
    have u: "inventory_ok d' \<Longrightarrow> holds d' rid dom knd h v \<Longrightarrow> holds d' a dom knd g v \<Longrightarrow> a = rid" for a dom knd h g v
      using holds_value_unique by blast
    show ?thesis
      using reserve_in_order_spec [OF tried [folded id] assms(2) live assms(7,8)] locked u unfolding id
      by (auto split: sum.splits)
  qed simp
qed

definition sample_need :: need where
  "sample_need = \<lparr>nd_key = ''vlans'', nd_kind = ''vlan'', nd_domain = ''dvs:lab'', nd_pool = [''100'', ''101'', ''102''],
     nd_holders = [''lan'', ''dmz''], nd_single = False, nd_excluded = [''100'']\<rparr>"

definition sample_provisioner :: provisioner where
  "sample_provisioner = \<lparr>pv_needs = (\<lambda>_ _. Some [sample_need]), pv_usage = (\<lambda>_. Some []), pv_planned = (\<lambda>_ _. [])\<rparr>"

definition sample_build :: "db \<times> exec option \<times> (alloc_error + allocations)" where
  "sample_build = reserve_for_build \<lparr>ns_v6 = (\<lambda>_. None), ns_text = (\<lambda>_. []), ns_reserved = ''10.30.32.0/24''\<rparr> sample_provisioner
     (\<lambda>k i. str_nat i) 5 None ''r'' [] (empty_db\<lparr>ranges := [sample_range ''r'' provisioning]\<rparr>)"

theorem build_reservation_sound_witness:
  "inventory_ok (fst sample_build) \<and>
   met (fst sample_build) ''r'' [(''vlans'', Many [(''lan'', ''101''), (''dmz'', ''102'')])] sample_need"
proof -
  let ?d = "empty_db\<lparr>ranges := [sample_range ''r'' provisioning]\<rparr>"
  have r: "snd (snd sample_build) = Inr [(''vlans'', Many [(''lan'', ''101''), (''dmz'', ''102'')])]" by code_simp
  have e: "sample_build = (fst sample_build, fst (snd sample_build), snd (snd sample_build))" by simp
  have "inventory_ok ?d" by (simp add: empty_db_def inventory_ok_def reservations_ok_def uq_value_def uq_holder_def)
  moreover have "get_range ?d ''r'' = Some (sample_range ''r'' provisioning)" by code_simp
  moreover have "rng_state (sample_range ''r'' provisioning) \<noteq> destroyed" "distinct (map rng_id (ranges ?d))"
    by (simp_all add: sample_range_def)
  moreover have "pv_needs sample_provisioner ''r'' [] = Some [sample_need]" by (simp add: sample_provisioner_def)
  moreover have "distinct (map nd_kind [sample_need])" "distinct (map nd_key [sample_need])" "[sample_need] \<noteq> []" by simp_all
  ultimately have "case snd (snd sample_build) of Inl e \<Rightarrow> fst sample_build = ?d
    | Inr al \<Rightarrow> rng_state (sample_range ''r'' provisioning) = provisioning \<and> snd (ensure_held None ''r'' ?d) \<and> inventory_ok (fst sample_build) \<and>
        (\<forall>n \<in> set [sample_need]. met (fst sample_build) ''r'' al n) \<and>
        (\<forall>a dom knd h v. holds ?d a dom knd h v \<and> a \<noteq> ''r'' \<and> a \<notin> set (destroyed_ids ?d) \<longrightarrow> holds (fst sample_build) a dom knd h v) \<and>
        (\<forall>a dom knd h g v. holds (fst sample_build) ''r'' dom knd h v \<and> holds (fst sample_build) a dom knd g v \<longrightarrow> a = ''r'')"
    by (rule build_reservation_sound [OF trans [OF sample_build_def [symmetric] e]])
  then show ?thesis unfolding r sum.case by simp
qed

end
