(* ===== verification/Circuit_Breaker.thy ===== *)
theory Circuit_Breaker
  imports Prelude
begin

text \<open>
  \<^verbatim>\<open>app/circuit_breaker.py\<close>. Each section under the breaker's lock is one operation: the admission
  of a call, and the accounting of its failure or success when it ends. Calls overlap, so a run is
  any sequence of these. Times are integers (the monotonic clock).
\<close>

section \<open>The breaker\<close>

datatype circuit_state = cs_closed | cs_open | cs_half_open

record breaker =
  failure_threshold :: nat
  recovery_timeout :: int
  success_threshold :: nat
  cb_state :: circuit_state
  failure_count :: nat
  success_count :: nat
  last_failure_time :: int

definition new_breaker :: "nat \<Rightarrow> int \<Rightarrow> nat \<Rightarrow> breaker" where
  "new_breaker ft rt st = \<lparr>failure_threshold = ft, recovery_timeout = rt, success_threshold = st, cb_state = cs_closed,
     failure_count = 0, success_count = 0, last_failure_time = 0\<rparr>"

text \<open>The admission; \<open>Inl\<close> is \<^verbatim>\<open>CircuitOpenError\<close> with its retry time.\<close>

definition admit :: "int \<Rightarrow> breaker \<Rightarrow> breaker \<times> (int + unit)" where
  "admit now b =
     (if cb_state b = cs_open then
        (let elapsed = now - last_failure_time b in
         if elapsed < recovery_timeout b then (b, Inl (recovery_timeout b - elapsed))
         else (b\<lparr>cb_state := cs_half_open, success_count := 0\<rparr>, Inr ()))
      else (b, Inr ()))"

definition on_failure :: "int \<Rightarrow> breaker \<Rightarrow> breaker" where
  "on_failure now b =
     (let b1 = b\<lparr>failure_count := failure_count b + 1, last_failure_time := now\<rparr> in
      if cb_state b1 = cs_half_open then b1\<lparr>cb_state := cs_open\<rparr>
      else if cb_state b1 = cs_closed \<and> failure_threshold b1 \<le> failure_count b1 then b1\<lparr>cb_state := cs_open\<rparr>
      else b1)"

definition on_success :: "breaker \<Rightarrow> breaker" where
  "on_success b =
     (if cb_state b = cs_half_open then
        (let b1 = b\<lparr>success_count := success_count b + 1\<rparr> in
         if success_threshold b1 \<le> success_count b1 then b1\<lparr>cb_state := cs_closed, failure_count := 0\<rparr> else b1)
      else if cb_state b = cs_closed then b\<lparr>failure_count := 0\<rparr>
      else b)"

definition reset :: "breaker \<Rightarrow> breaker" where
  "reset b = b\<lparr>cb_state := cs_closed, failure_count := 0, success_count := 0\<rparr>"

text \<open>A call that nothing overlaps: admitted at \<open>t0\<close>, ended at \<open>t1\<close>.\<close>

definition call :: "int \<Rightarrow> int \<Rightarrow> bool \<Rightarrow> breaker \<Rightarrow> breaker \<times> bool" where
  "call t0 t1 ok b = (case admit t0 b of (b1, Inl _) \<Rightarrow> (b1, False)
     | (b1, Inr _) \<Rightarrow> (if ok then on_success b1 else on_failure t1 b1, True))"

definition keycloak_breaker :: breaker where
  "keycloak_breaker = new_breaker 5 30 2"

definition opensearch_breaker :: breaker where
  "opensearch_breaker = new_breaker 5 15 2"

definition proxmox_breaker :: breaker where
  "proxmox_breaker = new_breaker 3 60 2"

section \<open>Runs\<close>

datatype breaker_event = Admit int | Failed_at int | Succeeded_call | Reset

fun event :: "breaker_event \<Rightarrow> breaker \<Rightarrow> breaker" where
  "event (Admit t) b = fst (admit t b)"
| "event (Failed_at t) b = on_failure t b"
| "event Succeeded_call b = on_success b"
| "event Reset b = reset b"

definition breaker_run :: "breaker_event list \<Rightarrow> breaker \<Rightarrow> breaker" where
  "breaker_run es b = foldl (\<lambda>b e. event e b) b es"

definition breaker_ok :: "breaker \<Rightarrow> bool" where
  "breaker_ok b = (case cb_state b of cs_closed \<Rightarrow> failure_count b < failure_threshold b
     | cs_half_open \<Rightarrow> success_count b < success_threshold b | cs_open \<Rightarrow> True)"

definition same_limits :: "breaker \<Rightarrow> breaker \<Rightarrow> bool" where
  "same_limits b c = (failure_threshold b = failure_threshold c \<and> recovery_timeout b = recovery_timeout c \<and>
     success_threshold b = success_threshold c)"

lemmas breaker_defs = admit_def on_failure_def on_success_def reset_def Let_def

lemma event_limits: "same_limits (event e b) b"
  by (cases e) (simp_all add: breaker_defs same_limits_def)

lemma event_ok:
  assumes "breaker_ok b" "1 \<le> failure_threshold b" "1 \<le> success_threshold b"
  shows "breaker_ok (event e b)"
  using assms by (cases e; cases "cb_state b") (auto simp: breaker_defs breaker_ok_def)

lemma run_ok:
  assumes "breaker_ok b" "1 \<le> failure_threshold b" "1 \<le> success_threshold b"
  shows "breaker_ok (breaker_run es b) \<and> same_limits (breaker_run es b) b"
  using assms
proof (induction es arbitrary: b)
  case (Cons e es)
  have l: "same_limits (event e b) b" by (rule event_limits)
  then have "1 \<le> failure_threshold (event e b)" "1 \<le> success_threshold (event e b)"
    using Cons.prems by (simp_all add: same_limits_def)
  from Cons.IH [OF event_ok [OF Cons.prems] this] show ?case using l by (simp add: breaker_run_def same_limits_def)
qed (simp add: breaker_run_def same_limits_def)

text \<open>The reference: the trailing run of failures, and whether one ever reached the threshold.\<close>

definition streak :: "bool list \<Rightarrow> nat" where
  "streak oks = length (takeWhile (\<lambda>ok. \<not> ok) (rev oks))"

definition tripped :: "nat \<Rightarrow> bool list \<Rightarrow> bool" where
  "tripped ft oks = (\<exists>i. i + ft \<le> length oks \<and> (\<forall>j < ft. \<not> oks ! (i + j)))"

lemma takeWhile_ge: "n \<le> length (takeWhile P xs) \<longleftrightarrow> n \<le> length xs \<and> (\<forall>k < n. P (xs ! k))"
proof (induction xs arbitrary: n)
  case (Cons x xs)
  show ?case
  proof (cases n)
    case (Suc m)
    then show ?thesis using Cons.IH [of m] by (auto simp: All_less_Suc2)
  qed simp
qed auto

lemma streak_ge: "n \<le> streak oks \<longleftrightarrow> n \<le> length oks \<and> (\<forall>j < n. \<not> oks ! (length oks - n + j))"
proof (cases "n \<le> length oks")
  case True
  have "(\<forall>k < n. \<not> rev oks ! k) \<longleftrightarrow> (\<forall>j < n. \<not> oks ! (length oks - n + j))"
  proof (intro iffI allI impI)
    fix j assume a: "\<forall>k < n. \<not> rev oks ! k" "j < n"
    then have "\<not> rev oks ! (n - 1 - j)" by simp
    moreover have "length oks - Suc (n - 1 - j) = length oks - n + j" using True a(2) by simp
    ultimately show "\<not> oks ! (length oks - n + j)" using True a(2) by (simp add: rev_nth)
  next
    fix k assume a: "\<forall>j < n. \<not> oks ! (length oks - n + j)" "k < n"
    have "n - 1 - k < n" using a(2) by simp
    then have "\<not> oks ! (length oks - n + (n - 1 - k))" using a(1) by blast
    moreover have "length oks - n + (n - 1 - k) = length oks - Suc k" using True a(2) by simp
    ultimately show "\<not> rev oks ! k" using True a(2) by (simp add: rev_nth)
  qed
  then show ?thesis using True by (simp add: streak_def takeWhile_ge)
next
  case False
  then show ?thesis using length_takeWhile_le [of _ "rev oks"] by (auto simp: streak_def intro: order_trans)
qed

lemma tripped_snoc: "tripped n (oks @ [x]) \<longleftrightarrow> tripped n oks \<or> n \<le> streak (oks @ [x])"
proof
  assume "tripped n (oks @ [x])"
  then obtain i where i: "i + n \<le> Suc (length oks)" "\<forall>j < n. \<not> (oks @ [x]) ! (i + j)" by (auto simp: tripped_def)
  show "tripped n oks \<or> n \<le> streak (oks @ [x])"
  proof (cases "i + n \<le> length oks")
    case True
    then have "\<forall>j < n. \<not> oks ! (i + j)" using i(2) by (auto simp: nth_append)
    then show ?thesis using True by (auto simp: tripped_def)
  next
    case False
    then have "i = length (oks @ [x]) - n" "n \<le> length (oks @ [x])" using i(1) by simp_all
    then show ?thesis using i(2) by (simp add: streak_ge)
  qed
next
  assume "tripped n oks \<or> n \<le> streak (oks @ [x])"
  then show "tripped n (oks @ [x])"
  proof
    assume "tripped n oks"
    then obtain i where "i + n \<le> length oks" "\<forall>j < n. \<not> oks ! (i + j)" by (auto simp: tripped_def)
    then show ?thesis unfolding tripped_def by (intro exI [of _ i]) (auto simp: nth_append)
  next
    assume "n \<le> streak (oks @ [x])"
    then have "n \<le> length (oks @ [x]) \<and> (\<forall>j < n. \<not> (oks @ [x]) ! (length (oks @ [x]) - n + j))" by (rule iffD1 [OF streak_ge])
    then show ?thesis unfolding tripped_def by (intro exI [of _ "length (oks @ [x]) - n"] conjI) (simp, blast)
  qed
qed

lemma streak_snoc: "streak (oks @ [x]) = (if x then 0 else Suc (streak oks))"
  by (simp add: streak_def)

definition outcome_event :: "bool \<times> int \<Rightarrow> breaker_event" where
  "outcome_event x = (if fst x then Succeeded_call else Failed_at (snd x))"

lemma run_snoc: "breaker_run (es @ [e]) b = event e (breaker_run es b)"
  by (simp add: breaker_run_def)

lemma run_outcomes:
  assumes "1 \<le> ft"
  shows "failure_threshold (breaker_run (map outcome_event xs) (new_breaker ft rt st)) = ft \<and>
    (if tripped ft (map fst xs) then cb_state (breaker_run (map outcome_event xs) (new_breaker ft rt st)) = cs_open
     else cb_state (breaker_run (map outcome_event xs) (new_breaker ft rt st)) = cs_closed \<and>
       failure_count (breaker_run (map outcome_event xs) (new_breaker ft rt st)) = streak (map fst xs))"
proof (induction xs rule: rev_induct)
  case Nil
  then show ?case using assms by (simp add: breaker_run_def new_breaker_def tripped_def streak_def)
next
  case (snoc x xs)
  define b where "b = breaker_run (map outcome_event xs) (new_breaker ft rt st)"
  have step: "breaker_run (map outcome_event (xs @ [x])) (new_breaker ft rt st) = event (outcome_event x) b"
    by (simp add: run_snoc b_def)
  note ih = snoc [folded b_def]
  show ?case
  proof (cases "tripped ft (map fst xs)")
    case True
    then show ?thesis unfolding step using ih
      by (cases "fst x") (simp_all add: outcome_event_def breaker_defs tripped_snoc)
  next
    case False
    then show ?thesis unfolding step using ih assms
      by (cases "fst x") (simp_all add: outcome_event_def breaker_defs tripped_snoc streak_snoc)
  qed
qed

lemma recover:
  assumes "cb_state b = cs_half_open" "success_count b + n = success_threshold b" "1 \<le> n"
  shows "cb_state (breaker_run (replicate n Succeeded_call) b) = cs_closed \<and>
    failure_count (breaker_run (replicate n Succeeded_call) b) = 0"
  using assms
proof (induction n arbitrary: b)
  case (Suc n)
  show ?case
  proof (cases n)
    case 0
    then show ?thesis using Suc.prems by (simp add: breaker_run_def breaker_defs)
  next
    case (Suc m)
    have "cb_state (on_success b) = cs_half_open" "success_count (on_success b) + n = success_threshold (on_success b)"
      using Suc.prems Suc by (simp_all add: breaker_defs)
    from Suc.IH [OF this] show ?thesis using Suc by (simp add: breaker_run_def)
  qed
qed simp



end
