(* ===== verification/Redis_Lock.thy ===== *)
theory Redis_Lock
  imports Prelude
begin

text \<open>
  \<^verbatim>\<open>worker/redis_lock.py\<close>: the lock a periodic sweep takes in Redis. The store keeps one key: a token
  and when it expires; a script runs atomically. \<open>reachable\<close> says whether the call got through; a
  holder that was killed just takes no further step. The renewal thread is the \<open>renew\<close> steps.
\<close>

section \<open>Redis\<close>

type_synonym store = "(string \<times> int) option"

definition redis_get :: "int \<Rightarrow> store \<Rightarrow> string option" where
  "redis_get now s = (case s of Some (t, e) \<Rightarrow> if now < e then Some t else None | None \<Rightarrow> None)"

text \<open>\<^verbatim>\<open>SET key token NX PX ttl\<close>, and the two compare-and-act scripts.\<close>

definition set_nx_px :: "int \<Rightarrow> string \<Rightarrow> int \<Rightarrow> store \<Rightarrow> store \<times> bool" where
  "set_nx_px now token ttl s = (if redis_get now s = None then (Some (token, now + ttl), True) else (s, False))"

definition RENEW :: "int \<Rightarrow> string \<Rightarrow> int \<Rightarrow> store \<Rightarrow> store \<times> bool" where
  "RENEW now token ttl s = (if redis_get now s = Some token then (Some (token, now + ttl), True) else (s, False))"

definition RELEASE :: "int \<Rightarrow> string \<Rightarrow> store \<Rightarrow> store \<times> bool" where
  "RELEASE now token s = (if redis_get now s = Some token then (None, True) else (s, False))"

section \<open>The lock\<close>

record redis_lock =
  lk_token :: string
  lk_ttl :: int
  lk_held :: bool
  lk_lost :: bool

definition new_lock :: "string \<Rightarrow> int \<Rightarrow> redis_lock" where
  "new_lock token ttl = \<lparr>lk_token = token, lk_ttl = ttl, lk_held = False, lk_lost = False\<rparr>"

definition lock_acquire :: "bool \<Rightarrow> int \<Rightarrow> redis_lock \<Rightarrow> store \<Rightarrow> store \<times> redis_lock \<times> bool" where
  "lock_acquire reachable now l s =
     (if \<not> reachable then (s, l\<lparr>lk_held := False\<rparr>, False)
      else let (s1, ok) = set_nx_px now (lk_token l) (lk_ttl l) s in (s1, l\<lparr>lk_held := ok\<rparr>, ok))"

definition lock_renew :: "bool \<Rightarrow> int \<Rightarrow> redis_lock \<Rightarrow> store \<Rightarrow> store \<times> redis_lock \<times> bool" where
  "lock_renew reachable now l s =
     (if \<not> reachable then (s, l, True)
      else let (s1, ok) = RENEW now (lk_token l) (lk_ttl l) s in (s1, if ok then l else l\<lparr>lk_lost := True\<rparr>, ok))"

definition lock_release :: "bool \<Rightarrow> int \<Rightarrow> redis_lock \<Rightarrow> store \<Rightarrow> store \<times> redis_lock \<times> bool" where
  "lock_release reachable now l s =
     (if \<not> lk_held l then (s, l, False)
      else if \<not> reachable then (s, l\<lparr>lk_held := False\<rparr>, False)
      else let (s1, ok) = RELEASE now (lk_token l) s in (s1, l\<lparr>lk_held := False\<rparr>, ok))"

section \<open>Holders and the clock\<close>

text \<open>Every holder so far, with the time Redis last confirmed its key to it.\<close>

record sweep_world =
  sw_store :: store
  sw_now :: int
  sw_locks :: "(redis_lock \<times> int) list"

inductive sweep_step :: "sweep_world \<Rightarrow> sweep_world \<Rightarrow> bool" where
  l_tick: "sw_now w \<le> t \<Longrightarrow> sweep_step w (w\<lparr>sw_now := t\<rparr>)"
| l_enter: "token \<notin> (lk_token \<circ> fst) ` set (sw_locks w) \<Longrightarrow> (\<forall>e. sw_store w \<noteq> Some (token, e)) \<Longrightarrow> 0 < ttl \<Longrightarrow>
    lock_acquire reachable (sw_now w) (new_lock token ttl) (sw_store w) = (s, l, ok) \<Longrightarrow>
    sweep_step w (w\<lparr>sw_store := s, sw_locks := (l, sw_now w) # sw_locks w\<rparr>)"
| l_renew: "sw_locks w = as @ (l, c) # bs \<Longrightarrow> lk_held l \<Longrightarrow>
    lock_renew reachable (sw_now w) l (sw_store w) = (s, l', ok) \<Longrightarrow>
    sweep_step w (w\<lparr>sw_store := s, sw_locks := as @ (l', if reachable \<and> ok then sw_now w else c) # bs\<rparr>)"
| l_exit: "sw_locks w = as @ (l, c) # bs \<Longrightarrow> lock_release reachable (sw_now w) l (sw_store w) = (s, l', ok) \<Longrightarrow>
    sweep_step w (w\<lparr>sw_store := s, sw_locks := as @ (l', c) # bs\<rparr>)"

text \<open>A holder confirmed less than its time-to-live ago has its token in the store, to the end of
  that time at least.\<close>

definition confirmed :: "sweep_world \<Rightarrow> redis_lock \<times> int \<Rightarrow> bool" where
  "confirmed w x = (lk_held (fst x) \<and> sw_now w < snd x + lk_ttl (fst x))"

definition locks_ok :: "sweep_world \<Rightarrow> bool" where
  "locks_ok w = (distinct (map (lk_token \<circ> fst) (sw_locks w)) \<and>
     (\<forall>x \<in> set (sw_locks w). snd x \<le> sw_now w \<and> 0 < lk_ttl (fst x) \<and>
       (confirmed w x \<longrightarrow> sw_store w = Some (lk_token (fst x), snd x + lk_ttl (fst x)))))"

lemma locks_okD:
  assumes "locks_ok w" "x \<in> set (sw_locks w)"
  shows "snd x \<le> sw_now w" "0 < lk_ttl (fst x)"
    "confirmed w x \<Longrightarrow> sw_store w = Some (lk_token (fst x), snd x + lk_ttl (fst x))"
  using assms by (simp_all add: locks_ok_def)

text \<open>While a holder is confirmed the store answers with its token.\<close>

lemma confirmed_get: "locks_ok w \<Longrightarrow> x \<in> set (sw_locks w) \<Longrightarrow> confirmed w x \<Longrightarrow> redis_get (sw_now w) (sw_store w) = Some (lk_token (fst x))"
  using locks_okD(3) by (simp add: redis_get_def confirmed_def)

lemma enter_ok:
  assumes "locks_ok w" "token \<notin> (lk_token \<circ> fst) ` set (sw_locks w)" "0 < ttl"
    and "lock_acquire reachable (sw_now w) (new_lock token ttl) (sw_store w) = (s, l, ok)"
  shows "locks_ok (w\<lparr>sw_store := s, sw_locks := (l, sw_now w) # sw_locks w\<rparr>)"
proof -
  let ?w = "w\<lparr>sw_store := s, sw_locks := (l, sw_now w) # sw_locks w\<rparr>"
  have l: "lk_token l = token" "lk_ttl l = ttl" "lk_held l = ok"
    using assms(4) by (auto simp: lock_acquire_def new_lock_def set_nx_px_def Let_def split: if_splits)
  have ok: "ok \<Longrightarrow> s = Some (token, sw_now w + ttl) \<and> redis_get (sw_now w) (sw_store w) = None"
    and no: "\<not> ok \<Longrightarrow> s = sw_store w"
    using assms(4) by (auto simp: lock_acquire_def new_lock_def set_nx_px_def Let_def split: if_splits)
  have "s = Some (lk_token (fst x), snd x + lk_ttl (fst x))" if "x \<in> set (sw_locks w)" "confirmed ?w x" for x
  proof -
    have c: "confirmed w x" using that(2) by (simp add: confirmed_def)
    then have "\<not> ok" using ok confirmed_get [OF assms(1) that(1)] by auto
    then show ?thesis using no locks_okD(3) [OF assms(1) that(1) c] by simp
  qed
  then show ?thesis using assms(1-3) l ok by (auto simp: locks_ok_def confirmed_def)
qed

text \<open>A step of the holder at one place of the list, the others as they were.\<close>

lemma replaced_ok:
  assumes "locks_ok w" "sw_locks w = as @ (l, c) # bs" "lk_token l' = lk_token l" "lk_ttl l' = lk_ttl l" "c' \<le> sw_now w"
    and own: "lk_held l' \<Longrightarrow> sw_now w < c' + lk_ttl l' \<Longrightarrow> s = Some (lk_token l', c' + lk_ttl l')"
    and others: "redis_get (sw_now w) (sw_store w) \<noteq> Some (lk_token l) \<Longrightarrow> s = sw_store w"
  shows "locks_ok (w\<lparr>sw_store := s, sw_locks := as @ (l', c') # bs\<rparr>)"
proof -
  let ?w = "w\<lparr>sw_store := s, sw_locks := as @ (l', c') # bs\<rparr>"
  have "s = Some (lk_token (fst x), snd x + lk_ttl (fst x))" if x: "x \<in> set as \<union> set bs" "confirmed ?w x" for x
  proof -
    have m: "x \<in> set (sw_locks w)" using x(1) assms(2) by auto
    have c: "confirmed w x" using x(2) by (simp add: confirmed_def)
    have "distinct (map (lk_token \<circ> fst) (as @ (l, c) # bs))" using assms(1,2) by (simp add: locks_ok_def)
    then have "lk_token l \<notin> (lk_token \<circ> fst) ` (set as \<union> set bs)" by auto
    then have "lk_token (fst x) \<noteq> lk_token l" using x(1) by (metis comp_apply imageI)
    then have "s = sw_store w" using others confirmed_get [OF assms(1) m c] by simp
    then show ?thesis using locks_okD(3) [OF assms(1) m c] by simp
  qed
  moreover have "confirmed ?w (l', c') \<Longrightarrow> s = Some (lk_token l', c' + lk_ttl l')" using own by (simp add: confirmed_def)
  moreover have "snd x \<le> sw_now w \<and> 0 < lk_ttl (fst x)" if "x \<in> set as \<union> set bs \<union> {(l, c)}" for x
    using locks_okD(1,2) [OF assms(1), of x] assms(2) that by auto
  moreover have "distinct (map (lk_token \<circ> fst) (as @ (l', c') # bs))"
    using assms(1-3) by (simp add: locks_ok_def)
  moreover have "0 < lk_ttl l" using locks_okD(2) [OF assms(1), of "(l, c)"] assms(2) by simp
  ultimately show ?thesis using assms(4,5) by (simp add: locks_ok_def)
qed

lemma sweep_step_ok: "sweep_step w w' \<Longrightarrow> locks_ok w \<Longrightarrow> locks_ok w'"
proof (induction rule: sweep_step.induct)
  case (l_tick w t)
  then show ?case by (fastforce simp: locks_ok_def confirmed_def)
next
  case (l_enter token w ttl reachable s l ok)
  then show ?case by (intro enter_ok)
next
  case (l_renew w as l c bs reachable s l' ok)
  have c: "c \<le> sw_now w" "lk_held l \<Longrightarrow> sw_now w < c + lk_ttl l \<Longrightarrow> sw_store w = Some (lk_token l, c + lk_ttl l)"
    using locks_okD [OF l_renew(4), of "(l, c)"] l_renew(1) by (auto simp: confirmed_def)
  show ?case
    by (rule replaced_ok [OF l_renew(4,1)])
      (use l_renew(3) c in \<open>auto simp: lock_renew_def RENEW_def redis_get_def Let_def split: if_splits option.splits\<close>)
next
  case (l_exit w as l c bs reachable s l' ok)
  have c: "c \<le> sw_now w" "lk_held l \<Longrightarrow> sw_now w < c + lk_ttl l \<Longrightarrow> sw_store w = Some (lk_token l, c + lk_ttl l)"
    using locks_okD [OF l_exit(3), of "(l, c)"] l_exit(1) by (auto simp: confirmed_def)
  show ?case
    by (rule replaced_ok [OF l_exit(3,1)])
      (use l_exit(2) c in \<open>auto simp: lock_release_def RELEASE_def redis_get_def Let_def split: if_splits option.splits\<close>)
qed

lemma sweep_steps_ok: "sweep_step\<^sup>*\<^sup>* w w' \<Longrightarrow> locks_ok w \<Longrightarrow> locks_ok w'"
  by (induction rule: rtranclp_induct) (auto intro: sweep_step_ok)

text \<open>C37: Two sweeps never overlap within their confirmations: whatever holders come, renew, lose Redis,
  die or release, a holder that Redis confirmed less than its time-to-live ago is the only such
  holder; nobody else can take the lock meanwhile, and no other holder's release removes it. Once
  nobody is confirmed any more, the lock can be taken.\<close>

theorem sweeps_exclusive:
  assumes "sweep_step\<^sup>*\<^sup>* w w'" "locks_ok w" "x \<in> set (sw_locks w')" "confirmed w' x"
  shows "(\<forall>y. y \<in> set (sw_locks w') \<and> confirmed w' y \<longrightarrow> lk_token (fst y) = lk_token (fst x)) \<and>
    \<not> snd (snd (lock_acquire reachable (sw_now w') (new_lock token ttl) (sw_store w'))) \<and>
    (lk_token l \<noteq> lk_token (fst x) \<longrightarrow> fst (lock_release reachable (sw_now w') l (sw_store w')) = sw_store w') \<and>
    snd (snd (lock_acquire True (snd x + lk_ttl (fst x)) (new_lock token ttl) (sw_store w')))"
proof -
  have ok: "locks_ok w'" by (rule sweep_steps_ok [OF assms(1,2)])
  have g: "redis_get (sw_now w') (sw_store w') = Some (lk_token (fst y))" if "y \<in> set (sw_locks w')" "confirmed w' y" for y
    by (rule confirmed_get [OF ok that])
  have s: "sw_store w' = Some (lk_token (fst x), snd x + lk_ttl (fst x))" by (rule locks_okD(3) [OF ok assms(3,4)])
  have e: "redis_get (snd x + lk_ttl (fst x)) (sw_store w') = None" by (simp add: s redis_get_def)
  have "\<forall>y. y \<in> set (sw_locks w') \<and> confirmed w' y \<longrightarrow> lk_token (fst y) = lk_token (fst x)"
    using g [OF assms(3,4)] g by fastforce
  then show ?thesis
    using g [OF assms(3,4)] e
    by (simp add: lock_acquire_def set_nx_px_def lock_release_def RELEASE_def new_lock_def Let_def)
qed

text \<open>One holder acquires at 0, renews at 6 with a time-to-live of 10; another tries at 12.\<close>

definition sweep_start :: sweep_world where
  "sweep_start = \<lparr>sw_store = None, sw_now = 0, sw_locks = []\<rparr>"

definition sweep_holder :: redis_lock where
  "sweep_holder = \<lparr>lk_token = ''a'', lk_ttl = 10, lk_held = True, lk_lost = False\<rparr>"

definition sweep_end :: sweep_world where
  "sweep_end = \<lparr>sw_store = Some (''a'', 16), sw_now = 12, sw_locks = [(sweep_holder, 6)]\<rparr>"

lemma sweep_sample: "sweep_step\<^sup>*\<^sup>* sweep_start sweep_end"
proof -
  let ?w1 = "\<lparr>sw_store = Some (''a'', 10), sw_now = 0, sw_locks = [(sweep_holder, 0)]\<rparr>"
  let ?w3 = "\<lparr>sw_store = Some (''a'', 16), sw_now = 6, sw_locks = [(sweep_holder, 6)]\<rparr>"
  have "sweep_step sweep_start ?w1"
    using sweep_step.l_enter [of "''a''" sweep_start 10 True "Some (''a'', 10)" sweep_holder True]
    by (simp add: sweep_start_def sweep_holder_def lock_acquire_def new_lock_def set_nx_px_def redis_get_def)
  moreover have "sweep_step ?w1 (?w1\<lparr>sw_now := 6\<rparr>)" by (rule sweep_step.l_tick) simp
  moreover have "sweep_step (?w1\<lparr>sw_now := 6\<rparr>) ?w3"
    using sweep_step.l_renew [of "?w1\<lparr>sw_now := 6\<rparr>" "[]" sweep_holder 0 "[]" True "Some (''a'', 16)" sweep_holder True]
    by (simp add: sweep_holder_def lock_renew_def RENEW_def redis_get_def)
  moreover have "sweep_step ?w3 sweep_end"
    using sweep_step.l_tick [of ?w3 12] by (simp add: sweep_end_def)
  ultimately show ?thesis by (meson converse_rtranclp_into_rtranclp rtranclp.rtrancl_refl)
qed

theorem sweeps_exclusive_witness:
  "\<not> snd (snd (lock_acquire True 12 (new_lock ''b'' 10) (sw_store sweep_end)))"
proof -
  have "locks_ok sweep_start" by (simp add: locks_ok_def sweep_start_def)
  moreover have "(sweep_holder, 6) \<in> set (sw_locks sweep_end)" "confirmed sweep_end (sweep_holder, 6)" "sw_now sweep_end = 12"
    by (simp_all add: sweep_end_def sweep_holder_def confirmed_def)
  ultimately show ?thesis
    using sweeps_exclusive [OF sweep_sample, of "(sweep_holder, 6)" True "''b''" 10 sweep_holder] by simp
qed

end
