(* ===== verification/Lab_Profile.thy ===== *)
theory Lab_Profile
  imports Free_Slot
begin

text \<open>
  Lab profiles: the rules of \<^verbatim>\<open>course_releases/lab_profile.py\<close> and \<^verbatim>\<open>check_profile\<close>, the range template a
  profile becomes (\<^verbatim>\<open>range_template\<close>), and the readiness probes of \<^verbatim>\<open>lab_sessions/probes.py\<close>. A profile is a
  record of a document that has passed the JSON schema; what the network answers a probe is an
  argument, and the texts of messages are left out.
\<close>

section \<open>Profiles\<close>

record lab_node =
  nd_name :: string
  nd_role :: "string option"
  nd_catalogue :: string
  nd_networks :: "string list"
  nd_vcpu :: int
  nd_ram_mb :: int
  nd_disk_gb :: int

record health_check =
  hc_node :: string
  hc_kind :: string
  hc_port :: "int option"

record lab_limits =
  lm_max_vms :: int
  lm_vcpu :: int
  lm_ram_mb :: int
  lm_disk_gb :: int

record lab_profile =
  pf_id :: string
  pf_version :: string
  pf_modules :: "string list"
  pf_nodes :: "lab_node list"
  pf_networks :: "(string \<times> string option) list"
  pf_checks :: "health_check list"
  pf_access :: "string list"
  pf_evidence :: "string list"
  pf_limits :: lab_limits
  pf_snapshot_reset :: bool
  pf_idle_minutes :: int
  pf_max_minutes :: int
  pf_allowlist :: "string list option"

definition lab_demand :: "lab_profile \<Rightarrow> resources" where
  "lab_demand pf = \<lparr>rs_vcpu = sum_list (map nd_vcpu (pf_nodes pf)), rs_ram_mb = sum_list (map nd_ram_mb (pf_nodes pf)),
     rs_disk_gb = sum_list (map nd_disk_gb (pf_nodes pf))\<rparr>"

section \<open>The rules\<close>

datatype finding = NoLabFor string | NotARangeModule string | NodesNotUnique | UndeclaredNetwork string string
  | UnknownNode string | NeedsPort string | Unchecked "string list" | TooManyVms | OverLimit string
  | DisabledImage string | UnknownImage string | EmptyAllowlist | AboveVmLimit | AboveNodeLimit string

text \<open>Sets of names are lists; \<^verbatim>\<open>sorted\<close> of a set is the sorted list of its elements.\<close>

definition sorted_names :: "string list \<Rightarrow> string list" where
  "sorted_names xs = sort (remdups xs)"

definition module_findings :: "string list \<Rightarrow> lab_profile \<Rightarrow> finding list" where
  "module_findings range_modules pf =
     map NoLabFor (sorted_names (filter (\<lambda>m. m \<notin> set (pf_modules pf)) range_modules)) @
     map NotARangeModule (sorted_names (filter (\<lambda>m. m \<notin> set range_modules) (pf_modules pf)))"

definition node_names :: "lab_profile \<Rightarrow> string list" where
  "node_names pf = map nd_name (pf_nodes pf)"

definition reference_findings :: "lab_profile \<Rightarrow> finding list" where
  "reference_findings pf =
     (if \<not> distinct (node_names pf) then [NodesNotUnique] else []) @
     concat (map (\<lambda>n. map (UndeclaredNetwork (nd_name n)) (filter (\<lambda>w. w \<notin> set (map fst (pf_networks pf))) (nd_networks n))) (pf_nodes pf)) @
     map UnknownNode (filter (\<lambda>n. n \<notin> set (node_names pf)) (map hc_node (pf_checks pf) @ pf_access pf @ pf_evidence pf)) @
     map (NeedsPort \<circ> hc_node) (filter (\<lambda>h. hc_kind h \<in> {''tcp'', ''http'', ''ssh''} \<and> hc_port h = None) (pf_checks pf)) @
     (let unchecked = sorted_names (filter (\<lambda>n. n \<notin> set (map hc_node (pf_checks pf))) (node_names pf)) in
      if unchecked \<noteq> [] then [Unchecked unchecked] else [])"

definition size_findings :: "lab_profile \<Rightarrow> finding list" where
  "size_findings pf =
     (if int (length (pf_nodes pf)) > lm_max_vms (pf_limits pf) then [TooManyVms] else []) @
     (if rs_vcpu (lab_demand pf) > lm_vcpu (pf_limits pf) then [OverLimit ''vcpu_total''] else []) @
     (if rs_ram_mb (lab_demand pf) > lm_ram_mb (pf_limits pf) then [OverLimit ''ram_mb_total''] else []) @
     (if rs_disk_gb (lab_demand pf) > lm_disk_gb (pf_limits pf) then [OverLimit ''disk_gb_total''] else [])"

text \<open>\<open>catalogue\<close>: the enabled image ids, then the disabled ones.\<close>

definition image_findings :: "string list \<times> string list \<Rightarrow> lab_profile \<Rightarrow> finding list" where
  "image_findings catalogue pf = concat (map (\<lambda>n.
     if nd_catalogue n \<in> set (snd catalogue) then [DisabledImage (nd_name n)]
     else if nd_catalogue n \<notin> set (fst catalogue) then [UnknownImage (nd_name n)] else []) (pf_nodes pf))"

definition findings :: "string list \<Rightarrow> (string list \<times> string list) option \<Rightarrow> lab_profile \<Rightarrow> finding list" where
  "findings range_modules catalogue pf =
     module_findings range_modules pf @ reference_findings pf @ size_findings pf @
     (case catalogue of None \<Rightarrow> [] | Some c \<Rightarrow> image_findings c pf) @
     (if pf_allowlist pf = Some [] then [EmptyAllowlist] else [])"

text \<open>This platform's own limits, on top: VMs per lab, RAM and disk per VM.\<close>

definition platform_findings :: "int \<Rightarrow> int \<Rightarrow> int \<Rightarrow> lab_profile \<Rightarrow> finding list" where
  "platform_findings max_vms max_ram max_disk pf =
     (if int (length (pf_nodes pf)) > max_vms then [AboveVmLimit] else []) @
     map (AboveNodeLimit \<circ> nd_name) (filter (\<lambda>n. nd_ram_mb n > max_ram \<or> nd_disk_gb n > max_disk) (pf_nodes pf))"

definition check_profile :: "int \<Rightarrow> int \<Rightarrow> int \<Rightarrow> string list \<times> string list \<Rightarrow> lab_profile \<Rightarrow> finding list" where
  "check_profile max_vms max_ram max_disk catalogue pf =
     findings (pf_modules pf) (Some catalogue) pf @ platform_findings max_vms max_ram max_disk pf"

section \<open>The range template of a profile\<close>

definition DEFAULT_CIDR :: string where
  "DEFAULT_CIDR = ''10.250.0.0/24''"

definition vlan_doc :: "(string \<times> string) list \<Rightarrow> string \<times> string option \<Rightarrow> json" where
  "vlan_doc port_groups n = JObj [(''name'', JStr (fst n)),
     (''cidr'', JStr (case snd n of None \<Rightarrow> DEFAULT_CIDR | Some c \<Rightarrow> if c = [] then DEFAULT_CIDR else c)),
     (''port_group'', JStr (case map_of port_groups (fst n) of None \<Rightarrow> [] | Some p \<Rightarrow> p))]"

definition node_doc :: "lab_node \<Rightarrow> json" where
  "node_doc n = JObj [(''id'', JStr (nd_name n)), (''role'', JStr (case nd_role n of None \<Rightarrow> ''lab'' | Some r \<Rightarrow> r)), (''os'', JStr (nd_catalogue n)),
     (''vlan'', JStr (hd (nd_networks n))),
     (''specs'', JObj [(''cores'', JInt (nd_vcpu n)), (''memory_mb'', JInt (nd_ram_mb n)), (''disk_gb'', JInt (nd_disk_gb n))])]"

text \<open>None: a node is not on exactly one network.\<close>

definition range_template :: "lab_profile \<Rightarrow> (string \<times> string) list \<Rightarrow> string \<Rightarrow> json option" where
  "range_template pf port_groups name =
     (if list_ex (\<lambda>n. length (nd_networks n) \<noteq> 1) (pf_nodes pf) then None
      else Some (JObj [(''name'', JStr name),
        (''network'', JObj [(''vlans'', JList (map (vlan_doc port_groups) (pf_networks pf)))]),
        (''nodes'', JList (map node_doc (pf_nodes pf)))]))"

section \<open>Readiness probes\<close>

datatype net_answer = NoAnswer | HttpStatus int | Banner string | Opened

definition lab_vms :: "json_column \<Rightarrow> json list" where
  "lab_vms c = (case c of Doc j \<Rightarrow> (case jget ''vms'' j of Some (JList vms) \<Rightarrow> vms | _ \<Rightarrow> []) | _ \<Rightarrow> [])"

definition vm_text :: "string \<Rightarrow> json \<Rightarrow> string" where
  "vm_text k vm = (case jget k vm of None \<Rightarrow> [] | Some j \<Rightarrow> json_str j)"

definition vm_for :: "string \<Rightarrow> json list \<Rightarrow> uuid option \<Rightarrow> json option" where
  "vm_for node vms range_id = find (\<lambda>vm. (case range_id of None \<Rightarrow> vm_text ''name'' vm = node
     | Some r \<Rightarrow> vm_text ''name'' vm = take 8 r @ ''-'' @ node)) vms"

definition vm_ip :: "json \<Rightarrow> string" where
  "vm_ip vm = (if falsy (jget ''ip'' vm) then [] else vm_text ''ip'' vm)"

definition tools_ready :: "json \<Rightarrow> bool" where
  "tools_ready vm = (case jget ''tools_ready'' vm of None \<Rightarrow> jget ''status'' vm = Some (JStr ''running'') | Some j \<Rightarrow> truthy j)"

definition probe :: "(string \<Rightarrow> health_check \<Rightarrow> net_answer) \<Rightarrow> health_check \<Rightarrow> json \<Rightarrow> bool" where
  "probe net h vm =
     (if hc_kind h = ''tools'' then tools_ready vm \<and> vm_ip vm \<noteq> []
      else if vm_ip vm = [] then False
      else if hc_kind h = ''http'' then (case net (vm_ip vm) h of HttpStatus n \<Rightarrow> n < 500 | _ \<Rightarrow> False)
      else if hc_kind h = ''ssh'' then (case net (vm_ip vm) h of Banner b \<Rightarrow> startswith b ''SSH-'' | _ \<Rightarrow> False)
      else net (vm_ip vm) h = Opened)"

definition run_probes :: "(string \<Rightarrow> health_check \<Rightarrow> net_answer) \<Rightarrow> health_check list \<Rightarrow> json list \<Rightarrow> uuid option \<Rightarrow> (string \<times> bool) list" where
  "run_probes net checks vms range_id = map (\<lambda>h. (hc_node h,
     case vm_for (hc_node h) vms range_id of None \<Rightarrow> False | Some vm \<Rightarrow> probe net h vm)) checks"

section \<open>A lab counts as much as it was admitted for\<close>

lemma add_node_doc:
  assumes "nd_catalogue n \<noteq> []" "0 \<le> nd_vcpu n" "0 \<le> nd_ram_mb n" "0 \<le> nd_disk_gb n"
  shows "add_entry True (node_doc n) d = \<lparr>vm_count = vm_count d + 1, dm_vcpu = dm_vcpu d + nd_vcpu n,
    dm_ram_mb = dm_ram_mb d + nd_ram_mb n, dm_disk_gb = dm_disk_gb d + nd_disk_gb n\<rparr>"
  using assms
  by (simp add: add_entry_def node_doc_def only_drawn_def falsy_def jget_def entry_count_def as_int_def node_specs_def
      declared_specs_def fill_def LEGACY_def spec_of_def Let_def)

lemma fold_node_docs:
  assumes "\<forall>n \<in> set ns. nd_catalogue n \<noteq> [] \<and> 0 \<le> nd_vcpu n \<and> 0 \<le> nd_ram_mb n \<and> 0 \<le> nd_disk_gb n"
  shows "foldl (\<lambda>d e. add_entry True e d) d (map node_doc ns) = \<lparr>vm_count = vm_count d + int (length ns),
    dm_vcpu = dm_vcpu d + sum_list (map nd_vcpu ns), dm_ram_mb = dm_ram_mb d + sum_list (map nd_ram_mb ns),
    dm_disk_gb = dm_disk_gb d + sum_list (map nd_disk_gb ns)\<rparr>"
  using assms by (induction ns arbitrary: d) (simp_all add: add_node_doc algebra_simps)

text \<open>C27: A lab holds what it was admitted for. The range template a lab profile becomes is counted by the
  capacity section, which reads the template's YAML and knows nothing of labs, as exactly the profile's VMs
  and the vCPU, memory and disk the admission decided on.\<close>
theorem lab_counted_as_admitted:
  assumes "range_template pf port_groups name = Some doc"
    and "\<forall>n \<in> set (pf_nodes pf). nd_catalogue n \<noteq> [] \<and> 0 \<le> nd_vcpu n \<and> 0 \<le> nd_ram_mb n \<and> 0 \<le> nd_disk_gb n"
  shows "count_template_hosts (Some doc) = Some (int (length (pf_nodes pf))) \<and>
    (yaml (tm_yaml t) = Some doc \<longrightarrow> template_size yaml t = Some (lab_demand pf))"
proof -
  have doc: "doc = JObj [(''name'', JStr name), (''network'', JObj [(''vlans'', JList (map (vlan_doc port_groups) (pf_networks pf)))]),
      (''nodes'', JList (map node_doc (pf_nodes pf)))]"
    using assms(1) by (simp add: range_template_def split: if_splits)
  have "template_demand (Some doc) = Some \<lparr>vm_count = int (length (pf_nodes pf)), dm_vcpu = rs_vcpu (lab_demand pf),
      dm_ram_mb = rs_ram_mb (lab_demand pf), dm_disk_gb = rs_disk_gb (lab_demand pf)\<rparr>"
  proof (cases "pf_nodes pf")
    case Nil
    then show ?thesis by (simp add: doc template_demand_def jget_def falsy_def Let_def no_demand_def lab_demand_def)
  next
    case (Cons n ns)
    have "template_demand (Some doc) = Some (foldl (\<lambda>d e. add_entry True e d) no_demand (map node_doc (pf_nodes pf)))"
      using Cons by (simp add: doc template_demand_def jget_def falsy_def Let_def)
    then show ?thesis unfolding fold_node_docs [OF assms(2)] by (simp add: no_demand_def lab_demand_def)
  qed
  then show ?thesis by (simp add: count_template_hosts_def template_size_def)
qed

definition sample_profile :: lab_profile where
  "sample_profile = \<lparr>pf_id = ''p'', pf_version = ''1'', pf_modules = [''mod_001''],
     pf_nodes = [\<lparr>nd_name = ''a'', nd_role = None, nd_catalogue = ''u'', nd_networks = [''n''], nd_vcpu = 2, nd_ram_mb = 1024, nd_disk_gb = 10\<rparr>],
     pf_networks = [(''n'', None)], pf_checks = [\<lparr>hc_node = ''a'', hc_kind = ''tools'', hc_port = None\<rparr>], pf_access = [''a''],
     pf_evidence = [], pf_limits = \<lparr>lm_max_vms = 2, lm_vcpu = 4, lm_ram_mb = 4096, lm_disk_gb = 40\<rparr>, pf_snapshot_reset = True,
     pf_idle_minutes = 60, pf_max_minutes = 240, pf_allowlist = None\<rparr>"

theorem lab_counted_as_admitted_witness:
  "template_size (\<lambda>x. range_template sample_profile [(''n'', ''pg1'')] ''l'') \<lparr>tm_id = ''t'', tm_yaml = ''y''\<rparr> =
     Some \<lparr>rs_vcpu = 2, rs_ram_mb = 1024, rs_disk_gb = 10\<rparr> \<and> check_profile 20 16384 200 ([''u''], []) sample_profile = []"
proof -
  obtain doc where d: "range_template sample_profile [(''n'', ''pg1'')] ''l'' = Some doc"
    by (simp add: range_template_def sample_profile_def)
  have "\<forall>n \<in> set (pf_nodes sample_profile). nd_catalogue n \<noteq> [] \<and> 0 \<le> nd_vcpu n \<and> 0 \<le> nd_ram_mb n \<and> 0 \<le> nd_disk_gb n"
    by (simp add: sample_profile_def)
  note e = lab_counted_as_admitted [OF d this, of "\<lambda>x. Some doc" "\<lparr>tm_id = ''t'', tm_yaml = ''y''\<rparr>"]
  have "lab_demand sample_profile = \<lparr>rs_vcpu = 2, rs_ram_mb = 1024, rs_disk_gb = 10\<rparr>"
    "check_profile 20 16384 200 ([''u''], []) sample_profile = []" by code_simp+
  with e show ?thesis by (simp add: d)
qed

end
