(* ===== verification/Lab_Gate.thy ===== *)
theory Lab_Gate
  imports Lab_Profile
begin

text \<open>
  Room for Students' labs: \<^verbatim>\<open>lab_sessions/capacity_gate.py\<close>. A lab of a booked class draws on its
  session's hold; any other lab must fit what approved bookings, classes and running ranges leave
  over, in every quarter of an hour of its life. The \<open>provider\<close> is the capacity view of \<open>Free_Slot\<close>;
  messages and the two in-process caches around the forecast are left out.
\<close>

section \<open>Lifetimes\<close>

definition minutes :: "int \<Rightarrow> time" where
  "minutes n = seconds (60 * n)"

text \<open>\<open>ceiling\<close> is the platform's \<^verbatim>\<open>LAB_MAX_LIFETIME_MINUTES\<close>.\<close>

definition lab_lifetime :: "int \<Rightarrow> lab_profile \<Rightarrow> time" where
  "lab_lifetime ceiling pf = minutes (min (pf_max_minutes pf) (max 15 ceiling))"

section \<open>A class's own lab\<close>

definition session_on_roll_call :: "site \<Rightarrow> uuid \<Rightarrow> uuid \<Rightarrow> bool" where
  "session_on_roll_call s user booking = list_ex (\<lambda>l. cs_event l = booking \<and> list_ex (\<lambda>x. rc_class x = cs_class l \<and>
     rc_user x = Some user \<and> rc_tenant x = cs_tenant l \<and> rc_status x \<notin> set OFF_ROLL_CALL) (st_roll_call s)) (st_sessions s)"

definition drawable :: "scheduled_event \<Rightarrow> bool" where
  "drawable e = (ev_state e \<in> set HOLDING \<and> ev_range e = None \<and> ev_template e = None)"

definition within_hold :: "resources \<Rightarrow> resources \<Rightarrow> scheduled_event \<Rightarrow> bool" where
  "within_hold used need e = (rs_vcpu used + rs_vcpu need \<le> vcpu_total e \<and> rs_ram_mb used + rs_ram_mb need \<le> ram_mb_total e \<and>
     rs_disk_gb used + rs_disk_gb need \<le> disk_gb_total e)"

definition own_booking :: "provider \<Rightarrow> uuid \<Rightarrow> uuid \<Rightarrow> uuid \<Rightarrow> uuid \<Rightarrow> resources \<Rightarrow> time \<Rightarrow> scheduled_event option" where
  "own_booking p lab tenant user course need now =
     find (\<lambda>e. within_hold (drawn (pv_site p) (ev_id e) (Some lab)) need e)
       (sort_key ev_start (filter (\<lambda>e. ev_tenant e = tenant \<and> ev_course e = Some course \<and> drawable e \<and>
          ev_start e \<le> now + pv_lead p \<and> now < ev_end e \<and> session_on_roll_call (pv_site p) user (ev_id e)) (st_events (pv_site p))))"

text \<open>The sessions that follow back to back; \<open>end\<close> is how far the chain reaches.\<close>

fun chain_from :: "time \<Rightarrow> time \<Rightarrow> scheduled_event list \<Rightarrow> scheduled_event list" where
  "chain_from grace end [] = []"
| "chain_from grace end (e # es) = (if ev_start e > end + grace then [] else e # chain_from grace (max end (ev_end e)) es)"

definition class_chain :: "provider \<Rightarrow> scheduled_event \<Rightarrow> scheduled_event list" where
  "class_chain p evt =
     (case find_row (\<lambda>l. cs_event l = ev_id evt) (st_sessions (pv_site p)) of None \<Rightarrow> [evt]
      | Some link \<Rightarrow> evt # chain_from (pv_grace p) (ev_end evt)
          (sort_key ev_start (filter (\<lambda>e. list_ex (\<lambda>l. cs_event l = ev_id e \<and> cs_class l = cs_class link \<and> cs_tenant l = ev_tenant evt)
             (st_sessions (pv_site p)) \<and> ev_tenant e = ev_tenant evt \<and> ev_id e \<noteq> ev_id evt \<and> drawable e \<and> ev_start evt \<le> ev_start e)
             (st_events (pv_site p)))))"

definition chain_end :: "provider \<Rightarrow> scheduled_event list \<Rightarrow> time" where
  "chain_end p chain = Max (set (map ev_end chain)) + pv_grace p"

definition next_live :: "scheduled_event list \<Rightarrow> time \<Rightarrow> scheduled_event option" where
  "next_live chain now = find (\<lambda>e. now < ev_end e) (tl chain)"

section \<open>A self-serve lab\<close>

definition gate_slices :: "time \<Rightarrow> time \<Rightarrow> (time \<times> time) list" where
  "gate_slices start end = slices start end"

definition fits_now :: "resources \<Rightarrow> resources \<Rightarrow> committed \<Rightarrow> bool" where
  "fits_now need supply c = (let free = available supply (cm_resources c) in
     \<not> (rs_vcpu need > rs_vcpu free \<or> rs_ram_mb need > rs_ram_mb free \<or> rs_disk_gb need > rs_disk_gb free))"

definition fits_all :: "resources \<Rightarrow> resources \<Rightarrow> committed list \<Rightarrow> bool" where
  "fits_all need supply cs = list_all (fits_now need supply) cs"

definition lab_fits :: "provider \<Rightarrow> resources \<Rightarrow> time \<Rightarrow> time \<Rightarrow> bool" where
  "lab_fits p need len now = fits_all need (pv_supply p) (pv_committed_many p (gate_slices now (now + len)) None)"

text \<open>The forecast: how many slices in a row have fitted, and the first that completes the span.\<close>

fun free_run :: "('a \<Rightarrow> bool) \<Rightarrow> nat \<Rightarrow> nat \<Rightarrow> nat \<Rightarrow> 'a list \<Rightarrow> nat option" where
  "free_run ok span i run [] = None"
| "free_run ok span i run (c # cs) =
     (let run' = (if ok c then run + 1 else 0) in
      if run' \<ge> span then Some (i + 1 - span) else free_run ok span (i + 1) run' cs)"

definition slot_span :: "time \<Rightarrow> nat" where
  "slot_span len = nat (len div SLOT_STEP + (if len mod SLOT_STEP > 0 then 1 else 0))"

definition next_free :: "provider \<Rightarrow> int \<Rightarrow> resources \<Rightarrow> time \<Rightarrow> time \<Rightarrow> time option" where
  "next_free p days need len now =
     (let first = ceil_to (now + seconds 1) SLOT_STEP;
          sl = gate_slices first (first + days * DAY + len)
      in map_option (\<lambda>i. fst (sl ! i)) (free_run (\<lambda>c. fits_all need (pv_supply p) [c]) (slot_span len) 0 0 (pv_committed_many p sl None)))"

section \<open>The forecast is exact\<close>

text \<open>\<open>R\<close> is what the loop has seen: the slices of the current run, then those to come.\<close>

definition all_from :: "nat \<Rightarrow> bool list \<Rightarrow> nat \<Rightarrow> bool" where
  "all_from span R k = (\<forall>x < span. R ! (k + x))"

lemma all_from_restart:
  assumes "run < span"
  shows "k \<le> run \<Longrightarrow> \<not> all_from span (replicate run True @ False # R) k"
    and "all_from span (replicate run True @ False # R) (Suc run + k) = all_from span R k"
proof -
  show "\<not> all_from span (replicate run True @ False # R) k" if "k \<le> run"
    unfolding all_from_def using assms that by (auto intro!: exI [of _ "run - k"] simp: nth_append)
  show "all_from span (replicate run True @ False # R) (Suc run + k) = all_from span R k"
    unfolding all_from_def by (simp add: nth_append)
qed

lemma free_run_first:
  assumes "run < span" "run \<le> i"
  shows "case free_run ok span i run cs of
      None \<Rightarrow> (\<forall>k. k + span \<le> run + length cs \<longrightarrow> \<not> all_from span (replicate run True @ map ok cs) k)
    | Some p \<Rightarrow> (\<exists>k. p + run = i + k \<and> all_from span (replicate run True @ map ok cs) k \<and> k + span \<le> run + length cs \<and>
        (\<forall>j < k. \<not> all_from span (replicate run True @ map ok cs) j))"
  using assms
proof (induction cs arbitrary: i run)
  case Nil
  then show ?case by simp
next
  case (Cons c cs)
  let ?R = "replicate run True @ map ok (c # cs)"
  show ?case
  proof (cases "ok c")
    case True
    have R: "?R = replicate (Suc run) True @ map ok cs" using True by (simp add: replicate_app_Cons_same)
    show ?thesis
    proof (cases "Suc run \<ge> span")
      case full: True
      then have "free_run ok span i run (c # cs) = Some (i + 1 - span)" using True by (simp add: Let_def)
      moreover have "all_from span ?R 0" unfolding R all_from_def using full
        by (auto simp only: nth_append length_replicate nth_replicate add_0 if_True less_le_trans)
      ultimately show ?thesis using full Cons.prems by (auto intro!: exI [of _ 0])
    next
      case False
      then have e: "free_run ok span i run (c # cs) = free_run ok span (i + 1) (Suc run) cs" using True by (simp add: Let_def)
      show ?thesis using Cons.IH [of "Suc run" "i + 1"] False Cons.prems unfolding e R
        by (auto split: option.splits)
    qed
  next
    case False
    have R: "?R = replicate run True @ False # map ok cs" using False by simp
    have e: "free_run ok span i run (c # cs) = free_run ok span (i + 1) 0 cs" using False Cons.prems by (simp add: Let_def)
    note early = all_from_restart(1) [OF Cons.prems(1)] and late = all_from_restart(2) [OF Cons.prems(1)]
    have shift: "\<exists>k'. k = Suc run + k'" if "\<not> k \<le> run" for k using that by (intro exI [of _ "k - Suc run"]) simp
    show ?thesis
    proof (cases "free_run ok span (i + 1) 0 cs")
      case None
      have "\<not> all_from span ?R k" if "k + span \<le> run + length (c # cs)" for k
      proof (cases "k \<le> run")
        case later: False
        then obtain k' where k: "k = Suc run + k'" using shift by blast
        show ?thesis using Cons.IH [of 0 "i + 1"] None that Cons.prems unfolding R k late by simp
      qed (unfold R, rule early)
      then show ?thesis unfolding e None by simp
    next
      case (Some p)
      obtain k where k: "p = i + 1 + k" "all_from span (map ok cs) k" "k + span \<le> length cs"
        "\<forall>j < k. \<not> all_from span (map ok cs) j" using Cons.IH [of 0 "i + 1"] Some Cons.prems by auto
      have "\<not> all_from span ?R j" if "j < Suc run + k" for j
      proof (cases "j \<le> run")
        case later: False
        then obtain j' where j: "j = Suc run + j'" using shift by blast
        show ?thesis using k(4) that unfolding R j late by simp
      qed (unfold R, rule early)
      then show ?thesis using k late [of "map ok cs" k] unfolding e Some R
        by (auto intro!: exI [of _ "Suc run + k"] simp: add.commute)
    qed
  qed
qed

lemma slices_nth: "i < length (slices a b) \<Longrightarrow> fst (slices a b ! i) = a + int i * SLOT_STEP"
proof (induction a b arbitrary: i rule: slices.induct)
  case (1 t z)
  show ?case
  proof (cases "t < z")
    case True
    then have s: "slices t z = (t, min (t + SLOT_STEP) z) # slices (t + SLOT_STEP) z" by (subst slices.simps) simp
    show ?thesis using 1 True unfolding s by (cases i) (auto simp: algebra_simps)
  next
    case False
    then have "slices t z = []" by (subst slices.simps) simp
    with 1(2) show ?thesis by simp
  qed
qed

lemma slot_span_pos:
  assumes "0 < len"
  shows "0 < slot_span len"
proof -
  have d: "0 \<le> len div SLOT_STEP" using assms SLOT_STEP_pos by (simp add: pos_imp_zdiv_nonneg_iff)
  show ?thesis
  proof (cases "len mod SLOT_STEP > 0")
    case False
    then have "len = len div SLOT_STEP * SLOT_STEP"
      using div_mult_mod_eq [of len SLOT_STEP] pos_mod_sign [OF SLOT_STEP_pos, of len] by simp
    then have "len div SLOT_STEP \<noteq> 0" using assms by auto
    with d show ?thesis by (simp add: slot_span_def)
  qed (use d in \<open>simp add: slot_span_def\<close>)
qed

text \<open>The lab fits in every slice from mark \<open>k\<close> on, for its whole length.\<close>

definition forecast_slices :: "int \<Rightarrow> time \<Rightarrow> time \<Rightarrow> (time \<times> time) list" where
  "forecast_slices days len now = (let first = ceil_to (now + seconds 1) SLOT_STEP in gate_slices first (first + days * DAY + len))"

definition free_from :: "provider \<Rightarrow> int \<Rightarrow> resources \<Rightarrow> time \<Rightarrow> time \<Rightarrow> nat \<Rightarrow> bool" where
  "free_from p days need len now k =
     (let sl = forecast_slices days len now in
      k + slot_span len \<le> length sl \<and> (\<forall>x < slot_span len. fits_now need (pv_supply p) (pv_committed p (fst (sl ! (k + x))) (snd (sl ! (k + x))) None)))"



end
