(* ===== verification/Lab_Model.thy ===== *)
theory Lab_Model
  imports Lab_Gate
begin

text \<open>
  The tables and helpers of lab sessions (\<^verbatim>\<open>lab_sessions/models.py\<close> and \<^verbatim>\<open>service.py\<close>): the session row, the
  leases of isolated networks, and what the rest of the site sees of a lab. A lab's range template is
  its document; \<open>x_dump\<close> is its YAML text. Messages are constructors. An operation works on the session
  row it holds and the tables; \<open>put_lab\<close> is the ORM's flush of the row.
\<close>

section \<open>Rows\<close>

datatype lab_state = L_queued | L_provisioning | L_baselining | L_ready | L_active | L_resetting
  | L_completed | L_expired | L_cleaning | L_reconciling | L_reconcile_required | L_destroyed | L_failed

fun lab_state_text :: "lab_state \<Rightarrow> string" where
  "lab_state_text L_queued = ''queued''"
| "lab_state_text L_provisioning = ''provisioning''"
| "lab_state_text L_baselining = ''baselining''"
| "lab_state_text L_ready = ''ready''"
| "lab_state_text L_active = ''active''"
| "lab_state_text L_resetting = ''resetting''"
| "lab_state_text L_completed = ''completed''"
| "lab_state_text L_expired = ''expired''"
| "lab_state_text L_cleaning = ''cleaning''"
| "lab_state_text L_reconciling = ''reconciling''"
| "lab_state_text L_reconcile_required = ''reconcile_required''"
| "lab_state_text L_destroyed = ''destroyed''"
| "lab_state_text L_failed = ''failed''"

definition LAB_LIVE :: "lab_state list" where
  "LAB_LIVE = [L_queued, L_provisioning, L_baselining, L_ready, L_active, L_resetting]"

definition LAB_ENDING :: "lab_state list" where
  "LAB_ENDING = [L_completed, L_expired, L_cleaning, L_reconcile_required, L_reconciling]"

definition LAB_TERMINAL :: "lab_state list" where
  "LAB_TERMINAL = [L_destroyed, L_failed]"

definition LAB_HOLDS :: "lab_state list" where
  "LAB_HOLDS = LAB_LIVE @ LAB_ENDING"

definition LAB_RUNS :: "lab_state list" where
  "LAB_RUNS = filter (\<lambda>s. s \<noteq> L_queued) LAB_HOLDS"

datatype lab_task = ProvisionRange uuid | SnapshotRange uuid uuid | RestoreSnapshot uuid uuid
  | DestroyRange uuid | ReconcileVms "uuid list" string

datatype lab_error = NoError | HeldByWindow uuid | OwnLabRunning | PlacesInUse | VcpuInUse | OthersWaiting
  | LabsBusy | NetworksInUse | RangeMissing | BuildFailed "string option" | NotReadyInTime | NoBaseline | ResetFailed
  | ResetTimedOut | RebuildFailed | TeardownFailed | LeftToClass | TaskRefused lab_task

datatype end_reason = NotEnded | EndCompleted | EndExpired | EndIdle | EndQueueTimeout | EndFailed | EndClassRange

record lab =
  lx_id :: uuid
  lx_tenant :: uuid
  lx_user :: uuid
  lx_release :: uuid
  lx_activity :: string
  lx_attempt :: int
  lx_state :: lab_state
  lx_profile :: string
  lx_digest :: string
  lx_backend :: string
  lx_range :: "uuid option"
  lx_baseline :: "uuid option"
  lx_size :: resources
  lx_booking :: "uuid option"
  lx_error :: lab_error
  lx_probes :: "(string \<times> bool) list"
  lx_evidence :: "(json \<times> time) list"
  lx_readiness :: "time option"
  lx_created :: time
  lx_provisioning_at :: "time option"
  lx_ready_at :: "time option"
  lx_last_seen :: "time option"
  lx_idle_expires :: "time option"
  lx_idle_warned :: "time option"
  lx_max_expires :: "time option"
  lx_latest_end :: "time option"
  lx_ended :: "time option"
  lx_end_reason :: end_reason
  lx_reconciled :: "time option"
  lx_lease_until :: "time option"
  lx_holder :: "string option"
  lx_since :: "time option"
  lx_attempts :: nat
  lx_pending :: "lab_task list"
  lx_retired :: "uuid list"

record net_lease =
  ln_port :: string
  ln_session :: "uuid option"
  ln_network :: string
  ln_leased :: "time option"

record lab_template =
  lt_id :: uuid
  lt_doc :: json
  lt_tenant :: uuid

text \<open>Calls into the range credentials and the notifications.\<close>

datatype lab_call = OnLabRange uuid | OnSnapshot uuid uuid | OnRestore uuid uuid uuid | WarnedIdle uuid time

record lab_db =
  lab_rows :: "lab list"
  net_leases :: "net_lease list"
  lab_range_rows :: "range_row list"
  lab_templates :: "lab_template list"
  lab_snaps :: "snapshot list"
  lab_calls :: "lab_call list"

section \<open>What an operation draws from outside\<close>

record lab_settings =
  q_per_user :: nat
  q_per_tenant :: nat
  q_vcpu :: int
  q_networks :: nat
  q_pool :: "string list"
  q_max_vms :: int
  q_max_ram :: int
  q_max_disk :: int
  q_idle_limit :: int
  q_max_lifetime :: int
  q_idle_warning :: int
  q_console_recheck :: int
  q_queue_timeout :: int
  q_provision_timeout :: int
  q_step_timeout :: int
  q_reconcile_grace :: int
  q_teardown_attempts :: nat
  q_experimental :: bool

record course_release =
  re_id :: uuid
  re_tenant :: uuid
  re_course :: uuid
  re_accepted :: bool
  re_activities :: "(string \<times> string) list"
  re_profile :: "lab_profile option"

record lab_env =
  x_now :: time
  x_set :: lab_settings
  x_backend :: string
  x_releases :: "course_release list"
  x_digest :: "lab_profile \<Rightarrow> string"
  x_catalogue :: "string list \<times> string list"
  x_net :: "string \<Rightarrow> health_check \<Rightarrow> net_answer"
  x_windows :: "window list"
  x_site :: site
  x_yaml :: "string \<Rightarrow> json option"
  x_dump :: "json \<Rightarrow> string"
  x_lead :: time
  x_grace :: time
  x_supply :: resources
  x_recent :: "uuid \<Rightarrow> bool"
  x_passwords_pending :: "uuid \<Rightarrow> bool"
  x_json_length :: "json \<Rightarrow> nat"
  x_lab_id :: uuid
  x_range_id :: uuid
  x_template_id :: uuid
  x_snapshot_id :: uuid
  x_token :: string

text \<open>What refuses an operation: \<^verbatim>\<open>LabRefusedError\<close>; \<open>Crashed\<close> is any other exception.\<close>

datatype lab_refusal = ReleaseNotFound | ReleaseNotAccepted | LabHeld | BackendRefused | NotARangeActivity | NoLabProfile
  | CannotBeBuilt "finding list" | NodeNetworks | NoNetworksConfigured | Busy | NotReady lab_state | InsideWindow uuid
  | NoResetPoint | PasswordsPending | LabEnded | EvidenceTooLarge | TooMuchEvidence | Crashed

type_synonym lab_result = "lab_refusal + lab \<times> lab_db"

section \<open>The rest of the site\<close>

definition put_lab :: "lab \<Rightarrow> lab_db \<Rightarrow> lab_db" where
  "put_lab s d = d\<lparr>lab_rows := update_where (\<lambda>x. lx_id x = lx_id s) (\<lambda>_. s) (lab_rows d)\<rparr>"

definition get_lab :: "lab_db \<Rightarrow> uuid \<Rightarrow> lab option" where
  "get_lab d i = find_row (\<lambda>s. lx_id s = i) (lab_rows d)"

text \<open>The capacity section's view of a session, and of the site with these labs and their ranges.\<close>

definition capacity_row :: "lab \<Rightarrow> lab_row" where
  "capacity_row s = \<lparr>lb_id = lx_id s, lb_range = lx_range s, lb_state = lab_state_text (lx_state s), lb_tenant = lx_tenant s,
     lb_user = lx_user s, lb_vcpu = rs_vcpu (lx_size s), lb_ram_mb = rs_ram_mb (lx_size s), lb_disk_gb = rs_disk_gb (lx_size s),
     lb_booking = lx_booking s, lb_idle_expires = lx_idle_expires s, lb_max_expires = lx_max_expires s\<rparr>"

definition site_templates :: "lab_env \<Rightarrow> lab_db \<Rightarrow> template_row list" where
  "site_templates e d = st_templates (x_site e) @ map (\<lambda>t. \<lparr>tm_id = lt_id t, tm_yaml = x_dump e (lt_doc t)\<rparr>) (lab_templates d)"

definition lab_site :: "lab_env \<Rightarrow> lab_db \<Rightarrow> site" where
  "lab_site e d = (x_site e)\<lparr>st_ranges := lab_range_rows d, st_templates := site_templates e d, st_labs := map capacity_row (lab_rows d)\<rparr>"

definition lab_provider :: "lab_env \<Rightarrow> lab_db \<Rightarrow> provider" where
  "lab_provider e d = \<lparr>pv_yaml = x_yaml e, pv_lead = x_lead e, pv_grace = x_grace e, pv_site = lab_site e d,
     pv_cluster = new_cluster (x_yaml e) (lab_site e d) (x_now e) None, pv_now = x_now e, pv_supply = x_supply e\<rparr>"

definition window_tables :: "lab_env \<Rightarrow> lab_db \<Rightarrow> db" where
  "window_tables e d = empty_db\<lparr>maintenance_windows := x_windows e, templates := site_templates e d\<rparr>"

definition window_holds :: "lab_env \<Rightarrow> lab \<Rightarrow> lab_db \<Rightarrow> uuid option" where
  "window_holds e s d = map_option mw_id (blocking_new_range (window_tables e d) (lx_tenant s) (x_now e))"

definition of_class_range :: "lab_env \<Rightarrow> uuid option \<Rightarrow> bool" where
  "of_class_range e r = (case r of None \<Rightarrow> False
     | Some i \<Rightarrow> list_ex (\<lambda>c. cr_range c = Some i \<and> torn_down_at c = None) (st_class_ranges (x_site e)))"

section \<open>The profile a session runs\<close>

definition get_release :: "lab_env \<Rightarrow> uuid \<Rightarrow> course_release option" where
  "get_release e i = find_row (\<lambda>r. re_id r = i) (x_releases e)"

definition release_profile :: "course_release \<Rightarrow> string \<Rightarrow> lab_refusal + lab_profile" where
  "release_profile r activity =
     (if map_of (re_activities r) activity \<noteq> Some ''range'' then Inl NotARangeActivity
      else case re_profile r of None \<Rightarrow> Inl NoLabProfile
        | Some pf \<Rightarrow> if activity \<notin> set (pf_modules pf) then Inl NoLabProfile else Inr pf)"

definition session_profile :: "lab_env \<Rightarrow> lab \<Rightarrow> lab_refusal + lab_profile" where
  "session_profile e s = (case get_release e (lx_release s) of None \<Rightarrow> Inl Crashed | Some r \<Rightarrow> release_profile r (lx_activity s))"

definition idle_minutes :: "lab_env \<Rightarrow> lab_profile \<Rightarrow> time" where
  "idle_minutes e pf = minutes (min (pf_idle_minutes pf) (max 1 (q_idle_limit (x_set e))))"

definition SUPPORTED :: "string list" where "SUPPORTED = [''mock'', ''vsphere_api'']"
definition EXPERIMENTAL :: "string list" where "EXPERIMENTAL = [''proxmox_api'', ''hyperv'']"

definition backend_refused :: "bool \<Rightarrow> string \<Rightarrow> bool" where
  "backend_refused experimental name = (\<not> (name \<in> set SUPPORTED \<or> name \<in> set EXPERIMENTAL \<and> experimental))"

section \<open>State, tasks, lease\<close>

definition set_lab_state :: "time \<Rightarrow> lab_state \<Rightarrow> lab \<Rightarrow> lab" where
  "set_lab_state now st s = (if lx_state s \<noteq> st then s\<lparr>lx_state := st, lx_since := Some now, lx_attempts := 0\<rparr> else s)"

definition in_state_for :: "lab \<Rightarrow> time \<Rightarrow> time" where
  "in_state_for s now = now - (case lx_since s of None \<Rightarrow> lx_created s | Some t \<Rightarrow> t)"

definition send_task :: "lab_task \<Rightarrow> lab \<Rightarrow> lab" where
  "send_task t s = s\<lparr>lx_pending := lx_pending s @ [t]\<rparr>"

definition LAB_LEASE :: time where
  "LAB_LEASE = seconds 120"

text \<open>\<^verbatim>\<open>claim\<close>: None if another run holds the lease. \<open>keep_lease\<close>: None if another run has taken it.\<close>

definition claim_lab :: "time \<Rightarrow> string \<Rightarrow> lab \<Rightarrow> lab option" where
  "claim_lab now token s =
     (if (case lx_lease_until s of None \<Rightarrow> True | Some t \<Rightarrow> t < now)
      then Some (s\<lparr>lx_lease_until := Some (now + LAB_LEASE), lx_holder := Some token\<rparr>) else None)"

definition keep_lease :: "time \<Rightarrow> string \<Rightarrow> bool \<Rightarrow> lab \<Rightarrow> lab option" where
  "keep_lease now token release s =
     (if lx_holder s = Some token
      then Some (if release then s\<lparr>lx_lease_until := None, lx_holder := None\<rparr> else s\<lparr>lx_lease_until := Some (now + LAB_LEASE)\<rparr>)
      else None)"

text \<open>Sending after the commit: tasks sent, tasks dropped (the task contract refuses the call), tasks
  kept from the first one the broker does not take.\<close>

datatype dispatch_answer = Taken | Unavailable | Rejected

fun send_pending :: "dispatch_answer list \<Rightarrow> lab_task list \<Rightarrow> lab_task list \<times> lab_task list \<times> lab_task list" where
  "send_pending answers [] = ([], [], [])"
| "send_pending (Taken # as) (t # ts) = (let (sent, dropped, kept) = send_pending as ts in (t # sent, dropped, kept))"
| "send_pending (Rejected # as) (t # ts) = (let (sent, dropped, kept) = send_pending as ts in (sent, t # dropped, kept))"
| "send_pending (Unavailable # as) (t # ts) = ([], [], t # ts)"
| "send_pending [] (t # ts) = ([], [], t # ts)"

definition flush_lab :: "time \<Rightarrow> dispatch_answer list \<Rightarrow> bool \<Rightarrow> lab \<Rightarrow> lab_task list \<times> lab" where
  "flush_lab now answers resent s =
     (let (sent, dropped, kept) = send_pending answers (lx_pending s);
          s1 = (if dropped = [] then s else s\<lparr>lx_error := TaskRefused (List.last dropped)\<rparr>);
          s2 = s1\<lparr>lx_pending := kept\<rparr>;
          s3 = (if sent \<noteq> [] \<and> resent then s2\<lparr>lx_since := Some now\<rparr> else s2)
      in (sent, s3))"

section \<open>Isolated networks\<close>

definition new_port :: "string \<Rightarrow> net_lease" where
  "new_port p = \<lparr>ln_port = p, ln_session = None, ln_network = [], ln_leased = None\<rparr>"

text \<open>The pool's names as rows; a row the table has already is left as it is.\<close>

definition sync_pool :: "string list \<Rightarrow> net_lease list \<Rightarrow> net_lease list" where
  "sync_pool pool ls = foldl (\<lambda>ls p. if p \<in> set (map ln_port ls) then ls else ls @ [new_port p]) ls pool"

definition tenant_held :: "lab_db \<Rightarrow> net_lease list \<Rightarrow> uuid \<Rightarrow> nat" where
  "tenant_held d ls tenant = length (filter (\<lambda>l. case ln_session l of None \<Rightarrow> False
     | Some i \<Rightarrow> list_ex (\<lambda>s. lx_id s = i \<and> lx_tenant s = tenant) (lab_rows d)) ls)"

definition free_ports :: "string list \<Rightarrow> net_lease list \<Rightarrow> string list" where
  "free_ports pool ls = sort (map ln_port (filter (\<lambda>l. ln_session l = None \<and> ln_port l \<in> set pool) ls))"

text \<open>Each picked row gets the network it carries; \<open>taken\<close> pairs networks with ports.\<close>

definition take_ports :: "uuid \<Rightarrow> time \<Rightarrow> (string \<times> string) list \<Rightarrow> net_lease list \<Rightarrow> net_lease list" where
  "take_ports i now taken ls = map (\<lambda>l. case map_of (map (\<lambda>(n, p). (p, n)) taken) (ln_port l) of None \<Rightarrow> l
     | Some n \<Rightarrow> l\<lparr>ln_session := Some i, ln_network := n, ln_leased := Some now\<rparr>) ls"

definition lease_networks :: "lab_env \<Rightarrow> lab \<Rightarrow> lab_profile \<Rightarrow> lab_db \<Rightarrow> lab_refusal + (string \<times> string) list option \<times> lab_db" where
  "lease_networks e s pf d =
     (if lx_backend s = ''mock'' then Inr (Some [], d)
      else if q_pool (x_set e) = [] then Inl NoNetworksConfigured
      else let ls = sync_pool (q_pool (x_set e)) (net_leases d);
               wanted = map fst (pf_networks pf);
               free = take (length wanted) (free_ports (q_pool (x_set e)) ls)
           in if tenant_held d ls (lx_tenant s) + length wanted > q_networks (x_set e) then Inr (None, d\<lparr>net_leases := ls\<rparr>)
              else if length free < length wanted then Inr (None, d\<lparr>net_leases := ls\<rparr>)
              else Inr (Some (rev (zip wanted free)), d\<lparr>net_leases := take_ports (lx_id s) (x_now e) (zip wanted free) ls\<rparr>))"

definition session_networks :: "uuid \<Rightarrow> lab_db \<Rightarrow> (string \<times> string) list" where
  "session_networks i d = rev (map (\<lambda>l. (ln_network l, ln_port l)) (filter (\<lambda>l. ln_session l = Some i) (net_leases d)))"

definition release_networks :: "uuid \<Rightarrow> lab_db \<Rightarrow> lab_db" where
  "release_networks i d = d\<lparr>net_leases := update_where (\<lambda>l. ln_session l = Some i)
     (\<lambda>l. l\<lparr>ln_session := None, ln_network := [], ln_leased := None\<rparr>) (net_leases d)\<rparr>"

end
