(* ===== verification/Labs.thy ===== *)
theory Labs
  imports Lab_Model
begin

text \<open>
  The lab-session lifecycle, \<^verbatim>\<open>lab_sessions/service.py\<close>: launch, start, one step of \<^verbatim>\<open>advance\<close> per state, the
  Student's actions, and the teardown. An operation takes the session row and the tables and gives
  both back; on an error \<^verbatim>\<open>run_locked\<close>'s savepoint undoes it, so the error carries no state. Row and
  advisory locks are left out: an operation is one step.
\<close>

section \<open>Reading and writing the lab's own rows\<close>

definition lab_range_row :: "lab_db \<Rightarrow> lab \<Rightarrow> range_row option" where
  "lab_range_row d s = (case lx_range s of None \<Rightarrow> None | Some i \<Rightarrow> find_row (\<lambda>r. rng_id r = i) (lab_range_rows d))"

definition baseline_snap :: "lab_db \<Rightarrow> lab \<Rightarrow> snapshot option" where
  "baseline_snap d s = (case lx_baseline s of None \<Rightarrow> None | Some i \<Rightarrow> find_row (\<lambda>x. sn_id x = i) (lab_snaps d))"

definition write_range :: "uuid \<Rightarrow> range_state \<Rightarrow> lab_db \<Rightarrow> lab_db" where
  "write_range i st d = d\<lparr>lab_range_rows := update_where (\<lambda>r. rng_id r = i) (\<lambda>r. r\<lparr>rng_state := st\<rparr>) (lab_range_rows d)\<rparr>"

definition clear_range_error :: "uuid \<Rightarrow> lab_db \<Rightarrow> lab_db" where
  "clear_range_error i d = d\<lparr>lab_range_rows := update_where (\<lambda>r. rng_id r = i) (\<lambda>r. r\<lparr>error_message := None\<rparr>) (lab_range_rows d)\<rparr>"

definition write_snap :: "uuid \<Rightarrow> string \<Rightarrow> lab_db \<Rightarrow> lab_db" where
  "write_snap i st d = d\<lparr>lab_snaps := update_where (\<lambda>x. sn_id x = i) (\<lambda>x. x\<lparr>snapshot_state := st\<rparr>) (lab_snaps d)\<rparr>"

definition add_call :: "lab_call \<Rightarrow> lab_db \<Rightarrow> lab_db" where
  "add_call c d = d\<lparr>lab_calls := lab_calls d @ [c]\<rparr>"

section \<open>Room\<close>

definition quota_problem :: "lab_env \<Rightarrow> lab \<Rightarrow> lab_db \<Rightarrow> lab_error option" where
  "quota_problem e s d =
     (let holding = filter (\<lambda>x. lx_state x \<in> set LAB_RUNS \<and> lx_id x \<noteq> lx_id s) (lab_rows d);
          tenant = filter (\<lambda>x. lx_tenant x = lx_tenant s) holding in
      if length (filter (\<lambda>x. lx_user x = lx_user s) holding) \<ge> q_per_user (x_set e) then Some OwnLabRunning
      else if length tenant \<ge> q_per_tenant (x_set e) then Some PlacesInUse
      else if sum_list (map (rs_vcpu \<circ> lx_size) tenant) + rs_vcpu (lx_size s) > q_vcpu (x_set e) then Some VcpuInUse
      else if list_ex (\<lambda>x. lx_state x = L_queued \<and> lx_tenant x = lx_tenant s \<and> lx_created x < lx_created s \<and> lx_id x \<noteq> lx_id s) (lab_rows d)
        then Some OthersWaiting
      else None)"

text \<open>True: refused for want of site capacity (a lab in the queue waits on).\<close>

definition capacity_refused :: "lab_env \<Rightarrow> lab_profile \<Rightarrow> bool \<Rightarrow> lab \<Rightarrow> lab_db \<Rightarrow> lab_refusal + bool \<times> lab" where
  "capacity_refused e pf refuse_busy s d =
     (if \<not> refuse_busy \<and> x_recent e (lx_id s) then Inr (True, s\<lparr>lx_error := LabsBusy\<rparr>)
      else case get_release e (lx_release s) of None \<Rightarrow> Inl Crashed
      | Some r \<Rightarrow> (let p = lab_provider e (put_lab s d); len = lab_lifetime (q_max_lifetime (x_set e)) pf in
          case own_booking p (lx_id s) (lx_tenant s) (lx_user s) (re_course r) (lab_demand pf) (x_now e) of
            Some b \<Rightarrow> Inr (False, s\<lparr>lx_booking := Some (ev_id b)\<rparr>)
          | None \<Rightarrow> (let s1 = s\<lparr>lx_booking := None\<rparr> in
              if lab_fits (lab_provider e (put_lab s1 d)) (lab_demand pf) len (x_now e) then Inr (False, s1)
              else if refuse_busy then Inl Busy
              else Inr (True, s1\<lparr>lx_error := LabsBusy\<rparr>))))"

section \<open>Following the class\<close>

definition cap_idle :: "lab \<Rightarrow> lab" where
  "cap_idle s = s\<lparr>lx_idle_expires := (case (lx_idle_expires s, lx_max_expires s) of (Some i, Some m) \<Rightarrow> Some (min i m) | (i, _) \<Rightarrow> i)\<rparr>"

definition follow_class :: "lab_env \<Rightarrow> lab \<Rightarrow> lab_db \<Rightarrow> lab_refusal + lab" where
  "follow_class e s d =
     (case (lx_booking s, lx_latest_end s) of
        (Some b, Some latest) \<Rightarrow>
          (case find_row (\<lambda>v. ev_id v = b) (st_events (x_site e)) of
             None \<Rightarrow> Inr s
           | Some evt \<Rightarrow>
             if ev_state evt \<notin> set HOLDING then Inr s
             else let p = lab_provider e (put_lab s d); chain = class_chain p evt; close = chain_end p chain in
               if \<not> is_drawing (pv_site p) (lx_id s)
               then (case lx_max_expires s of None \<Rightarrow> Inl Crashed
                     | Some m \<Rightarrow> Inr (cap_idle (s\<lparr>lx_max_expires := Some (min m close)\<rparr>)))
               else let s1 = (if ev_end evt \<le> x_now e then (case next_live chain (x_now e) of None \<Rightarrow> s | Some n \<Rightarrow> s\<lparr>lx_booking := Some (ev_id n)\<rparr>) else s)
                    in Inr (cap_idle (s1\<lparr>lx_max_expires := Some (min latest close)\<rparr>)))
      | _ \<Rightarrow> Inr s)"

section \<open>Start\<close>

definition build_lab :: "lab_env \<Rightarrow> lab_profile \<Rightarrow> (string \<times> string) list \<Rightarrow> bool \<Rightarrow> lab \<Rightarrow> lab_db \<Rightarrow> lab_result" where
  "build_lab e pf nets rebuild s d =
     (case range_template pf nets (''lab-'' @ pf_id pf @ ''-'' @ take 8 (lx_id s)) of
        None \<Rightarrow> Inl NodeNetworks
      | Some doc \<Rightarrow>
        (let now = x_now e; rid = x_range_id e;
             d1 = d\<lparr>lab_templates := lab_templates d @ [\<lparr>lt_id = x_template_id e, lt_doc = doc, lt_tenant = lx_tenant s\<rparr>],
                    lab_range_rows := lab_range_rows d @ [\<lparr>rng_id = rid, rng_template = x_template_id e, rng_state = provisioning,
                      rng_tenant = Some (lx_tenant s), provisioner_output = SqlNull, error_message = None, rng_deleted = False\<rparr>]\<rparr>;
             s1 = (set_lab_state now L_provisioning (s\<lparr>lx_range := Some rid\<rparr>))\<lparr>lx_error := NoError, lx_provisioning_at := Some now\<rparr>;
             d2 = add_call (OnLabRange rid) d1
         in if rebuild then Inr (send_task (ProvisionRange rid) s1, d2)
            else (let latest = now + lab_lifetime (q_max_lifetime (x_set e)) pf in
              case follow_class e (s1\<lparr>lx_latest_end := Some latest, lx_max_expires := Some latest\<rparr>) d1 of
                Inl err \<Rightarrow> Inl err
              | Inr s2 \<Rightarrow> (case lx_max_expires s2 of None \<Rightarrow> Inl Crashed
                | Some m \<Rightarrow> Inr (send_task (ProvisionRange rid) (s2\<lparr>lx_idle_expires := Some (min (now + idle_minutes e pf) m)\<rparr>), d2)))))"

text \<open>\<open>networks\<close>: those a rebuild keeps.\<close>

definition start_lab :: "lab_env \<Rightarrow> lab_profile \<Rightarrow> (string \<times> string) list option \<Rightarrow> bool \<Rightarrow> lab \<Rightarrow> lab_db \<Rightarrow> lab_result" where
  "start_lab e pf networks refuse_busy s d =
     (case networks of Some nets \<Rightarrow> build_lab e pf nets True s d
      | None \<Rightarrow> (case window_holds e s d of Some w \<Rightarrow> Inr (s\<lparr>lx_error := HeldByWindow w\<rparr>, d)
        | None \<Rightarrow> (case quota_problem e s d of Some q \<Rightarrow> Inr (s\<lparr>lx_error := q\<rparr>, d)
          | None \<Rightarrow> (case capacity_refused e pf refuse_busy s d of
              Inl err \<Rightarrow> Inl err
            | Inr (True, s1) \<Rightarrow> Inr (s1, d)
            | Inr (False, s1) \<Rightarrow> (case lease_networks e s1 pf d of
                Inl err \<Rightarrow> Inl err
              | Inr (None, d1) \<Rightarrow> Inr (s1\<lparr>lx_error := NetworksInUse\<rparr>, d1)
              | Inr (Some nets, d1) \<Rightarrow> build_lab e pf nets False s1 d1)))))"

section \<open>Failing, ending\<close>

definition fail_lab :: "lab_env \<Rightarrow> lab_error \<Rightarrow> lab \<Rightarrow> lab_db \<Rightarrow> lab \<times> lab_db" where
  "fail_lab e err s d =
     (let s1 = s\<lparr>lx_error := err, lx_end_reason := (if lx_end_reason s = NotEnded then EndFailed else lx_end_reason s)\<rparr> in
      case lab_range_row d s of
        Some r \<Rightarrow>
          if rng_state r \<noteq> destroyed then
            (if rng_state r \<noteq> destroying
             then (set_lab_state (x_now e) L_cleaning (send_task (DestroyRange (rng_id r)) s1), write_range (rng_id r) destroying d)
             else (set_lab_state (x_now e) L_cleaning s1, d))
          else (set_lab_state (x_now e) L_failed s1, release_networks (lx_id s) d)
      | None \<Rightarrow> (set_lab_state (x_now e) L_failed s1, release_networks (lx_id s) d))"

definition end_lab :: "lab_env \<Rightarrow> end_reason \<Rightarrow> lab \<Rightarrow> lab_db \<Rightarrow> lab \<times> lab_db" where
  "end_lab e reason s d =
     (if lx_state s \<in> set (LAB_TERMINAL @ LAB_ENDING) then (s, d)
      else let s1 = s\<lparr>lx_ended := Some (x_now e), lx_end_reason := reason\<rparr> in
        case lab_range_row d s of
          None \<Rightarrow> (set_lab_state (x_now e) L_destroyed s1, release_networks (lx_id s) d)
        | Some r \<Rightarrow> (let s2 = set_lab_state (x_now e) (if reason \<in> {EndExpired, EndIdle} then L_expired else L_completed) s1 in
            if rng_state r \<notin> {destroyed, destroying}
            then (send_task (DestroyRange (rng_id r)) s2, write_range (rng_id r) destroying d)
            else (s2, d)))"

section \<open>Advance\<close>

datatype consoles = NotAsked | Unknown | Open nat

text \<open>Before an idle close: is the lab idle? With the session as the answer leaves it.\<close>

definition console_idle :: "lab_env \<Rightarrow> consoles \<Rightarrow> time \<Rightarrow> lab \<Rightarrow> lab_refusal + bool \<times> lab" where
  "console_idle e open_now latest s =
     (case open_now of
        NotAsked \<Rightarrow> Inr (False, s)
      | Unknown \<Rightarrow> Inr (False, s\<lparr>lx_idle_expires := Some (min (x_now e + minutes (max 1 (q_console_recheck (x_set e)))) latest)\<rparr>)
      | Open n \<Rightarrow>
          if n > 0 then (case session_profile e s of Inl err \<Rightarrow> Inl err
            | Inr pf \<Rightarrow> Inr (False, set_lab_state (x_now e) L_active (s\<lparr>lx_last_seen := Some (x_now e),
                lx_idle_expires := Some (min (x_now e + idle_minutes e pf) latest), lx_idle_warned := None\<rparr>)))
          else Inr (True, s))"

definition advance_running :: "lab_env \<Rightarrow> consoles \<Rightarrow> lab \<Rightarrow> lab_db \<Rightarrow> lab_result" where
  "advance_running e open_now s d =
     (case (lx_max_expires s, lx_idle_expires s) of
        (Some latest, Some idle_end) \<Rightarrow>
          if x_now e < latest \<and> x_now e < idle_end then
            (if lx_idle_warned s = None \<and> idle_end < latest \<and> idle_end - minutes (q_idle_warning (x_set e)) \<le> x_now e
             then Inr (s\<lparr>lx_idle_warned := Some (x_now e)\<rparr>, add_call (WarnedIdle (lx_user s) idle_end) d)
             else Inr (s, d))
          else if of_class_range e (lx_range s) then
            Inr (set_lab_state (x_now e) L_failed (s\<lparr>lx_error := LeftToClass, lx_end_reason := EndClassRange, lx_ended := Some (x_now e)\<rparr>), d)
          else if x_now e < latest then
            (case console_idle e open_now latest s of Inl err \<Rightarrow> Inl err
             | Inr (True, s1) \<Rightarrow> Inr (end_lab e EndIdle s1 d)
             | Inr (False, s1) \<Rightarrow> Inr (s1, d))
          else Inr (end_lab e EndExpired s d)
      | _ \<Rightarrow> Inl Crashed)"

definition advance_provisioning :: "lab_env \<Rightarrow> lab \<Rightarrow> lab_db \<Rightarrow> lab_result" where
  "advance_provisioning e s d =
     (case lab_range_row d s of
        None \<Rightarrow> Inr (fail_lab e RangeMissing s d)
      | Some r \<Rightarrow>
        if rng_state r = failed then Inr (fail_lab e (BuildFailed (error_message r)) s d)
        else if rng_state r = created then
          (case window_holds e s d of Some w \<Rightarrow> Inr (s\<lparr>lx_error := HeldByWindow w\<rparr>, d)
           | None \<Rightarrow> Inr (send_task (ProvisionRange (rng_id r)) (s\<lparr>lx_provisioning_at := Some (x_now e), lx_error := NoError\<rparr>),
                         clear_range_error (rng_id r) (write_range (rng_id r) provisioning d)))
        else if x_now e - (case lx_provisioning_at s of None \<Rightarrow> x_now e | Some t \<Rightarrow> t) > seconds (q_provision_timeout (x_set e))
          then Inr (fail_lab e NotReadyInTime s d)
        else if rng_state r \<noteq> ready then Inr (s, d)
        else (case session_profile e s of Inl err \<Rightarrow> Inl err
          | Inr pf \<Rightarrow>
            (let results = run_probes (x_net e) (pf_checks pf) (lab_vms (provisioner_output r)) (Some (rng_id r));
                 s1 = s\<lparr>lx_probes := results\<rparr> in
             if \<not> list_all snd results then Inr (s1, d)
             else case lx_provisioning_at s of None \<Rightarrow> Inl Crashed
               | Some t \<Rightarrow>
                 (let s2 = s1\<lparr>lx_readiness := Some (x_now e - t), lx_ready_at := Some (x_now e)\<rparr>; sid = x_snapshot_id e in
                  if pf_snapshot_reset pf
                  then Inr (send_task (SnapshotRange (rng_id r) sid) (set_lab_state (x_now e) L_baselining (s2\<lparr>lx_baseline := Some sid\<rparr>)),
                       add_call (OnSnapshot (rng_id r) sid)
                         (d\<lparr>lab_snaps := lab_snaps d @ [\<lparr>sn_id = sid, sn_range = rng_id r, snapshot_state = ''creating''\<rparr>]\<rparr>))
                  else Inr (set_lab_state (x_now e) L_ready s2, d)))))"

definition advance_baselining :: "lab_env \<Rightarrow> lab \<Rightarrow> lab_db \<Rightarrow> lab_result" where
  "advance_baselining e s d =
     (case baseline_snap d s of
        None \<Rightarrow> Inr (fail_lab e NoBaseline s d)
      | Some sn \<Rightarrow>
        if snapshot_state sn = ''ready'' then Inr (set_lab_state (x_now e) L_ready s, d)
        else if (case lab_range_row d s of None \<Rightarrow> False | Some r \<Rightarrow> rng_state r = failed) then Inr (fail_lab e NoBaseline s d)
        else if snapshot_state sn = ''failed'' \<or> in_state_for s (x_now e) > seconds (q_step_timeout (x_set e)) then
          (if lx_attempts s \<ge> 2 then Inr (fail_lab e NoBaseline s d)
           else (case lab_range_row d s of None \<Rightarrow> Inl Crashed
             | Some r \<Rightarrow> Inr (send_task (SnapshotRange (rng_id r) (sn_id sn)) (s\<lparr>lx_attempts := lx_attempts s + 1, lx_since := Some (x_now e)\<rparr>),
                 write_snap (sn_id sn) ''creating'' d)))
        else Inr (s, d))"

definition advance_resetting :: "lab_env \<Rightarrow> lab \<Rightarrow> lab_db \<Rightarrow> lab_result" where
  "advance_resetting e s d =
     (case session_profile e s of Inl err \<Rightarrow> Inl err
      | Inr pf \<Rightarrow>
        if pf_snapshot_reset pf then
          (case lab_range_row d s of
             None \<Rightarrow> Inr (fail_lab e ResetFailed s d)
           | Some r \<Rightarrow>
             if rng_state r = failed then Inr (fail_lab e ResetFailed s d)
             else if (case baseline_snap d s of None \<Rightarrow> False | Some sn \<Rightarrow> snapshot_state sn = ''ready'') \<and> rng_state r \<noteq> destroying
               then Inr (set_lab_state (x_now e) L_active s, d)
             else if in_state_for s (x_now e) > seconds (q_step_timeout (x_set e)) then Inr (fail_lab e ResetTimedOut s d)
             else Inr (s, d))
        else
          (case lab_range_row d s of
             None \<Rightarrow> Inr (fail_lab e RebuildFailed s d)
           | Some r \<Rightarrow>
             if rng_state r = destroyed then
               (case window_holds e s d of Some w \<Rightarrow> Inr (s\<lparr>lx_error := HeldByWindow w\<rparr>, d)
                | None \<Rightarrow> start_lab e pf (Some (session_networks (lx_id s) d)) False
                    (send_task (ReconcileVms [rng_id r] (lx_backend s)) (s\<lparr>lx_retired := lx_retired s @ [rng_id r]\<rparr>)) d)
             else if rng_state r = failed \<or> in_state_for s (x_now e) > seconds (q_step_timeout (x_set e))
               then Inr (fail_lab e RebuildFailed s d)
             else Inr (s, d)))"

definition advance_cleaning :: "lab_env \<Rightarrow> lab \<Rightarrow> lab_db \<Rightarrow> lab \<times> lab_db" where
  "advance_cleaning e s d =
     (case lab_range_row d s of
        None \<Rightarrow> (set_lab_state (x_now e) L_destroyed (s\<lparr>lx_reconciled := Some (x_now e)\<rparr>), release_networks (lx_id s) d)
      | Some r \<Rightarrow>
        if rng_state r = destroyed \<and> lx_state s = L_reconciling then
          (if in_state_for s (x_now e) < seconds (q_reconcile_grace (x_set e)) then (s, d)
           else (set_lab_state (x_now e) L_destroyed (s\<lparr>lx_reconciled := Some (x_now e)\<rparr>), release_networks (lx_id s) d))
        else if rng_state r = destroyed then
          (set_lab_state (x_now e) L_reconciling (send_task (ReconcileVms (lx_retired s @ [rng_id r]) (lx_backend s)) s), d)
        else if rng_state r = failed \<or> rng_state r = destroying \<and> in_state_for s (x_now e) > seconds (q_step_timeout (x_set e)) then
          (if lx_attempts s \<ge> q_teardown_attempts (x_set e) then (s\<lparr>lx_error := TeardownFailed, lx_state := L_failed\<rparr>, d)
           else (send_task (DestroyRange (rng_id r)) (send_task (ReconcileVms [rng_id r] (lx_backend s))
                   (s\<lparr>lx_state := L_reconcile_required, lx_since := Some (x_now e), lx_attempts := lx_attempts s + 1\<rparr>)),
                 write_range (rng_id r) destroying d))
        else if lx_state s \<in> {L_completed, L_expired} then (set_lab_state (x_now e) L_cleaning s, d)
        else (s, d))"

definition advance_queued :: "lab_env \<Rightarrow> lab \<Rightarrow> lab_db \<Rightarrow> lab_result" where
  "advance_queued e s d =
     (if in_state_for s (x_now e) > seconds (q_queue_timeout (x_set e)) then Inr (end_lab e EndQueueTimeout s d)
      else (case session_profile e s of Inl err \<Rightarrow> Inl err | Inr pf \<Rightarrow> start_lab e pf None False s d))"

definition advance :: "lab_env \<Rightarrow> consoles \<Rightarrow> lab \<Rightarrow> lab_db \<Rightarrow> lab_result" where
  "advance e open_now s d =
     (if lx_pending s \<noteq> [] then Inr (s, d)
      else case lx_state s of
        L_queued \<Rightarrow> advance_queued e s d
      | L_provisioning \<Rightarrow> advance_provisioning e s d
      | L_baselining \<Rightarrow> advance_baselining e s d
      | L_resetting \<Rightarrow> advance_resetting e s d
      | L_ready \<Rightarrow> (case follow_class e s d of Inl err \<Rightarrow> Inl err | Inr s1 \<Rightarrow> advance_running e open_now s1 d)
      | L_active \<Rightarrow> (case follow_class e s d of Inl err \<Rightarrow> Inl err | Inr s1 \<Rightarrow> advance_running e open_now s1 d)
      | L_destroyed \<Rightarrow> Inr (s, d)
      | L_failed \<Rightarrow> Inr (s, d)
      | _ \<Rightarrow> Inr (advance_cleaning e s d))"

section \<open>The Student's actions\<close>

definition touch :: "lab_env \<Rightarrow> lab \<Rightarrow> lab_db \<Rightarrow> lab_result" where
  "touch e s d =
     (if lx_state s \<notin> {L_ready, L_active} then Inr (s, d)
      else case session_profile e s of Inl err \<Rightarrow> Inl err
      | Inr pf \<Rightarrow> (case lx_max_expires s of None \<Rightarrow> Inl Crashed
        | Some latest \<Rightarrow> Inr (set_lab_state (x_now e) L_active (s\<lparr>lx_last_seen := Some (x_now e),
            lx_idle_expires := Some (min (x_now e + idle_minutes e pf) latest), lx_idle_warned := None\<rparr>), d)))"

definition reset_lab :: "lab_env \<Rightarrow> lab \<Rightarrow> lab_db \<Rightarrow> lab_result" where
  "reset_lab e s d =
     (if lx_state s \<notin> {L_ready, L_active} then Inl (NotReady (lx_state s))
      else case lab_range_row d s of None \<Rightarrow> Inl Crashed
      | Some r \<Rightarrow>
        (case covering_range (x_yaml e) (window_tables e d) r (x_now e) of
           w # _ \<Rightarrow> Inl (InsideWindow (mw_id w))
         | [] \<Rightarrow>
           (case session_profile e s of Inl err \<Rightarrow> Inl err
            | Inr pf \<Rightarrow>
              if pf_snapshot_reset pf then
                (case baseline_snap d s of
                   None \<Rightarrow> Inl NoResetPoint
                 | Some sn \<Rightarrow>
                   if snapshot_state sn \<noteq> ''ready'' then Inl NoResetPoint
                   else if x_passwords_pending e (rng_id r) then Inl PasswordsPending
                   else Inr (send_task (RestoreSnapshot (rng_id r) (sn_id sn)) (set_lab_state (x_now e) L_resetting s),
                          add_call (OnRestore (rng_id r) (sn_id sn) (lx_user s)) (write_snap (sn_id sn) ''restoring'' d)))
              else Inr (send_task (DestroyRange (rng_id r)) (set_lab_state (x_now e) L_resetting s), write_range (rng_id r) destroying d))))"

definition MAX_EVIDENCE_BYTES :: nat where "MAX_EVIDENCE_BYTES = 64 * 1024"
definition MAX_EVIDENCE_ITEMS :: nat where "MAX_EVIDENCE_ITEMS = 200"

definition add_evidence :: "lab_env \<Rightarrow> json \<Rightarrow> lab \<Rightarrow> lab_db \<Rightarrow> lab_result" where
  "add_evidence e item s d =
     (if lx_state s \<in> set LAB_TERMINAL then Inl LabEnded
      else if x_json_length e item > MAX_EVIDENCE_BYTES then Inl EvidenceTooLarge
      else if length (lx_evidence s) \<ge> MAX_EVIDENCE_ITEMS then Inl TooMuchEvidence
      else Inr (s\<lparr>lx_evidence := lx_evidence s @ [(item, x_now e)]\<rparr>, d))"

text \<open>What \<^verbatim>\<open>run_locked\<close> runs; a console grant is \<open>Console_Grants\<close>', and here a touch.\<close>

datatype lab_op = Advance consoles | Touch | Reset | AddEvidence json | EndLab

definition perform :: "lab_env \<Rightarrow> lab_op \<Rightarrow> lab \<Rightarrow> lab_db \<Rightarrow> lab_result" where
  "perform e op s d = (case op of
     Advance c \<Rightarrow> advance e c s d
   | Touch \<Rightarrow> touch e s d
   | Reset \<Rightarrow> reset_lab e s d
   | AddEvidence item \<Rightarrow> add_evidence e item s d
   | EndLab \<Rightarrow> Inr (end_lab e EndCompleted s d))"

section \<open>Launch\<close>

definition same_key :: "uuid \<Rightarrow> uuid \<Rightarrow> uuid \<Rightarrow> string \<Rightarrow> lab \<Rightarrow> bool" where
  "same_key tenant user release activity s =
     (lx_tenant s = tenant \<and> lx_user s = user \<and> lx_release s = release \<and> lx_activity s = activity)"

definition latest_attempt :: "uuid \<Rightarrow> uuid \<Rightarrow> uuid \<Rightarrow> string \<Rightarrow> lab_db \<Rightarrow> lab option" where
  "latest_attempt tenant user release activity d =
     (case sort_key (\<lambda>s. - lx_attempt s) (filter (same_key tenant user release activity) (lab_rows d)) of [] \<Rightarrow> None | s # _ \<Rightarrow> Some s)"

definition new_lab :: "lab_env \<Rightarrow> uuid \<Rightarrow> uuid \<Rightarrow> uuid \<Rightarrow> string \<Rightarrow> lab option \<Rightarrow> lab_profile \<Rightarrow> lab" where
  "new_lab e tenant user release activity before pf =
     \<lparr>lx_id = x_lab_id e, lx_tenant = tenant, lx_user = user, lx_release = release, lx_activity = activity,
      lx_attempt = (case before of None \<Rightarrow> 1 | Some s \<Rightarrow> lx_attempt s + 1), lx_state = L_queued, lx_profile = pf_id pf,
      lx_digest = x_digest e pf, lx_backend = x_backend e, lx_range = None, lx_baseline = None, lx_size = lab_demand pf,
      lx_booking = None, lx_error = NoError, lx_probes = [], lx_evidence = [], lx_readiness = None, lx_created = x_now e,
      lx_provisioning_at = None, lx_ready_at = None, lx_last_seen = None, lx_idle_expires = None, lx_idle_warned = None,
      lx_max_expires = None, lx_latest_end = None, lx_ended = None, lx_end_reason = NotEnded, lx_reconciled = None,
      lx_lease_until = Some (x_now e + LAB_LEASE), lx_holder = Some (x_token e), lx_since = Some (x_now e), lx_attempts = 0,
      lx_pending = [], lx_retired = []\<rparr>"

text \<open>The session, whether it is new, and the tables with it.\<close>

definition launch :: "lab_env \<Rightarrow> uuid \<Rightarrow> uuid \<Rightarrow> uuid \<Rightarrow> string \<Rightarrow> lab_db \<Rightarrow> lab_refusal + (lab \<times> bool) \<times> lab_db" where
  "launch e tenant user release activity d =
     (case find_row (\<lambda>r. re_id r = release \<and> re_tenant r = tenant) (x_releases e) of
        None \<Rightarrow> Inl ReleaseNotFound
      | Some rel \<Rightarrow>
        if \<not> re_accepted rel then Inl ReleaseNotAccepted
        else (let before = latest_attempt tenant user release activity d in
          case (case before of None \<Rightarrow> None | Some s \<Rightarrow> if lx_state s \<notin> set LAB_TERMINAL then Some s else None) of
            Some s \<Rightarrow> Inr ((s, False), d)
          | None \<Rightarrow>
          if list_ex (\<lambda>s. lx_user s = user \<and> lx_state s \<in> set LAB_HOLDS) (lab_rows d) then Inl LabHeld
          else if backend_refused (q_experimental (x_set e)) (x_backend e) then Inl BackendRefused
          else (case release_profile rel activity of Inl err \<Rightarrow> Inl err
            | Inr pf \<Rightarrow>
              (let problems = check_profile (q_max_vms (x_set e)) (q_max_ram (x_set e)) (q_max_disk (x_set e)) (x_catalogue e) pf;
                   s = new_lab e tenant user release activity before pf in
               if problems \<noteq> [] then Inl (CannotBeBuilt problems)
               else (case start_lab e pf None True s (d\<lparr>lab_rows := lab_rows d @ [s]\<rparr>) of
                   Inl err \<Rightarrow> Inl err
                 | Inr (s1, d1) \<Rightarrow> Inr ((s1, True), put_lab s1 d1))))))"

section \<open>The ranges a lab has had\<close>

definition made_ranges :: "lab \<Rightarrow> uuid list" where
  "made_ranges s = lx_retired s @ (case lx_range s of None \<Rightarrow> [] | Some i \<Rightarrow> [i])"

text \<open>\<^verbatim>\<open>reconcile_all\<close>: per backend, the machines of the labs that are over, in batches of 200.\<close>

fun batches :: "'a list \<Rightarrow> 'a list list" where
  "batches [] = []"
| "batches (x # xs) = take 200 (x # xs) # batches (drop 199 xs)"

definition reconcile_all :: "lab_db \<Rightarrow> uuid \<Rightarrow> lab_task list" where
  "reconcile_all d tenant =
     (let rows = filter (\<lambda>s. lx_tenant s = tenant \<and> lx_state s \<in> set LAB_TERMINAL \<and> lx_range s \<noteq> None) (lab_rows d);
          of_backend = (\<lambda>k. concat (map (\<lambda>s. the (lx_range s) # lx_retired s) (filter (\<lambda>s. lx_backend s = k) rows)))
      in concat (map (\<lambda>k. map (\<lambda>ids. ReconcileVms ids k) (batches (of_backend k))) (rev (remdups (rev (map lx_backend rows))))))"

end
