(* ===== verification/Lab_Networks.thy ===== *)
theory Lab_Networks
  imports Labs "HOL-Library.Sublist"
begin

text \<open>
  What a lab operation may do to the tables. \<open>lab_move\<close> is the contract: keep the lab's range and
  networks, wait in the queue, give the networks back once nothing is left on them, or build a new
  range on networks the lab holds. Every operation of \<open>Labs\<close> is a move, and moves keep labs' networks apart.
\<close>

section \<open>Ports\<close>

definition doc_ports :: "json \<Rightarrow> string list" where
  "doc_ports doc = (case jget ''network'' doc of None \<Rightarrow> [] | Some nw \<Rightarrow>
     (case jget ''vlans'' nw of Some (JList vs) \<Rightarrow> List.map_filter (\<lambda>v. case jget ''port_group'' v of
        Some (JStr p) \<Rightarrow> if p = [] then None else Some p | _ \<Rightarrow> None) vs | _ \<Rightarrow> []))"

definition range_ports :: "lab_template list \<Rightarrow> range_row \<Rightarrow> string list" where
  "range_ports ts r = (case find_row (\<lambda>t. lt_id t = rng_template r) ts of None \<Rightarrow> [] | Some t \<Rightarrow> doc_ports (lt_doc t))"

definition held_ports :: "uuid \<Rightarrow> net_lease list \<Rightarrow> string set" where
  "held_ports i ls = {ln_port l |l. l \<in> set ls \<and> ln_session l = Some i}"

lemma vlan_doc_port: "jget ''port_group'' (vlan_doc nets n) = Some (JStr (case map_of nets (fst n) of None \<Rightarrow> [] | Some p \<Rightarrow> p))"
  by (simp add: vlan_doc_def jget_def)

lemma template_ports:
  assumes "range_template pf nets name = Some doc"
  shows "set (doc_ports doc) \<subseteq> snd ` set nets"
proof -
  have "jget ''network'' doc = Some (JObj [(''vlans'', JList (map (vlan_doc nets) (pf_networks pf)))])"
    using assms by (auto simp: range_template_def jget_def split: if_splits)
  then have "doc_ports doc = List.map_filter (\<lambda>v. case jget ''port_group'' v of
      Some (JStr p) \<Rightarrow> if p = [] then None else Some p | _ \<Rightarrow> None) (map (vlan_doc nets) (pf_networks pf))"
    by (simp add: doc_ports_def jget_def)
  moreover have "p \<in> snd ` set nets" if "map_of nets x = Some p" for x p
    using map_of_SomeD [OF that] by force
  ultimately show ?thesis
    by (auto simp: List.map_filter_def vlan_doc_port split: option.splits if_splits)
qed

lemma held_sync [simp]: "held_ports i (sync_pool pool ls) = held_ports i ls"
  unfolding sync_pool_def
  by (induction pool arbitrary: ls) (auto simp: held_ports_def new_port_def)

lemma distinct_sync: "distinct (map ln_port ls) \<Longrightarrow> distinct (map ln_port (sync_pool pool ls))"
  unfolding sync_pool_def
  by (induction pool arbitrary: ls) (auto simp: new_port_def)

definition free_in :: "string \<Rightarrow> net_lease list \<Rightarrow> bool" where
  "free_in p ls = (\<exists>l \<in> set ls. ln_port l = p \<and> ln_session l = None)"

lemma free_ports_free: "p \<in> set (free_ports pool ls) \<Longrightarrow> free_in p ls"
  by (auto simp: free_ports_def free_in_def)

lemma take_ports_ports [simp]: "map ln_port (take_ports i now taken ls) = map ln_port ls"
  by (auto simp: take_ports_def split: option.splits)

lemma held_take_other:
  assumes "distinct (map ln_port ls)" "\<forall>p \<in> snd ` set taken. free_in p ls" "j \<noteq> i"
  shows "held_ports j (take_ports i now taken ls) = held_ports j ls"
proof -
  have free: "ln_session l = None" if "l \<in> set ls" "map_of (map (\<lambda>(n, p). (p, n)) taken) (ln_port l) = Some n" for l n
  proof -
    have "ln_port l \<in> snd ` set taken" using map_of_SomeD [OF that(2)] by force
    then obtain l' where "l' \<in> set ls" "ln_port l' = ln_port l" "ln_session l' = None"
      using assms(2) by (auto simp: free_in_def)
    then show ?thesis using assms(1) that(1) by (metis distinct_map inj_onD)
  qed
  show ?thesis
  proof (intro set_eqI iffI)
    fix p
    assume "p \<in> held_ports j (take_ports i now taken ls)"
    then show "p \<in> held_ports j ls" using assms(3) by (auto simp: held_ports_def take_ports_def split: option.splits)
  next
    fix p
    assume "p \<in> held_ports j ls"
    then obtain l where l: "l \<in> set ls" "ln_port l = p" "ln_session l = Some j" by (auto simp: held_ports_def)
    then have "map_of (map (\<lambda>(n, p). (p, n)) taken) (ln_port l) = None" using free [OF l(1)] by (cases "map_of (map (\<lambda>(n, p). (p, n)) taken) (ln_port l)") auto
    then have "l \<in> set (take_ports i now taken ls)" using l(1) unfolding take_ports_def by (auto intro!: image_eqI [of _ _ l])
    with l show "p \<in> held_ports j (take_ports i now taken ls)" by (auto simp: held_ports_def)
  qed
qed

lemma held_take_own:
  assumes "\<forall>p \<in> snd ` set taken. free_in p ls"
  shows "snd ` set taken \<subseteq> held_ports i (take_ports i now taken ls)"
proof
  fix p
  assume p: "p \<in> snd ` set taken"
  then obtain l where l: "l \<in> set ls" "ln_port l = p" using assms by (auto simp: free_in_def)
  have "map_of (map (\<lambda>(n, p). (p, n)) taken) p \<noteq> None"
    using p by (auto simp: map_of_eq_None_iff image_image case_prod_beta)
  then obtain n where n: "map_of (map (\<lambda>(n, p). (p, n)) taken) (ln_port l) = Some n" using l(2) by auto
  have "l\<lparr>ln_session := Some i, ln_network := n, ln_leased := Some now\<rparr> \<in> set (take_ports i now taken ls)"
    unfolding take_ports_def using l(1) n by (auto intro!: image_eqI [of _ _ l])
  then show "p \<in> held_ports i (take_ports i now taken ls)" unfolding held_ports_def using l(2)
    by (intro CollectI exI [of _ "l\<lparr>ln_session := Some i, ln_network := n, ln_leased := Some now\<rparr>"]) simp
qed

lemma held_take_mono:
  assumes "distinct (map ln_port ls)"
  shows "held_ports i ls \<subseteq> held_ports i (take_ports i now taken ls)"
proof
  fix p
  assume "p \<in> held_ports i ls"
  then obtain l where l: "l \<in> set ls" "ln_port l = p" "ln_session l = Some i" by (auto simp: held_ports_def)
  show "p \<in> held_ports i (take_ports i now taken ls)"
  proof (cases "map_of (map (\<lambda>(n, p). (p, n)) taken) (ln_port l)")
    case None
    then have "l \<in> set (take_ports i now taken ls)" unfolding take_ports_def using l(1) by (auto intro!: image_eqI [of _ _ l])
    with l show ?thesis by (auto simp: held_ports_def)
  next
    case (Some n)
    then have "l\<lparr>ln_session := Some i, ln_network := n, ln_leased := Some now\<rparr> \<in> set (take_ports i now taken ls)"
      unfolding take_ports_def using l(1) by (auto intro!: image_eqI [of _ _ l])
    then show ?thesis unfolding held_ports_def using l(2)
      by (intro CollectI exI [of _ "l\<lparr>ln_session := Some i, ln_network := n, ln_leased := Some now\<rparr>"]) simp
  qed
qed

lemma held_release: "j \<noteq> i \<Longrightarrow> held_ports j (net_leases (release_networks i d)) = held_ports j (net_leases d)"
  by (auto simp: held_ports_def release_networks_def set_update_where split: if_splits) (metis option.inject)

lemma distinct_release: "map ln_port (net_leases (release_networks i d)) = map ln_port (net_leases d)"
  by (simp add: release_networks_def map_update_where)

lemma session_networks_held: "snd ` set (session_networks i d) \<subseteq> held_ports i (net_leases d)"
  by (auto simp: session_networks_def held_ports_def)

section \<open>Moves\<close>

definition over :: "lab \<Rightarrow> bool" where
  "over s = (lx_state s \<in> set LAB_TERMINAL)"

text \<open>Idle time ends no later than the lab, the lab no later than its own end.\<close>

definition ordered_times :: "time option \<Rightarrow> time option \<Rightarrow> time option \<Rightarrow> bool" where
  "ordered_times idle latest close = ((case latest of None \<Rightarrow> True | Some m \<Rightarrow> (case close of None \<Rightarrow> False | Some l \<Rightarrow> m \<le> l)) \<and>
     (case idle of None \<Rightarrow> True | Some i \<Rightarrow> (case latest of None \<Rightarrow> False | Some m \<Rightarrow> i \<le> m)))"

definition times_ok :: "lab \<Rightarrow> bool" where
  "times_ok s = ordered_times (lx_idle_expires s) (lx_max_expires s) (lx_latest_end s)"

declare times_ok_def [simp]

lemma ordered_idle: "ordered_times i (Some m) l \<Longrightarrow> ordered_times (Some (min x m)) (Some m) l"
  by (auto simp: ordered_times_def split: option.splits)

text \<open>What no operation changes: whose lab it is and who holds its lease; tasks and evidence are only added to,
  a lab that is over stays over, and none returns to the queue.\<close>

definition same_lab :: "lab \<Rightarrow> lab \<Rightarrow> bool" where
  "same_lab s s' = (lx_id s' = lx_id s \<and> lx_tenant s' = lx_tenant s \<and> lx_user s' = lx_user s \<and> lx_created s' = lx_created s \<and>
     lx_holder s' = lx_holder s \<and> lx_lease_until s' = lx_lease_until s \<and> prefix (lx_pending s) (lx_pending s') \<and>
     prefix (lx_evidence s) (lx_evidence s') \<and> (times_ok s \<longrightarrow> times_ok s') \<and> (over s \<longrightarrow> over s') \<and>
     (lx_state s' = L_queued \<longrightarrow> lx_state s = L_queued))"

definition nothing_left :: "lab \<Rightarrow> lab_db \<Rightarrow> bool" where
  "nothing_left s d = (\<forall>i. lx_range s = Some i \<longrightarrow> (case find_row (\<lambda>r. rng_id r = i) (lab_range_rows d) of None \<Rightarrow> True | Some r \<Rightarrow> rng_state r = destroyed))"

definition own_range_write :: "lab \<Rightarrow> range_row list \<Rightarrow> range_row list \<Rightarrow> bool" where
  "own_range_write s R R' = (R' = R \<or> (\<not> over s \<and> (\<exists>i f. lx_range s = Some i \<and>
     (\<forall>r. rng_id (f r) = rng_id r \<and> rng_template (f r) = rng_template r) \<and> R' = update_where (\<lambda>r. rng_id r = i) f R)))"

text \<open>Free ports only are leased, and no lease changes hands.\<close>

definition leases_grow :: "uuid \<Rightarrow> net_lease list \<Rightarrow> net_lease list \<Rightarrow> bool" where
  "leases_grow i ls ls' = (ls' = ls \<or> (\<exists>pool now taken. ls' = take_ports i now taken (sync_pool pool ls) \<and>
     (\<forall>p \<in> snd ` set taken. free_in p (sync_pool pool ls))))"

inductive lab_move :: "lab_env \<Rightarrow> lab \<Rightarrow> lab_db \<Rightarrow> lab \<Rightarrow> lab_db \<Rightarrow> bool" for e s d where
  keep: "same_lab s s' \<Longrightarrow> lx_range s' = lx_range s \<Longrightarrow> lx_retired s' = lx_retired s \<Longrightarrow>
    own_range_write s (lab_range_rows d) R \<Longrightarrow>
    lab_move e s d s' (d\<lparr>lab_range_rows := R, lab_snaps := X, lab_calls := Y\<rparr>)"
| wait: "same_lab s s' \<Longrightarrow> lx_range s' = lx_range s \<Longrightarrow> lx_retired s' = lx_retired s \<Longrightarrow>
    lab_move e s d s' (d\<lparr>net_leases := sync_pool pool (net_leases d)\<rparr>)"
| give_back: "same_lab s s' \<Longrightarrow> lx_range s' = lx_range s \<Longrightarrow> lx_retired s' = lx_retired s \<Longrightarrow> over s' \<Longrightarrow> nothing_left s d \<Longrightarrow>
    lab_move e s d s' (release_networks (lx_id s) d)"
| build: "same_lab s s' \<Longrightarrow> lx_state s' = L_provisioning \<Longrightarrow> \<not> over s \<Longrightarrow> lx_range s' = Some (x_range_id e) \<Longrightarrow> nothing_left s d \<Longrightarrow>
    lx_retired s' = lx_retired s @ (case lx_range s of None \<Rightarrow> [] | Some i \<Rightarrow> [i]) \<Longrightarrow>
    lt_id t = x_template_id e \<Longrightarrow> rng_id r = x_range_id e \<Longrightarrow> rng_template r = x_template_id e \<Longrightarrow>
    set (doc_ports (lt_doc t)) \<subseteq> held_ports (lx_id s) ls \<Longrightarrow>
    leases_grow (lx_id s) (net_leases d) ls \<Longrightarrow>
    lab_move e s d s' (d\<lparr>net_leases := ls, lab_templates := lab_templates d @ [t], lab_range_rows := lab_range_rows d @ [r], lab_calls := Y\<rparr>)"

lemma keep_row: "same_lab s s' \<Longrightarrow> lx_range s' = lx_range s \<Longrightarrow> lx_retired s' = lx_retired s \<Longrightarrow> lab_move e s d s' d"
  using lab_move.keep [of s s' d "lab_range_rows d" e "lab_calls d" "lab_snaps d"] by (simp add: own_range_write_def)

lemma own_write:
  assumes "\<not> over s" "lx_range s = Some i" "\<And>r. rng_id (f r) = rng_id r" "\<And>r. rng_template (f r) = rng_template r"
  shows "own_range_write s R (update_where (\<lambda>r. rng_id r = i) f R)"
  unfolding own_range_write_def using assms by (intro disjI2 conjI exI [of _ i] exI [of _ f]) simp_all

lemma keep_write:
  assumes "same_lab s s'" "lx_range s' = lx_range s" "lx_retired s' = lx_retired s" "\<not> over s" "lx_range s = Some i"
  shows "lab_move e s d s' (write_range i st d)"
  using lab_move.keep [OF assms(1-3) own_write [OF assms(4,5), of "\<lambda>r. r\<lparr>rng_state := st\<rparr>" "lab_range_rows d"], of e "lab_calls d" "lab_snaps d"]
  by (simp add: write_range_def)

lemma same_lab_refl [simp]: "same_lab s s"
  by (simp add: same_lab_def)

lemma lab_range_row_SomeD: "lab_range_row d s = Some r \<Longrightarrow> lx_range s = Some (rng_id r) \<and> r \<in> set (lab_range_rows d)"
  by (auto simp: lab_range_row_def split: option.splits dest: find_row_SomeD)

lemma nothing_left_if:
  assumes "case lab_range_row d s of None \<Rightarrow> True | Some r \<Rightarrow> rng_state r = destroyed"
  shows "nothing_left s d"
  using assms by (auto simp: nothing_left_def lab_range_row_def)

lemmas row_simps = set_lab_state_def send_task_def over_def same_lab_def LAB_TERMINAL_def

lemma fail_lab_move:
  assumes "fail_lab e err s d = (s', d')" "\<not> over s" "lx_state s \<noteq> L_queued"
  shows "lab_move e s d s' d'"
proof (cases "lab_range_row d s")
  case None
  then have "nothing_left s d" by (intro nothing_left_if) simp
  then show ?thesis using assms None
    by (auto simp: fail_lab_def Let_def row_simps intro!: lab_move.give_back)
next
  case (Some r)
  note i = lab_range_row_SomeD [OF Some, THEN conjunct1]
  show ?thesis
  proof (cases "rng_state r = destroyed")
    case True
    then have "nothing_left s d" using Some by (intro nothing_left_if) simp
    then show ?thesis using assms Some True
      by (auto simp: fail_lab_def Let_def row_simps intro!: lab_move.give_back)
  next
    case False
    then show ?thesis using assms Some
      by (auto simp: fail_lab_def Let_def row_simps i intro!: keep_row keep_write split: if_splits)
  qed
qed

lemma end_lab_move:
  assumes "end_lab e reason s d = (s', d')"
  shows "lab_move e s d s' d'"
proof (cases "lx_state s \<in> set (LAB_TERMINAL @ LAB_ENDING)")
  case True
  then show ?thesis using assms by (auto simp: end_lab_def intro!: keep_row)
next
  case live: False
  then have over: "\<not> over s" by (simp add: over_def)
  have e: "end_lab e reason s d = (case lab_range_row d s of
      None \<Rightarrow> (set_lab_state (x_now e) L_destroyed (s\<lparr>lx_ended := Some (x_now e), lx_end_reason := reason\<rparr>), release_networks (lx_id s) d)
    | Some r \<Rightarrow> (let s2 = set_lab_state (x_now e) (if reason \<in> {EndExpired, EndIdle} then L_expired else L_completed)
          (s\<lparr>lx_ended := Some (x_now e), lx_end_reason := reason\<rparr>) in
        if rng_state r \<notin> {destroyed, destroying}
        then (send_task (DestroyRange (rng_id r)) s2, write_range (rng_id r) destroying d) else (s2, d)))"
    using live by (simp add: end_lab_def Let_def)
  show ?thesis
  proof (cases "lab_range_row d s")
    case None
    then have "nothing_left s d" by (intro nothing_left_if) simp
    then show ?thesis using assms None over unfolding e
      by (auto simp: row_simps intro!: lab_move.give_back)
  next
    case (Some r)
    note i = lab_range_row_SomeD [OF Some, THEN conjunct1]
    show ?thesis using assms Some over unfolding e
      by (auto simp: Let_def row_simps i intro!: keep_row keep_write split: if_splits)
  qed
qed

text \<open>Steps that write the session row alone.\<close>

definition row_only :: "lab \<Rightarrow> lab \<Rightarrow> bool" where
  "row_only s s' = (same_lab s s' \<and> lx_range s' = lx_range s \<and> lx_retired s' = lx_retired s \<and> over s' = over s)"

lemma same_lab_trans: "same_lab s s1 \<Longrightarrow> same_lab s1 s' \<Longrightarrow> same_lab s s'"
  by (auto simp: same_lab_def intro: prefix_order.trans)

lemma move_after_row:
  assumes "row_only s s1" "lab_move e s1 d s' d'"
  shows "lab_move e s d s' d'"
  using assms(2)
proof cases
  case (keep R X Y)
  moreover have "own_range_write s (lab_range_rows d) R" using keep(5) assms(1) by (simp add: own_range_write_def row_only_def)
  ultimately show ?thesis using assms(1) same_lab_trans by (auto simp: row_only_def intro!: lab_move.keep)
next
  case (wait pool)
  then show ?thesis using assms(1) same_lab_trans by (auto simp: row_only_def intro!: lab_move.wait)
next
  case give_back
  moreover have "lx_id s1 = lx_id s" using assms(1) by (simp add: row_only_def same_lab_def)
  ultimately show ?thesis using assms(1) same_lab_trans lab_move.give_back [of s s' d e]
    by (auto simp: row_only_def nothing_left_def)
next
  case (build t r ls Y)
  moreover have "lx_id s1 = lx_id s" using assms(1) by (simp add: row_only_def same_lab_def)
  ultimately show ?thesis using assms(1) same_lab_trans
    by (auto simp: row_only_def nothing_left_def intro!: lab_move.build)
qed

lemma row_only_keep: "row_only s s' \<Longrightarrow> lab_move e s d s' d"
  by (simp add: row_only_def keep_row)

lemma row_only_refl [simp]: "row_only s s"
  by (simp add: row_only_def)

lemma cap_idle_shape:
  assumes "ordered_times None (Some m) (lx_latest_end s)"
  shows "\<exists>x. cap_idle (s\<lparr>lx_booking := bk, lx_max_expires := Some m\<rparr>) = s\<lparr>lx_booking := bk, lx_max_expires := Some m, lx_idle_expires := x\<rparr> \<and>
    ordered_times x (Some m) (lx_latest_end s)"
proof (intro exI conjI)
  show "cap_idle (s\<lparr>lx_booking := bk, lx_max_expires := Some m\<rparr>) = s\<lparr>lx_booking := bk, lx_max_expires := Some m,
      lx_idle_expires := (case lx_idle_expires s of None \<Rightarrow> None | Some i \<Rightarrow> Some (min i m))\<rparr>"
    by (simp add: cap_idle_def split: option.split)
  show "ordered_times (case lx_idle_expires s of None \<Rightarrow> None | Some i \<Rightarrow> Some (min i m)) (Some m) (lx_latest_end s)"
    using assms by (simp add: ordered_times_def split: option.split)
qed

lemma follow_class_cases:
  assumes "follow_class e s d = Inr s1"
  obtains "s1 = s"
    | bk m latest where "s1 = cap_idle (s\<lparr>lx_booking := bk, lx_max_expires := Some m\<rparr>)" "lx_latest_end s = Some latest"
        "m \<le> latest \<or> (\<exists>k. lx_max_expires s = Some k \<and> m \<le> k)"
proof (cases "lx_booking s")
  case None
  then show ?thesis using assms that(1) by (simp add: follow_class_def)
next
  case (Some b)
  show ?thesis
  proof (cases "lx_latest_end s")
    case None
    then show ?thesis using assms that(1) Some by (simp add: follow_class_def)
  next
    case l: (Some latest)
    note f = assms [unfolded follow_class_def Some l prod.case option.case]
    show ?thesis
    proof (cases "find_row (\<lambda>v. ev_id v = b) (st_events (x_site e))")
      case None
      then show ?thesis using f that(1) by simp
    next
      case v: (Some evt)
      show ?thesis
      proof (cases "ev_state evt \<in> set HOLDING")
        case False
        then show ?thesis using f that(1) v by simp
      next
        case True
        define p where "p = lab_provider e (put_lab s d)"
        define close where "close = chain_end p (class_chain p evt)"
        define nl where "nl = next_live (class_chain p evt) (x_now e)"
        have nb: "s = s\<lparr>lx_booking := Some b\<rparr>" using Some by simp
        note g = f [unfolded v option.case Let_def, folded p_def, folded close_def nl_def]
        show ?thesis
        proof (cases "is_drawing (pv_site p) (lx_id s)")
          case False
          then obtain k where k: "lx_max_expires s = Some k" "s1 = cap_idle (s\<lparr>lx_max_expires := Some (min k close)\<rparr>)"
            using g True by (cases "lx_max_expires s") auto
          have "s1 = cap_idle (s\<lparr>lx_booking := Some b, lx_max_expires := Some (min k close)\<rparr>)" using k(2) nb by simp
          then show ?thesis using k(1) l by (intro that(2)) auto
        next
          case dr: True
          have "\<exists>bk. s1 = cap_idle (s\<lparr>lx_booking := bk, lx_max_expires := Some (min latest close)\<rparr>)"
          proof (cases "ev_end evt \<le> x_now e \<and> nl \<noteq> None")
            case True
            then show ?thesis using g dr \<open>ev_state evt \<in> set HOLDING\<close> by auto
          next
            case False
            then have "s1 = cap_idle (s\<lparr>lx_max_expires := Some (min latest close)\<rparr>)" using g dr \<open>ev_state evt \<in> set HOLDING\<close> by auto
            then show ?thesis using nb by (intro exI [of _ "Some b"]) simp
          qed
          then obtain bk where "s1 = cap_idle (s\<lparr>lx_booking := bk, lx_max_expires := Some (min latest close)\<rparr>)" by blast
          then show ?thesis using l by (intro that(2)) auto
        qed
      qed
    qed
  qed
qed

lemma follow_class_shape:
  assumes "follow_class e s d = Inr s1"
  shows "\<exists>b m x. s1 = s\<lparr>lx_booking := b, lx_max_expires := m, lx_idle_expires := x\<rparr> \<and>
    (times_ok s \<longrightarrow> ordered_times x m (lx_latest_end s)) \<and>
    (ordered_times None (lx_max_expires s) (lx_latest_end s) \<longrightarrow> ordered_times None m (lx_latest_end s))"
  using assms
proof (cases rule: follow_class_cases)
  case 1
  then show ?thesis
    by (intro exI [of _ "lx_booking s"] exI [of _ "lx_max_expires s"] exI [of _ "lx_idle_expires s"]) simp
next
  case (2 bk m latest)
  show ?thesis
  proof (cases "ordered_times None (Some m) (lx_latest_end s)")
    case True
    then show ?thesis using cap_idle_shape [OF True, of bk] 2(1) by blast
  next
    case False
    then obtain k where "lx_max_expires s = Some k" "\<not> k \<le> latest" using 2(2,3) by (auto simp: ordered_times_def)
    then have "\<not> times_ok s" "\<not> ordered_times None (lx_max_expires s) (lx_latest_end s)" using 2(2) by (auto simp: ordered_times_def)
    then show ?thesis using 2(1) unfolding cap_idle_def by auto
  qed
qed

lemma follow_class_row:
  assumes "follow_class e s d = Inr s1"
  shows "row_only s s1 \<and> lx_state s1 = lx_state s \<and> lx_latest_end s1 = lx_latest_end s"
  using follow_class_shape [OF assms] by (auto simp: row_only_def same_lab_def over_def)

lemma build_labD:
  assumes "build_lab e pf nets rebuild s d = Inr (s', d')" "\<not> over s"
  obtains t r Y where "same_lab s s'" "lx_state s' = L_provisioning" "lx_range s' = Some (x_range_id e)" "lx_retired s' = lx_retired s"
    "lt_id t = x_template_id e" "rng_id r = x_range_id e" "rng_template r = x_template_id e" "set (doc_ports (lt_doc t)) \<subseteq> snd ` set nets"
    "d' = d\<lparr>lab_templates := lab_templates d @ [t], lab_range_rows := lab_range_rows d @ [r], lab_calls := Y\<rparr>"
proof -
  obtain doc where doc: "range_template pf nets (''lab-'' @ pf_id pf @ ''-'' @ take 8 (lx_id s)) = Some doc"
    using assms(1) by (auto simp: build_lab_def split: option.splits)
  define t where "t = \<lparr>lt_id = x_template_id e, lt_doc = doc, lt_tenant = lx_tenant s\<rparr>"
  define r where "r = \<lparr>rng_id = x_range_id e, rng_template = x_template_id e, rng_state = provisioning,
    rng_tenant = Some (lx_tenant s), provisioner_output = SqlNull, error_message = None, rng_deleted = False\<rparr>"
  define s1 where "s1 = (set_lab_state (x_now e) L_provisioning (s\<lparr>lx_range := Some (x_range_id e)\<rparr>))\<lparr>lx_error := NoError, lx_provisioning_at := Some (x_now e)\<rparr>"
  have s1: "same_lab s s1" "lx_state s1 = L_provisioning" "lx_range s1 = Some (x_range_id e)" "lx_retired s1 = lx_retired s"
    using assms(2) by (auto simp: s1_def row_simps)
  note b = assms(1) [unfolded build_lab_def doc option.case Let_def, folded t_def r_def s1_def]
  have d': "d' = add_call (OnLabRange (x_range_id e)) (d\<lparr>lab_templates := lab_templates d @ [t], lab_range_rows := lab_range_rows d @ [r]\<rparr>)"
    using b by (auto split: if_splits sum.splits option.splits)
  have e: "same_lab s s' \<and> lx_state s' = L_provisioning \<and> lx_range s' = Some (x_range_id e) \<and> lx_retired s' = lx_retired s"
  proof (cases rebuild)
    case True
    then have "s' = send_task (ProvisionRange (x_range_id e)) s1" using b by simp
    then show ?thesis using s1 by (auto simp: send_task_def same_lab_def over_def)
  next
    case False
    define latest where "latest = x_now e + lab_lifetime (q_max_lifetime (x_set e)) pf"
    obtain s2 m where f: "follow_class e (s1\<lparr>lx_latest_end := Some latest, lx_max_expires := Some latest\<rparr>)
        (d\<lparr>lab_templates := lab_templates d @ [t], lab_range_rows := lab_range_rows d @ [r]\<rparr>) = Inr s2" "lx_max_expires s2 = Some m"
      and s': "s' = send_task (ProvisionRange (x_range_id e)) (s2\<lparr>lx_idle_expires := Some (min (x_now e + idle_minutes e pf) m)\<rparr>)"
      using b False unfolding latest_def by (auto split: sum.splits option.splits)
    obtain bk mx x where s2: "s2 = s1\<lparr>lx_latest_end := Some latest, lx_booking := bk, lx_max_expires := mx, lx_idle_expires := x\<rparr>"
      and "ordered_times None mx (Some latest)" using follow_class_shape [OF f(1)] by (auto simp: ordered_times_def)
    then have m: "m \<le> latest" "mx = Some m" using f(2) by (auto simp: ordered_times_def)
    show ?thesis using s1 m unfolding s' s2 by (auto simp: send_task_def same_lab_def over_def ordered_times_def)
  qed
  have "set (doc_ports (lt_doc t)) \<subseteq> snd ` set nets" using template_ports [OF doc] by (simp add: t_def)
  moreover have "lt_id t = x_template_id e" "rng_id r = x_range_id e" "rng_template r = x_template_id e" by (simp_all add: t_def r_def)
  ultimately show thesis using that [of t r "lab_calls d @ [OnLabRange (x_range_id e)]"] e d' by (simp add: add_call_def)
qed

section \<open>Every operation is a move\<close>

lemma lease_networksD:
  assumes "lease_networks e s pf d = Inr (nets, d1)"
  shows "case nets of None \<Rightarrow> (\<exists>pool. d1 = d\<lparr>net_leases := sync_pool pool (net_leases d)\<rparr>)
    | Some ns \<Rightarrow> (\<exists>ls. d1 = d\<lparr>net_leases := ls\<rparr> \<and> leases_grow (lx_id s) (net_leases d) ls \<and> snd ` set ns \<subseteq> held_ports (lx_id s) ls)"
proof (cases "lx_backend s = ''mock''")
  case True
  then have "nets = Some [] \<and> d1 = d" using assms by (simp add: lease_networks_def)
  moreover have "d = d\<lparr>net_leases := net_leases d\<rparr>" "leases_grow (lx_id s) (net_leases d) (net_leases d)" by (simp_all add: leases_grow_def)
  ultimately show ?thesis by (auto intro!: exI [of _ "net_leases d"])
next
  case False
  define pool where "pool = q_pool (x_set e)"
  define ls where "ls = sync_pool pool (net_leases d)"
  define wanted where "wanted = map fst (pf_networks pf)"
  define free where "free = take (length wanted) (free_ports pool ls)"
  have b: "(if tenant_held d ls (lx_tenant s) + length wanted > q_networks (x_set e) then Inr (None, d\<lparr>net_leases := ls\<rparr>)
      else if length free < length wanted then Inr (None, d\<lparr>net_leases := ls\<rparr>)
      else Inr (Some (rev (zip wanted free)), d\<lparr>net_leases := take_ports (lx_id s) (x_now e) (zip wanted free) ls\<rparr>)) = (Inr (nets, d1) :: lab_refusal + _)"
    using assms False unfolding lease_networks_def pool_def [symmetric] Let_def ls_def [symmetric] wanted_def [symmetric] free_def [symmetric]
    by (simp split: if_splits)
  have fr: "\<forall>p \<in> snd ` set (zip wanted free). free_in p ls"
    using free_ports_free set_take_subset by (force simp: free_def dest!: set_zip_rightD)
  show ?thesis
  proof (cases "tenant_held d ls (lx_tenant s) + length wanted > q_networks (x_set e) \<or> length free < length wanted")
    case True
    then have "nets = None \<and> d1 = d\<lparr>net_leases := ls\<rparr>" using b by (auto split: if_splits)
    then show ?thesis by (auto simp: ls_def)
  next
    case f: False
    then have r: "nets = Some (rev (zip wanted free))" "d1 = d\<lparr>net_leases := take_ports (lx_id s) (x_now e) (zip wanted free) ls\<rparr>"
      using b by (auto split: if_splits)
    have "leases_grow (lx_id s) (net_leases d) (take_ports (lx_id s) (x_now e) (zip wanted free) ls)"
      unfolding leases_grow_def using fr unfolding ls_def by blast
    moreover have "snd ` set (rev (zip wanted free)) \<subseteq> held_ports (lx_id s) (take_ports (lx_id s) (x_now e) (zip wanted free) ls)"
      using held_take_own [OF fr] by simp
    ultimately show ?thesis using r by auto
  qed
qed

lemma capacity_refused_row:
  assumes "capacity_refused e pf rb s d = Inr (b, s1)"
  shows "row_only s s1 \<and> lx_state s1 = lx_state s"
  using assms unfolding capacity_refused_def Let_def
  by (auto split: if_splits option.splits simp: row_only_def same_lab_def over_def)

lemma error_row: "row_only s (s\<lparr>lx_error := x\<rparr>)"
  by (simp add: row_only_def same_lab_def over_def)

lemma build_move:
  assumes "build_lab e pf nets rebuild s d = Inr (s', d')" "\<not> over s" "nothing_left s d" "lx_range s = None"
    and "snd ` set nets \<subseteq> held_ports (lx_id s) ls" "leases_grow (lx_id s) (net_leases d0) ls" "d = d0\<lparr>net_leases := ls\<rparr>"
  shows "lab_move e s d0 s' d'"
proof -
  obtain t r Y where b: "same_lab s s'" "lx_state s' = L_provisioning" "lx_range s' = Some (x_range_id e)" "lx_retired s' = lx_retired s"
    "lt_id t = x_template_id e" "rng_id r = x_range_id e" "rng_template r = x_template_id e" "set (doc_ports (lt_doc t)) \<subseteq> snd ` set nets"
    "d' = d\<lparr>lab_templates := lab_templates d @ [t], lab_range_rows := lab_range_rows d @ [r], lab_calls := Y\<rparr>"
    using build_labD [OF assms(1,2)] by metis
  have "d' = d0\<lparr>net_leases := ls, lab_templates := lab_templates d0 @ [t], lab_range_rows := lab_range_rows d0 @ [r], lab_calls := Y\<rparr>"
    using b(9) assms(7) by simp
  then show ?thesis using b assms(2-6)
    by (auto simp: nothing_left_def intro!: lab_move.build)
qed

lemma start_lab_move:
  assumes "start_lab e pf None rb s d = Inr (s', d')" "\<not> over s" "lx_range s = None"
  shows "lab_move e s d s' d'"
proof (cases "window_holds e s d")
  case (Some w)
  then show ?thesis using assms(1) by (auto simp: start_lab_def intro!: row_only_keep error_row)
next
  case win: None
  show ?thesis
  proof (cases "quota_problem e s d")
    case (Some q)
    then show ?thesis using assms(1) win by (auto simp: start_lab_def intro!: row_only_keep error_row)
  next
    case quota: None
    obtain b s1 where c: "capacity_refused e pf rb s d = Inr (b, s1)"
      using assms(1) win quota by (auto simp: start_lab_def split: sum.splits)
    have row: "row_only s s1" using capacity_refused_row [OF c] by blast
    note r = assms(1) [unfolded start_lab_def win quota option.case c sum.case prod.case]
    show ?thesis
    proof (cases b)
      case True
      then show ?thesis using r row by (auto intro!: row_only_keep)
    next
      case False
      then obtain nets d1 where l: "lease_networks e s1 pf d = Inr (nets, d1)" using r by (auto split: sum.splits)
      note r1 = r [unfolded l sum.case prod.case, simplified False bool.case]
      show ?thesis
      proof (cases nets)
        case None
        then obtain pool where d1: "d1 = d\<lparr>net_leases := sync_pool pool (net_leases d)\<rparr>" using lease_networksD [OF l] by auto
        have "s' = s1\<lparr>lx_error := NetworksInUse\<rparr>" "d' = d1" using r1 None by auto
        moreover have "lab_move e s1 d (s1\<lparr>lx_error := NetworksInUse\<rparr>) d1"
          unfolding d1 by (rule lab_move.wait) (simp_all add: same_lab_def over_def)
        ultimately show ?thesis using move_after_row [OF row] by simp
      next
        case (Some ns)
        then obtain ls where d1: "d1 = d\<lparr>net_leases := ls\<rparr>" "leases_grow (lx_id s1) (net_leases d) ls" "snd ` set ns \<subseteq> held_ports (lx_id s1) ls"
          using lease_networksD [OF l] by auto
        have "build_lab e pf ns False s1 d1 = Inr (s', d')" using r1 Some by simp
        moreover have "\<not> over s1" "lx_range s1 = None" "nothing_left s1 d1" using row assms(2,3) by (auto simp: row_only_def nothing_left_def)
        ultimately have "lab_move e s1 d s' d'" using build_move d1 by blast
        then show ?thesis by (rule move_after_row [OF row])
      qed
    qed
  qed
qed

lemma console_idle_row:
  assumes "console_idle e c latest s = Inr (b, s1)" "\<not> over s" "lx_max_expires s = Some latest"
  shows "row_only s s1"
  using assms unfolding console_idle_def
  by (auto split: consoles.splits sum.splits if_splits simp: row_only_def row_simps intro: ordered_idle)

lemma advance_running_move:
  assumes "advance_running e c s d = Inr (s', d')" "\<not> over s"
  shows "lab_move e s d s' d'"
proof -
  obtain latest idle where t: "lx_max_expires s = Some latest" "lx_idle_expires s = Some idle"
    using assms(1) by (auto simp: advance_running_def split: option.splits)
  note r = assms(1) [unfolded advance_running_def t prod.case option.case]
  consider (stay) "x_now e < latest \<and> x_now e < idle" | (cls) "\<not> (x_now e < latest \<and> x_now e < idle)" "of_class_range e (lx_range s)"
    | (idl) "\<not> (x_now e < latest \<and> x_now e < idle)" "\<not> of_class_range e (lx_range s)" "x_now e < latest"
    | (max) "\<not> (x_now e < latest \<and> x_now e < idle)" "\<not> of_class_range e (lx_range s)" "\<not> x_now e < latest" by blast
  then show ?thesis
  proof cases
    case stay
    have "lab_move e s d (s\<lparr>lx_idle_warned := Some (x_now e)\<rparr>) (add_call (WarnedIdle (lx_user s) idle) d)"
      using lab_move.keep [of s "s\<lparr>lx_idle_warned := Some (x_now e)\<rparr>" d "lab_range_rows d" e "lab_calls d @ [WarnedIdle (lx_user s) idle]" "lab_snaps d"]
      by (simp add: same_lab_def over_def own_range_write_def add_call_def)
    moreover have "lab_move e s d s d" by (rule keep_row) simp_all
    ultimately show ?thesis using r [unfolded if_P [OF stay]] by (auto split: if_splits)
  next
    case cls
    show ?thesis using r [unfolded if_not_P [OF cls(1)] if_P [OF cls(2)]]
      by (auto intro!: keep_row simp: row_simps)
  next
    case idl
    note r1 = r [unfolded if_not_P [OF idl(1)] if_not_P [OF idl(2)] if_P [OF idl(3)]]
    obtain b s1 where c: "console_idle e c latest s = Inr (b, s1)" using r1 by (auto split: sum.splits)
    note row = console_idle_row [OF c assms(2) t(1)]
    show ?thesis
    proof (cases b)
      case True
      then have "end_lab e EndIdle s1 d = (s', d')" using r1 c by simp
      then show ?thesis by (rule move_after_row [OF row end_lab_move])
    next
      case False
      then show ?thesis using r1 c row by (auto intro!: row_only_keep)
    qed
  next
    case max
    have "end_lab e EndExpired s d = (s', d')" using r [unfolded if_not_P [OF max(1)] if_not_P [OF max(2)] if_not_P [OF max(3)]] by simp
    then show ?thesis by (rule end_lab_move)
  qed
qed

lemma move_write_then:
  assumes "same_lab s s'" "lx_range s' = lx_range s" "lx_retired s' = lx_retired s" "\<not> over s" "lx_range s = Some i"
  shows "lab_move e s d s' (clear_range_error i (write_range i st d))"
proof -
  have "lab_range_rows (clear_range_error i (write_range i st d)) =
      update_where (\<lambda>r. rng_id r = i) (\<lambda>r. r\<lparr>rng_state := st, error_message := None\<rparr>) (lab_range_rows d)"
    by (simp add: clear_range_error_def write_range_def update_where_def)
  moreover have "clear_range_error i (write_range i st d) = d\<lparr>lab_range_rows := lab_range_rows (clear_range_error i (write_range i st d))\<rparr>"
    by (simp add: clear_range_error_def write_range_def)
  ultimately have "clear_range_error i (write_range i st d) =
      d\<lparr>lab_range_rows := update_where (\<lambda>r. rng_id r = i) (\<lambda>r. r\<lparr>rng_state := st, error_message := None\<rparr>) (lab_range_rows d)\<rparr>" by simp
  then show ?thesis
    using lab_move.keep [OF assms(1-3) own_write [OF assms(4,5), of "\<lambda>r. r\<lparr>rng_state := st, error_message := None\<rparr>" "lab_range_rows d"], of e "lab_calls d" "lab_snaps d"]
    by simp
qed

lemma keep_snaps:
  assumes "row_only s s'"
  shows "lab_move e s d s' (d\<lparr>lab_snaps := X, lab_calls := Y\<rparr>)"
  using assms lab_move.keep [of s s' d "lab_range_rows d" e Y X] by (simp add: row_only_def own_range_write_def)

lemma advance_provisioning_move:
  assumes "advance_provisioning e s d = Inr (s', d')" "lx_state s = L_provisioning"
  shows "lab_move e s d s' d'"
proof (cases "lab_range_row d s")
  case None
  then show ?thesis using assms fail_lab_move [of e RangeMissing s d s' d'] by (simp add: advance_provisioning_def over_def LAB_TERMINAL_def)
next
  case (Some r)
  note i = lab_range_row_SomeD [OF Some, THEN conjunct1]
  have fl: "lab_move e s d s' d'" if "fail_lab e err s d = (s', d')" for err
    using that assms(2) by (intro fail_lab_move) (simp_all add: over_def LAB_TERMINAL_def)
  note a = assms(1) [unfolded advance_provisioning_def Some option.case]
  consider (broken) "rng_state r = failed" | (fresh) "rng_state r = created" | (late) "rng_state r \<noteq> failed" "rng_state r \<noteq> created"
      "x_now e - (case lx_provisioning_at s of None \<Rightarrow> x_now e | Some t \<Rightarrow> t) > seconds (q_provision_timeout (x_set e))"
    | (going) "rng_state r \<noteq> failed" "rng_state r \<noteq> created" "\<not> x_now e - (case lx_provisioning_at s of None \<Rightarrow> x_now e | Some t \<Rightarrow> t) > seconds (q_provision_timeout (x_set e))" "rng_state r \<noteq> ready"
    | (built) "rng_state r = ready" "\<not> x_now e - (case lx_provisioning_at s of None \<Rightarrow> x_now e | Some t \<Rightarrow> t) > seconds (q_provision_timeout (x_set e))"
    by (cases "rng_state r") auto
  then show ?thesis
  proof cases
    case broken
    then show ?thesis using a fl by simp
  next
    case fresh
    show ?thesis
    proof (cases "window_holds e s d")
      case (Some w)
      then show ?thesis using a fresh by (auto intro!: row_only_keep error_row)
    next
      case None
      then show ?thesis using a fresh assms(2) i
        by (auto intro!: move_write_then simp: send_task_def same_lab_def over_def LAB_TERMINAL_def)
    qed
  next
    case late
    then show ?thesis using a fl by simp
  next
    case going
    then show ?thesis using a by (auto intro!: keep_row)
  next
    case built
    obtain pf where pf: "session_profile e s = Inr pf" using a built by (auto split: sum.splits)
    define results where "results = run_probes (x_net e) (pf_checks pf) (lab_vms (provisioner_output r)) (Some (rng_id r))"
    have a1: "(if \<not> list_all snd results then Inr (s\<lparr>lx_probes := results\<rparr>, d)
      else case lx_provisioning_at s of None \<Rightarrow> Inl Crashed
       | Some t \<Rightarrow>
         (let s2 = s\<lparr>lx_probes := results, lx_readiness := Some (x_now e - t), lx_ready_at := Some (x_now e)\<rparr>; sid = x_snapshot_id e in
          if pf_snapshot_reset pf
          then Inr (send_task (SnapshotRange (rng_id r) sid) (set_lab_state (x_now e) L_baselining (s2\<lparr>lx_baseline := Some sid\<rparr>)),
               add_call (OnSnapshot (rng_id r) sid)
                 (d\<lparr>lab_snaps := lab_snaps d @ [\<lparr>sn_id = sid, sn_range = rng_id r, snapshot_state = ''creating''\<rparr>]\<rparr>))
          else Inr (set_lab_state (x_now e) L_ready s2, d))) = (Inr (s', d') :: lab_result)"
      using a built pf unfolding results_def Let_def by simp
    have row: "row_only s (s\<lparr>lx_probes := results\<rparr>)" by (simp add: row_only_def same_lab_def over_def)
    show ?thesis
    proof (cases "list_all snd results \<and> lx_provisioning_at s \<noteq> None")
      case False
      then have "s' = s\<lparr>lx_probes := results\<rparr>" "d' = d" using a1 by (auto split: if_splits option.splits)
      then show ?thesis using row row_only_keep by simp
    next
      case True
      then obtain t where t: "lx_provisioning_at s = Some t" and ok: "list_all snd results" by auto
      note a2 = a1 [unfolded t option.case Let_def, simplified ok not_True_eq_False if_False]
      have r1: "row_only s (send_task x (set_lab_state (x_now e) L_baselining (s\<lparr>lx_probes := results, lx_readiness := u, lx_ready_at := v, lx_baseline := w\<rparr>)))"
        and r2: "row_only s (set_lab_state (x_now e) L_ready (s\<lparr>lx_probes := results, lx_readiness := u, lx_ready_at := v\<rparr>))" for x u v w
        using assms(2) by (simp_all add: row_only_def row_simps)
      show ?thesis
      proof (cases "pf_snapshot_reset pf")
        case True
        then show ?thesis using a2 by (auto simp: add_call_def intro!: keep_snaps r1)
      next
        case False
        then show ?thesis using a2 by (auto intro!: row_only_keep r2)
      qed
    qed
  qed
qed

lemma advance_baselining_move:
  assumes "advance_baselining e s d = Inr (s', d')" "lx_state s = L_baselining"
  shows "lab_move e s d s' d'"
proof -
  have fl: "lab_move e s d s' d'" if "fail_lab e err s d = (s', d')" for err
    using that assms(2) by (intro fail_lab_move) (simp_all add: over_def LAB_TERMINAL_def)
  have ok: "row_only s (set_lab_state (x_now e) L_ready s)" using assms(2) by (simp add: row_only_def row_simps)
  have again: "row_only s (send_task t (s\<lparr>lx_attempts := n, lx_since := u\<rparr>))" for t n u by (simp add: row_only_def same_lab_def over_def send_task_def)
  have wr: "lab_move e s d s1 (write_snap i st d)" if "row_only s s1" for s1 i st
    using keep_snaps [OF that, of e d "lab_calls d" "lab_snaps (write_snap i st d)"] by (simp add: write_snap_def)
  show ?thesis
  proof (cases "baseline_snap d s")
    case None
    then show ?thesis using assms(1) fl by (simp add: advance_baselining_def)
  next
    case (Some sn)
    note a = assms(1) [unfolded advance_baselining_def Some option.case]
    show ?thesis using a
      by (auto split: if_splits option.splits intro!: row_only_keep [OF ok] row_only_keep [OF row_only_refl] wr again elim!: fl)
  qed
qed

lemma advance_resetting_move:
  assumes "advance_resetting e s d = Inr (s', d')" "lx_state s = L_resetting"
  shows "lab_move e s d s' d'"
proof -
  have over: "\<not> over s" using assms(2) by (simp add: over_def LAB_TERMINAL_def)
  have fl: "lab_move e s d s' d'" if "fail_lab e err s d = (s', d')" for err
    using that assms(2) by (intro fail_lab_move) (simp_all add: over_def LAB_TERMINAL_def)
  have ok: "row_only s (set_lab_state (x_now e) L_active s)" using assms(2) by (simp add: row_only_def row_simps)
  obtain pf where pf: "session_profile e s = Inr pf" using assms(1) by (auto simp: advance_resetting_def split: sum.splits)
  note a = assms(1) [unfolded advance_resetting_def pf sum.case]
  show ?thesis
  proof (cases "pf_snapshot_reset pf")
    case True
    show ?thesis using a [unfolded if_P [OF True]]
      by (auto split: if_splits option.splits intro!: row_only_keep [OF ok] row_only_keep [OF row_only_refl] elim!: fl)
  next
    case False
    note a1 = a [unfolded if_not_P [OF False]]
    show ?thesis
    proof (cases "lab_range_row d s")
      case None
      then show ?thesis using a1 fl by simp
    next
      case (Some r)
      note i = lab_range_row_SomeD [OF Some, THEN conjunct1]
      note a2 = a1 [unfolded Some option.case]
      show ?thesis
      proof (cases "rng_state r = destroyed")
        case gone: True
        show ?thesis
        proof (cases "window_holds e s d")
          case (Some w)
          then show ?thesis using a2 gone by (auto intro!: row_only_keep error_row)
        next
          case None
          define s1 where "s1 = send_task (ReconcileVms [rng_id r] (lx_backend s)) (s\<lparr>lx_retired := lx_retired s @ [rng_id r]\<rparr>)"
          have b: "build_lab e pf (session_networks (lx_id s) d) True s1 d = Inr (s', d')"
            using a2 gone None by (simp add: start_lab_def s1_def)
          have s1: "same_lab s s1" "lx_id s1 = lx_id s" "over s1 = over s" "lx_retired s1 = lx_retired s @ [rng_id r]" "lx_range s1 = lx_range s"
            by (simp_all add: s1_def send_task_def same_lab_def over_def)
          obtain t w Y where bb: "same_lab s1 s'" "lx_state s' = L_provisioning" "lx_range s' = Some (x_range_id e)" "lx_retired s' = lx_retired s1"
            "lt_id t = x_template_id e" "rng_id w = x_range_id e" "rng_template w = x_template_id e"
            "set (doc_ports (lt_doc t)) \<subseteq> snd ` set (session_networks (lx_id s) d)"
            "d' = d\<lparr>lab_templates := lab_templates d @ [t], lab_range_rows := lab_range_rows d @ [w], lab_calls := Y\<rparr>"
            using build_labD [OF b] over s1(3) by metis
          have left: "nothing_left s d" using Some gone by (intro nothing_left_if) simp
          have "lab_move e s d s' (d\<lparr>net_leases := net_leases d, lab_templates := lab_templates d @ [t], lab_range_rows := lab_range_rows d @ [w], lab_calls := Y\<rparr>)"
            using bb same_lab_trans [OF s1(1) bb(1)] left over i s1(4) session_networks_held [of "lx_id s" d]
            by (intro lab_move.build) (auto simp: leases_grow_def)
          then show ?thesis using bb(9) by simp
        qed
      next
        case False
        show ?thesis using a2 [unfolded if_not_P [OF False]]
          by (auto split: if_splits intro!: row_only_keep [OF row_only_refl] elim!: fl)
      qed
    qed
  qed
qed

lemma advance_cleaning_move:
  assumes "advance_cleaning e s d = (s', d')" "\<not> over s" "lx_state s \<noteq> L_queued"
  shows "lab_move e s d s' d'"
proof -
  have bk: "lab_move e s d (set_lab_state (x_now e) L_destroyed (s\<lparr>lx_reconciled := Some (x_now e)\<rparr>)) (release_networks (lx_id s) d)"
    if "nothing_left s d"
    using that assms(2,3) by (intro lab_move.give_back) (auto simp: row_simps)
  have rows: "row_only s (set_lab_state (x_now e) L_reconciling (send_task t s))" "row_only s (set_lab_state (x_now e) L_cleaning s)" for t
    using assms(2,3) by (auto simp: row_only_def row_simps)
  show ?thesis
  proof (cases "lab_range_row d s")
    case None
    then show ?thesis using assms(1) bk nothing_left_if [of d s] by (auto simp: advance_cleaning_def)
  next
    case (Some r)
    note i = lab_range_row_SomeD [OF Some, THEN conjunct1]
    note a = assms(1) [unfolded advance_cleaning_def Some option.case]
    show ?thesis
    proof (cases "rng_state r = destroyed")
      case True
      then have "nothing_left s d" using Some by (intro nothing_left_if) simp
      then show ?thesis using a True bk
        by (auto split: if_splits intro!: row_only_keep [OF row_only_refl] row_only_keep [OF rows(1)])
    next
      case False
      have again: "same_lab s (s\<lparr>lx_state := L_reconcile_required, lx_since := v, lx_attempts := n, lx_pending := lx_pending s @ t\<rparr>)" for t v n
        using assms(2,3) by (simp add: row_simps)
      have stuck: "same_lab s (s\<lparr>lx_error := TeardownFailed, lx_state := L_failed\<rparr>)" by (simp add: row_simps)
      show ?thesis using a False assms(2) i
        by (auto split: if_splits intro!: row_only_keep [OF row_only_refl] row_only_keep [OF rows(2)] keep_row [OF stuck] keep_write [OF again] simp: send_task_def)
    qed
  qed
qed

lemma live_not_over: "lx_state s \<in> {L_ready, L_active, L_resetting, L_provisioning, L_baselining, L_queued} \<Longrightarrow> \<not> over s"
  by (auto simp: over_def LAB_TERMINAL_def)

lemma advance_move:
  assumes "advance e c s d = Inr (s', d')" "lx_state s = L_queued \<Longrightarrow> lx_range s = None"
  shows "lab_move e s d s' d'"
proof (cases "lx_pending s = []")
  case False
  then show ?thesis using assms(1) by (auto simp: advance_def intro!: keep_row)
next
  case True
  then have a: "advance e c s d = (case lx_state s of
      L_queued \<Rightarrow> advance_queued e s d | L_provisioning \<Rightarrow> advance_provisioning e s d | L_baselining \<Rightarrow> advance_baselining e s d
    | L_resetting \<Rightarrow> advance_resetting e s d
    | L_ready \<Rightarrow> (case follow_class e s d of Inl err \<Rightarrow> Inl err | Inr s1 \<Rightarrow> advance_running e c s1 d)
    | L_active \<Rightarrow> (case follow_class e s d of Inl err \<Rightarrow> Inl err | Inr s1 \<Rightarrow> advance_running e c s1 d)
    | L_destroyed \<Rightarrow> Inr (s, d) | L_failed \<Rightarrow> Inr (s, d) | _ \<Rightarrow> Inr (advance_cleaning e s d))"
    by (simp only: advance_def not_True_eq_False if_False simp_thms)
  have follow: "lab_move e s d s' d'" if live: "lx_state s \<in> {L_ready, L_active}"
  proof -
    obtain s1 where f: "follow_class e s d = Inr s1" and r: "advance_running e c s1 d = Inr (s', d')"
      using assms(1) live unfolding a by (cases "lx_state s"; cases "follow_class e s d") simp_all
    have "\<not> over s1" using follow_class_row [OF f] live live_not_over [of s1] by auto
    then show ?thesis using move_after_row follow_class_row [OF f] advance_running_move [OF r] by blast
  qed
  have cleaning: "lab_move e s d s' d'" if "lx_state s \<in> set LAB_ENDING"
  proof -
    have "advance_cleaning e s d = (s', d')" using assms(1) that unfolding a by (cases "lx_state s") (simp_all add: LAB_ENDING_def)
    moreover have "\<not> over s" "lx_state s \<noteq> L_queued" using that by (auto simp: over_def LAB_TERMINAL_def LAB_ENDING_def)
    ultimately show ?thesis by (rule advance_cleaning_move)
  qed
  show ?thesis
  proof (cases "lx_state s")
    case L_queued
    then have "advance_queued e s d = Inr (s', d')" "lx_range s = None" "\<not> over s" using assms a live_not_over [of s] by auto
    then show ?thesis
      by (auto simp: advance_queued_def split: if_splits sum.splits intro: end_lab_move start_lab_move)
  qed (use assms(1) a follow cleaning in \<open>auto simp: LAB_ENDING_def intro: advance_provisioning_move advance_baselining_move advance_resetting_move keep_row\<close>)
qed

lemma touch_row:
  assumes "touch e s d = Inr (s', d')"
  shows "row_only s s' \<and> d' = d"
  using assms unfolding touch_def
  by (auto split: if_splits sum.splits option.splits simp: row_only_def row_simps intro: ordered_idle)

lemma reset_move:
  assumes "reset_lab e s d = Inr (s', d')"
  shows "lab_move e s d s' d'"
proof -
  have live: "lx_state s \<in> {L_ready, L_active}" using assms by (auto simp: reset_lab_def split: if_splits)
  then have over: "\<not> over s" by (auto simp: over_def LAB_TERMINAL_def)
  obtain r where r: "lab_range_row d s = Some r" using assms live by (auto simp: reset_lab_def split: option.splits)
  note i = lab_range_row_SomeD [OF r, THEN conjunct1]
  have row: "row_only s (send_task t (set_lab_state (x_now e) L_resetting s))" for t
    using over by (simp add: row_only_def row_simps)
  have snaps: "lab_move e s d s1 (add_call c (write_snap j st d))" if "row_only s s1" for s1 c j st
    using keep_snaps [OF that, of e d "lab_calls d @ [c]" "lab_snaps (write_snap j st d)"] by (simp add: write_snap_def add_call_def)
  have destroy: "lab_move e s d (send_task t (set_lab_state (x_now e) L_resetting s)) (write_range (rng_id r) destroying d)" for t
    using row [of t] over i by (intro keep_write) (simp_all add: row_only_def)
  have a: "(case covering_range (x_yaml e) (window_tables e d) r (x_now e) of
           w # _ \<Rightarrow> Inl (InsideWindow (mw_id w))
         | [] \<Rightarrow>
           (case session_profile e s of Inl err \<Rightarrow> Inl err
            | Inr pf \<Rightarrow>
              if pf_snapshot_reset pf then
                (case baseline_snap d s of
                   None \<Rightarrow> Inl NoResetPoint
                 | Some sn \<Rightarrow>
                   if snapshot_state sn \<noteq> ''ready'' then Inl NoResetPoint
                   else if x_passwords_pending e (rng_id r) then Inl PasswordsPending
                   else Inr (send_task (RestoreSnapshot (rng_id r) (sn_id sn)) (set_lab_state (x_now e) L_resetting s),
                          add_call (OnRestore (rng_id r) (sn_id sn) (lx_user s)) (write_snap (sn_id sn) ''restoring'' d)))
              else Inr (send_task (DestroyRange (rng_id r)) (set_lab_state (x_now e) L_resetting s), write_range (rng_id r) destroying d))) =
     (Inr (s', d') :: lab_result)"
    using assms [unfolded reset_lab_def r option.case] live by (simp split: if_splits)
  show ?thesis using a
    by (auto split: list.splits sum.splits option.splits if_splits intro!: snaps row destroy)
qed

lemma perform_move:
  assumes "perform e op s d = Inr (s', d')" "lx_state s = L_queued \<Longrightarrow> lx_range s = None"
  shows "lab_move e s d s' d'"
proof (cases op)
  case (Advance c)
  then show ?thesis using assms advance_move by (simp add: perform_def)
next
  case Touch
  then show ?thesis using assms(1) touch_row [of e s d s' d'] row_only_keep by (simp add: perform_def)
next
  case Reset
  then show ?thesis using assms(1) reset_move by (simp add: perform_def)
next
  case (AddEvidence item)
  then show ?thesis using assms(1)
    by (auto simp: perform_def add_evidence_def same_lab_def over_def split: if_splits intro!: keep_row)
next
  case EndLab
  then show ?thesis using assms(1) end_lab_move by (simp add: perform_def)
qed

section \<open>Labs stay apart\<close>

text \<open>A lab's ranges are its own, those it has put behind it are gone, and the range it has stands on networks
  leased to it for as long as the lab is not over or the range is not destroyed.\<close>

definition lab_ok :: "lab \<Rightarrow> lab_db \<Rightarrow> bool" where
  "lab_ok s d = (distinct (made_ranges s) \<and>
     (\<forall>r \<in> set (lab_range_rows d). rng_id r \<in> set (lx_retired s) \<longrightarrow> rng_state r = destroyed) \<and>
     (\<forall>r \<in> set (lab_range_rows d). lx_range s = Some (rng_id r) \<longrightarrow> \<not> over s \<or> rng_state r \<noteq> destroyed \<longrightarrow>
        set (range_ports (lab_templates d) r) \<subseteq> held_ports (lx_id s) (net_leases d)) \<and>
     (lx_state s = L_queued \<longrightarrow> lx_range s = None))"

definition labs_apart :: "lab_db \<Rightarrow> bool" where
  "labs_apart d = (distinct (map lx_id (lab_rows d)) \<and> distinct (map ln_port (net_leases d)) \<and> distinct (map rng_id (lab_range_rows d)) \<and>
     (\<forall>s \<in> set (lab_rows d). lab_ok s d) \<and>
     (\<forall>s \<in> set (lab_rows d). \<forall>t \<in> set (lab_rows d). lx_id s \<noteq> lx_id t \<longrightarrow> set (made_ranges s) \<inter> set (made_ranges t) = {}))"

definition new_ids :: "lab_env \<Rightarrow> lab_db \<Rightarrow> bool" where
  "new_ids e d = (x_range_id e \<notin> rng_id ` set (lab_range_rows d) \<and> (\<forall>s \<in> set (lab_rows d). x_range_id e \<notin> set (made_ranges s)) \<and>
     x_template_id e \<notin> lt_id ` set (lab_templates d) \<and> x_template_id e \<notin> rng_template ` set (lab_range_rows d))"

lemma own_write_row:
  assumes "own_range_write s R R'" "r \<in> set R'"
  obtains r0 where "r0 \<in> set R" "rng_id r0 = rng_id r" "rng_template r0 = rng_template r"
    "lx_range s = Some (rng_id r) \<and> \<not> over s \<or> r0 = r"
  using assms that unfolding own_range_write_def
  by (auto simp: set_update_where split: if_splits)

lemma own_write_ids: "own_range_write s R R' \<Longrightarrow> map rng_id R' = map rng_id R"
  by (auto simp: own_range_write_def map_update_where)

lemma find_row_one: "find_row P [t] = (if P t then Some t else None)"
  by (simp add: find_row_def)

lemma range_ports_old:
  assumes "lt_id t \<noteq> rng_template r"
  shows "range_ports (ts @ [t]) r = range_ports ts r"
  using assms by (simp add: range_ports_def find_row_append find_row_one split: option.splits)

lemma range_ports_new:
  assumes "lt_id t = rng_template r" "lt_id t \<notin> lt_id ` set ts"
  shows "range_ports (ts @ [t]) r = doc_ports (lt_doc t)"
proof -
  have "find_row (\<lambda>t. lt_id t = rng_template r) ts = None" using assms by (force simp: find_row_None_iff)
  then show ?thesis using assms(1) by (simp add: range_ports_def find_row_append find_row_one)
qed

lemma leases_grow_facts:
  assumes "leases_grow i ls ls'" "distinct (map ln_port ls)"
  shows "distinct (map ln_port ls')" "j \<noteq> i \<Longrightarrow> held_ports j ls' = held_ports j ls" "held_ports i ls \<subseteq> held_ports i ls'"
proof -
  have "distinct (map ln_port ls') \<and> (j \<noteq> i \<longrightarrow> held_ports j ls' = held_ports j ls) \<and> held_ports i ls \<subseteq> held_ports i ls'"
    using assms(1) unfolding leases_grow_def
  proof (elim disjE exE conjE)
    fix pool now taken
    assume t: "ls' = take_ports i now taken (sync_pool pool ls)" "\<forall>p \<in> snd ` set taken. free_in p (sync_pool pool ls)"
    note ds = distinct_sync [OF assms(2), of pool]
    show ?thesis using t held_take_other [OF ds t(2), of j i now] held_take_mono [OF ds, of i now taken] ds by simp
  qed (use assms(2) in simp)
  then show "distinct (map ln_port ls')" "j \<noteq> i \<Longrightarrow> held_ports j ls' = held_ports j ls" "held_ports i ls \<subseteq> held_ports i ls'" by auto
qed

lemma move_keeps_lab:
  assumes "lab_move e s d s' d'"
  shows "same_lab s s' \<and> lab_rows d' = lab_rows d"
  using assms by cases (simp_all add: release_networks_def)

lemma move_other_ok:
  assumes "lab_move e s d s' d'" "lab_ok t d" "lx_id t \<noteq> lx_id s" "set (made_ranges s) \<inter> set (made_ranges t) = {}"
    and fresh: "new_ids e d" "t \<in> set (lab_rows d)" and leases: "distinct (map ln_port (net_leases d))"
  shows "lab_ok t d'"
proof -
  have mine: "rng_id r \<in> set (made_ranges t)" if "rng_id r \<in> set (lx_retired t) \<or> lx_range t = Some (rng_id r)" for r
    using that by (auto simp: made_ranges_def)
  from assms(1) show ?thesis
  proof cases
    case (keep R X Y)
    have "r \<in> set (lab_range_rows d)" if r: "r \<in> set R" "rng_id r \<in> set (made_ranges t)" for r
    proof -
      obtain r0 where "r0 \<in> set (lab_range_rows d)" "lx_range s = Some (rng_id r) \<and> \<not> over s \<or> r0 = r"
        using own_write_row [OF keep(5) r(1)] by metis
      moreover have "lx_range s \<noteq> Some (rng_id r)" using assms(4) r(2) by (auto simp: made_ranges_def)
      ultimately show ?thesis by auto
    qed
    then show ?thesis using assms(2) mine unfolding keep(1) lab_ok_def by auto
  next
    case (wait pool)
    then show ?thesis using assms(2) by (simp add: lab_ok_def)
  next
    case give_back
    then show ?thesis using assms(2,3) by (simp add: lab_ok_def held_release) (simp add: release_networks_def)
  next
    case (build w r ls Y)
    have "x_range_id e \<notin> set (made_ranges t)" using fresh by (simp add: new_ids_def)
    then have new: "rng_id r \<noteq> rng_id q" if "rng_id q \<in> set (lx_retired t) \<or> lx_range t = Some (rng_id q)" for q
      using mine [OF that] build by auto
    have ports: "range_ports (lab_templates d @ [w]) q = range_ports (lab_templates d) q" if "q \<in> set (lab_range_rows d)" for q
      using that fresh(1) build by (intro range_ports_old) (auto simp: new_ids_def)
    have h: "held_ports (lx_id t) ls = held_ports (lx_id t) (net_leases d)" by (rule leases_grow_facts(2) [OF build(12) leases assms(3)])
    show ?thesis using assms(2) new ports unfolding build(1) lab_ok_def by (auto simp: h)
  qed
qed

lemma move_own_ok:
  assumes "lab_move e s d s' d'" "lab_ok s d" and fresh: "new_ids e d" "s \<in> set (lab_rows d)"
    and keys: "distinct (map ln_port (net_leases d))" "distinct (map rng_id (lab_range_rows d))"
  shows "lab_ok s' d'"
  using assms(1)
proof cases
  case (keep R X Y)
  have made: "made_ranges s' = made_ranges s" using keep by (simp add: made_ranges_def)
  have id: "lx_id s' = lx_id s" and over: "over s \<Longrightarrow> over s'" and q: "lx_state s' = L_queued \<Longrightarrow> lx_state s = L_queued"
    using keep(2) by (auto simp: same_lab_def)
  have retired: "rng_state r = destroyed" if r: "r \<in> set R" "rng_id r \<in> set (lx_retired s)" for r
  proof -
    obtain r0 where r0: "r0 \<in> set (lab_range_rows d)" "lx_range s = Some (rng_id r) \<and> \<not> over s \<or> r0 = r"
      using own_write_row [OF keep(5) r(1)] by metis
    have "lx_range s \<noteq> Some (rng_id r)" using assms(2) r(2) by (auto simp: lab_ok_def made_ranges_def)
    with r0 r(2) assms(2) show ?thesis by (auto simp: lab_ok_def)
  qed
  have ports: "set (range_ports (lab_templates d) r) \<subseteq> held_ports (lx_id s) (net_leases d)"
    if r: "r \<in> set R" "lx_range s = Some (rng_id r)" "\<not> over s' \<or> rng_state r \<noteq> destroyed" for r
  proof -
    obtain r0 where r0: "r0 \<in> set (lab_range_rows d)" "rng_id r0 = rng_id r" "rng_template r0 = rng_template r"
      "lx_range s = Some (rng_id r) \<and> \<not> over s \<or> r0 = r" using own_write_row [OF keep(5) r(1)] by metis
    have "\<not> over s \<or> rng_state r0 \<noteq> destroyed" using r0(4) r(3) over by auto
    then have "set (range_ports (lab_templates d) r0) \<subseteq> held_ports (lx_id s) (net_leases d)"
      using assms(2) r0(1,2) r(2) by (auto simp: lab_ok_def)
    then show ?thesis using r0(3) by (simp add: range_ports_def)
  qed
  show ?thesis using assms(2) retired ports made q keep(3,4) unfolding keep(1) lab_ok_def by (auto simp: id)
next
  case (wait pool)
  then have "made_ranges s' = made_ranges s" by (simp add: made_ranges_def)
  with wait assms(2) show ?thesis by (auto simp: lab_ok_def same_lab_def)
next
  case give_back
  have gone: "rng_state r = destroyed" if r: "r \<in> set (lab_range_rows d)" "lx_range s = Some (rng_id r)" for r
    using give_back(6) find_row_unique [OF keys(2) r(1)] r(2) by (simp add: nothing_left_def)
  have "made_ranges s' = made_ranges s" using give_back by (simp add: made_ranges_def)
  moreover have "lx_state s' \<noteq> L_queued" using give_back(5) by (auto simp: over_def LAB_TERMINAL_def)
  moreover have "lab_range_rows d' = lab_range_rows d" using give_back by (simp add: release_networks_def)
  ultimately show ?thesis using assms(2) gone give_back(3-5) unfolding lab_ok_def by auto
next
  case (build w r ls Y)
  have new: "x_range_id e \<notin> set (made_ranges s)" "x_range_id e \<notin> rng_id ` set (lab_range_rows d)"
    "x_template_id e \<notin> lt_id ` set (lab_templates d)" using fresh by (auto simp: new_ids_def)
  have ret: "set (lx_retired s') = set (made_ranges s)" using build by (auto simp: made_ranges_def split: option.splits)
  have "made_ranges s' = made_ranges s @ [x_range_id e]" using build by (simp add: made_ranges_def split: option.splits)
  then have dist: "distinct (made_ranges s')" using assms(2) new(1) by (simp add: lab_ok_def)
  have gone: "rng_state q = destroyed" if q: "q \<in> set (lab_range_rows d @ [r])" "rng_id q \<in> set (made_ranges s)" for q
  proof -
    have old: "q \<in> set (lab_range_rows d)" using q new(1) build by auto
    show ?thesis
    proof (cases "lx_range s = Some (rng_id q)")
      case True
      then show ?thesis using build(6) find_row_unique [OF keys(2) old] by (simp add: nothing_left_def)
    next
      case False
      then have "rng_id q \<in> set (lx_retired s)" using q(2) by (auto simp: made_ranges_def split: option.splits)
      then show ?thesis using assms(2) old by (simp add: lab_ok_def)
    qed
  qed
  have ports: "set (range_ports (lab_templates d @ [w]) q) \<subseteq> held_ports (lx_id s) ls"
    if q: "q \<in> set (lab_range_rows d @ [r])" "x_range_id e = rng_id q" for q
  proof -
    have "q = r" using q new(2) by auto
    then show ?thesis using build range_ports_new [of w r "lab_templates d"] new(3) by simp
  qed
  have id: "lx_id s' = lx_id s" using build(2) by (simp add: same_lab_def)
  show ?thesis unfolding lab_ok_def build(1) using dist gone ports build(3,5) by (auto simp: id ret)
qed

section \<open>Writing a row back\<close>

lemma put_lab_rows: "set (lab_rows (put_lab s d)) = {if lx_id x = lx_id s then s else x |x. x \<in> set (lab_rows d)}"
  by (auto simp: put_lab_def set_update_where)

lemma put_lab_tables [simp]: "net_leases (put_lab s d) = net_leases d" "lab_range_rows (put_lab s d) = lab_range_rows d"
  "lab_templates (put_lab s d) = lab_templates d" "lab_snaps (put_lab s d) = lab_snaps d" "lab_calls (put_lab s d) = lab_calls d"
  by (simp_all add: put_lab_def)

lemma put_lab_ids [simp]: "map lx_id (lab_rows (put_lab s d)) = map lx_id (lab_rows d)"
  by (simp add: put_lab_def update_where_def)

lemma put_lab_cases:
  assumes "x \<in> set (lab_rows (put_lab s d))"
  obtains "x = s" | "x \<in> set (lab_rows d)" "lx_id x \<noteq> lx_id s"
  using assms by (auto simp: put_lab_rows split: if_splits)

lemma put_lab_in: "x \<in> set (lab_rows (put_lab s d)) \<Longrightarrow> x = s \<or> x \<in> set (lab_rows d) \<and> lx_id x \<noteq> lx_id s"
  by (auto elim: put_lab_cases)

lemma get_lab_SomeD: "get_lab d i = Some s \<Longrightarrow> s \<in> set (lab_rows d) \<and> lx_id s = i"
  by (auto simp: get_lab_def dest: find_row_SomeD)

lemma lab_ok_cong:
  assumes "lab_range_rows d' = lab_range_rows d" "lab_templates d' = lab_templates d" "net_leases d' = net_leases d"
  shows "lab_ok s d' = lab_ok s d"
  using assms by (simp add: lab_ok_def)

lemma apart_row:
  assumes "labs_apart d" "s \<in> set (lab_rows d)" "lx_id s' = lx_id s" "lx_range s' = lx_range s" "lx_retired s' = lx_retired s" "lx_state s' = lx_state s"
  shows "labs_apart (put_lab s' d)"
proof -
  have made: "made_ranges s' = made_ranges s" using assms(4,5) by (simp add: made_ranges_def)
  have "lab_ok s d" using assms(1,2) by (simp add: labs_apart_def)
  then have ok: "lab_ok s' (put_lab s' d)" using assms(3-6) made by (simp add: lab_ok_def over_def)
  have "lab_ok x (put_lab s' d)" if "x \<in> set (lab_rows (put_lab s' d))" for x
    using that
  proof (cases rule: put_lab_cases)
    case 2
    then show ?thesis using assms(1) lab_ok_cong [of "put_lab s' d" d x] by (simp add: labs_apart_def)
  qed (use ok in simp)
  moreover have "set (made_ranges x) \<inter> set (made_ranges y) = {}"
    if "x \<in> set (lab_rows (put_lab s' d))" "y \<in> set (lab_rows (put_lab s' d))" "lx_id x \<noteq> lx_id y" for x y
  proof -
    have "\<exists>a \<in> set (lab_rows d). lx_id a = lx_id z \<and> made_ranges a = made_ranges z" if "z \<in> set (lab_rows (put_lab s' d))" for z
      using put_lab_in [OF that] assms(2,3) made by auto
    then show ?thesis using that assms(1) unfolding labs_apart_def by metis
  qed
  ultimately show ?thesis using assms(1) by (simp add: labs_apart_def)
qed

lemma move_made:
  assumes "lab_move e s d s' d'"
  shows "set (made_ranges s') \<subseteq> insert (x_range_id e) (set (made_ranges s))"
  using assms by cases (auto simp: made_ranges_def split: option.splits)

lemma move_keys:
  assumes "lab_move e s d s' d'" "distinct (map ln_port (net_leases d))" "distinct (map rng_id (lab_range_rows d))" "new_ids e d"
  shows "distinct (map ln_port (net_leases d')) \<and> distinct (map rng_id (lab_range_rows d'))"
  using assms(1)
proof cases
  case (keep R X Y)
  then show ?thesis using assms(2,3) own_write_ids by simp
next
  case (wait pool)
  then show ?thesis using assms(2,3) distinct_sync by simp
next
  case give_back
  then show ?thesis using assms(2,3) distinct_release by (simp add: release_networks_def)
next
  case (build t r ls Y)
  then show ?thesis using assms(3,4) leases_grow_facts(1) [OF build(12) assms(2)] by (auto simp: new_ids_def)
qed

lemma apart_move:
  assumes "labs_apart d" "s \<in> set (lab_rows d)" "new_ids e d" "lab_move e s d s' d'"
  shows "labs_apart (put_lab s' d')"
proof -
  note A = assms(1) [unfolded labs_apart_def]
  have id: "lx_id s' = lx_id s" and rows: "lab_rows d' = lab_rows d" using move_keeps_lab [OF assms(4)] by (auto simp: same_lab_def)
  have keys: "distinct (map ln_port (net_leases d'))" "distinct (map rng_id (lab_range_rows d'))"
    using move_keys [OF assms(4)] A assms(3) by auto
  have cong: "lab_ok x (put_lab s' d') = lab_ok x d'" for x by (rule lab_ok_cong) simp_all
  have other: "lab_ok x d' \<and> set (made_ranges s') \<inter> set (made_ranges x) = {}" if x: "x \<in> set (lab_rows d)" "lx_id x \<noteq> lx_id s" for x
  proof
    have dis: "set (made_ranges s) \<inter> set (made_ranges x) = {}" using A assms(2) x by metis
    show "lab_ok x d'" using move_other_ok [OF assms(4) _ x(2) dis assms(3) x(1)] A x(1) by blast
    have "x_range_id e \<notin> set (made_ranges x)" using assms(3) x(1) by (simp add: new_ids_def)
    then show "set (made_ranges s') \<inter> set (made_ranges x) = {}" using move_made [OF assms(4)] dis by auto
  qed
  have own: "lab_ok s' d'" using move_own_ok [OF assms(4) _ assms(3,2)] A assms(2) by blast
  have "lab_ok x (put_lab s' d')" if "x \<in> set (lab_rows (put_lab s' d'))" for x
    using that by (cases rule: put_lab_cases) (use own other in \<open>auto simp: cong rows id\<close>)
  moreover have "set (made_ranges x) \<inter> set (made_ranges y) = {}"
    if xy: "x \<in> set (lab_rows (put_lab s' d'))" "y \<in> set (lab_rows (put_lab s' d'))" "lx_id x \<noteq> lx_id y" for x y
  proof -
    consider "x = s'" "y \<in> set (lab_rows d)" | "y = s'" "x \<in> set (lab_rows d)" | "x \<in> set (lab_rows d)" "y \<in> set (lab_rows d)"
      using put_lab_in [OF xy(1)] put_lab_in [OF xy(2)] xy(3) rows by auto
    then show ?thesis
    proof cases
      case 1
      then show ?thesis using other [of y] xy(3) by (simp add: id)
    next
      case 2
      then show ?thesis using other [of x] xy(3) by (auto simp: id)
    next
      case 3
      then show ?thesis using A xy(3) by metis
    qed
  qed
  ultimately show ?thesis using keys A by (simp add: labs_apart_def rows)
qed

declare times_ok_def [simp del]

end
