(* ===== verification/Lab_Runs.thy ===== *)
theory Lab_Runs
  imports Lab_Networks
begin

text \<open>
  Runs of lab operations against each other: \<^verbatim>\<open>claim\<close>, \<^verbatim>\<open>run_locked\<close> and \<^verbatim>\<open>flush_outbox\<close> as steps that
  interleave freely, from any number of API processes, with crashes, a broker that may not answer,
  and workers that change the ranges. A run works on the row as it was when it claimed the lease and
  writes it back when it commits. \<open>sy_asked\<close>, \<open>sy_sent\<close> and \<open>sy_dropped\<close> log the worker tasks.
\<close>

declare times_ok_def [simp del]

section \<open>The system\<close>

datatype lab_run = Working uuid lab | Sending uuid bool

record lab_system =
  sy_db :: lab_db
  sy_runs :: "string \<Rightarrow> lab_run option"
  sy_tokens :: "string set"
  sy_asked :: "(uuid \<times> lab_task) list"
  sy_sent :: "(uuid \<times> lab_task) list"
  sy_dropped :: "(uuid \<times> lab_task) list"

definition end_run :: "string \<Rightarrow> lab_system \<Rightarrow> lab_system" where
  "end_run tok y = y\<lparr>sy_runs := (sy_runs y)(tok := None)\<rparr>"

text \<open>Everything that is not a lab operation: workers and the other sections change and add ranges; a
  range that is destroyed stays so, and a new range has an id of its own.\<close>

definition world_step :: "lab_db \<Rightarrow> lab_db \<Rightarrow> bool" where
  "world_step d d' = (lab_rows d' = lab_rows d \<and> net_leases d' = net_leases d \<and> lab_templates d' = lab_templates d \<and>
     distinct (map rng_id (lab_range_rows d')) \<and>
     (\<forall>r' \<in> set (lab_range_rows d').
        (\<exists>r \<in> set (lab_range_rows d). rng_id r' = rng_id r \<and> rng_template r' = rng_template r \<and>
           (rng_state r = destroyed \<longrightarrow> rng_state r' = destroyed)) \<or>
        (\<forall>s \<in> set (lab_rows d). rng_id r' \<notin> set (made_ranges s))))"

definition dropped_tasks :: "dispatch_answer list \<Rightarrow> lab_task list \<Rightarrow> lab_task list" where
  "dropped_tasks answers ts = (case send_pending answers ts of (sent, dropped, kept) \<Rightarrow> dropped)"

text \<open>An advance that finds tasks left behind restarts the step clock when they go out.\<close>

definition resends :: "lab_op \<Rightarrow> lab \<Rightarrow> bool" where
  "resends op s = ((case op of Advance c \<Rightarrow> True | _ \<Rightarrow> False) \<and> lx_pending s \<noteq> [])"

inductive lab_step :: "lab_system \<Rightarrow> lab_system \<Rightarrow> bool" where
  claimed: "get_lab (sy_db y) i = Some s \<Longrightarrow> tok \<notin> sy_tokens y \<Longrightarrow> claim_lab now tok s = Some s' \<Longrightarrow>
    lab_step y (y\<lparr>sy_db := put_lab s' (sy_db y), sy_runs := (sy_runs y)(tok \<mapsto> Working i s'), sy_tokens := insert tok (sy_tokens y)\<rparr>)"
| performed: "sy_runs y tok = Some (Working i s) \<Longrightarrow> perform e op s (sy_db y) = Inr (s', d') \<Longrightarrow> new_ids e (sy_db y) \<Longrightarrow>
    get_lab (sy_db y) i = Some row \<Longrightarrow> keep_lease (x_now e) tok False row = Some row' \<Longrightarrow>
    lab_step y (y\<lparr>sy_db := put_lab (s'\<lparr>lx_lease_until := lx_lease_until row'\<rparr>) d', sy_runs := (sy_runs y)(tok \<mapsto> Sending i (resends op s)),
      sy_asked := sy_asked y @ map (Pair i) (drop (length (lx_pending s)) (lx_pending s'))\<rparr>)"
| taken_over: "sy_runs y tok = Some (Working i s) \<Longrightarrow> get_lab (sy_db y) i = Some row \<Longrightarrow> keep_lease now tok False row = None \<Longrightarrow>
    lab_step y (end_run tok y)"
| refused: "sy_runs y tok = Some (Working i s) \<Longrightarrow> perform e op s (sy_db y) = Inl err \<Longrightarrow> get_lab (sy_db y) i = Some row \<Longrightarrow>
    lab_step y (end_run tok (case keep_lease (x_now e) tok True row of None \<Rightarrow> y | Some row' \<Rightarrow> y\<lparr>sy_db := put_lab row' (sy_db y)\<rparr>))"
| flushed: "sy_runs y tok = Some (Sending i resent) \<Longrightarrow> get_lab (sy_db y) i = Some row \<Longrightarrow> lx_holder row = Some tok \<Longrightarrow>
    flush_lab now answers resent row = (sent, s') \<Longrightarrow> keep_lease now tok True s' = Some row' \<Longrightarrow>
    lab_step y (end_run tok (y\<lparr>sy_db := put_lab row' (sy_db y), sy_sent := sy_sent y @ map (Pair i) sent,
      sy_dropped := sy_dropped y @ map (Pair i) (dropped_tasks answers (lx_pending row))\<rparr>))"
| lease_lost: "sy_runs y tok = Some (Sending i resent) \<Longrightarrow> get_lab (sy_db y) i = Some row \<Longrightarrow> lx_holder row \<noteq> Some tok \<Longrightarrow>
    lab_step y (end_run tok y)"
| crashed: "sy_runs y tok = Some r \<Longrightarrow> lab_step y (end_run tok y)"
| crashed_sending: "sy_runs y tok = Some (Sending i resent) \<Longrightarrow> get_lab (sy_db y) i = Some row \<Longrightarrow> lx_holder row = Some tok \<Longrightarrow>
    flush_lab now answers resent row = (sent, s') \<Longrightarrow>
    lab_step y (end_run tok (y\<lparr>sy_sent := sy_sent y @ map (Pair i) (take n sent)\<rparr>))"
| launched: "launch e tenant user release activity (sy_db y) = Inr ((s, True), d') \<Longrightarrow> new_ids e (sy_db y) \<Longrightarrow>
    x_lab_id e \<notin> lx_id ` set (lab_rows (sy_db y)) \<Longrightarrow> x_token e \<notin> sy_tokens y \<Longrightarrow>
    lab_step y (y\<lparr>sy_db := d', sy_runs := (sy_runs y)(x_token e \<mapsto> Sending (lx_id s) False), sy_tokens := insert (x_token e) (sy_tokens y),
      sy_asked := sy_asked y @ map (Pair (lx_id s)) (lx_pending s)\<rparr>)"
| world: "world_step (sy_db y) d' \<Longrightarrow> lab_step y (y\<lparr>sy_db := d'\<rparr>)"

definition first_system :: "lab_system \<Rightarrow> bool" where
  "first_system y = (lab_rows (sy_db y) = [] \<and> distinct (map ln_port (net_leases (sy_db y))) \<and> distinct (map rng_id (lab_range_rows (sy_db y))) \<and>
     sy_runs y = (\<lambda>_. None) \<and> sy_asked y = [])"

inductive lab_reachable :: "lab_system \<Rightarrow> bool" where
  start: "first_system y \<Longrightarrow> lab_reachable y"
| step: "lab_reachable y \<Longrightarrow> lab_step y y' \<Longrightarrow> lab_reachable y'"

section \<open>What holds in every reachable state\<close>

definition one_lab_each :: "lab_db \<Rightarrow> bool" where
  "one_lab_each d = (\<forall>s \<in> set (lab_rows d). \<forall>t \<in> set (lab_rows d). lx_user s = lx_user t \<longrightarrow> \<not> over s \<longrightarrow> \<not> over t \<longrightarrow> lx_id s = lx_id t)"

text \<open>A run that still holds the lease has the row as it is: nobody else has written it.\<close>

definition run_ok :: "lab_system \<Rightarrow> string \<Rightarrow> bool" where
  "run_ok y tok = (case sy_runs y tok of
     Some (Working i s) \<Rightarrow> lx_id s = i \<and> tok \<in> sy_tokens y \<and> lx_holder s = Some tok \<and>
       (\<forall>row. get_lab (sy_db y) i = Some row \<longrightarrow> lx_holder row = Some tok \<longrightarrow> row = s)
   | Some (Sending i resent) \<Rightarrow> tok \<in> sy_tokens y
   | None \<Rightarrow> True)"

definition tokens_ok :: "lab_system \<Rightarrow> bool" where
  "tokens_ok y = ((\<forall>tok. run_ok y tok) \<and> (\<forall>s \<in> set (lab_rows (sy_db y)). \<forall>tok. lx_holder s = Some tok \<longrightarrow> tok \<in> sy_tokens y))"

definition task_kept :: "lab_system \<Rightarrow> bool" where
  "task_kept y = (\<forall>(i, t) \<in> set (sy_asked y). (i, t) \<in> set (sy_sent y) \<or> (i, t) \<in> set (sy_dropped y) \<or>
     (\<exists>s \<in> set (lab_rows (sy_db y)). lx_id s = i \<and> t \<in> set (lx_pending s)))"

definition system_ok :: "lab_system \<Rightarrow> bool" where
  "system_ok y = (labs_apart (sy_db y) \<and> one_lab_each (sy_db y) \<and> tokens_ok y \<and> task_kept y \<and> (\<forall>s \<in> set (lab_rows (sy_db y)). times_ok s))"

lemma get_lab_put:
  assumes "get_lab d i = Some s0" "lx_id s = i"
  shows "get_lab (put_lab s d) j = (if j = i then Some s else get_lab d j)"
proof -
  have "find_row (\<lambda>x. lx_id x = j) (update_where (\<lambda>x. lx_id x = lx_id s) (\<lambda>_. s) rows) =
      (if j = lx_id s then (if \<exists>x \<in> set rows. lx_id x = lx_id s then Some s else None) else find_row (\<lambda>x. lx_id x = j) rows)" for rows
    by (induction rows) (auto simp: find_row_def update_where_def)
  then show ?thesis using get_lab_SomeD [OF assms(1)] assms(2) by (auto simp: get_lab_def put_lab_def)
qed

lemma row_step_one:
  assumes "one_lab_each d" "row \<in> set (lab_rows d)" "lx_id s' = lx_id row" "lx_user s' = lx_user row" "over row \<longrightarrow> over s'" "lab_rows d' = lab_rows d"
  shows "one_lab_each (put_lab s' d')"
proof -
  have "\<exists>a \<in> set (lab_rows d). lx_id a = lx_id z \<and> lx_user a = lx_user z \<and> (\<not> over z \<longrightarrow> \<not> over a)" if "z \<in> set (lab_rows (put_lab s' d'))" for z
    using put_lab_in [OF that] assms(2-6) by auto
  then show ?thesis using assms(1) unfolding one_lab_each_def by metis
qed

lemma row_step_times:
  assumes "\<forall>s \<in> set (lab_rows d). times_ok s" "times_ok s'" "lab_rows d' = lab_rows d"
  shows "\<forall>s \<in> set (lab_rows (put_lab s' d')). times_ok s"
  using assms put_lab_in [of _ s' d'] by auto

lemma row_step_kept:
  assumes "task_kept y" "row \<in> set (lab_rows (sy_db y))" "lx_id s' = lx_id row" "lab_rows d' = lab_rows (sy_db y)"
    and asked: "set (sy_asked y') \<subseteq> set (sy_asked y) \<union> Pair (lx_id row) ` set (lx_pending s')"
    and logs: "set (sy_sent y) \<subseteq> set (sy_sent y')" "set (sy_dropped y) \<subseteq> set (sy_dropped y')" "sy_db y' = put_lab s' d'"
    and pending: "\<And>t. t \<in> set (lx_pending row) \<Longrightarrow> t \<in> set (lx_pending s') \<or> (lx_id row, t) \<in> set (sy_sent y') \<union> set (sy_dropped y')"
    and ids: "distinct (map lx_id (lab_rows (sy_db y)))"
  shows "task_kept y'"
proof -
  have here: "s' \<in> set (lab_rows (sy_db y'))" unfolding logs(3) put_lab_rows using assms(2-4) by force
  have "(i, t) \<in> set (sy_sent y') \<or> (i, t) \<in> set (sy_dropped y') \<or> (\<exists>s \<in> set (lab_rows (sy_db y')). lx_id s = i \<and> t \<in> set (lx_pending s))"
    if a: "(i, t) \<in> set (sy_asked y')" for i t
  proof (cases "(i, t) \<in> set (sy_asked y)")
    case False
    then have "i = lx_id row" "t \<in> set (lx_pending s')" using a asked by auto
    then show ?thesis using here assms(3) by auto
  next
    case True
    then have "(i, t) \<in> set (sy_sent y) \<or> (i, t) \<in> set (sy_dropped y) \<or> (\<exists>s \<in> set (lab_rows (sy_db y)). lx_id s = i \<and> t \<in> set (lx_pending s))"
      using assms(1) by (auto simp: task_kept_def)
    then show ?thesis
    proof (elim disjE bexE conjE)
      fix s
      assume s: "s \<in> set (lab_rows (sy_db y))" "lx_id s = i" "t \<in> set (lx_pending s)"
      show ?thesis
      proof (cases "i = lx_id row")
        case True
        then have "s = row" using s(1,2) assms(2) ids by (metis distinct_map inj_onD)
        then show ?thesis using pending [of t] s(3) here assms(3) True by auto
      next
        case False
        then have "s \<in> set (lab_rows (sy_db y'))" unfolding logs(3) put_lab_rows using s(1,2) assms(3,4) by force
        then show ?thesis using s by blast
      qed
    qed (use logs in auto)
  qed
  then show ?thesis by (auto simp: task_kept_def)
qed

lemma put_put: "lx_id a = lx_id b \<Longrightarrow> put_lab a (put_lab b d) = put_lab a d"
  by (simp add: put_lab_def update_where_def)

lemma send_pending_parts:
  assumes "send_pending answers ts = (sent, dropped, kept)"
  shows "set ts \<subseteq> set sent \<union> set dropped \<union> set kept"
  using assms by (induction answers ts arbitrary: sent dropped kept rule: send_pending.induct) (auto split: prod.splits)

lemma flush_labD:
  assumes "flush_lab now answers resent s = (sent, s')"
  obtains dropped kept er si where "send_pending answers (lx_pending s) = (sent, dropped, kept)" "dropped_tasks answers (lx_pending s) = dropped"
    "s' = s\<lparr>lx_error := er, lx_pending := kept, lx_since := si\<rparr>"
proof -
  obtain sent0 dropped kept where a: "send_pending answers (lx_pending s) = (sent0, dropped, kept)" by (cases "send_pending answers (lx_pending s)") auto
  have s': "s' = s\<lparr>lx_error := lx_error s', lx_pending := kept, lx_since := lx_since s'\<rparr>" and "sent0 = sent"
    using assms unfolding flush_lab_def a Let_def prod.case by (auto split: if_splits)
  then show thesis using that [OF _ _ s'] a by (simp add: dropped_tasks_def)
qed

lemma keep_leaseD:
  assumes "keep_lease now tok release s = Some s'"
  obtains u h where "s' = s\<lparr>lx_lease_until := u, lx_holder := h\<rparr>" "lx_holder s = Some tok" "h = (if release then None else Some tok)"
proof -
  have s': "s' = s\<lparr>lx_lease_until := lx_lease_until s', lx_holder := lx_holder s'\<rparr>" and h: "lx_holder s = Some tok"
    "lx_holder s' = (if release then None else Some tok)"
    using assms by (auto simp: keep_lease_def split: if_splits)
  show thesis by (rule that [OF s' h])
qed

lemma claim_labD:
  assumes "claim_lab now tok s = Some s'"
  obtains u where "s' = s\<lparr>lx_lease_until := u, lx_holder := Some tok\<rparr>"
proof -
  have "s' = s\<lparr>lx_lease_until := lx_lease_until s', lx_holder := Some tok\<rparr>"
    using assms by (auto simp: claim_lab_def split: if_splits)
  then show thesis by (rule that)
qed

text \<open>Only row \<open>i\<close> changes, and only \<open>tok\<close>'s run.\<close>

lemma tokens_row:
  assumes "tokens_ok y" "get_lab (sy_db y) i = Some row" "lx_id s' = i" "sy_db y' = put_lab s' d'" "lab_rows d' = lab_rows (sy_db y)"
    and runs: "sy_runs y' = (sy_runs y)(tok := r)" and toks: "sy_tokens y \<subseteq> sy_tokens y'"
    and holder: "lx_holder s' = None \<or> lx_holder s' = Some tok" "lx_holder s' = Some tok \<Longrightarrow> tok \<in> sy_tokens y'"
    and own: "run_ok y' tok"
  shows "tokens_ok y'"
  unfolding tokens_ok_def
proof (intro conjI allI ballI impI)
  fix k
  show "run_ok y' k"
  proof (cases "k = tok")
    case False
    have g: "get_lab (sy_db y') j = (if j = i then Some s' else get_lab (sy_db y) j)" for j
      using get_lab_put [OF assms(2,3)] assms(4,5) by (simp add: get_lab_def put_lab_def)
    have "run_ok y k" using assms(1) by (simp add: tokens_ok_def)
    then show ?thesis using False holder(1) toks unfolding run_ok_def runs
      by (auto simp: g split: option.splits lab_run.splits)
  qed (use own in simp)
next
  fix s k
  assume s: "s \<in> set (lab_rows (sy_db y'))" "lx_holder s = Some k"
  then show "k \<in> sy_tokens y'"
    using put_lab_in [OF s(1) [unfolded assms(4)]] assms(1,5) toks holder by (auto simp: tokens_ok_def)
qed

lemma holds_iff: "lx_state s \<in> set LAB_HOLDS \<longleftrightarrow> \<not> over s"
  by (cases "lx_state s") (simp_all add: over_def LAB_HOLDS_def LAB_LIVE_def LAB_ENDING_def LAB_TERMINAL_def)

lemma system_claimed:
  assumes "system_ok y" "get_lab (sy_db y) i = Some s" "tok \<notin> sy_tokens y" "claim_lab now tok s = Some s'"
  shows "system_ok (y\<lparr>sy_db := put_lab s' (sy_db y), sy_runs := (sy_runs y)(tok \<mapsto> Working i s'), sy_tokens := insert tok (sy_tokens y)\<rparr>)"
    (is "system_ok ?y")
proof -
  obtain u where s': "s' = s\<lparr>lx_lease_until := u, lx_holder := Some tok\<rparr>" using assms(4) by (rule claim_labD)
  note s = get_lab_SomeD [OF assms(2)]
  have "tokens_ok ?y"
    by (rule tokens_row [OF _ assms(2), where s' = s' and d' = "sy_db y" and tok = tok])
      (use assms(1) s s' get_lab_put [OF assms(2), of s'] in \<open>auto simp: system_ok_def run_ok_def\<close>)
  moreover have "task_kept ?y"
    by (rule row_step_kept [of y s s' "sy_db y"]) (use assms(1) s s' in \<open>auto simp: system_ok_def labs_apart_def\<close>)
  moreover have "labs_apart (sy_db ?y)" using apart_row [of "sy_db y" s s'] assms(1) s s' by (simp add: system_ok_def)
  moreover have "one_lab_each (sy_db ?y)" using row_step_one [of "sy_db y" s s' "sy_db y"] assms(1) s s' by (simp add: system_ok_def over_def)
  moreover have "\<forall>x \<in> set (lab_rows (sy_db ?y)). times_ok x"
    using row_step_times [of "sy_db y" s' "sy_db y"] assms(1) s by (simp add: system_ok_def s' times_ok_def)
  ultimately show ?thesis by (simp add: system_ok_def)
qed

lemma system_performed:
  assumes "system_ok y" "sy_runs y tok = Some (Working i s)" "perform e op s (sy_db y) = Inr (s', d')" "new_ids e (sy_db y)"
    and "get_lab (sy_db y) i = Some row" "keep_lease (x_now e) tok False row = Some row'"
  shows "system_ok (y\<lparr>sy_db := put_lab (s'\<lparr>lx_lease_until := lx_lease_until row'\<rparr>) d', sy_runs := (sy_runs y)(tok \<mapsto> Sending i (resends op s)),
      sy_asked := sy_asked y @ map (Pair i) (drop (length (lx_pending s)) (lx_pending s'))\<rparr>)"
    (is "system_ok ?y")
proof -
  note row = get_lab_SomeD [OF assms(5)]
  have h: "lx_holder row = Some tok" using assms(6) by (rule keep_leaseD)
  have run: "run_ok y tok" using assms(1) by (simp add: system_ok_def tokens_ok_def)
  then have s: "row = s" "tok \<in> sy_tokens y" using assms(2,5) h by (auto simp: run_ok_def)
  have "lab_ok s (sy_db y)" using assms(1) row s(1) by (simp add: system_ok_def labs_apart_def)
  then have mv: "lab_move e s (sy_db y) s' d'" using perform_move [OF assms(3)] by (simp add: lab_ok_def)
  note same = move_keeps_lab [OF mv, THEN conjunct1, unfolded same_lab_def] and rows = move_keeps_lab [OF mv, THEN conjunct2]
  define s2 where "s2 = s'\<lparr>lx_lease_until := lx_lease_until row'\<rparr>"
  have s2: "lx_id s2 = lx_id s" "lx_user s2 = lx_user s" "lx_holder s2 = Some tok" "over s \<longrightarrow> over s2" "times_ok s \<longrightarrow> times_ok s2" "lx_pending s2 = lx_pending s'"
    using same h s(1) by (auto simp: s2_def over_def times_ok_def)
  have ap: "labs_apart (put_lab s' d')" using apart_move [OF _ _ assms(4) mv] assms(1) row s(1) by (simp add: system_ok_def)
  have "s' \<in> set (lab_rows (put_lab s' d'))" unfolding put_lab_rows rows using row s(1) same by force
  then have "labs_apart (put_lab s2 (put_lab s' d'))" using apart_row [OF ap, of s' s2] by (simp add: s2_def)
  then have ap2: "labs_apart (put_lab s2 d')" by (simp add: put_put s2_def)
  obtain new where new: "lx_pending s' = lx_pending s @ new" using same by (auto simp: prefix_def)
  have "tokens_ok ?y" unfolding s2_def [symmetric]
    by (rule tokens_row [OF _ assms(5), where s' = s2 and d' = d' and tok = tok])
      (use assms(1) row s s2 rows in \<open>auto simp: system_ok_def run_ok_def\<close>)
  moreover have "task_kept ?y" unfolding s2_def [symmetric]
    by (rule row_step_kept [of y row s2 d']) (use assms(1) row s s2 rows new in \<open>auto simp: system_ok_def labs_apart_def\<close>)
  moreover have "one_lab_each (put_lab s2 d')" using row_step_one [of "sy_db y" row s2 d'] assms(1) row s s2 rows by (simp add: system_ok_def)
  moreover have "\<forall>x \<in> set (lab_rows (put_lab s2 d')). times_ok x"
  proof (rule row_step_times [OF _ _ rows])
    show all: "\<forall>x \<in> set (lab_rows (sy_db y)). times_ok x" using assms(1) by (simp add: system_ok_def)
    then have "times_ok s" using row s(1) by blast
    then show "times_ok s2" using s2(5) by blast
  qed
  ultimately show ?thesis using ap2 unfolding system_ok_def s2_def by simp
qed

lemma system_ended:
  assumes "system_ok y"
  shows "system_ok (end_run tok y)"
proof -
  have "run_ok (end_run tok y) k" if "run_ok y k" for k
    using that unfolding run_ok_def end_run_def by (cases "k = tok") (simp_all split: option.splits lab_run.splits)
  then have "tokens_ok (end_run tok y)" using assms by (simp add: system_ok_def tokens_ok_def) (simp add: end_run_def)
  then show ?thesis using assms by (simp add: system_ok_def task_kept_def) (simp add: end_run_def)
qed

text \<open>The lease let go, with what was sent taken off the session.\<close>

lemma system_released:
  assumes "system_ok y" "get_lab (sy_db y) i = Some row" "tok \<in> sy_tokens y" "lx_holder row = Some tok"
    and s': "s' = row\<lparr>lx_error := er, lx_pending := kept, lx_since := si, lx_lease_until := u, lx_holder := None\<rparr>"
    and kept: "set (lx_pending row) \<subseteq> set sent \<union> set dropped \<union> set kept"
  shows "system_ok (end_run tok (y\<lparr>sy_db := put_lab s' (sy_db y), sy_sent := sy_sent y @ map (Pair i) sent,
      sy_dropped := sy_dropped y @ map (Pair i) dropped\<rparr>))"
    (is "system_ok ?y")
proof -
  note row = get_lab_SomeD [OF assms(2)]
  have s'_simps: "lx_id s' = lx_id row" "lx_user s' = lx_user row" "lx_holder s' = None" "lx_range s' = lx_range row" "lx_retired s' = lx_retired row"
    "lx_state s' = lx_state row" "over s' = over row" "lx_pending s' = kept" "times_ok s' = times_ok row"
    by (simp_all add: s' over_def times_ok_def)
  have y: "sy_db ?y = put_lab s' (sy_db y)" by (simp add: end_run_def)
  have ids: "distinct (map lx_id (lab_rows (sy_db y)))" using assms(1) by (simp add: system_ok_def labs_apart_def)
  have "tokens_ok ?y"
    by (rule tokens_row [OF _ assms(2), where s' = s' and d' = "sy_db y" and tok = tok and r = None])
      (use assms(1) row s'_simps in \<open>simp_all add: system_ok_def run_ok_def end_run_def\<close>)
  moreover have "task_kept ?y"
  proof (rule row_step_kept [of y row s' "sy_db y"])
    show "t \<in> set (lx_pending s') \<or> (lx_id row, t) \<in> set (sy_sent ?y) \<union> set (sy_dropped ?y)" if "t \<in> set (lx_pending row)" for t
      using that kept row by (auto simp: s'_simps end_run_def)
  qed (use assms(1) row s'_simps ids in \<open>auto simp: system_ok_def end_run_def\<close>)
  moreover have "labs_apart (put_lab s' (sy_db y))"
    by (rule apart_row [where s = row]) (use assms(1) row s'_simps in \<open>simp_all add: system_ok_def\<close>)
  moreover have "one_lab_each (put_lab s' (sy_db y))"
    by (rule row_step_one [where row = row]) (use assms(1) row s'_simps in \<open>simp_all add: system_ok_def\<close>)
  moreover have "\<forall>x \<in> set (lab_rows (put_lab s' (sy_db y))). times_ok x"
  proof (rule row_step_times [OF _ _ refl])
    show all: "\<forall>x \<in> set (lab_rows (sy_db y)). times_ok x" using assms(1) by (simp add: system_ok_def)
    then show "times_ok s'" using row s'_simps(9) by blast
  qed
  ultimately show ?thesis unfolding system_ok_def y by simp
qed

lemma system_world:
  assumes "system_ok y" "world_step (sy_db y) d'"
  shows "system_ok (y\<lparr>sy_db := d'\<rparr>)"
proof -
  note w = assms(2) [unfolded world_step_def]
  have A: "labs_apart (sy_db y)" using assms(1) by (simp add: system_ok_def)
  have ok: "lab_ok s d'" if s: "s \<in> set (lab_rows (sy_db y))" for s
  proof -
    have s_ok: "lab_ok s (sy_db y)" using A s by (simp add: labs_apart_def)
    have old: "\<exists>r0 \<in> set (lab_range_rows (sy_db y)). rng_id r = rng_id r0 \<and> rng_template r = rng_template r0 \<and>
        (rng_state r0 = destroyed \<longrightarrow> rng_state r = destroyed)"
      if "r \<in> set (lab_range_rows d')" "rng_id r \<in> set (made_ranges s)" for r
      using w that s by blast
    have "rng_state r = destroyed" if r: "r \<in> set (lab_range_rows d')" "rng_id r \<in> set (lx_retired s)" for r
      using old [OF r(1)] r(2) s_ok by (auto simp: made_ranges_def lab_ok_def)
    moreover have "set (range_ports (lab_templates d') r) \<subseteq> held_ports (lx_id s) (net_leases d')"
      if r: "r \<in> set (lab_range_rows d')" "lx_range s = Some (rng_id r)" "\<not> over s \<or> rng_state r \<noteq> destroyed" for r
    proof -
      obtain r0 where r0: "r0 \<in> set (lab_range_rows (sy_db y))" "rng_id r = rng_id r0" "rng_template r = rng_template r0"
        "rng_state r0 = destroyed \<longrightarrow> rng_state r = destroyed" using old [OF r(1)] r(2) by (auto simp: made_ranges_def)
      then have "set (range_ports (lab_templates (sy_db y)) r0) \<subseteq> held_ports (lx_id s) (net_leases (sy_db y))"
        using s_ok r(2,3) by (auto simp: lab_ok_def)
      then show ?thesis using w r0(3) by (simp add: range_ports_def)
    qed
    ultimately show ?thesis using s_ok by (auto simp: lab_ok_def)
  qed
  have "labs_apart d'" using A w ok by (simp add: labs_apart_def)
  moreover have rows: "lab_rows d' = lab_rows (sy_db y)" using w by simp
  moreover have "run_ok (y\<lparr>sy_db := d'\<rparr>) k = run_ok y k" for k
    unfolding run_ok_def get_lab_def by (simp add: rows split: option.splits lab_run.splits)
  moreover have "one_lab_each d' = one_lab_each (sy_db y)" "task_kept (y\<lparr>sy_db := d'\<rparr>) = task_kept y"
    by (simp_all add: one_lab_each_def task_kept_def rows)
  ultimately show ?thesis using assms(1)
    by (simp add: system_ok_def tokens_ok_def)
qed

lemma holder_token:
  assumes "system_ok y" "get_lab (sy_db y) i = Some row" "lx_holder row = Some tok"
  shows "tok \<in> sy_tokens y"
  using assms(1,3) get_lab_SomeD [OF assms(2)] unfolding system_ok_def tokens_ok_def by blast

lemma launchD:
  assumes "launch e tenant user release activity d = Inr ((s, True), d')"
  obtains s0 pf d1 where "start_lab e pf None True s0 (d\<lparr>lab_rows := lab_rows d @ [s0]\<rparr>) = Inr (s, d1)" "d' = put_lab s d1"
    "\<forall>x \<in> set (lab_rows d). lx_user x = user \<longrightarrow> over x"
    "lx_id s0 = x_lab_id e" "lx_user s0 = user" "lx_state s0 = L_queued" "lx_range s0 = None" "lx_retired s0 = []" "lx_pending s0 = []"
    "lx_holder s0 = Some (x_token e)" "times_ok s0"
proof -
  obtain rel where rel: "find_row (\<lambda>r. re_id r = release \<and> re_tenant r = tenant) (x_releases e) = Some rel" "re_accepted rel"
    using assms by (auto simp: launch_def split: option.splits if_splits)
  define before where "before = latest_attempt tenant user release activity d"
  note a = assms [unfolded launch_def rel option.case, simplified rel not_True_eq_False if_False, unfolded Let_def, folded before_def]
  have live: "(case before of None \<Rightarrow> None | Some s \<Rightarrow> if lx_state s \<notin> set LAB_TERMINAL then Some s else None) = None"
    using a by (auto split: option.splits if_splits)
  note a1 = a [unfolded live option.case]
  have none: "\<not> list_ex (\<lambda>s. lx_user s = user \<and> lx_state s \<in> set LAB_HOLDS) (lab_rows d)" using a1 by (auto split: if_splits)
  note a2 = a1 [unfolded if_not_P [OF none]]
  obtain pf where pf: "release_profile rel activity = Inr pf" using a2 by (auto split: if_splits sum.splits)
  define s0 where "s0 = new_lab e tenant user release activity before pf"
  obtain d1 where st: "start_lab e pf None True s0 (d\<lparr>lab_rows := lab_rows d @ [s0]\<rparr>) = Inr (s, d1)" "d' = put_lab s d1"
    using a2 [unfolded pf sum.case, folded s0_def] by (auto split: if_splits sum.splits)
  have "\<forall>x \<in> set (lab_rows d). lx_user x = user \<longrightarrow> over x" using none unfolding list_ex_iff holds_iff by blast
  moreover have "lx_id s0 = x_lab_id e" "lx_user s0 = user" "lx_state s0 = L_queued" "lx_range s0 = None" "lx_retired s0 = []" "lx_pending s0 = []"
    "lx_holder s0 = Some (x_token e)" "times_ok s0" by (simp_all add: s0_def new_lab_def ordered_times_def times_ok_def)
  ultimately show thesis using that [OF st] by blast
qed

lemma system_launched:
  assumes "system_ok y" "launch e tenant user release activity (sy_db y) = Inr ((s, True), d')" "new_ids e (sy_db y)"
    and new: "x_lab_id e \<notin> lx_id ` set (lab_rows (sy_db y))" "x_token e \<notin> sy_tokens y"
  shows "system_ok (y\<lparr>sy_db := d', sy_runs := (sy_runs y)(x_token e \<mapsto> Sending (lx_id s) False), sy_tokens := insert (x_token e) (sy_tokens y),
      sy_asked := sy_asked y @ map (Pair (lx_id s)) (lx_pending s)\<rparr>)"
    (is "system_ok ?y")
proof -
  obtain s0 pf d1 where st: "start_lab e pf None True s0 (sy_db y\<lparr>lab_rows := lab_rows (sy_db y) @ [s0]\<rparr>) = Inr (s, d1)" "d' = put_lab s d1"
    and none: "\<forall>x \<in> set (lab_rows (sy_db y)). lx_user x = user \<longrightarrow> over x"
    and s0: "lx_id s0 = x_lab_id e" "lx_user s0 = user" "lx_state s0 = L_queued" "lx_range s0 = None" "lx_retired s0 = []" "lx_pending s0 = []"
      "lx_holder s0 = Some (x_token e)" "times_ok s0" using launchD [OF assms(2)] by metis
  define d0 where "d0 = sy_db y\<lparr>lab_rows := lab_rows (sy_db y) @ [s0]\<rparr>"
  have made0: "made_ranges s0 = []" using s0 by (simp add: made_ranges_def)
  have ok: "system_ok y" by fact
  then have A: "labs_apart (sy_db y)" and T: "tokens_ok y" and K: "task_kept y" and one: "one_lab_each (sy_db y)"
    and times: "\<forall>x \<in> set (lab_rows (sy_db y)). times_ok x" by (simp_all add: system_ok_def)
  have d0_rows: "lab_rows d0 = lab_rows (sy_db y) @ [s0]" by (simp add: d0_def)
  have cong: "lab_ok x d0 = lab_ok x (sy_db y)" for x by (rule lab_ok_cong) (simp_all add: d0_def)
  have "lab_ok s0 (sy_db y)" using s0 made0 by (simp add: lab_ok_def)
  then have ap0: "labs_apart d0" using A new(1) made0 s0(1) unfolding labs_apart_def cong
    by (auto simp: d0_def)
  have fresh: "new_ids e d0" using assms(3) made0 by (auto simp: new_ids_def d0_def)
  have "\<not> over s0" using s0(3) by (simp add: over_def LAB_TERMINAL_def)
  then have mv: "lab_move e s0 d0 s d1" using start_lab_move [OF st(1) [folded d0_def]] s0(4) by simp
  note same = move_keeps_lab [OF mv, THEN conjunct1, unfolded same_lab_def] and rows = move_keeps_lab [OF mv, THEN conjunct2]
  have in0: "s0 \<in> set (lab_rows d0)" by (simp add: d0_def)
  have ap: "labs_apart d'" unfolding st(2) by (rule apart_move [OF ap0 in0 fresh mv])
  have id: "lx_id s = x_lab_id e" using same s0 by simp
  have in': "x = s \<or> x \<in> set (lab_rows (sy_db y)) \<and> lx_id x \<noteq> lx_id s" if "x \<in> set (lab_rows d')" for x
    using put_lab_in [OF that [unfolded st(2)]] rows d0_rows id s0(1) by auto
  have mine: "s \<in> set (lab_rows d')" unfolding st(2) put_lab_rows rows d0_rows using id s0(1) by force
  have keeps: "x \<in> set (lab_rows d')" if "x \<in> set (lab_rows (sy_db y))" for x
    unfolding st(2) put_lab_rows rows d0_rows using that new(1) id by force
  have get: "get_lab (sy_db y) i = Some row" if "get_lab d' i = Some row" "i \<noteq> x_lab_id e" for i row
  proof -
    have r: "row \<in> set (lab_rows (sy_db y))" "lx_id row = i" using get_lab_SomeD [OF that(1)] in' [of row] that(2) id by auto
    then show ?thesis using find_row_unique [of lx_id "lab_rows (sy_db y)" row] A by (simp add: get_lab_def labs_apart_def)
  qed
  have "run_ok ?y k" for k
  proof (cases "k = x_token e")
    case True
    then show ?thesis by (simp add: run_ok_def)
  next
    case False
    have r: "run_ok y k" using T by (simp add: tokens_ok_def)
    show ?thesis
    proof (cases "sy_runs y k")
      case (Some v)
      show ?thesis
      proof (cases v)
        case (Working i w)
        have "row = w" if "get_lab d' i = Some row" "lx_holder row = Some k" for row
        proof (cases "i = x_lab_id e")
          case True
          then have "row = s" using get_lab_SomeD [OF that(1)] in' [of row] id by auto
          then show ?thesis using that(2) same s0(7) False by simp
        next
          case False
          then show ?thesis using get [OF that(1)] that(2) r Some Working by (simp add: run_ok_def)
        qed
        then show ?thesis using r Some Working False by (simp add: run_ok_def)
      qed (use r Some False in \<open>simp add: run_ok_def\<close>)
    qed (use False in \<open>simp add: run_ok_def\<close>)
  qed
  moreover have "k \<in> sy_tokens ?y" if "x \<in> set (lab_rows d')" "lx_holder x = Some k" for x k
    using in' [OF that(1)] that(2) same s0(7) T by (auto simp: tokens_ok_def)
  ultimately have T': "tokens_ok ?y" by (simp add: tokens_ok_def)
  have K': "task_kept ?y"
    using K keeps mine unfolding task_kept_def by fastforce
  have "over x \<or> lx_user x \<noteq> lx_user s" if "x \<in> set (lab_rows (sy_db y))" for x using none that same s0(2) by auto
  then have one': "one_lab_each d'" using one in' unfolding one_lab_each_def by metis
  have "times_ok s" using same s0(8) by blast
  then have "\<forall>x \<in> set (lab_rows d'). times_ok x" using times in' by blast
  then show ?thesis using ap one' T' K' by (simp add: system_ok_def)
qed

lemma system_step:
  assumes "system_ok y" "lab_step y y'"
  shows "system_ok y'"
  using assms(2)
proof cases
  case (claimed i s tok now s')
  then show ?thesis using system_claimed [OF assms(1)] by simp
next
  case (performed tok i s e op s' d' row row')
  then show ?thesis using system_performed [OF assms(1)] by simp
next
  case (taken_over tok i s row now)
  then show ?thesis using system_ended [OF assms(1)] by simp
next
  case (refused tok i s e op err row)
  show ?thesis
  proof (cases "keep_lease (x_now e) tok True row")
    case None
    then show ?thesis using refused system_ended [OF assms(1)] by simp
  next
    case (Some row')
    obtain u h where r: "row' = row\<lparr>lx_lease_until := u, lx_holder := h\<rparr>" "lx_holder row = Some tok" "h = (if True then None else Some tok)"
      using Some by (rule keep_leaseD)
    note tok = holder_token [OF assms(1) refused(4) r(2)]
    have eq: "row' = row\<lparr>lx_error := lx_error row, lx_pending := lx_pending row, lx_since := lx_since row, lx_lease_until := u, lx_holder := None\<rparr>"
      using r(1,3) by simp
    have "system_ok (end_run tok (y\<lparr>sy_db := put_lab row' (sy_db y), sy_sent := sy_sent y @ map (Pair i) [], sy_dropped := sy_dropped y @ map (Pair i) []\<rparr>))"
      by (rule system_released [OF assms(1) refused(4) tok r(2) eq]) simp
    then show ?thesis using refused Some by simp
  qed
next
  case (flushed tok i resent row now answers sent s' row')
  obtain dropped kept er si where f: "send_pending answers (lx_pending row) = (sent, dropped, kept)" "dropped_tasks answers (lx_pending row) = dropped"
    "s' = row\<lparr>lx_error := er, lx_pending := kept, lx_since := si\<rparr>" using flushed(5) by (rule flush_labD)
  obtain u h where r: "row' = s'\<lparr>lx_lease_until := u, lx_holder := h\<rparr>" "h = (if True then None else Some tok)"
    using flushed(6) by (rule keep_leaseD)
  note tok = holder_token [OF assms(1) flushed(3,4)]
  have eq: "row' = row\<lparr>lx_error := er, lx_pending := kept, lx_since := si, lx_lease_until := u, lx_holder := None\<rparr>"
    using r f(3) by simp
  have "system_ok (end_run tok (y\<lparr>sy_db := put_lab row' (sy_db y), sy_sent := sy_sent y @ map (Pair i) sent, sy_dropped := sy_dropped y @ map (Pair i) dropped\<rparr>))"
    by (rule system_released [OF assms(1) flushed(3) tok flushed(4) eq send_pending_parts [OF f(1)]])
  then show ?thesis using flushed f(2) by simp
next
  case (lease_lost tok i resent row)
  then show ?thesis using system_ended [OF assms(1)] by simp
next
  case (crashed tok r)
  then show ?thesis using system_ended [OF assms(1)] by simp
next
  case (crashed_sending tok i resent row now answers sent s' n)
  have "system_ok (y\<lparr>sy_sent := sy_sent y @ map (Pair i) (take n sent)\<rparr>)"
  proof -
    have "run_ok (y\<lparr>sy_sent := sy_sent y @ map (Pair i) (take n sent)\<rparr>) k = run_ok y k" for k
      unfolding run_ok_def by (simp split: option.splits lab_run.splits)
    moreover have "task_kept (y\<lparr>sy_sent := sy_sent y @ map (Pair i) (take n sent)\<rparr>)" if "task_kept y"
      using that unfolding task_kept_def by fastforce
    ultimately show ?thesis using assms(1) by (simp add: system_ok_def tokens_ok_def)
  qed
  then show ?thesis using crashed_sending system_ended by simp
next
  case (launched e tenant user release activity s d')
  then show ?thesis using system_launched [OF assms(1)] by simp
next
  case (world d')
  then show ?thesis using system_world [OF assms(1)] by simp
qed

lemma system_reachable:
  assumes "lab_reachable y"
  shows "system_ok y"
  using assms
proof induction
  case (start y)
  then show ?case
    by (simp add: first_system_def system_ok_def labs_apart_def one_lab_each_def tokens_ok_def run_ok_def task_kept_def)
next
  case (step y y')
  show ?case by (rule system_step [OF step.IH step.hyps(2)])
qed

section \<open>Properties\<close>

text \<open>C7: No two Students' labs ever share a network. Whatever interleaving of launches, sweeps, page polls,
  resets, rebuilds, teardowns, crashes and lost broker messages, in every reachable state two ranges of
  different labs that are not both destroyed have no isolated port group in common: a lab's networks go back
  to the pool only when its machines are gone, through a rebuild too.\<close>
theorem networks_never_shared:
  assumes "lab_reachable y" "s \<in> set (lab_rows (sy_db y))" "t \<in> set (lab_rows (sy_db y))" "lx_id s \<noteq> lx_id t"
    and "r \<in> set (lab_range_rows (sy_db y))" "rng_id r \<in> set (made_ranges s)" "rng_state r \<noteq> destroyed"
    and "q \<in> set (lab_range_rows (sy_db y))" "rng_id q \<in> set (made_ranges t)" "rng_state q \<noteq> destroyed"
  shows "set (range_ports (lab_templates (sy_db y)) r) \<inter> set (range_ports (lab_templates (sy_db y)) q) = {}"
proof -
  have ap: "labs_apart (sy_db y)" using system_reachable [OF assms(1)] by (simp add: system_ok_def)
  have on: "set (range_ports (lab_templates (sy_db y)) w) \<subseteq> held_ports (lx_id x) (net_leases (sy_db y))"
    if "x \<in> set (lab_rows (sy_db y))" "w \<in> set (lab_range_rows (sy_db y))" "rng_id w \<in> set (made_ranges x)" "rng_state w \<noteq> destroyed" for x w
  proof -
    have ok: "lab_ok x (sy_db y)" using ap that(1) by (simp add: labs_apart_def)
    have "rng_id w \<notin> set (lx_retired x)" using ok that(2,4) by (auto simp: lab_ok_def)
    then have "lx_range x = Some (rng_id w)" using that(3) by (auto simp: made_ranges_def split: option.splits)
    then show ?thesis using ok that(2,4) by (simp add: lab_ok_def)
  qed
  have "held_ports (lx_id s) (net_leases (sy_db y)) \<inter> held_ports (lx_id t) (net_leases (sy_db y)) = {}"
  proof (rule ccontr)
    assume "held_ports (lx_id s) (net_leases (sy_db y)) \<inter> held_ports (lx_id t) (net_leases (sy_db y)) \<noteq> {}"
    then obtain a b where l: "a \<in> set (net_leases (sy_db y))" "b \<in> set (net_leases (sy_db y))" "ln_port a = ln_port b"
      "ln_session a = Some (lx_id s)" "ln_session b = Some (lx_id t)" by (auto simp: held_ports_def)
    then have "a = b" using ap unfolding labs_apart_def by (metis distinct_map inj_onD)
    then show False using l(4,5) assms(4) by simp
  qed
  then show ?thesis using on [OF assms(2,5-7)] on [OF assms(3,8-10)] by blast
qed

text \<open>C8: One lab per Student, however many processes launch at once: of a Student's labs in a reachable
  state at most one is not over, and a lab's idle limit never lies past its maximum lifetime, nor that past
  its own end.\<close>
theorem one_lab_per_student:
  assumes "lab_reachable y" "s \<in> set (lab_rows (sy_db y))"
  shows "(\<forall>t \<in> set (lab_rows (sy_db y)). lx_user t = lx_user s \<and> lx_state s \<in> set LAB_HOLDS \<and> lx_state t \<in> set LAB_HOLDS \<longrightarrow> t = s) \<and>
    (\<forall>i. lx_idle_expires s = Some i \<longrightarrow> (\<exists>m. lx_max_expires s = Some m \<and> i \<le> m)) \<and>
    (\<forall>m. lx_max_expires s = Some m \<longrightarrow> (\<exists>l. lx_latest_end s = Some l \<and> m \<le> l))"
proof -
  have ok: "system_ok y" by (rule system_reachable [OF assms(1)])
  have "t = s" if t: "t \<in> set (lab_rows (sy_db y))" "lx_user t = lx_user s" "lx_state s \<in> set LAB_HOLDS" "lx_state t \<in> set LAB_HOLDS" for t
  proof -
    have "lx_id t = lx_id s" using ok t assms(2) unfolding system_ok_def one_lab_each_def holds_iff by blast
    moreover have "distinct (map lx_id (lab_rows (sy_db y)))" using ok by (simp add: system_ok_def labs_apart_def)
    ultimately show ?thesis using t(1) assms(2) by (metis distinct_map inj_onD)
  qed
  moreover have "times_ok s" using ok assms(2) unfolding system_ok_def by blast
  ultimately show ?thesis by (auto simp: times_ok_def ordered_times_def split: option.splits)
qed

text \<open>C9: A run that commits has lost nobody's update. When a run's lease is still its own at the commit, the
  session row in the database is the very row the run read when it claimed it, however long the operation
  took and whatever other runs claimed, committed, sent or crashed meanwhile.\<close>
theorem commit_loses_no_update:
  assumes "lab_reachable y" "sy_runs y tok = Some (Working i s)" "get_lab (sy_db y) i = Some row"
    and "keep_lease now tok False row = Some row'"
  shows "row = s"
proof -
  have h: "lx_holder row = Some tok" using assms(4) by (rule keep_leaseD)
  have "run_ok y tok" using system_reachable [OF assms(1)] by (simp add: system_ok_def tokens_ok_def)
  then show ?thesis using assms(2,3) h by (simp add: run_ok_def)
qed

text \<open>C10: No worker task is lost. In every reachable state each task a committed operation asked for has been
  sent, or was dropped because the task contract refuses the call, or still stands on its session, where the
  sweep finds it; a crash between the commit and the send is no exception.\<close>
theorem no_task_is_lost:
  assumes "lab_reachable y" "(i, t) \<in> set (sy_asked y)"
  shows "(i, t) \<in> set (sy_sent y) \<or> (i, t) \<in> set (sy_dropped y) \<or> (\<exists>s \<in> set (lab_rows (sy_db y)). lx_id s = i \<and> t \<in> set (lx_pending s))"
  using system_reachable [OF assms(1)] assms(2) by (auto simp: system_ok_def task_kept_def)

lemma step_evidence:
  assumes "lab_reachable y" "lab_step y y'" "get_lab (sy_db y) i = Some s"
  shows "\<exists>s'. get_lab (sy_db y') i = Some s' \<and> prefix (lx_evidence s) (lx_evidence s') \<and> (over s \<longrightarrow> over s')"
proof -
  have ok: "system_ok y" by (rule system_reachable [OF assms(1)])
  have put: "\<exists>s'. get_lab (put_lab w d') i = Some s' \<and> prefix (lx_evidence s) (lx_evidence s') \<and> (over s \<longrightarrow> over s')"
    if "get_lab (sy_db y) j = Some row" "lx_id w = j" "lab_rows d' = lab_rows (sy_db y)"
      "prefix (lx_evidence row) (lx_evidence w)" "over row \<longrightarrow> over w" for w j row d'
  proof -
    have "get_lab d' j = Some row" using that(1,3) by (simp add: get_lab_def)
    then have g: "get_lab (put_lab w d') i = (if i = j then Some w else get_lab d' i)" using that(2) by (rule get_lab_put)
    have old: "get_lab d' i = Some s" using assms(3) that(3) by (simp add: get_lab_def)
    show ?thesis
    proof (cases "i = j")
      case True
      then have "row = s" using assms(3) that(1) by simp
      then show ?thesis using True that(4,5) g by simp
    qed (simp add: g old)
  qed
  have same: "\<exists>s'. get_lab (sy_db y) i = Some s' \<and> prefix (lx_evidence s) (lx_evidence s') \<and> (over s \<longrightarrow> over s')" using assms(3) by simp
  from assms(2) show ?thesis
  proof cases
    case (claimed j row tok now s')
    obtain u where "s' = row\<lparr>lx_lease_until := u, lx_holder := Some tok\<rparr>" using claimed(4) by (rule claim_labD)
    then show ?thesis using put [OF claimed(2), of s' "sy_db y"] get_lab_SomeD [OF claimed(2)] claimed(1) by (simp add: over_def)
  next
    case (performed tok j s0 e op s' d' row row')
    have h: "lx_holder row = Some tok" using performed(6) by (rule keep_leaseD)
    have "run_ok y tok" using ok by (simp add: system_ok_def tokens_ok_def)
    then have eq: "row = s0" using performed(2,5) h by (simp add: run_ok_def)
    have "lab_ok s0 (sy_db y)" using ok get_lab_SomeD [OF performed(5)] eq by (simp add: system_ok_def labs_apart_def)
    then have "lab_move e s0 (sy_db y) s' d'" using perform_move [OF performed(3)] by (simp add: lab_ok_def)
    then have m: "same_lab s0 s'" "lab_rows d' = lab_rows (sy_db y)" using move_keeps_lab by auto
    show ?thesis using put [OF performed(5), of "s'\<lparr>lx_lease_until := lx_lease_until row'\<rparr>" d'] m eq get_lab_SomeD [OF performed(5)] performed(1)
      by (simp add: same_lab_def over_def)
  next
    case (taken_over tok j s0 row now)
    then show ?thesis using same by (simp add: end_run_def)
  next
    case (refused tok j s0 e op err row)
    show ?thesis
    proof (cases "keep_lease (x_now e) tok True row")
      case None
      then show ?thesis using refused same by (simp add: end_run_def)
    next
      case (Some row')
      then obtain u h where "row' = row\<lparr>lx_lease_until := u, lx_holder := h\<rparr>" by (rule keep_leaseD)
      then show ?thesis using put [OF refused(4), of row' "sy_db y"] get_lab_SomeD [OF refused(4)] refused(1) Some by (simp add: over_def end_run_def)
    qed
  next
    case (flushed tok j resent row now answers sent s' row')
    obtain dropped kept er si where f: "s' = row\<lparr>lx_error := er, lx_pending := kept, lx_since := si\<rparr>" using flushed(5) by (rule flush_labD)
    obtain u h where "row' = s'\<lparr>lx_lease_until := u, lx_holder := h\<rparr>" using flushed(6) by (rule keep_leaseD)
    then show ?thesis using f put [OF flushed(3), of row' "sy_db y"] get_lab_SomeD [OF flushed(3)] flushed(1) by (simp add: over_def end_run_def)
  next
    case (launched e tenant user release activity s1 d')
    obtain s0 pf d1 where st: "start_lab e pf None True s0 (sy_db y\<lparr>lab_rows := lab_rows (sy_db y) @ [s0]\<rparr>) = Inr (s1, d1)" "d' = put_lab s1 d1"
      and s0: "lx_id s0 = x_lab_id e" "lx_state s0 = L_queued" "lx_range s0 = None" using launchD [OF launched(2)] by metis
    have "\<not> over s0" using s0(2) by (simp add: over_def LAB_TERMINAL_def)
    then have "lab_move e s0 (sy_db y\<lparr>lab_rows := lab_rows (sy_db y) @ [s0]\<rparr>) s1 d1" using start_lab_move [OF st(1)] s0(3) by simp
    then have m: "same_lab s0 s1" "lab_rows d1 = lab_rows (sy_db y) @ [s0]" using move_keeps_lab by auto
    have ne: "lx_id s0 \<noteq> i" using launched(4) get_lab_SomeD [OF assms(3)] s0(1) by auto
    have g1: "get_lab d1 j = (case get_lab (sy_db y) j of None \<Rightarrow> if lx_id s0 = j then Some s0 else None | Some x \<Rightarrow> Some x)" for j
      by (simp add: get_lab_def m(2) find_row_append find_row_one split: option.split)
    have "get_lab (sy_db y) (lx_id s0) = None" using launched(4) s0(1) by (force simp: get_lab_def find_row_None_iff)
    then have "get_lab d1 (lx_id s0) = Some s0" by (simp add: g1)
    then have "get_lab d' i = get_lab d1 i" using get_lab_put [of d1 "lx_id s0" s0 s1 i] m(1) ne unfolding st(2) by (simp add: same_lab_def)
    then have "get_lab d' i = Some s" using assms(3) by (simp add: g1)
    then show ?thesis using launched(1) by simp
  next
    case (world d')
    then show ?thesis using assms(3) by (simp add: world_step_def get_lab_def)
  qed (use same in \<open>simp_all add: end_run_def\<close>)
qed

inductive lab_path :: "lab_system \<Rightarrow> lab_system \<Rightarrow> bool" where
  here: "lab_path y y"
| further: "lab_path y y1 \<Longrightarrow> lab_step y1 y2 \<Longrightarrow> lab_path y y2"

lemma path_reachable: "lab_path y y' \<Longrightarrow> lab_reachable y \<Longrightarrow> lab_reachable y'"
  by (induction rule: lab_path.induct) (auto intro: lab_reachable.step)

text \<open>C24: What a Student handed in outlives the lab. From any reachable state on, whatever steps follow, the
  session is still there, its evidence is what it was with at most more added, and a lab that has ended never
  comes back.\<close>
theorem evidence_outlives_the_lab:
  assumes "lab_reachable y" "lab_path y y'" "get_lab (sy_db y) i = Some s"
  shows "\<exists>s'. get_lab (sy_db y') i = Some s' \<and> prefix (lx_evidence s) (lx_evidence s') \<and>
    (lx_state s \<in> set LAB_TERMINAL \<longrightarrow> lx_state s' \<in> set LAB_TERMINAL)"
  using assms(2,1,3)
proof (induction rule: lab_path.induct)
  case (here y)
  then show ?case by auto
next
  case (further y y1 y2)
  obtain s1 where s1: "get_lab (sy_db y1) i = Some s1" "prefix (lx_evidence s) (lx_evidence s1)"
    "lx_state s \<in> set LAB_TERMINAL \<longrightarrow> lx_state s1 \<in> set LAB_TERMINAL" using further.IH [OF further.prems] by blast
  obtain s2 where s2: "get_lab (sy_db y2) i = Some s2" "prefix (lx_evidence s1) (lx_evidence s2)" "over s1 \<longrightarrow> over s2"
    using step_evidence [OF path_reachable [OF further.hyps(1) further.prems(1)] further.hyps(2) s1(1)] by blast
  then show ?case using s1 prefix_order.trans by (auto simp: over_def)
qed

section \<open>Two labs\<close>

definition sample_lab_env :: "string \<Rightarrow> lab_env" where
  "sample_lab_env k = \<lparr>x_now = 0, x_set = \<lparr>q_per_user = 1, q_per_tenant = 9, q_vcpu = 99, q_networks = 9, q_pool = [''pg1'', ''pg2''], q_max_vms = 20,
     q_max_ram = 16384, q_max_disk = 200, q_idle_limit = 240, q_max_lifetime = 15, q_idle_warning = 15, q_console_recheck = 15, q_queue_timeout = 7200,
     q_provision_timeout = 3600, q_step_timeout = 3600, q_reconcile_grace = 120, q_teardown_attempts = 5, q_experimental = False\<rparr>,
     x_backend = ''vsphere_api'', x_releases = [\<lparr>re_id = ''r'', re_tenant = ''n'', re_course = ''c'', re_accepted = True,
       re_activities = [(''mod_001'', ''range'')], re_profile = Some sample_profile\<rparr>], x_digest = (\<lambda>_. ''d''), x_catalogue = ([''u''], []),
     x_net = (\<lambda>_ _. NoAnswer), x_windows = [], x_site = \<lparr>st_ranges = [], st_templates = [], st_events = [], st_sessions = [], st_classes = [],
       st_class_ranges = [], st_roll_call = [], st_labs = []\<rparr>, x_yaml = (\<lambda>_. None), x_dump = (\<lambda>_. []), x_lead = 0, x_grace = 0,
     x_supply = \<lparr>rs_vcpu = 64, rs_ram_mb = 65536, rs_disk_gb = 1024\<rparr>, x_recent = (\<lambda>_. False), x_passwords_pending = (\<lambda>_. False),
     x_json_length = (\<lambda>_. 0), x_lab_id = ''lab'' @ k, x_range_id = ''range'' @ k, x_template_id = ''tmpl'' @ k, x_snapshot_id = ''snap'' @ k, x_token = ''run'' @ k\<rparr>"

definition no_labs :: lab_db where
  "no_labs = \<lparr>lab_rows = [], net_leases = [], lab_range_rows = [], lab_templates = [], lab_snaps = [], lab_calls = []\<rparr>"

definition launched_lab :: "string \<Rightarrow> lab_db \<Rightarrow> lab" where
  "launched_lab k d = (case launch (sample_lab_env k) ''n'' (''user'' @ k) ''r'' ''mod_001'' d of Inr ((s, b), d') \<Rightarrow> s | Inl err \<Rightarrow> hd (lab_rows d))"

definition after_launch :: "string \<Rightarrow> lab_db \<Rightarrow> lab_db" where
  "after_launch k d = (case launch (sample_lab_env k) ''n'' (''user'' @ k) ''r'' ''mod_001'' d of Inr (x, d') \<Rightarrow> d' | Inl err \<Rightarrow> d)"

definition first_labs :: lab_system where
  "first_labs = \<lparr>sy_db = no_labs, sy_runs = (\<lambda>_. None), sy_tokens = {}, sy_asked = [], sy_sent = [], sy_dropped = []\<rparr>"

definition launch_step :: "string \<Rightarrow> lab_system \<Rightarrow> lab_system" where
  "launch_step k y = (let s = launched_lab k (sy_db y) in
     y\<lparr>sy_db := after_launch k (sy_db y), sy_runs := (sy_runs y)(''run'' @ k \<mapsto> Sending (lx_id s) False), sy_tokens := insert (''run'' @ k) (sy_tokens y),
       sy_asked := sy_asked y @ map (Pair (lx_id s)) (lx_pending s)\<rparr>)"

lemma launch_step_reachable:
  assumes "lab_reachable y" "new_ids (sample_lab_env k) (sy_db y)" "''lab'' @ k \<notin> lx_id ` set (lab_rows (sy_db y))" "''run'' @ k \<notin> sy_tokens y"
    and "(case launch (sample_lab_env k) ''n'' (''user'' @ k) ''r'' ''mod_001'' (sy_db y) of Inr ((s, b), d') \<Rightarrow> b | Inl err \<Rightarrow> False)"
  shows "lab_reachable (launch_step k y)"
proof -
  obtain s d' where l: "launch (sample_lab_env k) ''n'' (''user'' @ k) ''r'' ''mod_001'' (sy_db y) = Inr ((s, True), d')"
    using assms(5) by (auto split: sum.splits)
  have "launch_step k y = y\<lparr>sy_db := d', sy_runs := (sy_runs y)(''run'' @ k \<mapsto> Sending (lx_id s) False), sy_tokens := insert (''run'' @ k) (sy_tokens y),
      sy_asked := sy_asked y @ map (Pair (lx_id s)) (lx_pending s)\<rparr>"
    unfolding launch_step_def launched_lab_def after_launch_def l Let_def by simp
  then show ?thesis
    using lab_reachable.step [OF assms(1) lab_step.launched [OF l assms(2)]] assms(3,4) by (simp add: sample_lab_env_def)
qed

lemma first_labs_reachable: "lab_reachable first_labs"
  by (rule lab_reachable.start) (simp add: first_system_def first_labs_def no_labs_def)

lemma one_lab_reachable: "lab_reachable (launch_step ''1'' first_labs)"
proof (rule launch_step_reachable [OF first_labs_reachable])
  show "new_ids (sample_lab_env ''1'') (sy_db first_labs)" by code_simp
  show "''lab'' @ ''1'' \<notin> lx_id ` set (lab_rows (sy_db first_labs))" by code_simp
  show "''run'' @ ''1'' \<notin> sy_tokens first_labs" by (simp add: first_labs_def)
  show "case launch (sample_lab_env ''1'') ''n'' (''user'' @ ''1'') ''r'' ''mod_001'' (sy_db first_labs) of Inr ((s, b), d') \<Rightarrow> b | Inl err \<Rightarrow> False" by code_simp
qed

lemma two_labs_reachable: "lab_reachable (launch_step ''2'' (launch_step ''1'' first_labs))"
proof (rule launch_step_reachable [OF one_lab_reachable])
  show "new_ids (sample_lab_env ''2'') (sy_db (launch_step ''1'' first_labs))" by code_simp
  show "''lab'' @ ''2'' \<notin> lx_id ` set (lab_rows (sy_db (launch_step ''1'' first_labs)))" by code_simp
  show "''run'' @ ''2'' \<notin> sy_tokens (launch_step ''1'' first_labs)" by (simp add: launch_step_def first_labs_def Let_def)
  show "case launch (sample_lab_env ''2'') ''n'' (''user'' @ ''2'') ''r'' ''mod_001'' (sy_db (launch_step ''1'' first_labs)) of Inr ((s, b), d') \<Rightarrow> b | Inl err \<Rightarrow> False"
    by code_simp
qed

definition two_labs :: lab_db where
  "two_labs = sy_db (launch_step ''2'' (launch_step ''1'' first_labs))"

lemma two_labs_rows:
  "map (\<lambda>s. (lx_id s, made_ranges s, lx_state s)) (lab_rows two_labs) = [(''lab1'', [''range1''], L_provisioning), (''lab2'', [''range2''], L_provisioning)] \<and>
   map (\<lambda>r. (rng_id r, rng_state r, range_ports (lab_templates two_labs) r)) (lab_range_rows two_labs) =
     [(''range1'', provisioning, [''pg1'']), (''range2'', provisioning, [''pg2''])]"
  by code_simp

theorem networks_never_shared_witness:
  "set (range_ports (lab_templates two_labs) (lab_range_rows two_labs ! 0)) \<inter> set (range_ports (lab_templates two_labs) (lab_range_rows two_labs ! 1)) = {} \<and>
   range_ports (lab_templates two_labs) (lab_range_rows two_labs ! 0) = [''pg1'']"
proof -
  note rows = two_labs_rows [THEN conjunct1] and ranges = two_labs_rows [THEN conjunct2]
  have n: "length (lab_rows two_labs) = 2" "length (lab_range_rows two_labs) = 2"
    using arg_cong [OF rows, of length] arg_cong [OF ranges, of length] by simp_all
  have s: "lx_id (lab_rows two_labs ! 0) = ''lab1''" "made_ranges (lab_rows two_labs ! 0) = [''range1'']"
    "lx_id (lab_rows two_labs ! 1) = ''lab2''" "made_ranges (lab_rows two_labs ! 1) = [''range2'']"
    using arg_cong [OF rows, of "\<lambda>l. l ! 0"] arg_cong [OF rows, of "\<lambda>l. l ! 1"] n by simp_all
  have r: "rng_id (lab_range_rows two_labs ! 0) = ''range1''" "rng_state (lab_range_rows two_labs ! 0) = provisioning"
    "rng_id (lab_range_rows two_labs ! 1) = ''range2''" "rng_state (lab_range_rows two_labs ! 1) = provisioning"
    "range_ports (lab_templates two_labs) (lab_range_rows two_labs ! 0) = [''pg1'']"
    using arg_cong [OF ranges, of "\<lambda>l. l ! 0"] arg_cong [OF ranges, of "\<lambda>l. l ! 1"] n by simp_all
  have "set (range_ports (lab_templates two_labs) (lab_range_rows two_labs ! 0)) \<inter> set (range_ports (lab_templates two_labs) (lab_range_rows two_labs ! 1)) = {}"
    unfolding two_labs_def
    by (rule networks_never_shared [OF two_labs_reachable, of "lab_rows two_labs ! 0" "lab_rows two_labs ! 1"])
      (use s r n in \<open>simp_all add: two_labs_def\<close>)
  then show ?thesis using r by simp
qed

definition one_lab :: lab_db where
  "one_lab = sy_db (launch_step ''1'' first_labs)"

lemma one_lab_row: "get_lab one_lab ''lab1'' = Some (launched_lab ''1'' no_labs)"
  by code_simp

theorem one_lab_per_student_witness:
  "launched_lab ''1'' no_labs \<in> set (lab_rows one_lab) \<and> lx_max_expires (launched_lab ''1'' no_labs) = Some (seconds 900) \<and>
   (\<exists>l. lx_latest_end (launched_lab ''1'' no_labs) = Some l \<and> seconds 900 \<le> l)"
proof -
  have m: "launched_lab ''1'' no_labs \<in> set (lab_rows one_lab)" using get_lab_SomeD [OF one_lab_row] by simp
  have "lx_max_expires (launched_lab ''1'' no_labs) = Some (seconds 900)" by code_simp
  then show ?thesis using one_lab_per_student [OF one_lab_reachable m [unfolded one_lab_def]] m by blast
qed

text \<open>The launching process dies before it sends; a sweep's run claims the session once the lease has run out.\<close>

definition swept_lab :: lab where
  "swept_lab = (launched_lab ''1'' no_labs)\<lparr>lx_lease_until := Some (seconds 320), lx_holder := Some ''sweep''\<rparr>"

definition swept_labs :: lab_system where
  "swept_labs = (let y = end_run ''run1'' (launch_step ''1'' first_labs) in
     y\<lparr>sy_db := put_lab swept_lab (sy_db y), sy_runs := (sy_runs y)(''sweep'' \<mapsto> Working ''lab1'' swept_lab), sy_tokens := insert ''sweep'' (sy_tokens y)\<rparr>)"

lemma swept_path: "lab_path (launch_step ''1'' first_labs) swept_labs"
proof -
  define y where "y = end_run ''run1'' (launch_step ''1'' first_labs)"
  have "sy_runs (launch_step ''1'' first_labs) ''run1'' = Some (Sending (lx_id (launched_lab ''1'' no_labs)) False)"
    by (simp add: launch_step_def first_labs_def Let_def)
  then have p1: "lab_path (launch_step ''1'' first_labs) y" unfolding y_def by (intro lab_path.further [OF lab_path.here] lab_step.crashed)
  have db: "sy_db y = one_lab" by (simp add: y_def end_run_def one_lab_def)
  have "lab_step y swept_labs" unfolding swept_labs_def y_def [symmetric] Let_def
  proof (rule lab_step.claimed [of _ _ "launched_lab ''1'' no_labs" _ "seconds 200"])
    show "get_lab (sy_db y) ''lab1'' = Some (launched_lab ''1'' no_labs)" unfolding db by (rule one_lab_row)
    show "''sweep'' \<notin> sy_tokens y" by (simp add: y_def end_run_def launch_step_def first_labs_def Let_def)
    show "claim_lab (seconds 200) ''sweep'' (launched_lab ''1'' no_labs) = Some swept_lab" by code_simp
  qed
  then show ?thesis by (rule lab_path.further [OF p1])
qed

theorem commit_loses_no_update_witness:
  "\<exists>row. get_lab (sy_db swept_labs) ''lab1'' = Some row \<and> row = swept_lab \<and> lx_pending row = [ProvisionRange ''range1'']"
proof -
  have r: "sy_runs swept_labs ''sweep'' = Some (Working ''lab1'' swept_lab)" by (simp add: swept_labs_def Let_def)
  have g: "get_lab (sy_db swept_labs) ''lab1'' = Some swept_lab" by code_simp
  have k: "keep_lease (seconds 200) ''sweep'' False swept_lab = Some (swept_lab\<lparr>lx_lease_until := Some (seconds 320)\<rparr>)" by code_simp
  have p: "lx_pending swept_lab = [ProvisionRange ''range1'']" by code_simp
  show ?thesis using g p commit_loses_no_update [OF path_reachable [OF swept_path one_lab_reachable] r g k] by blast
qed

theorem no_task_is_lost_witness:
  "(''lab1'', ProvisionRange ''range1'') \<in> set (sy_asked swept_labs) \<and> sy_sent swept_labs = [] \<and> sy_dropped swept_labs = [] \<and>
   (\<exists>s \<in> set (lab_rows (sy_db swept_labs)). lx_id s = ''lab1'' \<and> ProvisionRange ''range1'' \<in> set (lx_pending s))"
proof -
  have "lx_id (launched_lab ''1'' no_labs) = ''lab1''" "lx_pending (launched_lab ''1'' no_labs) = [ProvisionRange ''range1'']" by code_simp+
  then have a: "(''lab1'', ProvisionRange ''range1'') \<in> set (sy_asked swept_labs)" "sy_sent swept_labs = []" "sy_dropped swept_labs = []"
    by (simp_all add: swept_labs_def Let_def end_run_def launch_step_def first_labs_def)
  then show ?thesis using no_task_is_lost [OF path_reachable [OF swept_path one_lab_reachable] a(1)] by simp
qed

theorem evidence_outlives_the_lab_witness:
  "\<exists>s'. get_lab (sy_db swept_labs) ''lab1'' = Some s' \<and> prefix (lx_evidence (launched_lab ''1'' no_labs)) (lx_evidence s')"
  using evidence_outlives_the_lab [OF one_lab_reachable swept_path one_lab_row [unfolded one_lab_def]] by blast

end
