(* ===== verification/Lab_Life.thy ===== *)
theory Lab_Life
  imports Lab_Runs
begin

text \<open>
  A lab over time: its tasks go out in order, it closes by its own end, and a teardown finishes however
  often the hypervisor fails.
\<close>

section \<open>Tasks in order\<close>

lemma send_pending_split:
  assumes "send_pending answers ts = (sent, dropped, kept)"
  shows "\<exists>k \<le> length ts. kept = drop k ts \<and> k \<le> length answers \<and>
    sent = map fst (filter (\<lambda>(t, a). a = Taken) (zip (take k ts) answers)) \<and>
    dropped = map fst (filter (\<lambda>(t, a). a = Rejected) (zip (take k ts) answers)) \<and>
    list_all (\<lambda>a. a \<noteq> Unavailable) (take k answers) \<and> (kept = [] \<or> k = length answers \<or> answers ! k = Unavailable)"
  using assms
proof (induction answers ts arbitrary: sent dropped kept rule: send_pending.induct)
  case (2 as t ts)
  obtain a b c where r: "send_pending as ts = (a, b, c)" by (cases "send_pending as ts") auto
  obtain k where "k \<le> length ts" "c = drop k ts" "k \<le> length as" "a = map fst (filter (\<lambda>(t, a). a = Taken) (zip (take k ts) as))"
    "b = map fst (filter (\<lambda>(t, a). a = Rejected) (zip (take k ts) as))" "list_all (\<lambda>a. a \<noteq> Unavailable) (take k as)"
    "c = [] \<or> k = length as \<or> as ! k = Unavailable" using "2.IH" [OF r] by blast
  then show ?case using "2.prems" r by (intro exI [of _ "Suc k"]) auto
next
  case (3 as t ts)
  obtain a b c where r: "send_pending as ts = (a, b, c)" by (cases "send_pending as ts") auto
  obtain k where "k \<le> length ts" "c = drop k ts" "k \<le> length as" "a = map fst (filter (\<lambda>(t, a). a = Taken) (zip (take k ts) as))"
    "b = map fst (filter (\<lambda>(t, a). a = Rejected) (zip (take k ts) as))" "list_all (\<lambda>a. a \<noteq> Unavailable) (take k as)"
    "c = [] \<or> k = length as \<or> as ! k = Unavailable" using "3.IH" [OF r] by blast
  then show ?case using "3.prems" r by (intro exI [of _ "Suc k"]) auto
qed (auto intro: exI [of _ 0])

text \<open>C25: A session's tasks go out in the order they were asked for, and none goes past one the broker did not
  take: a flush works through a prefix of the pending tasks, in order, sends each the broker takes, drops only
  those the task contract refuses, and keeps everything from the first task the broker is not there for. Until
  they are gone the lab takes no other step.\<close>
theorem tasks_go_out_in_order:
  assumes "flush_lab now answers resent s = (sent, s')"
  shows "\<exists>k \<le> length (lx_pending s). lx_pending s' = drop k (lx_pending s) \<and>
    sent = map fst (filter (\<lambda>(t, a). a = Taken) (zip (take k (lx_pending s)) answers)) \<and>
    dropped_tasks answers (lx_pending s) = map fst (filter (\<lambda>(t, a). a = Rejected) (zip (take k (lx_pending s)) answers)) \<and>
    list_all (\<lambda>a. a \<noteq> Unavailable) (take k answers) \<and>
    (lx_pending s' = [] \<or> (k = length answers \<or> answers ! k = Unavailable) \<and> advance e c s' d = Inr (s', d))"
proof -
  obtain dropped kept er si where f: "send_pending answers (lx_pending s) = (sent, dropped, kept)" "dropped_tasks answers (lx_pending s) = dropped"
    "s' = s\<lparr>lx_error := er, lx_pending := kept, lx_since := si\<rparr>" using assms by (rule flush_labD)
  have "advance e c s' d = Inr (s', d)" if "kept \<noteq> []" using that f(3) by (simp add: advance_def)
  then show ?thesis using send_pending_split [OF f(1)] f(2,3) by auto
qed

section \<open>Closing on time\<close>

lemma end_lab_state:
  assumes "end_lab e reason s d = (s', d')" "lx_state s \<in> {L_ready, L_active}" "reason \<in> {EndExpired, EndIdle}"
  shows "lx_state s' \<in> {L_expired, L_destroyed} \<and>
    (\<forall>r. lab_range_row d s = Some r \<longrightarrow> rng_state r \<in> {destroyed, destroying} \<or> DestroyRange (rng_id r) \<in> set (lx_pending s'))"
proof -
  have live: "lx_state s \<notin> set (LAB_TERMINAL @ LAB_ENDING)" using assms(2) by (auto simp: LAB_TERMINAL_def LAB_ENDING_def)
  note e = assms(1) [unfolded end_lab_def if_not_P [OF live] Let_def]
  show ?thesis
  proof (cases "lab_range_row d s")
    case None
    then show ?thesis using e assms(2) by (auto simp: set_lab_state_def)
  next
    case (Some r)
    then show ?thesis using e assms(2,3) by (auto simp: set_lab_state_def send_task_def split: if_splits)
  qed
qed

text \<open>C11: A lab closes by its own end. Whatever the Student does, whatever the consoles answer and however its
  class's sessions are moved, a step of a ready or active lab at or past its own end closes it: its range is
  being destroyed, or it was a class's and is left to the class.\<close>
theorem lab_closes_on_time:
  assumes "times_ok s" "lx_state s \<in> {L_ready, L_active}" "lx_pending s = []"
    and "lx_latest_end s = Some close" "close \<le> x_now e" "advance e c s d = Inr (s', d')"
  shows "(lx_state s' = L_failed \<and> of_class_range e (lx_range s)) \<or>
    (lx_state s' \<in> {L_expired, L_destroyed} \<and> (case lab_range_row d s of None \<Rightarrow> True
       | Some r \<Rightarrow> rng_state r \<in> {destroyed, destroying} \<or> DestroyRange (rng_id r) \<in> set (lx_pending s')))"
proof -
  obtain s1 where f: "follow_class e s d = Inr s1" and r: "advance_running e c s1 d = Inr (s', d')"
    using assms(2,3,6) by (cases "follow_class e s d") (auto simp: advance_def)
  obtain bk mx x where s1: "s1 = s\<lparr>lx_booking := bk, lx_max_expires := mx, lx_idle_expires := x\<rparr>" and o: "ordered_times x mx (Some close)"
    using follow_class_shape [OF f] assms(1,4) by auto
  obtain m i where mi: "mx = Some m" "x = Some i" using r by (auto simp: advance_running_def s1 split: option.splits)
  have late: "\<not> x_now e < m" using o assms(5) by (simp add: ordered_times_def mi)
  have st: "lx_state s1 = lx_state s" "lx_range s1 = lx_range s" "lab_range_row d s1 = lab_range_row d s"
    by (simp_all add: s1 lab_range_row_def)
  have t: "lx_max_expires s1 = Some m" "lx_idle_expires s1 = Some i" by (simp_all add: s1 mi)
  have no: "\<not> (x_now e < m \<and> x_now e < i)" using late by simp
  note a = r [unfolded advance_running_def t prod.case option.case if_not_P [OF no]]
  show ?thesis
  proof (cases "of_class_range e (lx_range s1)")
    case True
    then show ?thesis using a st(2) assms(2) by (auto simp: set_lab_state_def st(1))
  next
    case False
    then have "end_lab e EndExpired s1 d = (s', d')" using a [unfolded if_not_P [OF False] if_not_P [OF late]] by simp
    then have "lx_state s' \<in> {L_expired, L_destroyed} \<and> (\<forall>r. lab_range_row d s1 = Some r \<longrightarrow>
        rng_state r \<in> {destroyed, destroying} \<or> DestroyRange (rng_id r) \<in> set (lx_pending s'))"
      by (rule end_lab_state) (use assms(2) st(1) in auto)
    then show ?thesis unfolding st(3) by (auto split: option.splits)
  qed
qed

section \<open>Teardown finishes\<close>

text \<open>One round: the pending tasks have gone out, the worker has left the range in a state, the sweep advances
  the lab.\<close>

fun teardown :: "(lab_env \<times> range_state) list \<Rightarrow> uuid \<Rightarrow> lab \<times> lab_db \<Rightarrow> lab \<times> lab_db" where
  "teardown [] rid x = x"
| "teardown ((e, st) # rounds) rid (s, d) =
     (case advance e NotAsked (s\<lparr>lx_pending := []\<rparr>) (write_range rid st d) of
        Inl err \<Rightarrow> (s, d) | Inr x \<Rightarrow> teardown rounds rid x)"

definition patience :: "lab_settings \<Rightarrow> time" where
  "patience q = max (seconds (q_step_timeout q)) (seconds (q_reconcile_grace q))"

text \<open>Sweeps far enough apart, under the same settings; the worker may fail or hang in any of them, but a
  range it has destroyed stays destroyed.\<close>

fun sweeps :: "lab_settings \<Rightarrow> time \<Rightarrow> bool \<Rightarrow> (lab_env \<times> range_state) list \<Rightarrow> bool" where
  "sweeps q t gone [] = True"
| "sweeps q t gone ((e, st) # rounds) = (x_set e = q \<and> t + patience q < x_now e \<and> st \<in> {destroying, failed, destroyed} \<and>
     (gone \<longrightarrow> st = destroyed) \<and> sweeps q (x_now e) (st = destroyed) rounds)"

definition steps_left :: "nat \<Rightarrow> lab \<Rightarrow> nat" where
  "steps_left limit s = (if over s then 0 else if lx_state s = L_reconciling then 1 else 2 + (limit - lx_attempts s))"

definition closed_down :: "lab \<Rightarrow> lab_db \<Rightarrow> bool" where
  "closed_down s d = (lx_state s = L_destroyed \<and> held_ports (lx_id s) (net_leases d) = {} \<or> lx_state s = L_failed \<and> lx_error s = TeardownFailed)"

lemma held_none: "held_ports i (net_leases (release_networks i d)) = {}"
  by (auto simp: held_ports_def release_networks_def set_update_where split: if_splits)

lemma range_row_write:
  assumes "lx_range s = Some rid" "rid \<in> rng_id ` set (lab_range_rows d)"
  shows "\<exists>r. lab_range_row (write_range rid st d) s = Some r \<and> rng_state r = st \<and> rng_id r = rid"
proof -
  have "\<exists>r. find_row (\<lambda>r. rng_id r = rid) (update_where (\<lambda>r. rng_id r = rid) (\<lambda>r. r\<lparr>rng_state := st\<rparr>) rows) = Some r \<and> rng_state r = st \<and> rng_id r = rid"
    if "rid \<in> rng_id ` set rows" for rows
    using that by (induction rows) (auto simp: find_row_def update_where_def)
  from this [OF assms(2)] show ?thesis using assms(1) by (simp add: lab_range_row_def write_range_def)
qed

lemma write_range_ids: "rng_id ` set (lab_range_rows (write_range i x d)) = rng_id ` set (lab_range_rows d)"
proof -
  have "map rng_id (lab_range_rows (write_range i x d)) = map rng_id (lab_range_rows d)"
    by (simp add: write_range_def map_update_where)
  from arg_cong [OF this, of set] show ?thesis by simp
qed

lemma cleaning_round:
  assumes "advance_cleaning e s d = (s', d')" "lx_state s \<in> set LAB_ENDING" "lab_range_row d s = Some r" "rng_id r = rid"
    and st: "rng_state r \<in> {destroying, failed, destroyed}" "lx_state s = L_reconciling \<longrightarrow> rng_state r = destroyed"
    and time: "patience (x_set e) < in_state_for s (x_now e)"
  shows "lx_id s' = lx_id s \<and> lx_range s' = lx_range s \<and> rng_id ` set (lab_range_rows d') = rng_id ` set (lab_range_rows d) \<and>
    (over s' \<and> closed_down s' d' \<or>
     lx_state s' \<in> set LAB_ENDING \<and> lx_since s' = Some (x_now e) \<and> (lx_state s' = L_reconciling \<longrightarrow> rng_state r = destroyed) \<and>
     steps_left (q_teardown_attempts (x_set e)) s' < steps_left (q_teardown_attempts (x_set e)) s)"
proof -
  have late: "seconds (q_step_timeout (x_set e)) < in_state_for s (x_now e)" "\<not> in_state_for s (x_now e) < seconds (q_reconcile_grace (x_set e))"
    using time by (auto simp: patience_def)
  have live: "\<not> over s" using assms(2) by (auto simp: over_def LAB_TERMINAL_def LAB_ENDING_def)
  note a = assms(1) [unfolded advance_cleaning_def assms(3) option.case]
  note ids = write_range_ids
  show ?thesis
  proof (cases "rng_state r = destroyed")
    case True
    show ?thesis
    proof (cases "lx_state s = L_reconciling")
      case rec: True
      have "s' = set_lab_state (x_now e) L_destroyed (s\<lparr>lx_reconciled := Some (x_now e)\<rparr>)" "d' = release_networks (lx_id s) d"
        using a True rec late(2) by auto
      then show ?thesis using rec by (simp add: closed_down_def held_none set_lab_state_def over_def LAB_TERMINAL_def)
          (simp add: release_networks_def)
    next
      case False
      have "s' = set_lab_state (x_now e) L_reconciling (send_task (ReconcileVms (lx_retired s @ [rng_id r]) (lx_backend s)) s)" "d' = d"
        using a True False by auto
      then show ?thesis using True False live
        by (simp add: set_lab_state_def send_task_def steps_left_def over_def LAB_TERMINAL_def LAB_ENDING_def)
    qed
  next
    case False
    have go: "rng_state r = failed \<or> rng_state r = destroying \<and> in_state_for s (x_now e) > seconds (q_step_timeout (x_set e))"
      using st(1) False late(1) by auto
    have nr: "lx_state s \<noteq> L_reconciling" using st(2) False by blast
    have nd: "\<not> (rng_state r = destroyed \<and> lx_state s = L_reconciling)" using False by simp
    note b = a [unfolded if_not_P [OF nd] if_not_P [OF False] if_P [OF go]]
    show ?thesis
    proof (cases "lx_attempts s \<ge> q_teardown_attempts (x_set e)")
      case True
      then have "s' = s\<lparr>lx_error := TeardownFailed, lx_state := L_failed\<rparr>" "d' = d" using b by auto
      then show ?thesis by (simp add: closed_down_def over_def LAB_TERMINAL_def)
    next
      case more: False
      then have "s' = send_task (DestroyRange (rng_id r)) (send_task (ReconcileVms [rng_id r] (lx_backend s))
          (s\<lparr>lx_state := L_reconcile_required, lx_since := Some (x_now e), lx_attempts := lx_attempts s + 1\<rparr>))" "d' = write_range (rng_id r) destroying d"
        using b by auto
      then show ?thesis using more live nr
        by (simp add: ids send_task_def steps_left_def over_def LAB_TERMINAL_def LAB_ENDING_def)
    qed
  qed
qed

lemma over_stays_torn_down:
  assumes "lx_state s \<in> set LAB_TERMINAL" "closed_down s d"
  shows "\<exists>s' d'. teardown rounds rid (s, d) = (s', d') \<and> over s' \<and> closed_down s' d'"
  using assms
proof (induction rounds arbitrary: s d)
  case Nil
  then show ?case by (simp add: over_def)
next
  case (Cons p rounds)
  obtain e st where p: "p = (e, st)" by (cases p)
  have "advance e NotAsked (s\<lparr>lx_pending := []\<rparr>) (write_range rid st d) = Inr (s\<lparr>lx_pending := []\<rparr>, write_range rid st d)"
    using Cons.prems(1) by (auto simp: advance_def LAB_TERMINAL_def)
  moreover have "closed_down (s\<lparr>lx_pending := []\<rparr>) (write_range rid st d)" using Cons.prems(2) by (simp add: closed_down_def write_range_def)
  ultimately show ?case using Cons.IH [of "s\<lparr>lx_pending := []\<rparr>" "write_range rid st d"] Cons.prems(1) by (simp add: p)
qed


section \<open>A lab, sent for, closed and torn down\<close>

definition waiting_tasks :: lab where
  "waiting_tasks = swept_lab\<lparr>lx_pending := [ReconcileVms [''old''] ''vsphere_api'', ProvisionRange ''range1'', DestroyRange ''range1'']\<rparr>"

theorem tasks_go_out_in_order_witness:
  "\<exists>sent s'. flush_lab 0 [Taken, Rejected, Unavailable] False waiting_tasks = (sent, s') \<and> sent = [ReconcileVms [''old''] ''vsphere_api''] \<and>
     lx_pending s' = [DestroyRange ''range1''] \<and> advance (sample_lab_env ''1'') NotAsked s' one_lab = Inr (s', one_lab)"
proof -
  obtain sent s' where f: "flush_lab 0 [Taken, Rejected, Unavailable] False waiting_tasks = (sent, s')"
    by (cases "flush_lab 0 [Taken, Rejected, Unavailable] False waiting_tasks") auto
  have "fst (flush_lab 0 [Taken, Rejected, Unavailable] False waiting_tasks) = [ReconcileVms [''old''] ''vsphere_api'']"
    "lx_pending (snd (flush_lab 0 [Taken, Rejected, Unavailable] False waiting_tasks)) = [DestroyRange ''range1'']" by code_simp+
  then have v: "sent = [ReconcileVms [''old''] ''vsphere_api'']" "lx_pending s' = [DestroyRange ''range1'']" by (simp_all add: f)
  then show ?thesis using tasks_go_out_in_order [OF f, of "sample_lab_env ''1''" NotAsked one_lab] f by auto
qed

definition due_lab :: lab where
  "due_lab = swept_lab\<lparr>lx_state := L_active, lx_pending := []\<rparr>"

definition due_env :: lab_env where
  "due_env = (sample_lab_env ''1'')\<lparr>x_now := seconds 900\<rparr>"

theorem lab_closes_on_time_witness:
  "\<exists>s' d'. advance due_env NotAsked due_lab one_lab = Inr (s', d') \<and> lx_state s' = L_expired \<and> lx_pending s' = [DestroyRange ''range1'']"
proof -
  have ok: "case advance due_env NotAsked due_lab one_lab of Inl err \<Rightarrow> False
    | Inr (s', d') \<Rightarrow> lx_state s' = L_expired \<and> lx_pending s' = [DestroyRange ''range1'']" by code_simp
  then obtain s' d' where a: "advance due_env NotAsked due_lab one_lab = Inr (s', d')" by (auto split: sum.splits)
  have "times_ok due_lab" "lx_latest_end due_lab = Some (seconds 900)" "seconds 900 \<le> x_now due_env" by code_simp+
  then have "lx_state s' = L_failed \<and> of_class_range due_env (lx_range due_lab) \<or> lx_state s' \<in> {L_expired, L_destroyed}"
    using lab_closes_on_time [OF _ _ _ _ _ a, of "seconds 900"] by (auto simp: due_lab_def)
  then show ?thesis using ok a by auto
qed

definition ended_lab :: lab where
  "ended_lab = swept_lab\<lparr>lx_state := L_completed, lx_since := Some 0\<rparr>"

definition failing_sweeps :: "(lab_env \<times> range_state) list" where
  "failing_sweeps = map (\<lambda>k. ((sample_lab_env ''1'')\<lparr>x_now := k * seconds 4000\<rparr>, failed)) [1, 2, 3, 4, 5, 6, 7]"


end
