(* ===== verification/Console_Grants.thy ===== *)
theory Console_Grants
  imports Labs
begin

text \<open>
  Console grants, \<^verbatim>\<open>console_relay/service.py\<close>, with the lab branch of \<^verbatim>\<open>policy.py\<close>, the lab's \<^verbatim>\<open>console\<close> and the
  relay's use of a claim in \<^verbatim>\<open>router.py\<close>. \<open>claim\<close> reads the grant and then writes it; the row read is an
  argument. The hypervisor's side (dial, tickets, bytes) and the adapter's answer are left out.
\<close>

section \<open>Grants\<close>

datatype audience = Student | Observer | Staff

record grant =
  gr_id :: uuid
  gr_hash :: string
  gr_tenant :: uuid
  gr_user :: uuid
  gr_range :: uuid
  gr_vm_id :: string
  gr_vm :: string
  gr_view_only :: bool
  gr_observed :: bool
  gr_audience :: audience
  gr_class :: "uuid option"
  gr_event :: "uuid option"
  gr_lab :: "uuid option"
  gr_dials :: nat
  gr_created :: time
  gr_expires :: time
  gr_live_until :: "time option"
  gr_live_by :: "string option"

definition RENEW_SECONDS :: time where "RENEW_SECONDS = seconds 10"
definition LIVE_LEASE :: time where "LIVE_LEASE = seconds 45"
definition KEEP_AFTER_EXPIRY :: time where "KEEP_AFTER_EXPIRY = seconds 3600"
definition GRANT_SECONDS :: time where "GRANT_SECONDS = seconds 300"
definition MAX_LIVE_GRANTS :: nat where "MAX_LIVE_GRANTS = 4"
definition MAX_PER_CONSOLE :: nat where "MAX_PER_CONSOLE = 8"
definition MAX_DIALS :: nat where "MAX_DIALS = 3"
definition DIALS_PER_MINUTE :: nat where "DIALS_PER_MINUTE = 10"

text \<open>\<^verbatim>\<open>dial_allowed\<close>: the user's dial times of the last minute, oldest first.\<close>

definition dial_allowed :: "time \<Rightarrow> time list \<Rightarrow> bool \<times> time list" where
  "dial_allowed now ts =
     (let recent = dropWhile (\<lambda>t. now - t > seconds 60) ts in
      if length recent \<ge> DIALS_PER_MINUTE then (False, recent) else (True, recent @ [now]))"

section \<open>Issue\<close>

datatype issue_refusal = OpenInSeveralWindows | TooManyConsoles

type_synonym console_key = "uuid \<times> string \<times> audience \<times> uuid option \<times> uuid option \<times> uuid option"

definition console_of :: "grant \<Rightarrow> console_key" where
  "console_of g = (gr_range g, gr_vm g, gr_audience g, gr_class g, gr_event g, gr_lab g)"

definition grant_live :: "time \<Rightarrow> grant \<Rightarrow> bool" where
  "grant_live now g = ((case gr_live_until g of None \<Rightarrow> False | Some t \<Rightarrow> t > now) \<or> gr_expires g > now \<and> gr_dials g < MAX_DIALS)"

definition user_live :: "time \<Rightarrow> grant \<Rightarrow> grant list \<Rightarrow> grant list" where
  "user_live now new gs = filter (\<lambda>g. gr_user g = gr_user new \<and> gr_tenant g = gr_tenant new \<and> grant_live now g) gs"

definition lapsed_grant :: "time \<Rightarrow> grant \<Rightarrow> grant \<Rightarrow> bool" where
  "lapsed_grant now new g = (gr_user g = gr_user new \<and> gr_tenant g = gr_tenant new \<and> gr_expires g < now - KEEP_AFTER_EXPIRY \<and>
     (case gr_live_until g of None \<Rightarrow> True | Some t \<Rightarrow> t < now))"

definition issue_grant :: "time \<Rightarrow> grant \<Rightarrow> grant list \<Rightarrow> issue_refusal + grant list" where
  "issue_grant now new gs =
     (let rows = map console_of (user_live now new gs); mine = console_of new in
      if length (filter (\<lambda>r. r = mine) rows) \<ge> MAX_PER_CONSOLE then Inl OpenInSeveralWindows
      else if mine \<notin> set rows \<and> card (set rows) \<ge> MAX_LIVE_GRANTS then Inl TooManyConsoles
      else Inr (delete_where (lapsed_grant now new) (gs @ [new])))"

definition new_grant :: "time \<Rightarrow> uuid \<Rightarrow> string \<Rightarrow> uuid \<Rightarrow> uuid \<Rightarrow> uuid \<Rightarrow> json \<Rightarrow> bool \<Rightarrow> bool \<Rightarrow> audience \<Rightarrow>
    uuid option \<Rightarrow> uuid option \<Rightarrow> uuid option \<Rightarrow> grant" where
  "new_grant now i token_hash tenant user rid vm view_only observed audience cls evt lab =
     \<lparr>gr_id = i, gr_hash = token_hash, gr_tenant = tenant, gr_user = user, gr_range = rid,
      gr_vm_id = (if falsy (jget ''vm_id'' vm) then [] else vm_text ''vm_id'' vm), gr_vm = (if falsy (jget ''name'' vm) then [] else vm_text ''name'' vm),
      gr_view_only = view_only, gr_observed = observed, gr_audience = audience, gr_class = cls, gr_event = evt, gr_lab = lab,
      gr_dials = 0, gr_created = now, gr_expires = now + GRANT_SECONDS, gr_live_until = None, gr_live_by = None\<rparr>"

section \<open>Claim, dial, renew, release\<close>

datatype claim_outcome = Denied | Expired | Spent | BusyElsewhere | Won

definition find_grant :: "string \<Rightarrow> uuid \<Rightarrow> uuid \<Rightarrow> grant list \<Rightarrow> grant option" where
  "find_grant token_hash tenant user gs = find_row (\<lambda>g. gr_hash g = token_hash \<and> gr_tenant g = tenant \<and> gr_user g = user) gs"

text \<open>What the read says; \<open>Won\<close> here: go on to the write. The token is hashed by \<open>sha\<close>.\<close>

definition claim_read :: "(string \<Rightarrow> string) \<Rightarrow> time \<Rightarrow> string \<Rightarrow> uuid \<Rightarrow> uuid \<Rightarrow> grant list \<Rightarrow> claim_outcome \<times> grant option" where
  "claim_read sha now token tenant user gs =
     (if token = [] \<or> length token > 128 then (Denied, None)
      else case find_grant (sha token) tenant user gs of None \<Rightarrow> (Denied, None)
      | Some g \<Rightarrow> if gr_expires g \<le> now then (Expired, Some g)
          else if gr_dials g \<ge> MAX_DIALS then (Spent, Some g)
          else (Won, Some g))"

definition claimable :: "time \<Rightarrow> grant \<Rightarrow> grant \<Rightarrow> bool" where
  "claimable now seen g = (gr_id g = gr_id seen \<and> gr_dials g < MAX_DIALS \<and> (case gr_live_until g of None \<Rightarrow> True | Some t \<Rightarrow> t < now))"

text \<open>None: the grant is gone, and reading it again raises.\<close>

definition claim_write :: "time \<Rightarrow> string \<Rightarrow> grant \<Rightarrow> grant list \<Rightarrow> claim_outcome option \<times> grant list" where
  "claim_write now holder seen gs =
     (if count_where (claimable now seen) gs > 0
      then (Some Won, update_where (claimable now seen) (\<lambda>g. g\<lparr>gr_live_until := Some (now + LIVE_LEASE), gr_live_by := Some holder\<rparr>) gs)
      else (case find_row (\<lambda>g. gr_id g = gr_id seen) gs of None \<Rightarrow> (None, gs)
        | Some g \<Rightarrow> (Some (if gr_dials g \<ge> MAX_DIALS then Spent else BusyElsewhere), gs)))"

definition held_by :: "uuid \<Rightarrow> string \<Rightarrow> grant \<Rightarrow> bool" where
  "held_by i holder g = (gr_id g = i \<and> gr_live_by g = Some holder)"

definition record_dial :: "uuid \<Rightarrow> string \<Rightarrow> grant list \<Rightarrow> bool \<times> grant list" where
  "record_dial i holder gs =
     (count_where (held_by i holder) gs > 0, update_where (held_by i holder) (\<lambda>g. g\<lparr>gr_dials := gr_dials g + 1\<rparr>) gs)"

datatype renewal = Renewed | Lost | Gone

definition renew_claim :: "time \<Rightarrow> uuid \<Rightarrow> string \<Rightarrow> grant list \<Rightarrow> renewal \<times> grant list" where
  "renew_claim now i holder gs =
     (if count_where (held_by i holder) gs > 0
      then (Renewed, update_where (held_by i holder) (\<lambda>g. g\<lparr>gr_live_until := Some (now + LIVE_LEASE)\<rparr>) gs)
      else (if list_ex (\<lambda>g. gr_id g = i) gs then Lost else Gone, gs))"

definition release_claim :: "uuid \<Rightarrow> string \<Rightarrow> grant list \<Rightarrow> grant list" where
  "release_claim i holder gs = update_where (held_by i holder) (\<lambda>g. g\<lparr>gr_live_until := None, gr_live_by := None\<rparr>) gs"

section \<open>A lab's console\<close>

text \<open>\<^verbatim>\<open>policy._lab\<close>: until when the socket may stay open, or None.\<close>

definition lab_verdict :: "lab_db \<Rightarrow> (lab \<Rightarrow> bool) \<Rightarrow> bool \<Rightarrow> grant \<Rightarrow> uuid \<Rightarrow> time option option" where
  "lab_verdict d enrollment_closed staff g user =
     (case find_row (\<lambda>s. Some (lx_id s) = gr_lab g \<and> lx_tenant s = gr_tenant g) (lab_rows d) of
        None \<Rightarrow> None
      | Some s \<Rightarrow>
        if lx_state s \<notin> {L_ready, L_active} \<or> lx_range s \<noteq> Some (gr_range g) then None
        else if lx_user s = user \<and> enrollment_closed s then None
        else if lx_user s \<noteq> user \<and> \<not> staff then None
        else Some (lx_max_expires s))"

datatype console_refusal = ConsoleNotReady lab_state | NoConsoleOn "string option" | NoVmYet string | ConsoleGrant issue_refusal
  | ConsoleLab lab_refusal

text \<open>\<^verbatim>\<open>lab_sessions.service.console\<close>: a grant on one node for the caller, and a touch.\<close>

definition console_target :: "lab_profile \<Rightarrow> string option \<Rightarrow> console_refusal + string" where
  "console_target pf node =
     (let wanted = (case node of None \<Rightarrow> [] | Some n \<Rightarrow> n);
          target = (if wanted \<noteq> [] then Some wanted else case pf_access pf of [] \<Rightarrow> None | n # _ \<Rightarrow> Some n)
      in case target of None \<Rightarrow> Inl (NoConsoleOn None)
         | Some n \<Rightarrow> if n \<in> set (pf_access pf) then Inr n else Inl (NoConsoleOn (Some n)))"

definition lab_console :: "lab_env \<Rightarrow> string \<Rightarrow> uuid \<Rightarrow> string option \<Rightarrow> uuid \<Rightarrow> lab \<Rightarrow> lab_db \<Rightarrow> grant list \<Rightarrow>
    console_refusal + (string \<times> lab \<times> lab_db \<times> grant list)" where
  "lab_console e token_hash gid node user s d gs =
     (if lx_state s \<notin> {L_ready, L_active} then Inl (ConsoleNotReady (lx_state s))
      else case session_profile e s of Inl err \<Rightarrow> Inl (ConsoleLab err)
      | Inr pf \<Rightarrow> (case console_target pf node of Inl err \<Rightarrow> Inl err
        | Inr n \<Rightarrow>
          (case lab_range_row d s of None \<Rightarrow> Inl (NoVmYet n)
           | Some r \<Rightarrow> (case vm_for n (lab_vms (provisioner_output r)) (lx_range s) of None \<Rightarrow> Inl (NoVmYet n)
             | Some vm \<Rightarrow>
               (case issue_grant (x_now e) (new_grant (x_now e) gid token_hash (lx_tenant s) user (rng_id r) vm False False
                   (if user = lx_user s then Student else Staff) None None (Some (lx_id s))) gs of
                  Inl err \<Rightarrow> Inl (ConsoleGrant err)
                | Inr gs1 \<Rightarrow> (case touch e s d of Inl err \<Rightarrow> Inl (ConsoleLab err)
                  | Inr (s1, d1) \<Rightarrow> Inr (n, s1, d1, gs1)))))))"

section \<open>The relay's renewal loop\<close>

text \<open>\<^verbatim>\<open>keep_claim\<close> from \<open>t\<close> on: each round the time the calls took and what came of them; \<open>Fine\<close> carries the
  session window's new end. The result: when it stopped, and why (None: it still runs).\<close>

datatype renewal_round = Fine "time option" | TickLost | TickGone | TickDenied | Broken

datatype close_code = CLOSE_MAX_OPEN | CLOSE_FORBIDDEN | CLOSE_GONE | CLOSE_BUSY | CLOSE_SERVICE

definition MAX_OPEN_SECONDS :: time where "MAX_OPEN_SECONDS = seconds (8 * 3600)"
definition MAX_RENEW_FAILURES :: nat where "MAX_RENEW_FAILURES = 3"

fun keep_claim :: "time \<Rightarrow> time option \<Rightarrow> time \<Rightarrow> time \<Rightarrow> nat \<Rightarrow> (time \<times> renewal_round) list \<Rightarrow> time \<times> close_code option" where
  "keep_claim ceiling window last_ok t failures [] = (t, None)"
| "keep_claim ceiling window last_ok t failures ((took, k) # ticks) =
     (let ends = (case window of None \<Rightarrow> ceiling | Some w \<Rightarrow> min ceiling w);
          now = t + min RENEW_SECONDS (max (ends - t) 0);
          after = now + took
      in if now \<ge> ceiling then (now, Some CLOSE_MAX_OPEN)
         else if (case window of None \<Rightarrow> False | Some w \<Rightarrow> now \<ge> w) then (now, Some CLOSE_FORBIDDEN)
         else case k of
           TickGone \<Rightarrow> (after, Some CLOSE_GONE)
         | TickLost \<Rightarrow> (after, Some CLOSE_BUSY)
         | TickDenied \<Rightarrow> (after, Some CLOSE_FORBIDDEN)
         | Fine w \<Rightarrow> keep_claim ceiling w after after 0 ticks
         | Broken \<Rightarrow>
           if failures + 1 \<ge> MAX_RENEW_FAILURES \<or> after - last_ok + RENEW_SECONDS \<ge> LIVE_LEASE then (after, Some CLOSE_SERVICE)
           else keep_claim ceiling window last_ok after (failures + 1) ticks)"

section \<open>Sockets and grants together\<close>

text \<open>\<open>cn_lease\<close>: when this connection last took or renewed the claim. \<open>re_opened\<close> logs every socket served.\<close>

datatype phase = Dialling | Serving

record connection =
  cn_grant :: uuid
  cn_phase :: phase
  cn_lease :: time

record relay =
  re_now :: time
  re_grants :: "grant list"
  re_conns :: "string \<Rightarrow> connection option"
  re_holders :: "string set"
  re_opened :: "(uuid \<times> string) list"
  re_ids :: "uuid set"

definition hang_up :: "string \<Rightarrow> relay \<Rightarrow> relay" where
  "hang_up h y = y\<lparr>re_conns := (re_conns y)(h := None)\<rparr>"

inductive relay_step :: "relay \<Rightarrow> relay \<Rightarrow> bool" where
  later: "re_now y \<le> t \<Longrightarrow> relay_step y (y\<lparr>re_now := t\<rparr>)"
| issued: "gr_id g \<notin> re_ids y \<Longrightarrow> gr_dials g = 0 \<Longrightarrow> gr_live_until g = None \<Longrightarrow> gr_live_by g = None \<Longrightarrow>
    issue_grant (re_now y) g (re_grants y) = Inr gs \<Longrightarrow>
    relay_step y (y\<lparr>re_grants := gs, re_ids := insert (gr_id g) (re_ids y)\<rparr>)"
| withdrawn: "relay_step y (y\<lparr>re_grants := filter P (re_grants y)\<rparr>)"
| claimed: "h \<notin> re_holders y \<Longrightarrow> gr_id seen \<in> re_ids y \<Longrightarrow> claim_write (re_now y) h seen (re_grants y) = (Some Won, gs) \<Longrightarrow>
    relay_step y (y\<lparr>re_grants := gs, re_holders := insert h (re_holders y),
      re_conns := (re_conns y)(h \<mapsto> \<lparr>cn_grant = gr_id seen, cn_phase = Dialling, cn_lease = re_now y\<rparr>)\<rparr>)"
| served: "re_conns y h = Some c \<Longrightarrow> cn_phase c = Dialling \<Longrightarrow> record_dial (cn_grant c) h (re_grants y) = (True, gs) \<Longrightarrow>
    relay_step y (y\<lparr>re_grants := gs, re_conns := (re_conns y)(h \<mapsto> c\<lparr>cn_phase := Serving\<rparr>), re_opened := re_opened y @ [(cn_grant c, h)]\<rparr>)"
| renewed: "re_conns y h = Some c \<Longrightarrow> cn_phase c = Serving \<Longrightarrow> renew_claim (re_now y) (cn_grant c) h (re_grants y) = (Renewed, gs) \<Longrightarrow>
    relay_step y (y\<lparr>re_grants := gs, re_conns := (re_conns y)(h \<mapsto> c\<lparr>cn_lease := re_now y\<rparr>)\<rparr>)"
| given_back: "re_conns y h = Some c \<Longrightarrow> relay_step y (hang_up h (y\<lparr>re_grants := release_claim (cn_grant c) h (re_grants y)\<rparr>))"
| died: "re_conns y h = Some c \<Longrightarrow> relay_step y (hang_up h y)"

inductive relay_reachable :: "relay \<Rightarrow> bool" where
  start: "relay_reachable \<lparr>re_now = t, re_grants = [], re_conns = (\<lambda>_. None), re_holders = {}, re_opened = [], re_ids = {}\<rparr>"
| step: "relay_reachable y \<Longrightarrow> relay_step y y' \<Longrightarrow> relay_reachable y'"

definition opened_on :: "relay \<Rightarrow> uuid \<Rightarrow> nat" where
  "opened_on y i = length (filter (\<lambda>x. fst x = i) (re_opened y))"

text \<open>What a grant row says of its connections.\<close>

definition grant_ok :: "relay \<Rightarrow> grant \<Rightarrow> bool" where
  "grant_ok y g = (gr_id g \<in> re_ids y \<and> opened_on y (gr_id g) = gr_dials g \<and> gr_dials g \<le> MAX_DIALS \<and>
     (\<forall>h. gr_live_by g = Some h \<longrightarrow> h \<in> re_holders y) \<and>
     (\<forall>h c. gr_live_by g = Some h \<longrightarrow> re_conns y h = Some c \<longrightarrow> cn_grant c = gr_id g \<and> (cn_phase c = Dialling \<longrightarrow> gr_dials g < MAX_DIALS)))"

text \<open>A connection on a grant that exists still has the claim, as it last took it, or its lease has run out.\<close>

definition conn_ok :: "relay \<Rightarrow> string \<Rightarrow> bool" where
  "conn_ok y h = (case re_conns y h of None \<Rightarrow> True | Some c \<Rightarrow> h \<in> re_holders y \<and> cn_grant c \<in> re_ids y \<and>
     (\<forall>g \<in> set (re_grants y). gr_id g = cn_grant c \<longrightarrow>
        gr_live_by g = Some h \<and> gr_live_until g = Some (cn_lease c + LIVE_LEASE) \<or> cn_lease c + LIVE_LEASE < re_now y))"

definition relay_ok :: "relay \<Rightarrow> bool" where
  "relay_ok y = (distinct (map gr_id (re_grants y)) \<and> (\<forall>g \<in> set (re_grants y). grant_ok y g) \<and> (\<forall>h. conn_ok y h) \<and>
     (\<forall>i. opened_on y i \<le> MAX_DIALS) \<and> (\<forall>i. i \<notin> re_ids y \<longrightarrow> opened_on y i = 0))"

section \<open>Every step keeps the invariant\<close>

lemma hang_up_simps [simp]: "re_now (hang_up h y) = re_now y" "re_grants (hang_up h y) = re_grants y" "re_holders (hang_up h y) = re_holders y"
  "re_opened (hang_up h y) = re_opened y" "re_ids (hang_up h y) = re_ids y" "re_conns (hang_up h y) = (re_conns y)(h := None)"
  by (simp_all add: hang_up_def)

lemma grant_okI:
  assumes "gr_id g \<in> re_ids y" "opened_on y (gr_id g) = gr_dials g" "gr_dials g \<le> MAX_DIALS" "\<And>h. gr_live_by g = Some h \<Longrightarrow> h \<in> re_holders y"
    "\<And>h c. gr_live_by g = Some h \<Longrightarrow> re_conns y h = Some c \<Longrightarrow> cn_grant c = gr_id g \<and> (cn_phase c = Dialling \<longrightarrow> gr_dials g < MAX_DIALS)"
  shows "grant_ok y g"
  using assms unfolding grant_ok_def by blast

lemma relay_okI:
  assumes "distinct (map gr_id (re_grants y))" "\<And>g. g \<in> set (re_grants y) \<Longrightarrow> grant_ok y g" "\<And>h. conn_ok y h"
    "\<And>i. opened_on y i \<le> MAX_DIALS" "\<And>i. i \<notin> re_ids y \<Longrightarrow> opened_on y i = 0"
  shows "relay_ok y"
  using assms unfolding relay_ok_def by blast

text \<open>A step that takes grants, connections or holders' rights away, lets time pass or issues a grant.\<close>

definition still :: "relay \<Rightarrow> relay \<Rightarrow> grant \<Rightarrow> grant \<Rightarrow> bool" where
  "still y y' g x = (g \<in> set (re_grants y) \<and> gr_id x = gr_id g \<and> gr_dials x = gr_dials g \<and>
     (gr_live_by x = gr_live_by g \<and> gr_live_until x = gr_live_until g \<or>
      gr_live_by x = None \<and> (\<forall>h. gr_live_by g = Some h \<longrightarrow> re_conns y' h = None)))"

lemma still_same: "g \<in> set (re_grants y) \<Longrightarrow> still y y' g g"
  by (simp add: still_def)

lemma relay_less:
  assumes "relay_ok y" "distinct (map gr_id (re_grants y'))" "re_now y \<le> re_now y'"
    and old: "\<And>x. x \<in> set (re_grants y') \<Longrightarrow> x \<in> new \<or> (\<exists>g. still y y' g x)"
    and conns: "\<And>h c. re_conns y' h = Some c \<Longrightarrow> re_conns y h = Some c"
    and same: "re_holders y' = re_holders y" "re_opened y' = re_opened y" "re_ids y \<subseteq> re_ids y'"
    and new: "\<And>g. g \<in> new \<Longrightarrow> gr_id g \<in> re_ids y' \<and> gr_id g \<notin> re_ids y \<and> gr_dials g = 0 \<and> gr_live_by g = None"
  shows "relay_ok y'"
proof -
  note R = assms(1) [unfolded relay_ok_def]
  have op: "opened_on y' i = opened_on y i" for i by (simp add: opened_on_def same(2))
  have "grant_ok y' x" if x: "x \<in> set (re_grants y')" for x
    using old [OF x]
  proof
    assume "x \<in> new"
    then show ?thesis using new [of x] R by (simp add: grant_ok_def op)
  next
    assume "\<exists>g. still y y' g x"
    then obtain g where g: "still y y' g x" ..
    then have "grant_ok y g" using R by (simp add: still_def)
    moreover have "h \<in> re_holders y'" if "gr_live_by x = Some h" for h
      using that \<open>grant_ok y g\<close> g same(1) by (auto simp: grant_ok_def still_def)
    moreover have "cn_grant c = gr_id x \<and> (cn_phase c = Dialling \<longrightarrow> gr_dials x < MAX_DIALS)"
      if "gr_live_by x = Some h" "re_conns y' h = Some c" for h c
    proof -
      have "gr_live_by g = Some h" using that(1) g by (auto simp: still_def)
      then show ?thesis using \<open>grant_ok y g\<close> g conns [OF that(2)] by (simp add: grant_ok_def still_def)
    qed
    ultimately show ?thesis using g same(3) unfolding grant_ok_def op still_def by auto
  qed
  moreover have "conn_ok y' h" for h
  proof (cases "re_conns y' h")
    case (Some c)
    have "conn_ok y h" using R by blast
    then have c: "h \<in> re_holders y" "cn_grant c \<in> re_ids y" "\<forall>g \<in> set (re_grants y). gr_id g = cn_grant c \<longrightarrow>
        gr_live_by g = Some h \<and> gr_live_until g = Some (cn_lease c + LIVE_LEASE) \<or> cn_lease c + LIVE_LEASE < re_now y"
      using conns [OF Some] by (simp_all add: conn_ok_def)
    have "gr_live_by x = Some h \<and> gr_live_until x = Some (cn_lease c + LIVE_LEASE) \<or> cn_lease c + LIVE_LEASE < re_now y'"
      if x: "x \<in> set (re_grants y')" "gr_id x = cn_grant c" for x
    proof -
      have "x \<notin> new" using new [of x] x(2) c(2) by auto
      then obtain g where g: "still y y' g x" using old [OF x(1)] by blast
      then have "gr_live_by g = Some h \<and> gr_live_until g = Some (cn_lease c + LIVE_LEASE) \<or> cn_lease c + LIVE_LEASE < re_now y"
        using c(3) x(2) by (simp add: still_def)
      then show ?thesis using g Some assms(3) by (auto simp: still_def)
    qed
    then show ?thesis using Some c(1,2) same by (auto simp: conn_ok_def)
  qed (simp add: conn_ok_def)
  moreover have "opened_on y' i \<le> MAX_DIALS" for i using R unfolding op by blast
  moreover have "opened_on y' i = 0" if i: "i \<notin> re_ids y'" for i using R same(3) i unfolding op by blast
  ultimately show ?thesis using assms(2) unfolding relay_ok_def by blast
qed

text \<open>A guarded UPDATE of one grant by one holder.\<close>

lemma set_update_one:
  assumes "gs' = update_where P f gs" "x \<in> set gs'"
  obtains "x \<in> set gs" "\<not> P x" | g where "g \<in> set gs" "P g" "x = f g"
  using assms by (auto simp: set_update_where split: if_splits)

lemma count_where_pos: "count_where P gs > 0 \<longleftrightarrow> (\<exists>g \<in> set gs. P g)"
  using count_where_0_iff [of P gs] by auto

lemma update_ids: "(\<And>g. gr_id (f g) = gr_id g) \<Longrightarrow> map gr_id (update_where P f gs) = map gr_id gs"
  by (simp add: update_where_def)

lemma relay_claimed:
  assumes "relay_ok y" "h \<notin> re_holders y" "gr_id seen \<in> re_ids y" "claim_write (re_now y) h seen (re_grants y) = (Some Won, gs)"
  shows "relay_ok (y\<lparr>re_grants := gs, re_holders := insert h (re_holders y),
    re_conns := (re_conns y)(h \<mapsto> \<lparr>cn_grant = gr_id seen, cn_phase = Dialling, cn_lease = re_now y\<rparr>)\<rparr>)" (is "relay_ok ?y")
proof -
  note R = assms(1) [unfolded relay_ok_def]
  let ?f = "\<lambda>g. g\<lparr>gr_live_until := Some (re_now y + LIVE_LEASE), gr_live_by := Some h\<rparr>"
  have some: "\<exists>g \<in> set (re_grants y). claimable (re_now y) seen g" and gs: "gs = update_where (claimable (re_now y) seen) ?f (re_grants y)"
    using assms(4) unfolding claim_write_def count_where_pos by (auto split: if_splits option.splits)
  have ids: "map gr_id gs = map gr_id (re_grants y)" unfolding gs by (rule update_ids) simp
  have op: "opened_on ?y i = opened_on y i" for i by (simp add: opened_on_def)
  have "grant_ok ?y x" if x: "x \<in> set gs" for x
    using gs x
  proof (cases rule: set_update_one)
    case 1
    then have ok: "grant_ok y x" using R by blast
    then have "gr_live_by x \<noteq> Some h" using assms(2) by (auto simp: grant_ok_def)
    then show ?thesis using ok unfolding grant_ok_def op by auto
  next
    case (2 g)
    then have "grant_ok y g" using R by blast
    then show ?thesis using 2 unfolding grant_ok_def op by (auto simp: claimable_def)
  qed
  moreover have "conn_ok ?y k" for k
  proof (cases "k = h")
    case True
    have "gr_live_by x = Some h \<and> gr_live_until x = Some (re_now y + LIVE_LEASE)" if x: "x \<in> set gs" "gr_id x = gr_id seen" for x
    proof -
      obtain g where g: "g \<in> set (re_grants y)" "claimable (re_now y) seen g" using some by blast
      have fg: "?f g \<in> set gs" unfolding gs set_update_where using g by force
      have "gr_id (?f g) = gr_id x" using g(2) x(2) by (simp add: claimable_def)
      then have "x = ?f g" using x(1) fg R ids by (metis distinct_map inj_onD)
      then show ?thesis by simp
    qed
    then show ?thesis using True assms(3) by (simp add: conn_ok_def)
  next
    case False
    show ?thesis
    proof (cases "re_conns y k")
      case (Some c)
      have "conn_ok y k" using R by blast
      then have c: "k \<in> re_holders y" "cn_grant c \<in> re_ids y" "\<forall>g \<in> set (re_grants y). gr_id g = cn_grant c \<longrightarrow>
          gr_live_by g = Some k \<and> gr_live_until g = Some (cn_lease c + LIVE_LEASE) \<or> cn_lease c + LIVE_LEASE < re_now y"
        using Some by (simp_all add: conn_ok_def)
      have "gr_live_by x = Some k \<and> gr_live_until x = Some (cn_lease c + LIVE_LEASE) \<or> cn_lease c + LIVE_LEASE < re_now y"
        if x: "x \<in> set gs" "gr_id x = cn_grant c" for x
        using gs x(1)
      proof (cases rule: set_update_one)
        case 1
        then show ?thesis using c(3) x(2) by blast
      next
        case (2 g)
        then show ?thesis using c(3) x(2) by (auto simp: claimable_def)
      qed
      then show ?thesis using Some False c(1,2) by (simp add: conn_ok_def)
    qed (use False in \<open>simp add: conn_ok_def\<close>)
  qed
  ultimately show ?thesis using R ids by (intro relay_okI) (simp_all add: op)
qed

lemma relay_served:
  assumes "relay_ok y" "re_conns y h = Some c" "cn_phase c = Dialling" "record_dial (cn_grant c) h (re_grants y) = (True, gs)"
  shows "relay_ok (y\<lparr>re_grants := gs, re_conns := (re_conns y)(h \<mapsto> c\<lparr>cn_phase := Serving\<rparr>), re_opened := re_opened y @ [(cn_grant c, h)]\<rparr>)"
    (is "relay_ok ?y")
proof -
  note R = assms(1) [unfolded relay_ok_def]
  let ?f = "\<lambda>g. g\<lparr>gr_dials := gr_dials g + 1\<rparr>"
  have gs: "gs = update_where (held_by (cn_grant c) h) ?f (re_grants y)" and some: "\<exists>g \<in> set (re_grants y). held_by (cn_grant c) h g"
    using assms(4) unfolding record_dial_def count_where_pos by auto
  obtain g0 where g0: "g0 \<in> set (re_grants y)" "held_by (cn_grant c) h g0" using some by blast
  have g0_ok: "grant_ok y g0" using R g0(1) by blast
  have less: "gr_dials g0 < MAX_DIALS" using g0_ok g0(2) assms(2,3) by (auto simp: grant_ok_def held_by_def)
  have ids: "map gr_id gs = map gr_id (re_grants y)" unfolding gs by (rule update_ids) simp
  have op: "opened_on ?y i = (if i = cn_grant c then opened_on y i + 1 else opened_on y i)" for i by (simp add: opened_on_def)
  have mine: "gr_id g0 = cn_grant c" using g0(2) by (simp add: held_by_def)
  have only: "g = g0" if "g \<in> set (re_grants y)" "gr_id g = cn_grant c" for g
    using that g0(1) mine R by (metis distinct_map inj_onD)
  have "grant_ok ?y x" if x: "x \<in> set gs" for x
    using gs x
  proof (cases rule: set_update_one)
    case 1
    have ok: "grant_ok y x" using 1(1) R by blast
    have "gr_id x \<noteq> cn_grant c" using only [OF 1(1)] 1(2) g0(2) by blast
    moreover have "cn_grant k = gr_id x \<and> (cn_phase k = Dialling \<longrightarrow> gr_dials x < MAX_DIALS)"
      if "gr_live_by x = Some w" "re_conns ?y w = Some k" for w k
      using ok that assms(2) \<open>gr_id x \<noteq> cn_grant c\<close> by (cases "w = h") (auto simp: grant_ok_def)
    ultimately show ?thesis using ok unfolding grant_ok_def op by auto
  next
    case (2 g)
    then have g: "g = g0" using only by (auto simp: held_by_def)
    have k: "cn_grant k = gr_id x \<and> (cn_phase k = Dialling \<longrightarrow> gr_dials x < MAX_DIALS)"
      if "gr_live_by x = Some w" "re_conns ?y w = Some k" for w k
    proof -
      have "w = h" using that(1) 2(2,3) by (simp add: held_by_def)
      then show ?thesis using that(2) 2(3) g mine by auto
    qed
    have x0: "gr_id x = cn_grant c" "gr_dials x = gr_dials g0 + 1" "gr_live_by x = gr_live_by g0" using 2(3) g mine by simp_all
    have y0: "opened_on y (cn_grant c) = gr_dials g0" "cn_grant c \<in> re_ids y" "gr_live_by g0 = Some w \<Longrightarrow> w \<in> re_holders y" for w
      using g0_ok mine by (simp_all add: grant_ok_def)
    show ?thesis
    proof (rule grant_okI)
      show "gr_id x \<in> re_ids ?y" using x0(1) y0(2) by simp
      show "opened_on ?y (gr_id x) = gr_dials x" by (simp add: op x0 y0(1))
      show "gr_dials x \<le> MAX_DIALS" using less x0(2) by simp
      show "w \<in> re_holders ?y" if "gr_live_by x = Some w" for w using that x0(3) y0(3) by simp
    qed (rule k)
  qed
  moreover have "conn_ok ?y k" for k
  proof -
    have old: "conn_ok y k" using R by blast
    have live: "\<exists>g \<in> set (re_grants y). gr_id g = gr_id x \<and> gr_live_by g = gr_live_by x \<and> gr_live_until g = gr_live_until x" if x: "x \<in> set gs" for x
      using gs x by (cases rule: set_update_one) auto
    show ?thesis
    proof (cases "re_conns y k")
      case (Some v)
      have v: "k \<in> re_holders y" "cn_grant v \<in> re_ids y" "\<forall>g \<in> set (re_grants y). gr_id g = cn_grant v \<longrightarrow>
          gr_live_by g = Some k \<and> gr_live_until g = Some (cn_lease v + LIVE_LEASE) \<or> cn_lease v + LIVE_LEASE < re_now y"
        using Some old by (simp_all add: conn_ok_def)
      have "gr_live_by x = Some k \<and> gr_live_until x = Some (cn_lease v + LIVE_LEASE) \<or> cn_lease v + LIVE_LEASE < re_now y"
        if "x \<in> set gs" "gr_id x = cn_grant v" for x using live [OF that(1)] v(3) that(2) by metis
      then show ?thesis using v(1,2) Some assms(2) by (cases "k = h") (auto simp: conn_ok_def)
    qed (use assms(2) in \<open>cases "k = h"; simp add: conn_ok_def\<close>)
  qed
  moreover have "opened_on ?y i \<le> MAX_DIALS" "i \<notin> re_ids ?y \<Longrightarrow> opened_on ?y i = 0" for i
    using R g0_ok less mine by (auto simp: op grant_ok_def)
  moreover have "distinct (map gr_id (re_grants ?y))" using R ids by simp
  ultimately show ?thesis by (intro relay_okI) simp_all
qed

lemma relay_renewed:
  assumes "relay_ok y" "re_conns y h = Some c" "renew_claim (re_now y) (cn_grant c) h (re_grants y) = (Renewed, gs)"
  shows "relay_ok (y\<lparr>re_grants := gs, re_conns := (re_conns y)(h \<mapsto> c\<lparr>cn_lease := re_now y\<rparr>)\<rparr>)" (is "relay_ok ?y")
proof -
  note R = assms(1) [unfolded relay_ok_def]
  let ?f = "\<lambda>g. g\<lparr>gr_live_until := Some (re_now y + LIVE_LEASE)\<rparr>"
  have gs: "gs = update_where (held_by (cn_grant c) h) ?f (re_grants y)" and some: "\<exists>g \<in> set (re_grants y). held_by (cn_grant c) h g"
    using assms(3) unfolding renew_claim_def count_where_pos by (auto split: if_splits)
  obtain g0 where g0: "g0 \<in> set (re_grants y)" "held_by (cn_grant c) h g0" using some by blast
  have mine: "gr_id g0 = cn_grant c" using g0(2) by (simp add: held_by_def)
  have only: "g = g0" if "g \<in> set (re_grants y)" "gr_id g = cn_grant c" for g
    using that g0(1) mine R by (metis distinct_map inj_onD)
  have ids: "map gr_id gs = map gr_id (re_grants y)" unfolding gs by (rule update_ids) simp
  have op: "opened_on ?y i = opened_on y i" for i by (simp add: opened_on_def)
  have "grant_ok ?y x" if x: "x \<in> set gs" for x
  proof -
    have "\<exists>g \<in> set (re_grants y). gr_id x = gr_id g \<and> gr_dials x = gr_dials g \<and> gr_live_by x = gr_live_by g"
      using gs x by (cases rule: set_update_one) auto
    then obtain g where g: "g \<in> set (re_grants y)" "gr_id x = gr_id g" "gr_dials x = gr_dials g" "gr_live_by x = gr_live_by g" by blast
    have ok: "grant_ok y g" using R g(1) by blast
    have "cn_grant k = gr_id x \<and> (cn_phase k = Dialling \<longrightarrow> gr_dials x < MAX_DIALS)"
      if "gr_live_by x = Some w" "re_conns ?y w = Some k" for w k
      using ok that assms(2) g by (cases "w = h") (auto simp: grant_ok_def)
    then show ?thesis using ok g unfolding grant_ok_def op by auto
  qed
  moreover have "conn_ok ?y k" for k
  proof -
    have old: "conn_ok y k" using R by blast
    show ?thesis
    proof (cases "k = h")
      case True
      have "gr_live_by x = Some h \<and> gr_live_until x = Some (re_now y + LIVE_LEASE)" if x: "x \<in> set gs" "gr_id x = cn_grant c" for x
        using gs x(1)
      proof (cases rule: set_update_one)
        case 1
        then show ?thesis using only x(2) g0(2) by blast
      qed (simp add: held_by_def)
      then show ?thesis using True old assms(2) by (simp add: conn_ok_def)
    next
      case False
      show ?thesis
      proof (cases "re_conns y k")
        case (Some v)
        have v: "k \<in> re_holders y" "cn_grant v \<in> re_ids y" "\<forall>g \<in> set (re_grants y). gr_id g = cn_grant v \<longrightarrow>
            gr_live_by g = Some k \<and> gr_live_until g = Some (cn_lease v + LIVE_LEASE) \<or> cn_lease v + LIVE_LEASE < re_now y"
          using Some old by (simp_all add: conn_ok_def)
        have "gr_live_by x = Some k \<and> gr_live_until x = Some (cn_lease v + LIVE_LEASE) \<or> cn_lease v + LIVE_LEASE < re_now y"
          if x: "x \<in> set gs" "gr_id x = cn_grant v" for x
          using gs x(1)
        proof (cases rule: set_update_one)
          case 1
          then show ?thesis using v(3) x(2) by blast
        next
          case (2 g)
          then show ?thesis using v(3) x(2) False by (auto simp: held_by_def)
        qed
        then show ?thesis using Some False v(1,2) by (simp add: conn_ok_def)
      qed (use False in \<open>simp add: conn_ok_def\<close>)
    qed
  qed
  ultimately show ?thesis using R ids by (intro relay_okI) (simp_all add: op)
qed

lemma relay_step_ok:
  assumes "relay_ok y" "relay_step y y'"
  shows "relay_ok y'"
  using assms(2)
proof cases
  case (later t)
  then show ?thesis using assms(1) by (intro relay_less [OF assms(1), where new = "{}"]) (auto simp: relay_ok_def intro: still_same)
next
  case (issued g gs)
  have gs: "gs = delete_where (lapsed_grant (re_now y) g) (re_grants y @ [g])"
    using issued(6) by (simp add: issue_grant_def Let_def split: if_splits)
  have "distinct (map gr_id (re_grants y @ [g]))"
    using assms(1) issued(2) by (auto simp: relay_ok_def grant_ok_def)
  then have d: "distinct (map gr_id gs)" unfolding gs by (rule distinct_map_delete_where)
  have s: "set gs \<subseteq> insert g (set (re_grants y))" unfolding gs by auto
  show ?thesis
  proof (rule relay_less [OF assms(1), where new = "{g}"])
    show "x \<in> {g} \<or> (\<exists>h. still y y' h x)" if x: "x \<in> set (re_grants y')" for x
    proof (cases "x = g")
      case False
      then have "still y y' x x" using x s issued(1) by (intro still_same) auto
      then show ?thesis by blast
    qed simp
  qed (use issued d in auto)
next
  case (withdrawn P)
  then show ?thesis using assms(1)
    by (intro relay_less [OF assms(1), where new = "{}"]) (auto simp: relay_ok_def distinct_map_filter_rows intro: still_same)
next
  case (claimed h seen gs)
  then show ?thesis using relay_claimed [OF assms(1)] by simp
next
  case (served h c gs)
  then show ?thesis using relay_served [OF assms(1)] by simp
next
  case (renewed h c gs)
  then show ?thesis using relay_renewed [OF assms(1)] by simp
next
  case (given_back h c)
  let ?gs = "release_claim (cn_grant c) h (re_grants y)"
  have ids: "map gr_id ?gs = map gr_id (re_grants y)" unfolding release_claim_def by (rule update_ids) simp
  show ?thesis
  proof (rule relay_less [OF assms(1), where new = "{}"])
    show "distinct (map gr_id (re_grants y'))" using assms(1) ids given_back(1) by (simp add: relay_ok_def)
    show "x \<in> {} \<or> (\<exists>g. still y y' g x)" if x: "x \<in> set (re_grants y')" for x
    proof -
      have "re_grants y' = update_where (held_by (cn_grant c) h) (\<lambda>g. g\<lparr>gr_live_until := None, gr_live_by := None\<rparr>) (re_grants y)"
        using given_back(1) by (simp add: release_claim_def)
      from this x show ?thesis
      proof (cases rule: set_update_one)
        case 1
        then show ?thesis using still_same by blast
      next
        case (2 g)
        then have "still y y' g x" using given_back(1) by (simp add: still_def held_by_def)
        then show ?thesis by blast
      qed
    qed
  qed (use given_back in \<open>auto split: if_splits\<close>)
next
  case (died h c)
  then show ?thesis using assms(1)
    by (intro relay_less [OF assms(1), where new = "{}"]) (auto simp: relay_ok_def intro: still_same split: if_splits)
qed

lemma relay_reachable_ok: "relay_reachable y \<Longrightarrow> relay_ok y"
proof (induction rule: relay_reachable.induct)
  case (start t)
  then show ?case by (simp add: relay_ok_def conn_ok_def opened_on_def)
next
  case (step y y')
  then show ?case using relay_step_ok by blast
qed

section \<open>What the bounds give\<close>

text \<open>C28: Of two sockets that still have the claim they took on one existing grant, in any order of claims, dials,
  renewals, releases and crashes of the workers, there is only one: two sockets of a grant, neither past its
  lease, are the same socket.
\<close>

theorem one_live_socket:
  assumes "relay_reachable y" "g \<in> set (re_grants y)"
    and "re_conns y h = Some c" "cn_grant c = gr_id g" "re_now y \<le> cn_lease c + LIVE_LEASE"
    and "re_conns y k = Some v" "cn_grant v = gr_id g" "re_now y \<le> cn_lease v + LIVE_LEASE"
  shows "h = k"
proof -
  note R = relay_reachable_ok [OF assms(1), unfolded relay_ok_def]
  have "conn_ok y h" "conn_ok y k" using R by blast+
  then have "gr_live_by g = Some h" "gr_live_by g = Some k" using assms(2-8) by (fastforce simp: conn_ok_def)+
  then show ?thesis by simp
qed

definition sample_grant :: "uuid \<Rightarrow> string \<Rightarrow> time \<Rightarrow> grant" where
  "sample_grant i vm now = new_grant now i ''hash'' ''t'' ''u'' ''r'' (JObj [(''name'', JStr vm)]) False False Student None None (Some ''lab'')"

definition no_sockets :: relay where
  "no_sockets = \<lparr>re_now = 0, re_grants = [], re_conns = (\<lambda>_. None), re_holders = {}, re_opened = [], re_ids = {}\<rparr>"

definition one_grant :: relay where
  "one_grant = no_sockets\<lparr>re_grants := [sample_grant ''g'' ''kali'' 0], re_ids := {''g''}\<rparr>"

definition taken :: "grant list" where
  "taken = snd (claim_write 0 ''a'' (sample_grant ''g'' ''kali'' 0) (re_grants one_grant))"

definition one_claim :: relay where
  "one_claim = one_grant\<lparr>re_grants := taken, re_holders := insert ''a'' (re_holders one_grant),
     re_conns := (re_conns one_grant)(''a'' \<mapsto> \<lparr>cn_grant = ''g'', cn_phase = Dialling, cn_lease = 0\<rparr>)\<rparr>"

definition one_socket :: relay where
  "one_socket = one_claim\<lparr>re_grants := snd (record_dial ''g'' ''a'' taken),
     re_conns := (re_conns one_claim)(''a'' \<mapsto> \<lparr>cn_grant = ''g'', cn_phase = Serving, cn_lease = 0\<rparr>),
     re_opened := re_opened one_claim @ [(''g'', ''a'')]\<rparr>"

lemma sample_id: "gr_id (sample_grant ''g'' ''kali'' 0) = ''g''"
  by (simp add: sample_grant_def new_grant_def)

lemma one_grant_reachable: "relay_reachable one_grant"
proof -
  have i: "issue_grant 0 (sample_grant ''g'' ''kali'' 0) [] = Inr [sample_grant ''g'' ''kali'' 0]" by code_simp
  have f: "gr_dials (sample_grant ''g'' ''kali'' 0) = 0 \<and> gr_live_until (sample_grant ''g'' ''kali'' 0) = None \<and>
      gr_live_by (sample_grant ''g'' ''kali'' 0) = None" by code_simp
  have "relay_step no_sockets (no_sockets\<lparr>re_grants := [sample_grant ''g'' ''kali'' 0], re_ids := insert (gr_id (sample_grant ''g'' ''kali'' 0)) (re_ids no_sockets)\<rparr>)"
    by (rule issued) (simp_all add: f i, simp_all add: no_sockets_def i)
  moreover have "relay_reachable no_sockets" unfolding no_sockets_def by (rule start)
  ultimately show ?thesis unfolding one_grant_def sample_id by (auto simp: no_sockets_def intro: step)
qed

lemma one_claim_reachable: "relay_reachable one_claim"
proof -
  have "fst (claim_write 0 ''a'' (sample_grant ''g'' ''kali'' 0) (re_grants one_grant)) = Some Won" by code_simp
  then have c: "claim_write (re_now one_grant) ''a'' (sample_grant ''g'' ''kali'' 0) (re_grants one_grant) = (Some Won, taken)"
    by (simp add: taken_def one_grant_def no_sockets_def prod_eq_iff)
  have "relay_step one_grant one_claim"
    using claimed [OF _ _ c] unfolding one_claim_def sample_id by (simp add: one_grant_def no_sockets_def)
  then show ?thesis using one_grant_reachable by (rule step [rotated])
qed

lemma one_socket_reachable: "relay_reachable one_socket"
proof -
  have "fst (record_dial ''g'' ''a'' (re_grants one_claim)) = True" by code_simp
  then have d: "record_dial ''g'' ''a'' (re_grants one_claim) = (True, snd (record_dial ''g'' ''a'' taken))"
    by (simp add: one_claim_def prod_eq_iff)
  have "relay_step one_claim one_socket"
    using served [of one_claim "''a''" "\<lparr>cn_grant = ''g'', cn_phase = Dialling, cn_lease = 0\<rparr>"] d
    unfolding one_socket_def by (simp add: one_claim_def)
  then show ?thesis using one_claim_reachable by (rule step [rotated])
qed

lemma sample_socket: "re_conns one_socket ''a'' = Some \<lparr>cn_grant = ''g'', cn_phase = Serving, cn_lease = 0\<rparr>"
  "\<exists>g \<in> set (re_grants one_socket). gr_id g = ''g''" "re_now one_socket = 0"
  by code_simp+

theorem one_live_socket_witness:
  "\<exists>g \<in> set (re_grants one_socket). gr_id g = ''g'' \<and> gr_live_by g = Some ''a'' \<and> ''a'' = (''a'' :: string)"
proof -
  obtain g where g: "g \<in> set (re_grants one_socket)" "gr_id g = ''g''" using sample_socket(2) by blast
  have "''a'' = (''a'' :: string)"
    by (rule one_live_socket [OF one_socket_reachable g(1) sample_socket(1) _ _ sample_socket(1)])
      (simp_all add: g(2) sample_socket(3) LIVE_LEASE_def seconds_def)
  moreover have "\<forall>g \<in> set (re_grants one_socket). gr_live_by g = Some ''a''" by code_simp
  ultimately show ?thesis using g by blast
qed

text \<open>
  Over any history, a grant opens a socket to the machine at most \<open>MAX_DIALS\<close> times, however many workers race
  for it and whether or not it is withdrawn, used up or left behind by a crash in between.
\<close>

lemma sockets_per_grant_bounded: "relay_reachable y \<Longrightarrow> opened_on y i \<le> MAX_DIALS"
  using relay_reachable_ok unfolding relay_ok_def by blast

lemma sockets_per_grant_bounded_witness: "opened_on one_socket ''g'' = 1 \<and> opened_on one_socket ''g'' \<le> MAX_DIALS"
proof
  show "opened_on one_socket ''g'' = 1" by code_simp
  show "opened_on one_socket ''g'' \<le> MAX_DIALS" by (rule sockets_per_grant_bounded [OF one_socket_reachable])
qed

lemma user_live_issue:
  assumes "issue_grant now new gs = Inr gs'" "grant_live now new"
  shows "user_live now new gs' = user_live now new gs @ [new]"
proof -
  have gs': "gs' = delete_where (lapsed_grant now new) (gs @ [new])"
    using assms(1) by (simp add: issue_grant_def Let_def split: if_splits)
  have "\<not> lapsed_grant now new g" if "grant_live now g" for g
    using that by (auto simp: lapsed_grant_def grant_live_def KEEP_AFTER_EXPIRY_def seconds_def split: option.splits)
  then have "filter (\<lambda>g. \<not> lapsed_grant now new g \<and> gr_user g = gr_user new \<and> gr_tenant g = gr_tenant new \<and> grant_live now g) gs =
      user_live now new gs"
    unfolding user_live_def by (intro filter_cong) auto
  then show ?thesis
    using assms(2) \<open>\<And>g. grant_live now g \<Longrightarrow> \<not> lapsed_grant now new g\<close> [OF assms(2)] by (simp add: gs' delete_where_def user_live_def)
qed

text \<open>
  A grant is issued only within the bounds. After an issue the user's live grants are the earlier ones and the
  new one (the clean-up of old rows takes no live grant); their distinct consoles are at most
  \<open>MAX_LIVE_GRANTS\<close>, or no more than before; and at most \<open>MAX_PER_CONSOLE\<close> of them are for the new grant's console.
\<close>

lemma issue_keeps_bounds:
  assumes "issue_grant now new gs = Inr gs'" "grant_live now new"
  shows "user_live now new gs' = user_live now new gs @ [new]
    \<and> card (console_of ` set (user_live now new gs')) \<le> max MAX_LIVE_GRANTS (card (console_of ` set (user_live now new gs)))
    \<and> length (filter (\<lambda>g. console_of g = console_of new) (user_live now new gs')) \<le> MAX_PER_CONSOLE"
proof -
  let ?l = "user_live now new gs"
  note u = user_live_issue [OF assms]
  have few: "length (filter (\<lambda>g. console_of g = console_of new) ?l) < MAX_PER_CONSOLE"
    and room: "console_of new \<in> console_of ` set ?l \<or> card (console_of ` set ?l) < MAX_LIVE_GRANTS"
    using assms(1) by (auto simp: issue_grant_def Let_def filter_map o_def split: if_splits)
  have "card (console_of ` set (?l @ [new])) \<le> max MAX_LIVE_GRANTS (card (console_of ` set ?l))"
    using room by (auto simp: insert_absorb card_insert_if)
  then show ?thesis unfolding u using few by simp
qed

lemma issue_keeps_bounds_witness:
  "user_live 0 (sample_grant ''b'' ''web'' 0) (sample_grant ''b'' ''web'' 0 # [sample_grant ''g'' ''kali'' 0]) \<noteq> [] \<and>
   user_live 0 (sample_grant ''b'' ''web'' 0) [sample_grant ''g'' ''kali'' 0, sample_grant ''b'' ''web'' 0] =
     user_live 0 (sample_grant ''b'' ''web'' 0) [sample_grant ''g'' ''kali'' 0] @ [sample_grant ''b'' ''web'' 0]"
proof
  have i: "issue_grant 0 (sample_grant ''b'' ''web'' 0) [sample_grant ''g'' ''kali'' 0] =
      Inr [sample_grant ''g'' ''kali'' 0, sample_grant ''b'' ''web'' 0]" by code_simp
  have l: "grant_live 0 (sample_grant ''b'' ''web'' 0)" by code_simp
  show "user_live 0 (sample_grant ''b'' ''web'' 0) (sample_grant ''b'' ''web'' 0 # [sample_grant ''g'' ''kali'' 0]) \<noteq> []" by code_simp
  show "user_live 0 (sample_grant ''b'' ''web'' 0) [sample_grant ''g'' ''kali'' 0, sample_grant ''b'' ''web'' 0] =
     user_live 0 (sample_grant ''b'' ''web'' 0) [sample_grant ''g'' ''kali'' 0] @ [sample_grant ''b'' ''web'' 0]"
    by (rule conjunct1 [OF issue_keeps_bounds [OF i l]])
qed

section \<open>The loop and the lease\<close>

definition failed_fast :: "(time \<times> renewal_round) list \<Rightarrow> bool" where
  "failed_fast ticks = (\<forall>k \<in> set ticks. snd k = Broken \<and> 0 \<le> fst k \<and> fst k \<le> seconds 3)"

text \<open>A round's wake-up time; either the loop ends there, or what comes of the round's calls decides.\<close>

definition wake :: "time \<Rightarrow> time option \<Rightarrow> time \<Rightarrow> time" where
  "wake C w t = t + min RENEW_SECONDS (max ((case w of None \<Rightarrow> C | Some e \<Rightarrow> min C e) - t) 0)"

definition over_now :: "time \<Rightarrow> time option \<Rightarrow> time \<Rightarrow> bool" where
  "over_now C w t = (C \<le> wake C w t \<or> (case w of None \<Rightarrow> False | Some e \<Rightarrow> e \<le> wake C w t))"

lemma keep_claim_over:
  assumes "over_now C w t"
  shows "keep_claim C w l t f (k # ticks) = (wake C w t, Some (if C \<le> wake C w t then CLOSE_MAX_OPEN else CLOSE_FORBIDDEN))"
  using assms unfolding over_now_def by (cases k) (simp only: keep_claim.simps Let_def wake_def [symmetric], auto)

lemma keep_claim_on:
  assumes "\<not> over_now C w t"
  shows "keep_claim C w l t f ((s, v) # ticks) = (case v of
      TickGone \<Rightarrow> (wake C w t + s, Some CLOSE_GONE) | TickLost \<Rightarrow> (wake C w t + s, Some CLOSE_BUSY)
    | TickDenied \<Rightarrow> (wake C w t + s, Some CLOSE_FORBIDDEN) | Fine w' \<Rightarrow> keep_claim C w' (wake C w t + s) (wake C w t + s) 0 ticks
    | Broken \<Rightarrow> if f + 1 \<ge> MAX_RENEW_FAILURES \<or> wake C w t + s - l + RENEW_SECONDS \<ge> LIVE_LEASE then (wake C w t + s, Some CLOSE_SERVICE)
        else keep_claim C w l (wake C w t + s) (f + 1) ticks)"
proof -
  have "\<not> C \<le> wake C w t" "\<not> (case w of None \<Rightarrow> False | Some e \<Rightarrow> e \<le> wake C w t)" using assms unfolding over_now_def by blast+
  note c = this [THEN if_not_P]
  show ?thesis unfolding keep_claim.simps Let_def wake_def [symmetric] c ..
qed

lemma keep_claim_round:
  "(\<exists>x c. \<forall>ticks. keep_claim C w l t f (k # ticks) = (x, Some c))
   \<or> (\<exists>w' l' t' f'. \<forall>ticks. keep_claim C w l t f (k # ticks) = keep_claim C w' l' t' f' ticks)"
proof (cases "over_now C w t")
  case True
  then show ?thesis using keep_claim_over by blast
next
  case False
  obtain s v where k: "k = (s, v)" by (cases k)
  show ?thesis unfolding k keep_claim_on [OF False] by (cases v) (simp_all, blast+)
qed

lemma keep_claim_broken:
  "(\<exists>x c. \<forall>ticks. keep_claim C w l t f ((s, Broken) # ticks) = (x, Some c))
   \<or> f + 1 < 3 \<and> (\<exists>t'. \<forall>ticks. keep_claim C w l t f ((s, Broken) # ticks) = keep_claim C w l t' (f + 1) ticks)"
proof (cases "over_now C w t")
  case True
  then show ?thesis using keep_claim_over by blast
next
  case False
  show ?thesis unfolding keep_claim_on [OF False] renewal_round.case MAX_RENEW_FAILURES_def
    by (cases "3 \<le> f + 1 \<or> LIVE_LEASE \<le> wake C w t + s - l + RENEW_SECONDS") auto
qed

lemma keep_claim_running:
  assumes "keep_claim C w l t f (ticks @ later_ticks) = (t', None)"
  obtains w2 l2 t2 f2 where "\<And>rest. keep_claim C w l t f (ticks @ rest) = keep_claim C w2 l2 t2 f2 rest"
  using assms
proof (induction ticks arbitrary: w l t f thesis)
  case Nil
  then show ?case by simp
next
  case (Cons k ticks)
  from keep_claim_round [of C w l t f k] show ?case
  proof
    assume "\<exists>x c. \<forall>ticks. keep_claim C w l t f (k # ticks) = (x, Some c)"
    then show ?thesis using Cons.prems(2) by auto
  next
    assume "\<exists>w' l' t' f'. \<forall>ticks. keep_claim C w l t f (k # ticks) = keep_claim C w' l' t' f' ticks"
    then obtain w2 l2 t2 f2 where r: "\<And>ticks. keep_claim C w l t f (k # ticks) = keep_claim C w2 l2 t2 f2 ticks" by blast
    show ?thesis using Cons.IH [of w2 l2 t2 f2] Cons.prems unfolding append_Cons r by blast
  qed
qed

lemma keep_claim_fine:
  assumes "keep_claim C w l t f [(s, Fine w')] = (t', None)"
  shows "keep_claim C w l t f ((s, Fine w') # rest) = keep_claim C w' t' t' 0 rest"
proof -
  have on: "\<not> over_now C w t" using assms keep_claim_over by fastforce
  then have "t' = wake C w t + s" using assms by (simp add: keep_claim_on del: keep_claim.simps(2))
  then show ?thesis using on by (simp add: keep_claim_on del: keep_claim.simps(2))
qed

lemma keep_claim_failing:
  assumes "failed_fast ticks" "f < 3" "t \<le> l + of_nat f * seconds 13"
  shows "fst (keep_claim C w l t f ticks) \<le> l + seconds 39"
  using assms
proof (induction ticks arbitrary: t f)
  case Nil
  then have "of_nat f * seconds 13 \<le> 2 * seconds 13" by (intro mult_right_mono) (simp_all add: seconds_def)
  then show ?case using Nil by (simp add: seconds_def)
next
  case (Cons k ticks)
  obtain s where k: "k = (s, Broken)" "0 \<le> s" "s \<le> seconds 3" using Cons.prems(1) by (cases k) (auto simp: failed_fast_def)
  have rest: "failed_fast ticks" using Cons.prems(1) by (simp add: failed_fast_def)
  define n where "n = wake C w t"
  have "n \<le> t + seconds 10" by (simp add: n_def wake_def RENEW_SECONDS_def)
  then have a: "n + s \<le> l + of_nat (f + 1) * seconds 13" using Cons.prems(3) k(3) by (simp add: seconds_def algebra_simps)
  have "of_nat (f + 1) * seconds 13 \<le> 3 * seconds 13" using Cons.prems(2) by (intro mult_right_mono) (simp_all add: seconds_def)
  then have b: "n + s \<le> l + seconds 39" using a by (simp add: seconds_def)
  have ih: "fst (keep_claim C w l (n + s) (f + 1) ticks) \<le> l + seconds 39" if "f + 1 < 3"
    by (rule Cons.IH [OF rest that a])
  show ?case
  proof (cases "over_now C w t")
    case True
    then show ?thesis using b k(2) by (simp add: keep_claim_over n_def del: keep_claim.simps(2))
  next
    case False
    show ?thesis
    proof (cases "f + 1 \<ge> MAX_RENEW_FAILURES \<or> n + s - l + RENEW_SECONDS \<ge> LIVE_LEASE")
      case True
      show ?thesis unfolding k(1) keep_claim_on [OF False] renewal_round.case n_def [symmetric] if_P [OF True] using b by simp
    next
      case on: False
      then have "f + 1 < 3" by (simp add: MAX_RENEW_FAILURES_def)
      then show ?thesis unfolding k(1) keep_claim_on [OF False] renewal_round.case n_def [symmetric] if_not_P [OF on] by (rule ih)
    qed
  qed
qed

lemma keep_claim_three:
  assumes "failed_fast fails" "f < 3" "3 \<le> length fails + f"
  shows "snd (keep_claim C w l t f fails) \<noteq> None"
  using assms
proof (induction fails arbitrary: t f)
  case (Cons k fails)
  obtain s where k: "k = (s, Broken)" using Cons.prems(1) by (cases k) (auto simp: failed_fast_def)
  have rest: "failed_fast fails" using Cons.prems(1) by (simp add: failed_fast_def)
  from keep_claim_broken [of C w l t f s] show ?case
  proof
    assume "\<exists>x c. \<forall>ticks. keep_claim C w l t f ((s, Broken) # ticks) = (x, Some c)"
    then show ?thesis by (auto simp: k)
  next
    assume "f + 1 < 3 \<and> (\<exists>t'. \<forall>ticks. keep_claim C w l t f ((s, Broken) # ticks) = keep_claim C w l t' (f + 1) ticks)"
    then show ?thesis using Cons.IH [OF rest] Cons.prems(3) by (auto simp: k)
  qed
qed simp



text \<open>C30: Not so before the first renewal. The loop counts the lease from its own start, the claim was taken before the
  dial: when the dial took \<open>d\<close>, more than fifteen seconds, and the first renewals fail at once, the socket is
  still served when another may already claim the grant, and closes \<open>d + 30\<close> seconds after the claim.
\<close>

theorem claim_lapses_under_its_socket:
  assumes "seconds 15 < d" "gr_live_until g = Some (t + LIVE_LEASE)" "gr_dials g < MAX_DIALS"
  shows "keep_claim (t + d + MAX_OPEN_SECONDS) None (t + d) (t + d) 0 [(0, Broken), (0, Broken)] = (t + d + seconds 20, None)
    \<and> keep_claim (t + d + MAX_OPEN_SECONDS) None (t + d) (t + d) 0 [(0, Broken), (0, Broken), (0, Broken)]
        = (t + d + seconds 30, Some CLOSE_SERVICE)
    \<and> claimable (t + d + seconds 30) g g"
proof -
  have w: "wake (t + d + MAX_OPEN_SECONDS) None x = x + seconds 10" if "x \<le> t + d + seconds 20" for x
    using that by (simp add: wake_def MAX_OPEN_SECONDS_def RENEW_SECONDS_def seconds_def)
  have o: "\<not> over_now (t + d + MAX_OPEN_SECONDS) None x" if "x \<le> t + d + seconds 20" for x
    using that by (simp add: over_now_def w) (simp add: MAX_OPEN_SECONDS_def seconds_def)
  define k where "k = keep_claim (t + d + MAX_OPEN_SECONDS) None (t + d)"
  have on: "k x f ((0, Broken) # ticks) = (if f + 1 \<ge> 3 \<or> x + seconds 10 - (t + d) + seconds 10 \<ge> seconds 45
      then (x + seconds 10, Some CLOSE_SERVICE) else k (x + seconds 10) (f + 1) ticks)" if "x \<le> t + d + seconds 20" for x f ticks
    by (simp only: k_def keep_claim_on [OF o [OF that]] w [OF that] renewal_round.case MAX_RENEW_FAILURES_def LIVE_LEASE_def RENEW_SECONDS_def add_0_right)
  have nil: "k x f [] = (x, None)" for x f by (simp add: k_def)
  have "k (t + d) 0 [(0, Broken), (0, Broken)] = (t + d + seconds 20, None)"
    "k (t + d) 0 [(0, Broken), (0, Broken), (0, Broken)] = (t + d + seconds 30, Some CLOSE_SERVICE)"
    by (simp_all add: on nil seconds_def)
  moreover have "claimable (t + d + seconds 30) g g" using assms by (simp add: claimable_def LIVE_LEASE_def seconds_def)
  ultimately show ?thesis by (simp add: k_def)
qed

theorem claim_lapses_under_its_socket_witness:
  "claimable (0 + seconds 20 + seconds 30) (hd (re_grants one_socket)) (hd (re_grants one_socket))"
proof -
  have g: "gr_live_until (hd (re_grants one_socket)) = Some (0 + LIVE_LEASE)" "gr_dials (hd (re_grants one_socket)) < MAX_DIALS"
    by code_simp+
  have d: "seconds 15 < seconds 20" by (simp add: seconds_def)
  show ?thesis using claim_lapses_under_its_socket [OF d g] by blast
qed

section \<open>The dial limiter\<close>

text \<open>The limiter fed with one user's dial times: which of them it let through, oldest first.\<close>

fun dials_allowed :: "time list \<Rightarrow> time list \<Rightarrow> time list" where
  "dials_allowed [] recent = []"
| "dials_allowed (t # ts) recent = (case dial_allowed t recent of (ok, recent') \<Rightarrow> (if ok then [t] else []) @ dials_allowed ts recent')"

lemma dials_allowed_subset: "set (dials_allowed ts recent) \<subseteq> set ts"
  by (induction ts arbitrary: recent) (auto split: prod.splits)

lemma dials_allowed_window:
  assumes "sorted (recent @ ts)" "length recent \<le> DIALS_PER_MINUTE"
  shows "length (filter (\<lambda>t. a \<le> t \<and> t \<le> a + seconds 60) (recent @ dials_allowed ts recent)) \<le> DIALS_PER_MINUTE"
  using assms
proof (induction ts arbitrary: recent)
  case Nil
  then show ?case by (auto intro: order_trans [OF length_filter_le])
next
  case (Cons t ts)
  define W where "W = (\<lambda>t. a \<le> t \<and> t \<le> a + seconds 60)"
  define old where "old = takeWhile (\<lambda>x. t - x > seconds 60) recent"
  define kept where "kept = dropWhile (\<lambda>x. t - x > seconds 60) recent"
  define more where "more = (if length kept \<ge> DIALS_PER_MINUTE then [] else [t])"
  have parts: "recent = old @ kept" by (simp add: old_def kept_def)
  have run: "dials_allowed (t # ts) recent = more @ dials_allowed ts (kept @ more)"
    by (simp add: dial_allowed_def kept_def more_def Let_def)
  have srt: "sorted ((kept @ more) @ ts)" using Cons.prems(1) by (auto simp: parts more_def sorted_append)
  have few: "length (kept @ more) \<le> DIALS_PER_MINUTE" using Cons.prems(2) by (auto simp: parts more_def)
  have ih: "length (filter W ((kept @ more) @ dials_allowed ts (kept @ more))) \<le> DIALS_PER_MINUTE"
    unfolding W_def by (rule Cons.IH [OF srt few])
  have "length (filter W (recent @ more @ dials_allowed ts (kept @ more))) \<le> DIALS_PER_MINUTE"
  proof (cases "\<exists>x \<in> set old. W x")
    case True
    then obtain x where x: "x \<in> set old" "W x" by blast
    have "t - x > seconds 60" using x(1) set_takeWhileD unfolding old_def by fastforce
    then have "\<not> W u" if "t \<le> u" for u using x(2) that by (simp add: W_def)
    moreover have "t \<le> u" if "u \<in> set (more @ dials_allowed ts (kept @ more))" for u
      using that Cons.prems(1) dials_allowed_subset [of ts "kept @ more"] by (auto simp: more_def sorted_append split: if_splits)
    ultimately have "filter W (more @ dials_allowed ts (kept @ more)) = []" unfolding filter_empty_conv by blast
    then have "filter W (recent @ more @ dials_allowed ts (kept @ more)) = filter W recent" by simp
    then show ?thesis using Cons.prems(2) by (auto intro: order_trans [OF length_filter_le])
  next
    case False
    then have "filter W old = []" by (simp add: filter_empty_conv)
    then show ?thesis using ih by (simp add: parts)
  qed
  then show ?case unfolding run W_def .
qed

text \<open>
  In one process a user's dials, however they are spaced, are let through at most \<open>DIALS_PER_MINUTE\<close> times in any
  sixty seconds.
\<close>

lemma dials_rate_limited:
  assumes "sorted ts"
  shows "length (filter (\<lambda>t. a \<le> t \<and> t \<le> a + seconds 60) (dials_allowed ts [])) \<le> DIALS_PER_MINUTE"
  using dials_allowed_window [of "[]" ts a] assms by simp

lemma dials_rate_limited_witness:
  "length (filter (\<lambda>t. 0 \<le> t \<and> t \<le> 0 + seconds 60) (dials_allowed (map seconds [0..15] @ [seconds 61]) [])) \<le> DIALS_PER_MINUTE
   \<and> dials_allowed (map seconds [0..15] @ [seconds 61]) [] = map seconds [0..9] @ [seconds 61]"
proof
  have "sorted (map seconds [0..15] @ [seconds 61])" by code_simp
  then show "length (filter (\<lambda>t. 0 \<le> t \<and> t \<le> 0 + seconds 60) (dials_allowed (map seconds [0..15] @ [seconds 61]) [])) \<le> DIALS_PER_MINUTE"
    by (rule dials_rate_limited)
  show "dials_allowed (map seconds [0..15] @ [seconds 61]) [] = map seconds [0..9] @ [seconds 61]" by code_simp
qed

end
