(* ===== verification/Spec2Isabelle.thy ===== *)
theory Spec2Isabelle
  imports Rfb_Filter Range_Resend Approval Range_Alloc Circuit_Breaker Redis_Lock Lab_Life Console_Grants
begin

text \<open>
  TrueNorth runs cyber-training ranges: an API and its background loops (\<^verbatim>\<open>control-plane/api/app\<close>)
  accept operations on ranges, book sessions and relay consoles; workers
  (\<^verbatim>\<open>control-plane/worker/worker\<close>) build and destroy the ranges on a hypervisor. Both write one
  database, coordinate through guarded UPDATEs, unique constraints, leases and a Redis lock, and
  never through shared memory. The development models that coordination. Paths below are
  relative to the two directories above.

  \<^bold>\<open>State.\<close> \<open>Range_Model.db\<close> is the database as far as the range subsystem goes: one record per row, one
  list per table, in insertion order. \<open>Booking_Clock.sched\<close> adds the scheduler's tables. An operation
  is a function from the state to a state and an answer; an answer that may fail is a sum with the
  error on the left, and every raise and early return of the source is a branch. A handler that works
  on a row it loaded earlier takes that row as an argument of its own, so that staleness is part of
  the statement. What a call draws from outside (clocks, new ids, the broker's answer, parsed YAML,
  digests) is in an environment record or an argument. Times are integers in microseconds.

  \<^bold>\<open>Theories.\<close>
  \<^item> \<open>Prelude\<close>: bytes as \<^verbatim>\<open>struct\<close> packs them, the SQL row functions (\<open>update_where\<close>, \<open>delete_where\<close>,
    \<open>count_where\<close>, \<open>find_row\<close>), Python's string functions and dictionaries, JSON documents.
  \<^item> \<open>Rfb_Filter\<close> (\<^verbatim>\<open>console_relay/rfb_filter.py\<close>): the view-only console filter. For every chunking and
    interleaving of the two directions the bytes forwarded are permitted messages only, the client is
    never ahead of the server's handshake, chunking does not matter, buffers are bounded and a
    violation is final. The loop is total (the buffer or the bytes to skip shrink).
  \<^item> \<open>Range_Model\<close> (\<^verbatim>\<open>models.py\<close>, \<^verbatim>\<open>state_machines.py\<close> and the sections' own \<^verbatim>\<open>models.py\<close>): rows, keys, the range
    and exercise state machines.
  \<^item> \<open>Network_Inventory\<close> (\<^verbatim>\<open>network_inventory/service.py\<close>, \<^verbatim>\<open>worker/range_alloc.py\<close>, \<^verbatim>\<open>worker/db_ops.py\<close>): address
    reservations by the API and by the worker. No value is held twice, reserving is idempotent and
    takes the lowest free value, a sync leaves exactly the wanted holders, and an address seen in use
    outside is not handed out.
  \<^item> \<open>Fencing\<close> (\<^verbatim>\<open>worker/fencing.py\<close>): range leases. One execution passes its checks at a time over any
    interleaving of claims, heartbeats, kills, fences and writes; a fenced execution never writes
    again; every lease becomes claimable.
  \<^item> \<open>Maintenance_Windows\<close> (both \<^verbatim>\<open>maintenance_windows\<close> packages): API and worker agree which windows cover
    a range; a window defers work and never fails it; teardowns that must run do.
  \<^item> \<open>Range_Ops\<close>, \<open>Range_Op_Protocol\<close>, \<open>Range_Resend\<close> (\<^verbatim>\<open>range_ops\<close>, \<^verbatim>\<open>range_abandon.py\<close>, \<^verbatim>\<open>noise/mgmt.py\<close>):
    accepting, sending, settling, abandoning and re-sending operations. At most one operation of a
    range is in flight in every reachable state, an Idempotency-Key replays the original, reconciling
    settles exactly what finished, a forced release is sound, and the re-send loop finds every
    released hold (its paging terminates: each page removes at least one row from what is left).
  \<^item> \<open>Range_Lifecycle\<close> (\<^verbatim>\<open>range_lifecycle.py\<close>): builds and teardowns on behalf of bookings.
  \<^item> \<open>Pools\<close>, \<open>Reserved_Networks\<close>, \<open>Range_Alloc\<close> (\<^verbatim>\<open>vlan_pool.py\<close>, \<^verbatim>\<open>uplink_pool.py\<close>, \<^verbatim>\<open>reserved_networks\<close>,
    \<^verbatim>\<open>range_alloc.py\<close>): settings read back as written, site networks are refused, a build's reservations
    are its own.
  \<^item> \<open>Circuit_Breaker\<close>, \<open>Redis_Lock\<close> (\<^verbatim>\<open>circuit_breaker.py\<close>, \<^verbatim>\<open>redis_lock.py\<close>): the breaker refines a
    specification over the outcomes so far; sweeps under the lock exclude each other.
  \<^item> \<open>Rbac\<close> (\<^verbatim>\<open>rbac.py\<close>): roles, permissions, guards, grants and the platform administrator. Grants never
    create authority; the platform administrator fails closed.
  \<^item> \<open>Bookings\<close>, \<open>Booking_Clock\<close> (\<^verbatim>\<open>scheduler/lifecycle.py\<close>, \<^verbatim>\<open>change_rule.py\<close>, \<^verbatim>\<open>clock.py\<close>, \<^verbatim>\<open>release_range\<close> of
    \<^verbatim>\<open>service.py\<close>, \<^verbatim>\<open>exercise_lifecycle.py\<close>): the booking lifecycle and the tick that drives it. Each move is
    won once; the page's flags are the server's rule; the clock spares ranges it did not build and
    bookings nobody approved. What all loop bodies keep, the tick keeps: the locale \<open>clock_invariant\<close>,
    interpreted for each of the two invariants.

  \<^item> \<open>Windows_Roles\<close>, \<open>Demand\<close> (\<^verbatim>\<open>windows_roles.py\<close>, \<^verbatim>\<open>range_topology.py\<close>, \<^verbatim>\<open>worker/render.py\<close>): the catalogue of
    Windows Server roles, which placements are refused, and what a template asks of the cluster. The
    catalogue is consistent; the API reserves what the worker builds, for nodes without role floors.
  \<^item> \<open>Capacity\<close> (\<^verbatim>\<open>scheduler/capacity.py\<close>, \<^verbatim>\<open>classes/holds.py\<close>, \<^verbatim>\<open>lab_sessions/holdings.py\<close>,
    \<^verbatim>\<open>capacity/service.py\<close>): what is committed in a window. One pass over many windows answers what each
    asked alone does; two lemmas evaluate where it does not.
  \<^item> \<open>Free_Slot\<close> (\<^verbatim>\<open>scheduler/service.py\<close>): conflicts, fit and the next free slot. A slot offered is free, and
    for a booking of no class the search finds the first. The locale \<open>capacity_seam\<close> is the protocol the
    search asks through, interpreted on the capacity view.
  \<^item> \<open>Approval\<close> (\<^verbatim>\<open>scheduler/approval.py\<close>): approving, rejecting, proposing and accepting times of class
    sessions. What waits holds nothing, what is approved fits, a rejection is final; accepting a
    proposal checks less than approving.

  \<^item> \<open>Lab_Profile\<close>, \<open>Lab_Gate\<close> (\<^verbatim>\<open>course_releases/lab_profile.py\<close>, \<^verbatim>\<open>lab_sessions/capacity_gate.py\<close>, \<^verbatim>\<open>probes.py\<close>): what
    a Student's lab may be, the range template it becomes, its readiness probes, and whether there is
    room. A lab is counted as what it was admitted for; the forecast of a free time is the first there is.
  \<^item> \<open>Lab_Model\<close>, \<open>Labs\<close> (\<^verbatim>\<open>lab_sessions/models.py\<close>, \<^verbatim>\<open>service.py\<close>): the session row with its lease and pending
    tasks, the pool of isolated networks, and every operation: launch, one step of \<^verbatim>\<open>advance\<close> per state,
    reset, touch, evidence, end. An operation is a function of the session row it holds and the tables.
  \<^item> \<open>Lab_Networks\<close>, \<open>Lab_Runs\<close>, \<open>Lab_Life\<close>: each operation is one of a few moves (\<open>lab_move\<close>) that keep labs
    apart; runs of operations interleave (\<open>lab_step\<close>: claims, commits, sends, crashes, lost leases,
    workers changing ranges). Networks are never shared, a Student has one lab, no update and no task is
    lost, evidence outlives the lab; a lab closes by its own end and a teardown finishes.
  \<^item> \<open>Console_Grants\<close> (\<^verbatim>\<open>console_relay/service.py\<close>, \<^verbatim>\<open>policy.py\<close>, \<^verbatim>\<open>router.py\<close>): console grants, the claims of
    sockets on them and the loop that renews a claim. Issues, claims, dials and crashes of workers as
    steps (\<open>relay_step\<close>): one live socket per grant, at most three ever. The loop ends its socket before
    its claim lapses, except before the first renewal.

  \<^bold>\<open>Concurrency.\<close> Where several processes write the same rows the statement is over an inductive step
  relation (leases, operations, the Redis lock, booking moves, grants, labs, console claims) or over an argument \<open>between\<close>,
  what others commit while a statement's result is on its way. A tick of the clock is modelled without
  other commits inside it; races over one booking are \<open>Bookings.history\<close>.

  \<^bold>\<open>Parameters and hypotheses.\<close> YAML and IPv6 parsing, digests, the broker, Redis, the provisioner and
  the template's noise plan are arguments. Uniqueness hypotheses (\<open>db_keys\<close>, distinct ids) are the
  primary keys and unique constraints of the tables. That class sessions end with their class
  (\<open>sessions_within_class\<close>) is what the code relies on and does not enforce. No fuel is used: every loop
  is a fold, a structural recursion or a function with a termination proof; the timeline, whose step is
  the caller's, is a partial function proved to return for a positive step.

  \<^bold>\<open>Not modelled.\<close> HTTP routing and schemas, authentication, the hypervisor provisioners, e-mail and
  calendar formats, learning-platform exchange and content ingest: I/O, generated code or calls into
  third-party libraries. The supply of the cluster is computed in floating point and is an argument.
  Of lab sessions, the choice of a release by enrolment, the reading for the class page and the
  hypervisor's list of open consoles are left out (the last is an argument); of the console relay, the
  dial to the hypervisor, the bytes beside the view-only filter and the class branches of the policy.
  The class lifecycle is not modelled. In the tick, the class-range step, the choice of who is reminded and the
  scoring of a scenario are left out (the last two are arguments).
\<close>

end
